(* ===== verification/Prelude.thy ===== *)
theory Prelude
  imports Main "HOL-Library.Word" "HOL-Library.Monad_Syntax"
begin

text \<open>
  Shared vocabulary of the development.

  C objects are modelled as HOL lists (arrays), records (structs) and words (fixed-width
  integers). An access outside an array, or a signed overflow, is undefined behaviour in C:
  the operations below return \<^term>\<open>None\<close> there, so a theorem of the form
  \<open>f x = Some y\<close> says in particular that no such access happens.
\<close>

unbundle bit_operations_syntax

lemma ex_True_False [simp]: "\<exists>b. b" "\<exists>b. \<not> b"
  by blast+

section \<open>Types\<close>

type_synonym u8 = "8 word"
type_synonym u16 = "16 word"
type_synonym u32 = "32 word"
type_synonym u64 = "64 word"

named_theorems array_simps \<open>rewriting of checked array accesses\<close>

section \<open>Checked arrays\<close>

definition aget :: "'a list \<Rightarrow> nat \<Rightarrow> 'a option" where
  "aget xs i = (if i < length xs then Some (xs ! i) else None)"

definition aset :: "'a list \<Rightarrow> nat \<Rightarrow> 'a \<Rightarrow> 'a list option" where
  "aset xs i v = (if i < length xs then Some (xs[i := v]) else None)"

text \<open>\<open>memcpy (dst + off, src, n)\<close> and \<open>memset (dst + off, v, n)\<close>.\<close>

definition memcpy :: "'a list \<Rightarrow> nat \<Rightarrow> 'a list \<Rightarrow> nat \<Rightarrow> 'a list option" where
  "memcpy dst off src n =
     (if off + n \<le> length dst \<and> n \<le> length src
      then Some (take off dst @ take n src @ drop (off + n) dst) else None)"

definition memset :: "'a list \<Rightarrow> nat \<Rightarrow> 'a \<Rightarrow> nat \<Rightarrow> 'a list option" where
  "memset dst off v n = memcpy dst off (replicate n v) n"

lemma aget_Some [array_simps]: "i < length xs \<Longrightarrow> aget xs i = Some (xs ! i)"
  by (simp add: aget_def)

lemma aset_Some [array_simps]: "i < length xs \<Longrightarrow> aset xs i v = Some (xs[i := v])"
  by (simp add: aset_def)

lemma aget_None_iff [simp]: "aget xs i = None \<longleftrightarrow> length xs \<le> i"
  by (simp add: aget_def)

lemma aset_None_iff [simp]: "aset xs i v = None \<longleftrightarrow> length xs \<le> i"
  by (simp add: aset_def)

lemma aget_eq_SomeD: "aget xs i = Some v \<Longrightarrow> i < length xs \<and> v = xs ! i"
  by (auto simp: aget_def split: if_splits)

lemma aset_eq_SomeD: "aset xs i v = Some ys \<Longrightarrow> i < length xs \<and> ys = xs[i := v]"
  by (auto simp: aset_def split: if_splits)

lemma memcpy_Some [array_simps]:
  "off + n \<le> length dst \<Longrightarrow> n \<le> length src \<Longrightarrow>
   memcpy dst off src n = Some (take off dst @ take n src @ drop (off + n) dst)"
  by (simp add: memcpy_def)

lemma memcpy_length: "memcpy dst off src n = Some r \<Longrightarrow> length r = length dst"
  by (auto simp: memcpy_def split: if_splits)

lemma memset_Some [array_simps]:
  "off + n \<le> length dst \<Longrightarrow>
   memset dst off v n = Some (take off dst @ replicate n v @ drop (off + n) dst)"
  by (simp add: memset_def memcpy_def)

lemma memset_length: "memset dst off v n = Some r \<Longrightarrow> length r = length dst"
  by (auto simp: memset_def dest: memcpy_length)

section \<open>Signed integers\<close>

text \<open>The values a 32-bit \<open>int\<close> can hold.\<close>

definition INT_MAX :: int where
  "INT_MAX = 2 ^ 31 - 1"

section \<open>Unsigned 64-bit arithmetic on natural numbers\<close>

text \<open>Sizes and offsets are natural numbers; where a product can wrap it is written out.\<close>

definition mul64 :: "nat \<Rightarrow> nat \<Rightarrow> nat" where
  "mul64 a b = (a * b) mod 2 ^ 64"

lemma mul64_small [simp]: "a * b < 2 ^ 64 \<Longrightarrow> mul64 a b = a * b"
  by (simp add: mul64_def)

lemma unat_of_nat_u64: "n < 2 ^ 64 \<Longrightarrow> unat (of_nat n :: u64) = n"
  by (simp add: unat_of_nat)

section \<open>Slices\<close>

definition slice :: "nat \<Rightarrow> nat \<Rightarrow> 'a list \<Rightarrow> 'a list" where
  "slice off n xs = take n (drop off xs)"

lemma length_slice [simp]: "length (slice off n xs) = min n (length xs - off)"
  by (simp add: slice_def min.commute)

lemma nth_slice: "i < n \<Longrightarrow> off + i < length xs \<Longrightarrow> slice off n xs ! i = xs ! (off + i)"
  by (simp add: slice_def)

lemma slice_append: "slice a n xs @ slice (a + n) m xs = slice a (n + m) xs"
  unfolding slice_def take_add drop_drop by (simp add: add.commute)

section \<open>Integers in memory\<close>

text \<open>An \<open>n\<close>-byte integer in memory, least significant byte first.\<close>

fun load_le :: "u8 list \<Rightarrow> 'a::len word" where
  "load_le [] = 0"
| "load_le (b # bs) = (ucast b OR push_bit 8 (load_le bs))"

definition store_le :: "nat \<Rightarrow> 'a::len word \<Rightarrow> u8 list" where
  "store_le n w = map (\<lambda>k. ucast (drop_bit (8 * k) w)) [0..<n]"

lemma bit_load_le:
  "bit (load_le bs :: 'a::len word) n \<longleftrightarrow>
   n < LENGTH('a) \<and> n div 8 < length bs \<and> bit (bs ! (n div 8)) (n mod 8)"
proof (induction bs arbitrary: n)
  case (Cons b bs)
  show ?case
  proof (cases "n < 8")
    case True
    then show ?thesis by (auto simp: bit_simps)
  next
    case False
    then have "n div 8 = Suc ((n - 8) div 8)" "(n - 8) mod 8 = n mod 8"
      by (simp_all add: le_div_geq le_mod_geq)
    moreover have "\<not> bit b n" using False by (simp add: impossible_bit)
    ultimately show ?thesis using False Cons [of "n - 8"] by (auto simp: bit_simps)
  qed
qed simp

lemma length_store_le [simp]: "length (store_le n w) = n"
  by (simp add: store_le_def)

lemma store_load_le:
  assumes "8 * length bs \<le> LENGTH('a)"
  shows "store_le (length bs) (load_le bs :: 'a::len word) = bs"
proof (rule nth_equalityI)
  fix k assume k: "k < length (store_le (length bs) (load_le bs :: 'a word))"
  show "store_le (length bs) (load_le bs :: 'a word) ! k = bs ! k"
  proof (rule bit_word_eqI)
    fix m assume m: "m < LENGTH(8)"
    then have "8 * k + m < LENGTH('a)" "(8 * k + m) div 8 = k" "(8 * k + m) mod 8 = m"
      using assms k by auto
    then show "bit (store_le (length bs) (load_le bs :: 'a word) ! k) m = bit (bs ! k) m"
      using k m by (simp add: store_le_def bit_simps bit_load_le)
  qed
qed simp

end
