(* ===== verification/Sector_IO.thy ===== *)
theory Sector_IO
  imports Prelude
begin

text \<open>
  Sector access: \<open>WriteFileWithRetry\<close> of \<open>src/src/stdio.c\<close> and \<open>write_sectors\<close>,
  \<open>read_sectors\<close>, \<open>contains_data\<close>, \<open>read_data\<close>, \<open>write_data\<close> of
  \<open>src/src/ms-sys/file.c\<close>. The Windows calls they rest on (\<open>SetFilePointerEx\<close>,
  \<open>WriteFile\<close>, \<open>ReadFile\<close>) are fields of the record \<open>disk_api\<close>, over an arbitrary
  device state.
\<close>

section \<open>The operating system's calls\<close>

text \<open>
  \<open>fp_seek d off\<close>: move the file pointer, \<^term>\<open>None\<close> on failure. \<open>fp_tell\<close>: read it.
  \<open>os_write d bytes\<close>: success flag, number of bytes written, new state.
  \<open>os_read d n\<close>: success flag, the bytes delivered to the buffer, new state.
\<close>

record 'd disk_api =
  fp_seek :: "'d \<Rightarrow> nat \<Rightarrow> 'd option"
  fp_tell :: "'d \<Rightarrow> nat option"
  os_write :: "'d \<Rightarrow> u8 list \<Rightarrow> bool \<times> nat \<times> 'd"
  os_read :: "'d \<Rightarrow> nat \<Rightarrow> bool \<times> u8 list \<times> 'd"

datatype write_error = NoWriteError | OsWriteError | WriteFault

record 'd io_state =
  dev :: 'd
  LastWriteError :: write_error

definition WRITE_RETRIES :: nat where
  "WRITE_RETRIES = 4"

definition MAX_DATA_LEN :: nat where
  "MAX_DATA_LEN = 65536"

section \<open>Writing with retries\<close>

text \<open>The \<open>for\<close> loop of \<open>WriteFileWithRetry\<close>, from attempt \<open>nTry\<close> on.\<close>

function retry_loop ::
  "'d disk_api \<Rightarrow> bool \<Rightarrow> nat option \<Rightarrow> u8 list \<Rightarrow> nat \<Rightarrow> nat \<Rightarrow> nat \<Rightarrow> 'd io_state \<Rightarrow>
   bool \<times> nat \<times> 'd io_state" where
  "retry_loop api large_drive pos buf nNumRetries nTry written s =
     (if nTry > nNumRetries then (False, written, s)
      else
        case (if nTry > 1 then fp_seek api (dev s) (the pos) else Some (dev s)) of
          None \<Rightarrow> (False, written, s)
        | Some d \<Rightarrow>
            (case os_write api d buf of (ok, n, d') \<Rightarrow>
               if ok \<and> n = length buf then (True, n, s\<lparr> dev := d', LastWriteError := NoWriteError \<rparr>)
               else if ok \<and> large_drive \<and> n = 0
                 then (True, n, s\<lparr> dev := d', LastWriteError := NoWriteError \<rparr>)
               else
                 let s' = s\<lparr> dev := d', LastWriteError := (if ok then NoWriteError else OsWriteError) \<rparr>
                 in if pos = None then (False, n, s')
                    else retry_loop api large_drive pos buf nNumRetries (Suc nTry) n s'))"
  by pat_completeness auto
termination
  by (relation "measure (\<lambda>(api, large_drive, pos, buf, nNumRetries, nTry, written, s).
        Suc nNumRetries - nTry)") auto

declare retry_loop.simps [simp del]

definition WriteFileWithRetry ::
  "'d disk_api \<Rightarrow> bool \<Rightarrow> 'd io_state \<Rightarrow> u8 list \<Rightarrow> nat \<Rightarrow> bool \<times> nat \<times> 'd io_state" where
  "WriteFileWithRetry api large_drive s buf nNumRetries =
     retry_loop api large_drive (fp_tell api (dev s)) buf
       (if nNumRetries = 0 then 1 else nNumRetries) 1 0 s"

section \<open>Sectors\<close>

definition write_sectors ::
  "'d disk_api \<Rightarrow> bool \<Rightarrow> nat \<Rightarrow> nat \<Rightarrow> nat \<Rightarrow> u8 list \<Rightarrow> 'd io_state \<Rightarrow> int \<times> 'd io_state" where
  "write_sectors api large_drive SectorSize StartSector nSectors pBuf s =
     (if mul64 nSectors SectorSize > 0xFFFFFFFF then (-1, s)
      else
        let Size = mul64 nSectors SectorSize in
        case fp_seek api (dev s) (mul64 StartSector SectorSize) of
          None \<Rightarrow> (-1, s)
        | Some d \<Rightarrow>
            (case WriteFileWithRetry api large_drive
                    (s\<lparr> dev := d, LastWriteError := NoWriteError \<rparr>) (take Size pBuf) WRITE_RETRIES of
               (ok, written, s') \<Rightarrow>
                 if \<not> ok then (-1, s'\<lparr> LastWriteError := OsWriteError \<rparr>)
                 else if written \<noteq> mul64 nSectors SectorSize then
                   (if large_drive \<and> written = 0 then (0, s')
                    else (-1, s'\<lparr> LastWriteError := WriteFault \<rparr>))
                 else (int written, s')))"

text \<open>
  \<open>read_sectors\<close> returns the count it got, and the bytes that reached the buffer. When the
  read fails it reports the error and still returns the count.
\<close>

definition read_sectors ::
  "'d disk_api \<Rightarrow> nat \<Rightarrow> nat \<Rightarrow> nat \<Rightarrow> 'd io_state \<Rightarrow> int \<times> u8 list \<times> 'd io_state" where
  "read_sectors api SectorSize StartSector nSectors s =
     (if mul64 nSectors SectorSize > 0xFFFFFFFF then (-1, [], s)
      else
        let Size = mul64 nSectors SectorSize in
        case fp_seek api (dev s) (mul64 StartSector SectorSize) of
          None \<Rightarrow> (-1, [], s)
        | Some d \<Rightarrow>
            (case os_read api d Size of
               (ok, bytes, d') \<Rightarrow> (int (length bytes), bytes, s\<lparr> dev := d' \<rparr>)))"

section \<open>Data at arbitrary positions\<close>

record fake_fd =
  fd_offset :: nat

text \<open>\<open>StartSector\<close>, and \<open>NumSectors = EndSector - StartSector\<close>.\<close>

definition first_sector :: "nat \<Rightarrow> nat \<Rightarrow> nat" where
  "first_sector bps pos = pos div bps"

definition num_sectors :: "nat \<Rightarrow> nat \<Rightarrow> nat \<Rightarrow> nat" where
  "num_sectors bps pos Len = (pos + Len + bps - 1) div bps - first_sector bps pos"

text \<open>
  \<open>read_data\<close>, \<open>write_data\<close> and \<open>contains_data\<close> work through a sector buffer of
  \<open>MAX_DATA_LEN\<close> bytes. \<open>alloc\<close> says whether \<open>_mm_malloc\<close> gives that buffer and
  what it holds at first (\<^term>\<open>None\<close> when it fails); \<open>bps\<close> is \<open>ulBytesPerSector\<close>.
  The outer \<^term>\<open>None\<close> is an access outside a buffer.
\<close>

definition read_data ::
  "'d disk_api \<Rightarrow> nat \<Rightarrow> u8 list option \<Rightarrow> fake_fd \<Rightarrow> nat \<Rightarrow> u8 list \<Rightarrow> nat \<Rightarrow> 'd io_state \<Rightarrow>
   (nat \<times> u8 list \<times> 'd io_state) option" where
  "read_data api bps alloc fp Position pData Len s =
     (case alloc of
        None \<Rightarrow> Some (0, pData, s)
      | Some aucBuf \<Rightarrow>
          let pos = Position + fd_offset fp;
              StartSector = first_sector bps pos;
              NumSectors = num_sectors bps pos Len
          in if NumSectors * bps > MAX_DATA_LEN then Some (0, pData, s)
             else if Len > 0xFFFFFFFF then Some (0, pData, s)
             else
               (case read_sectors api bps StartSector NumSectors s of
                  (n, bytes, s') \<Rightarrow>
                    do {
                      aucBuf' \<leftarrow> memcpy aucBuf 0 bytes (length bytes);
                      if n \<le> 0 then Some (0, pData, s')
                      else do {
                        pData' \<leftarrow> memcpy pData 0 (drop (pos - StartSector * bps) aucBuf') Len;
                        Some (1, pData', s')
                      }
                    }))"

definition write_data ::
  "'d disk_api \<Rightarrow> bool \<Rightarrow> nat \<Rightarrow> u8 list option \<Rightarrow> fake_fd \<Rightarrow> nat \<Rightarrow> u8 list \<Rightarrow> nat \<Rightarrow> 'd io_state \<Rightarrow>
   (nat \<times> 'd io_state) option" where
  "write_data api large_drive bps alloc fp Position pData Len s =
     (case alloc of
        None \<Rightarrow> Some (0, s)
      | Some aucBuf \<Rightarrow>
          let pos = Position + fd_offset fp;
              StartSector = first_sector bps pos;
              NumSectors = num_sectors bps pos Len
          in if NumSectors * bps > MAX_DATA_LEN then Some (0, s)
             else if Len > 0xFFFFFFFF then Some (0, s)
             else
               (case read_sectors api bps StartSector NumSectors s of
                  (n, bytes, s') \<Rightarrow>
                    do {
                      aucBuf1 \<leftarrow> memcpy aucBuf 0 bytes (length bytes);
                      if n \<le> 0 then Some (0, s')
                      else do {
                        aucBuf2 \<leftarrow> memcpy aucBuf1 (pos - StartSector * bps) pData Len;
                        case write_sectors api large_drive bps StartSector NumSectors aucBuf2 s' of
                          (w, s'') \<Rightarrow> Some (if w \<le> 0 then 0 else 1, s'')
                      }
                    }))"

definition contains_data ::
  "'d disk_api \<Rightarrow> nat \<Rightarrow> u8 list option \<Rightarrow> u8 list option \<Rightarrow> fake_fd \<Rightarrow> nat \<Rightarrow> u8 list \<Rightarrow> nat \<Rightarrow>
   'd io_state \<Rightarrow> (nat \<times> 'd io_state) option" where
  "contains_data api bps alloc alloc2 fp Position pData Len s =
     (case alloc of
        None \<Rightarrow> Some (0, s)
      | Some aucBuf \<Rightarrow> do {
          (r, buf, s') \<leftarrow> read_data api bps alloc2 fp Position aucBuf Len s;
          if r = 0 then Some (0, s')
          else if length pData < Len \<or> length buf < Len then None
          else Some (if take Len pData \<noteq> take Len buf then 0 else 1, s')
        })"

section \<open>Devices\<close>

text \<open>
  The bytes of a device after \<open>bs\<close> has been written from address \<open>p\<close> on, where the
  device stores address \<open>a\<close> in cell \<open>\<phi> a\<close>. A genuine drive has \<open>\<phi> a = a\<close>; a drive
  that advertises more than it has folds several addresses on one cell.
\<close>

fun store :: "(nat \<Rightarrow> nat) \<Rightarrow> nat \<Rightarrow> u8 list \<Rightarrow> (nat \<Rightarrow> u8) \<Rightarrow> nat \<Rightarrow> u8" where
  "store \<phi> p [] c = c"
| "store \<phi> p (b # bs) c = store \<phi> (Suc p) bs (c(\<phi> p := b))"

text \<open>
  What the documentation of the three Windows calls promises of a working device with
  \<open>cap\<close> addressable bytes: seeking inside it succeeds and moves the pointer only, a write
  inside it is complete and stores the bytes, a read delivers what the cells hold.
\<close>

definition mapped_disk ::
  "'d disk_api \<Rightarrow> (nat \<Rightarrow> nat) \<Rightarrow> nat \<Rightarrow> ('d \<Rightarrow> nat \<Rightarrow> u8) \<Rightarrow> ('d \<Rightarrow> nat) \<Rightarrow> bool" where
  "mapped_disk api \<phi> cap content pos \<longleftrightarrow>
     (\<forall>d off. off \<le> cap \<longrightarrow>
        (\<exists>d'. fp_seek api d off = Some d' \<and> content d' = content d \<and> pos d' = off)) \<and>
     (\<forall>d. fp_tell api d = Some (pos d)) \<and>
     (\<forall>d buf. pos d + length buf \<le> cap \<longrightarrow>
        (\<exists>d'. os_write api d buf = (True, length buf, d') \<and>
              content d' = store \<phi> (pos d) buf (content d))) \<and>
     (\<forall>d n. pos d + n \<le> cap \<longrightarrow>
        (\<exists>d'. os_read api d n = (True, map (\<lambda>i. content d (\<phi> (pos d + i))) [0..<n], d') \<and>
              content d' = content d))"

lemma mapped_diskD:
  assumes "mapped_disk api \<phi> cap content pos"
  shows seek_mapped: "off \<le> cap \<Longrightarrow>
      \<exists>d'. fp_seek api d off = Some d' \<and> content d' = content d \<and> pos d' = off"
    and write_mapped: "pos d + length buf \<le> cap \<Longrightarrow>
      \<exists>d'. os_write api d buf = (True, length buf, d') \<and> content d' = store \<phi> (pos d) buf (content d)"
    and read_mapped: "pos d + n \<le> cap \<Longrightarrow>
      \<exists>d'. os_read api d n = (True, map (\<lambda>i. content d (\<phi> (pos d + i))) [0..<n], d') \<and>
           content d' = content d"
  using assms by (auto simp: mapped_disk_def)

lemma store_id:
  "store (\<lambda>a. a) p bs c a = (if p \<le> a \<and> a < p + length bs then bs ! (a - p) else c a)"
proof (induction bs arbitrary: p c)
  case (Cons b bs)
  then show ?case by (auto simp: nth_Cons')
qed auto

lemma store_append: "store \<phi> p (xs @ ys) c = store \<phi> (p + length xs) ys (store \<phi> p xs c)"
  by (induction xs arbitrary: p c) auto

lemma write_sectors_mapped:
  assumes disk: "mapped_disk api \<phi> cap content pos" and cap: "cap < 2 ^ 64"
    and fits: "start * ss + n * ss \<le> cap" and size: "n * ss \<le> 0xFFFFFFFF"
    and buf: "n * ss \<le> length buf"
  shows "\<exists>s'. write_sectors api large_drive ss start n buf s = (int (n * ss), s') \<and>
     content (dev s') = store \<phi> (start * ss) (take (n * ss) buf) (content (dev s)) \<and>
     LastWriteError s' = NoWriteError"
proof -
  have m: "mul64 n ss = n * ss" "mul64 start ss = start * ss"
    using cap fits size by (auto intro!: mul64_small)
  obtain d where d: "fp_seek api (dev s) (start * ss) = Some d" "content d = content (dev s)"
      "pos d = start * ss"
    using seek_mapped [OF disk, of "start * ss" "dev s"] fits by auto
  obtain d' where d': "os_write api d (take (n * ss) buf) = (True, n * ss, d')"
      "content d' = store \<phi> (start * ss) (take (n * ss) buf) (content d)"
    using write_mapped [OF disk, of d "take (n * ss) buf"] d fits buf by auto
  show ?thesis
    using size buf d d' m
    by (auto simp: write_sectors_def WriteFileWithRetry_def WRITE_RETRIES_def retry_loop.simps
        Let_def min_absorb2)
qed

lemma read_sectors_mapped:
  assumes disk: "mapped_disk api \<phi> cap content pos" and cap: "cap < 2 ^ 64"
    and fits: "start * ss + n * ss \<le> cap" and size: "n * ss \<le> 0xFFFFFFFF"
  shows "\<exists>s'. read_sectors api ss start n s =
       (int (n * ss), map (\<lambda>i. content (dev s) (\<phi> (start * ss + i))) [0..<n * ss], s') \<and>
     content (dev s') = content (dev s)"
proof -
  have m: "mul64 n ss = n * ss" "mul64 start ss = start * ss"
    using cap fits size by (auto intro!: mul64_small)
  obtain d where d: "fp_seek api (dev s) (start * ss) = Some d" "content d = content (dev s)"
      "pos d = start * ss"
    using seek_mapped [OF disk, of "start * ss" "dev s"] fits by auto
  obtain d' where d': "os_read api d (n * ss) =
        (True, map (\<lambda>i. content d (\<phi> (start * ss + i))) [0..<n * ss], d')" "content d' = content d"
    using read_mapped [OF disk, of d "n * ss"] d fits by auto
  show ?thesis using size d d' m by (auto simp: read_sectors_def)
qed

section \<open>Reading and writing at arbitrary positions\<close>

text \<open>The window of sectors that \<open>read_data\<close> and \<open>write_data\<close> move covers the data.\<close>

lemma sector_window:
  assumes "0 < bps" and "0 < len"
  shows "first_sector bps pos * bps \<le> pos" and "0 < num_sectors bps pos len * bps"
    and "pos - first_sector bps pos * bps + len \<le> num_sectors bps pos len * bps"
proof -
  define a where "a = first_sector bps pos"
  define b where "b = (pos + len + bps - 1) div bps"
  show a: "first_sector bps pos * bps \<le> pos" by (simp add: first_sector_def)
  have "pos + len + bps - 1 < bps + b * bps"
    unfolding b_def using assms(1) by (rule dividend_less_div_times)
  then have b: "pos + len \<le> b * bps" by simp
  with a assms(2) have "a * bps < b * bps" unfolding a_def by linarith
  then have ab: "a < b" by simp
  have n: "num_sectors bps pos len = b - a" by (simp add: num_sectors_def a_def b_def)
  show "0 < num_sectors bps pos len * bps" using n ab assms by simp
  show "pos - first_sector bps pos * bps + len \<le> num_sectors bps pos len * bps"
    using a b ab unfolding n a_def [symmetric] by (simp add: diff_mult_distrib a_def [symmetric])
qed

text \<open>
  A request the two functions serve: a positive length whose sectors lie on the device and
  fit the sector buffer.
\<close>

definition servable :: "nat \<Rightarrow> nat \<Rightarrow> nat \<Rightarrow> nat \<Rightarrow> bool" where
  "servable cap bps pos len \<longleftrightarrow> 0 < bps \<and> 0 < len \<and> cap < 2 ^ 64 \<and>
     first_sector bps pos * bps + num_sectors bps pos len * bps \<le> cap \<and>
     num_sectors bps pos len * bps \<le> MAX_DATA_LEN"

lemma servable_read:
  assumes disk: "mapped_disk api (\<lambda>a. a) cap content cur" and ok: "servable cap bps pos len"
  obtains s' where
    "read_sectors api bps (first_sector bps pos) (num_sectors bps pos len) s =
       (int (num_sectors bps pos len * bps),
        map (\<lambda>i. content (dev s) (first_sector bps pos * bps + i)) [0..<num_sectors bps pos len * bps], s')"
    "content (dev s') = content (dev s)"
  using read_sectors_mapped [OF disk, of "first_sector bps pos" bps "num_sectors bps pos len" s] ok
  by (auto simp: servable_def MAX_DATA_LEN_def)

lemma servable_small: "servable cap bps pos len \<Longrightarrow> len \<le> 0xFFFFFFFF"
  using sector_window(3) [of bps len pos] by (simp add: servable_def MAX_DATA_LEN_def)

lemma read_data_result:
  assumes disk: "mapped_disk api (\<lambda>a. a) cap content cur"
    and ok: "servable cap bps (Position + fd_offset fp) Len"
    and len: "Len \<le> length pData" and buf: "length aucBuf = MAX_DATA_LEN"
  shows "\<exists>s'. read_data api bps (Some aucBuf) fp Position pData Len s =
       Some (1, map (\<lambda>i. content (dev s) (Position + fd_offset fp + i)) [0..<Len] @ drop Len pData, s') \<and>
     content (dev s') = content (dev s)"
proof -
  let ?p = "Position + fd_offset fp"
  let ?A = "first_sector bps ?p" and ?N = "num_sectors bps ?p Len"
  obtain s' where r: "read_sectors api bps ?A ?N s =
       (int (?N * bps), map (\<lambda>i. content (dev s) (?A * bps + i)) [0..<?N * bps], s')"
    and c: "content (dev s') = content (dev s)" by (rule servable_read [OF disk ok])
  note w = sector_window [of bps Len ?p]
  have pos: "0 < bps" "0 < Len" and NM: "?N * bps \<le> MAX_DATA_LEN"
    using ok by (auto simp: servable_def)
  have "take Len (drop (?p - ?A * bps) (map (\<lambda>i. content (dev s) (?A * bps + i)) [0..<?N * bps] @
      drop (?N * bps) aucBuf)) = map (\<lambda>i. content (dev s) (?p + i)) [0..<Len]"
    using w [OF pos] by (intro nth_equalityI) (auto simp: nth_append)
  with r c NM buf len w [OF pos] servable_small [OF ok] show ?thesis
    by (auto simp: read_data_def Let_def array_simps simp del: of_nat_mult)
qed

lemma write_data_result:
  assumes disk: "mapped_disk api (\<lambda>a. a) cap content cur"
    and ok: "servable cap bps (Position + fd_offset fp) Len"
    and len: "Len \<le> length pData" and buf: "length aucBuf = MAX_DATA_LEN"
  shows "\<exists>s'. write_data api large_drive bps (Some aucBuf) fp Position pData Len s = Some (1, s') \<and>
     content (dev s') = store (\<lambda>a. a) (Position + fd_offset fp) (take Len pData) (content (dev s))"
proof -
  let ?p = "Position + fd_offset fp"
  let ?A = "first_sector bps ?p" and ?N = "num_sectors bps ?p Len"
  let ?o = "?p - ?A * bps"
  obtain s1 where r: "read_sectors api bps ?A ?N s =
       (int (?N * bps), map (\<lambda>i. content (dev s) (?A * bps + i)) [0..<?N * bps], s1)"
    and c: "content (dev s1) = content (dev s)" by (rule servable_read [OF disk ok])
  note w = sector_window [of bps Len ?p]
  have pos: "0 < bps" "0 < Len" and NM: "?N * bps \<le> MAX_DATA_LEN" and cap: "cap < 2 ^ 64"
    "?A * bps + ?N * bps \<le> cap" using ok by (auto simp: servable_def)
  define b1 where "b1 = map (\<lambda>i. content (dev s) (?A * bps + i)) [0..<?N * bps] @ drop (?N * bps) aucBuf"
  define b2 where "b2 = take ?o b1 @ take Len pData @ drop (?o + Len) b1"
  have l1: "length b1 = MAX_DATA_LEN" using NM buf by (simp add: b1_def)
  then have l2: "length b2 = MAX_DATA_LEN" using w(3) [OF pos] NM len by (simp add: b2_def)
  obtain s2 where wr: "write_sectors api large_drive bps ?A ?N b2 s1 = (int (?N * bps), s2)"
    and c2: "content (dev s2) = store (\<lambda>a. a) (?A * bps) (take (?N * bps) b2) (content (dev s1))"
    using write_sectors_mapped [OF disk cap, of b2 large_drive s1] NM l2
    by (auto simp: MAX_DATA_LEN_def)
  have "content (dev s2) a = store (\<lambda>a. a) ?p (take Len pData) (content (dev s)) a" for a
    using w [OF pos] len NM l1
    by (auto simp: c2 c store_id b2_def nth_append) (auto simp: b1_def nth_append)
  moreover have "memcpy aucBuf 0 (map (\<lambda>i. content (dev s) (?A * bps + i)) [0..<?N * bps]) (?N * bps)
      = Some b1" and "memcpy b1 ?o pData Len = Some b2"
    using NM buf len w(3) [OF pos] l1 by (simp_all add: b1_def b2_def array_simps)
  then have "write_data api large_drive bps (Some aucBuf) fp Position pData Len s = Some (1, s2)"
    using r wr NM w(2) [OF pos] servable_small [OF ok]
    by (simp add: write_data_def Let_def del: of_nat_mult)
  ultimately show ?thesis by (auto simp: fun_eq_iff)
qed

section \<open>Results\<close>

text \<open>
  C37. Bytes written are read back. On a working drive, \<open>write_data\<close> at any position and of
  any length whose sectors fit the buffer of 64 KB succeeds, a following \<open>read_data\<close> of the
  same range returns the data, and no byte outside the range has changed although whole sectors
  were rewritten.
\<close>

theorem write_read_roundtrip:
  assumes disk: "mapped_disk api (\<lambda>a. a) cap content cur"
    and ok: "servable cap bps (Position + fd_offset fp) Len"
    and len: "Len \<le> length pData" "Len \<le> length out" and buf: "length b1 = MAX_DATA_LEN" "length b2 = MAX_DATA_LEN"
  shows "\<exists>s1 s2. write_data api large_drive bps (Some b1) fp Position pData Len s = Some (1, s1) \<and>
    read_data api bps (Some b2) fp Position out Len s1 = Some (1, take Len pData @ drop Len out, s2) \<and>
    (\<forall>a. a < Position + fd_offset fp \<or> Position + fd_offset fp + Len \<le> a \<longrightarrow> content (dev s2) a = content (dev s) a)"
proof -
  let ?p = "Position + fd_offset fp"
  obtain s1 where s1: "write_data api large_drive bps (Some b1) fp Position pData Len s = Some (1, s1)"
    "content (dev s1) = store (\<lambda>a. a) ?p (take Len pData) (content (dev s))"
    using write_data_result [OF disk ok len(1) buf(1)] by blast
  obtain s2 where s2: "read_data api bps (Some b2) fp Position out Len s1 =
      Some (1, map (\<lambda>i. content (dev s1) (?p + i)) [0..<Len] @ drop Len out, s2)" "content (dev s2) = content (dev s1)"
    using read_data_result [OF disk ok len(2) buf(2)] by blast
  have "map (\<lambda>i. content (dev s1) (?p + i)) [0..<Len] = take Len pData"
    using len(1) by (intro nth_equalityI) (simp_all add: s1(2) store_id)
  then show ?thesis using s1 s2 len(1) by (auto simp: store_id)
qed

text \<open>A drive of 8 sectors of 512 bytes, its state the cells and the file pointer.\<close>

definition small_disk :: "((nat \<Rightarrow> u8) \<times> nat) disk_api" where
  "small_disk = \<lparr> fp_seek = (\<lambda>d off. Some (fst d, off)), fp_tell = (\<lambda>d. Some (snd d)),
     os_write = (\<lambda>d bs. (True, length bs, (store (\<lambda>a. a) (snd d) bs (fst d), snd d + length bs))),
     os_read = (\<lambda>d n. (True, map (\<lambda>i. fst d (snd d + i)) [0..<n], (fst d, snd d + n))) \<rparr>"

theorem write_read_roundtrip_witness:
  "\<exists>s1 s2. write_data small_disk False 512 (Some (replicate MAX_DATA_LEN 0)) \<lparr> fd_offset = 0 \<rparr> 510 [1, 2, 3, 4] 4
       \<lparr> dev = (\<lambda>a. 0, 0), LastWriteError = NoWriteError \<rparr> = Some (1, s1) \<and>
     read_data small_disk 512 (Some (replicate MAX_DATA_LEN 9)) \<lparr> fd_offset = 0 \<rparr> 510 [0, 0, 0, 0] 4 s1 = Some (1, [1, 2, 3, 4], s2)"
proof -
  have d: "mapped_disk small_disk (\<lambda>a. a) 4096 fst snd" by (simp add: mapped_disk_def small_disk_def)
  have ok: "servable 4096 512 (510 + fd_offset \<lparr> fd_offset = 0 \<rparr>) 4"
    by (simp add: servable_def first_sector_def num_sectors_def MAX_DATA_LEN_def)
  have l: "length (replicate MAX_DATA_LEN (x :: u8)) = MAX_DATA_LEN" for x by simp
  have four: "(4 :: nat) \<le> length [1, 2, 3, 4 :: u8]" "(4 :: nat) \<le> length [0, 0, 0, 0 :: u8]" by simp_all
  show ?thesis using write_read_roundtrip [OF d ok four l l] by fastforce
qed

text \<open>An attempt that does not write everything, after which the pointer is set back.\<close>

definition attempt_fails :: "'d disk_api \<Rightarrow> u8 list \<Rightarrow> nat \<Rightarrow> 'd \<Rightarrow> 'd \<Rightarrow> bool" where
  "attempt_fails api buf pos d d' \<longleftrightarrow>
     (\<exists>ok n d1. os_write api d buf = (ok, n, d1) \<and> \<not> (ok \<and> n = length buf) \<and> fp_seek api d1 pos = Some d')"

lemma retry_loop_succeeds:
  assumes "\<forall>i < k. attempt_fails api buf pos (ds i) (ds (Suc i))" and "os_write api (ds k) buf = (True, length buf, d')"
  shows "j \<le> k \<Longrightarrow> k < n \<Longrightarrow> (if j > 0 then fp_seek api (dev s) pos else Some (dev s)) = Some (ds j) \<Longrightarrow>
    \<exists>s'. retry_loop api False (Some pos) buf n (Suc j) w s = (True, length buf, s') \<and> dev s' = d' \<and> LastWriteError s' = NoWriteError"
proof (induction "k - j" arbitrary: j w s)
  case 0
  then have "j = k" by simp
  then show ?case using 0 assms(2) by (subst retry_loop.simps) (cases "0 < k"; simp)
next
  case (Suc m)
  then have jk: "j < k" "m = k - Suc j" by auto
  obtain ok c d1 where f: "os_write api (ds j) buf = (ok, c, d1)" "\<not> (ok \<and> c = length buf)" "fp_seek api d1 pos = Some (ds (Suc j))"
    using assms(1) jk(1) unfolding attempt_fails_def by blast
  let ?s = "s\<lparr> dev := d1, LastWriteError := (if ok then NoWriteError else OsWriteError) \<rparr>"
  have "retry_loop api False (Some pos) buf n (Suc j) w s = retry_loop api False (Some pos) buf n (Suc (Suc j)) c ?s"
    using Suc.prems f(1,2) jk(1) by (subst retry_loop.simps) (auto simp: Let_def)
  moreover have "\<exists>s'. retry_loop api False (Some pos) buf n (Suc (Suc j)) c ?s = (True, length buf, s') \<and> dev s' = d' \<and>
      LastWriteError s' = NoWriteError"
    by (rule Suc.hyps(1) [OF jk(2)]) (use Suc.prems jk f(3) in auto)
  ultimately show ?case by simp
qed

text \<open>
  Retrying a write. As long as the file pointer can be read and set again, a write that comes
  through completely at attempt \<open>k + 1\<close>, after \<open>k\<close> failed or short ones and within the
  number of attempts allowed, makes \<open>WriteFileWithRetry\<close> return true with all bytes written;
  \<open>ds i\<close> is the state of the device before attempt \<open>i + 1\<close>.
\<close>

theorem write_retry_succeeds:
  assumes "fp_tell api (dev s) = Some pos" and "ds 0 = dev s" and "k < nNumRetries"
    and "\<forall>i < k. attempt_fails api buf pos (ds i) (ds (Suc i))" and "os_write api (ds k) buf = (True, length buf, d')"
  shows "\<exists>s'. WriteFileWithRetry api False s buf nNumRetries = (True, length buf, s') \<and> dev s' = d' \<and> LastWriteError s' = NoWriteError"
  using retry_loop_succeeds [OF assms(4,5), of 0 nNumRetries s 0] assms(1-3) by (simp add: WriteFileWithRetry_def)

text \<open>A device whose first two writes fail.\<close>

definition flaky_disk :: "nat disk_api" where
  "flaky_disk = \<lparr> fp_seek = (\<lambda>d off. Some d), fp_tell = (\<lambda>d. Some 0),
     os_write = (\<lambda>d bs. if d < 2 then (False, 0, Suc d) else (True, length bs, d)), os_read = (\<lambda>d n. (False, [], d)) \<rparr>"

theorem write_retry_succeeds_witness:
  "\<exists>s'. WriteFileWithRetry flaky_disk False \<lparr> dev = 0, LastWriteError = NoWriteError \<rparr> [1, 2] WRITE_RETRIES = (True, length [1, 2 :: u8], s') \<and>
     dev s' = 2 \<and> LastWriteError s' = NoWriteError"
  by (rule write_retry_succeeds [where pos = 0 and k = 2 and ds = "\<lambda>i. i"])
    (auto simp: flaky_disk_def WRITE_RETRIES_def attempt_fails_def)

end
