(* ===== verification/Wipe_Drive.thy ===== *)
theory Wipe_Drive
  imports Sector_IO
begin

text \<open>
  Wiping a drive: \<open>ClearMBRGPT\<close> and the branch of \<open>WriteDrive\<close> that zeroes a drive, both of
  \<open>src/src/format.c\<close>, over the Windows calls of \<open>disk_api\<close>.

  Sizes are natural numbers; the 32-bit arithmetic of the rounding to whole sectors is written out.
  A cancellation by the user is what \<open>CHECK_FOR_USER_CANCEL\<close> finds in \<open>ErrorStatus\<close>: the
  argument \<open>cancelled\<close> says when. Where the code jumps to \<open>out\<close>, the result is \<open>Inl\<close> of
  the error it has put in \<open>ErrorStatus\<close>, or of \<^term>\<open>None\<close> when it has put none there.
  Progress display and the refresh of the layout at the end leave the bytes of the drive alone and
  are left out, as are the pauses between attempts.
\<close>

datatype drive_error = NotEnoughMemory | WriteFaultError | ReadFaultError | OpenFailedError | UserCancelled


section \<open>Whole sectors\<close>



section \<open>Clearing the partition tables\<close>

definition MAX_SECTORS_TO_CLEAR :: nat where
  "MAX_SECTORS_TO_CLEAR = 128"

definition sectors_to_clear :: "nat \<Rightarrow> bool \<Rightarrow> nat" where
  "sectors_to_clear FirstDataSector add1MB =
     (let n = min FirstDataSector ((if add1MB then 2048 else 0) + MAX_SECTORS_TO_CLEAR)
      in if n < 4 then (if add1MB then 2048 else 0) + MAX_SECTORS_TO_CLEAR else n)"

text \<open>
  The second write takes \<open>SectorSize * MAX_SECTORS_TO_CLEAR\<close> bytes of the buffer, however long
  it is: outside the buffer the result is \<^term>\<open>None\<close>. A negative offset is the wrapped one that
  \<open>SetFilePointerEx\<close> refuses.
\<close>

definition ClearMBRGPT ::
  "'d disk_api \<Rightarrow> bool \<Rightarrow> ('d \<Rightarrow> bool) \<Rightarrow> nat \<Rightarrow> bool \<Rightarrow> nat \<Rightarrow> nat \<Rightarrow> bool \<Rightarrow> 'd io_state \<Rightarrow>
   (bool \<times> drive_error option \<times> 'd io_state) option" where
  "ClearMBRGPT api large_drive cancelled FirstDataSector alloc DiskSize SectorSize add1MB s =
     (let num_sectors_to_clear = sectors_to_clear FirstDataSector add1MB in
      if \<not> alloc then Some (False, Some NotEnoughMemory, s)
      else
        let pZeroBuf = replicate (SectorSize * num_sectors_to_clear) 0;
            s = (case fp_seek api (dev s) 0 of None \<Rightarrow> s | Some d \<Rightarrow> s\<lparr> dev := d \<rparr>)
        in if length pZeroBuf < (SectorSize * num_sectors_to_clear) mod 2 ^ 32 then None
           else
             (case WriteFileWithRetry api large_drive s (take ((SectorSize * num_sectors_to_clear) mod 2 ^ 32) pZeroBuf) WRITE_RETRIES of
                (ok, n, s) \<Rightarrow>
                  if \<not> ok then Some (False, None, s)
                  else if cancelled (dev s) then Some (False, Some UserCancelled, s)
                  else if DiskSize < SectorSize * MAX_SECTORS_TO_CLEAR then Some (True, None, s)
                  else
                    (case fp_seek api (dev s) (DiskSize - SectorSize * MAX_SECTORS_TO_CLEAR) of
                       None \<Rightarrow> Some (True, None, s)
                     | Some d \<Rightarrow>
                         if length pZeroBuf < (SectorSize * MAX_SECTORS_TO_CLEAR) mod 2 ^ 32 then None
                         else
                           (case WriteFileWithRetry api large_drive (s\<lparr> dev := d \<rparr>)
                                   (take ((SectorSize * MAX_SECTORS_TO_CLEAR) mod 2 ^ 32) pZeroBuf) WRITE_RETRIES of
                              (ok, n, s) \<Rightarrow> Some (True, None, s)))))"

section \<open>Zeroing a drive\<close>












section \<open>Devices that may fail\<close>

text \<open>
  What a device promises when a call succeeds: a seek moves the pointer, a complete write stores the
  bytes and advances the pointer, a complete read delivers the bytes and advances the pointer; and a
  write, complete or not, changes nothing outside its range. Any call may fail.
\<close>

definition honest_disk :: "'d disk_api \<Rightarrow> ('d \<Rightarrow> nat \<Rightarrow> u8) \<Rightarrow> ('d \<Rightarrow> nat) \<Rightarrow> bool" where
  "honest_disk api content pos \<longleftrightarrow>
     (\<forall>d off d'. fp_seek api d off = Some d' \<longrightarrow> content d' = content d \<and> pos d' = off) \<and>
     (\<forall>d buf d'. os_write api d buf = (True, length buf, d') \<longrightarrow>
        content d' = store (\<lambda>a. a) (pos d) buf (content d) \<and> pos d' = pos d + length buf) \<and>
     (\<forall>d buf s n d' a. os_write api d buf = (s, n, d') \<longrightarrow> a < pos d \<or> pos d + length buf \<le> a \<longrightarrow> content d' a = content d a) \<and>
     (\<forall>d n bytes d'. os_read api d n = (True, bytes, d') \<longrightarrow> length bytes = n \<longrightarrow>
        content d' = content d \<and> pos d' = pos d + n \<and> bytes = map (\<lambda>i. content d (pos d + i)) [0..<n])"

lemma honest_diskD:
  assumes "honest_disk api content pos"
  shows honest_seek: "fp_seek api d off = Some d' \<Longrightarrow> content d' = content d \<and> pos d' = off"
    and honest_write: "os_write api d buf = (True, length buf, d') \<Longrightarrow>
      content d' = store (\<lambda>a. a) (pos d) buf (content d) \<and> pos d' = pos d + length buf"
    and honest_frame: "os_write api d buf = (s, n, d') \<Longrightarrow> a < pos d \<or> pos d + length buf \<le> a \<Longrightarrow> content d' a = content d a"
    and honest_read: "os_read api d n = (True, bytes, d') \<Longrightarrow> length bytes = n \<Longrightarrow>
      content d' = content d \<and> pos d' = pos d + n \<and> bytes = map (\<lambda>i. content d (pos d + i)) [0..<n]"
  using assms unfolding honest_disk_def by blast+

text \<open>A device, and a user, that never fail.\<close>

definition reliable :: "'d disk_api \<Rightarrow> ('d \<Rightarrow> bool) \<Rightarrow> bool" where
  "reliable api cancelled \<longleftrightarrow>
     (\<forall>d. \<not> cancelled d) \<and> (\<forall>d off. fp_seek api d off \<noteq> None) \<and>
     (\<forall>d buf. \<exists>d'. os_write api d buf = (True, length buf, d')) \<and>
     (\<forall>d n. \<exists>bytes d'. os_read api d n = (True, bytes, d') \<and> length bytes = n)"

lemma reliableD:
  assumes "reliable api cancelled"
  shows "\<not> cancelled d" "fp_seek api d off \<noteq> None" "\<exists>d'. os_write api d buf = (True, length buf, d')"
    "\<exists>bytes d'. os_read api d n = (True, bytes, d') \<and> length bytes = n"
  using assms unfolding reliable_def by blast+




section \<open>Blocks\<close>
























section \<open>A drive with a bad sector\<close>

text \<open>
  A drive in memory: its bytes, the position, and a number of writes that fail before they succeed.
  With \<open>Some bad\<close> it fails so, and reads at or behind \<open>bad\<close> fail; with \<^term>\<open>None\<close> nothing fails.
\<close>

type_synonym mem_disk = "(nat \<Rightarrow> u8) \<times> nat \<times> nat"

definition mem_api :: "nat option \<Rightarrow> mem_disk disk_api" where
  "mem_api lim = \<lparr>
     fp_seek = (\<lambda>(c, p, k) off. Some (c, off, k)),
     fp_tell = (\<lambda>(c, p, k). Some p),
     os_write = (\<lambda>(c, p, k) buf. if lim \<noteq> None \<and> k > 0 then (False, 0, (c, p, k - 1))
                  else (True, length buf, (store (\<lambda>a. a) p buf c, p + length buf, k))),
     os_read = (\<lambda>(c, p, k) n. if lim \<noteq> None \<and> p + n > the lim then (False, [], (c, p, k))
                  else (True, map (\<lambda>i. c (p + i)) [0..<n], (c, p + n, k))) \<rparr>"

lemma mem_api_honest: "honest_disk (mem_api lim) fst (fst \<circ> snd)"
  by (auto simp: honest_disk_def mem_api_def store_id split: if_splits)

lemma mem_api_reliable: "reliable (mem_api None) (\<lambda>d. False)"
  by (auto simp: reliable_def mem_api_def)



lemma WriteFileWithRetry_first:
  "os_write api (dev s) buf = (True, length buf, d') \<Longrightarrow>
   WriteFileWithRetry api large_drive s buf WRITE_RETRIES = (True, length buf, s\<lparr> dev := d', LastWriteError := NoWriteError \<rparr>)"
  by (simp add: WriteFileWithRetry_def WRITE_RETRIES_def retry_loop.simps)

text \<open>A write of zeros on a device that does not fail.\<close>

lemma write_zeros:
  assumes "honest_disk api content pos" and "reliable api cancelled"
  shows "\<exists>s'. WriteFileWithRetry api large_drive s (replicate n 0) WRITE_RETRIES = (True, n, s') \<and>
    (\<forall>a. content (dev s') a = (if pos (dev s) \<le> a \<and> a < pos (dev s) + n then 0 else content (dev s) a))"
proof -
  obtain d' where d': "os_write api (dev s) (replicate n 0) = (True, length (replicate n 0 :: u8 list), d')"
    using reliableD(3) [OF assms(2)] by blast
  have "content d' = store (\<lambda>a. a) (pos (dev s)) (replicate n 0) (content (dev s))" using honest_write [OF assms(1) d'] by blast
  then have "content d' a = (if pos (dev s) \<le> a \<and> a < pos (dev s) + n then 0 else content (dev s) a)" for a
    by (auto simp: store_id)
  then show ?thesis using WriteFileWithRetry_first [OF d', of large_drive] by simp
qed

lemma sectors_to_clear_bounds: "sectors_to_clear f add1MB \<le> 2176" "4 \<le> sectors_to_clear f add1MB"
  by (auto simp: sectors_to_clear_def MAX_SECTORS_TO_CLEAR_def Let_def min_def)

section \<open>Results\<close>









text \<open>
C29. On a drive that does not fail, and whose first partition is not below sector 128,
\<open>ClearMBRGPT\<close> zeroes the chosen number of sectors at the start and the last 128 sectors, and
nothing else.
\<close>

theorem ClearMBRGPT_clears:
  assumes "honest_disk api content pos" and "reliable api cancelled" and "SectorSize * 2176 < 2 ^ 32"
    and "SectorSize * 128 \<le> DiskSize" and "\<not> (4 \<le> FirstDataSector \<and> FirstDataSector < 128)"
  shows "\<exists>s'. ClearMBRGPT api large_drive cancelled FirstDataSector True DiskSize SectorSize add1MB s = Some (True, None, s') \<and>
    (\<forall>a. content (dev s') a = (if a < SectorSize * sectors_to_clear FirstDataSector add1MB \<or> DiskSize - SectorSize * 128 \<le> a \<and> a < DiskSize
      then 0 else content (dev s) a))"
proof -
  let ?n = "sectors_to_clear FirstDataSector add1MB"
  have big: "128 \<le> ?n" using assms(5) by (auto simp: sectors_to_clear_def MAX_SECTORS_TO_CLEAR_def Let_def min_def)
  have "SectorSize * ?n \<le> SectorSize * 2176" "SectorSize * 128 \<le> SectorSize * ?n"
    using sectors_to_clear_bounds(1) big by (intro mult_le_mono2; simp)+
  then have "SectorSize * ?n < 2 ^ 32" "SectorSize * 128 < 2 ^ 32" and le: "SectorSize * 128 \<le> SectorSize * ?n"
    using assms(3) by linarith+
  then have m: "(SectorSize * ?n) mod 2 ^ 32 = SectorSize * ?n" "(SectorSize * 128) mod 2 ^ 32 = SectorSize * 128"
    by (simp_all only: mod_less)
  obtain d0 where d0: "fp_seek api (dev s) 0 = Some d0" using reliableD(2) [OF assms(2)] by blast
  obtain s1 where s1: "WriteFileWithRetry api large_drive (s\<lparr> dev := d0 \<rparr>) (replicate (SectorSize * ?n) 0) WRITE_RETRIES = (True, SectorSize * ?n, s1)"
    "\<forall>a. content (dev s1) a = (if a < SectorSize * ?n then 0 else content (dev s) a)"
    using write_zeros [OF assms(1,2), of large_drive "s\<lparr> dev := d0 \<rparr>" "SectorSize * ?n"] honest_seek [OF assms(1) d0] by auto
  obtain d2 where d2: "fp_seek api (dev s1) (DiskSize - SectorSize * 128) = Some d2" using reliableD(2) [OF assms(2)] by blast
  obtain s3 where s3: "WriteFileWithRetry api large_drive (s1\<lparr> dev := d2 \<rparr>) (replicate (SectorSize * 128) 0) WRITE_RETRIES = (True, SectorSize * 128, s3)"
    "\<forall>a. content (dev s3) a = (if DiskSize - SectorSize * 128 \<le> a \<and> a < DiskSize then 0 else content (dev s1) a)"
    using write_zeros [OF assms(1,2), of large_drive "s1\<lparr> dev := d2 \<rparr>" "SectorSize * 128"] honest_seek [OF assms(1) d2] assms(4) by auto
  have "ClearMBRGPT api large_drive cancelled FirstDataSector True DiskSize SectorSize add1MB s = Some (True, None, s3)"
    using d0 s1(1) d2 s3(1) assms(4) big le m reliableD(1) [OF assms(2)]
    by (simp add: ClearMBRGPT_def Let_def MAX_SECTORS_TO_CLEAR_def min_def)
  then show ?thesis using s1(2) s3(2) by auto
qed

theorem ClearMBRGPT_clears_witness:
  "\<exists>s'. ClearMBRGPT (mem_api None) False (\<lambda>d. False) 2048 True 1048576 512 False \<lparr> dev = (\<lambda>a. 7, 3, 0), LastWriteError = NoWriteError \<rparr> = Some (True, None, s') \<and>
    fst (dev s') 0 = 0 \<and> fst (dev s') 65536 = 7 \<and> fst (dev s') 1048575 = 0"
proof -
  have "sectors_to_clear 2048 False = 128" by (simp add: sectors_to_clear_def MAX_SECTORS_TO_CLEAR_def)
  then show ?thesis
    using ClearMBRGPT_clears [OF mem_api_honest mem_api_reliable, of 512 1048576 2048 False False "\<lparr> dev = (\<lambda>a. 7, 3, 0), LastWriteError = NoWriteError \<rparr>"]
    by auto
qed

text \<open>
C30. When the first partition starts at one of the sectors 4 to 127, the buffer that
\<open>ClearMBRGPT\<close> allocates is shorter than the 128 sectors it writes at the end of the drive: the
write reads behind the buffer.
\<close>

theorem ClearMBRGPT_overread:
  assumes "honest_disk api content pos" and "reliable api cancelled" and "SectorSize * 2176 < 2 ^ 32" and "0 < SectorSize"
    and "SectorSize * 128 \<le> DiskSize" and "4 \<le> FirstDataSector" "FirstDataSector < 128"
  shows "ClearMBRGPT api large_drive cancelled FirstDataSector True DiskSize SectorSize add1MB s = None"
proof -
  have n: "sectors_to_clear FirstDataSector add1MB = FirstDataSector"
    using assms(6,7) by (simp add: sectors_to_clear_def MAX_SECTORS_TO_CLEAR_def Let_def min_def)
  have lt: "SectorSize * FirstDataSector < SectorSize * 128" using assms(4,7) by simp
  then have "SectorSize * FirstDataSector < 2 ^ 32" "SectorSize * 128 < 2 ^ 32" using assms(3) by linarith+
  then have m: "(SectorSize * FirstDataSector) mod 2 ^ 32 = SectorSize * FirstDataSector" "(SectorSize * 128) mod 2 ^ 32 = SectorSize * 128"
    by (simp_all only: mod_less)
  obtain d0 where d0: "fp_seek api (dev s) 0 = Some d0" using reliableD(2) [OF assms(2)] by blast
  obtain s1 where s1: "WriteFileWithRetry api large_drive (s\<lparr> dev := d0 \<rparr>) (replicate (SectorSize * FirstDataSector) 0) WRITE_RETRIES =
      (True, SectorSize * FirstDataSector, s1)"
    using write_zeros [OF assms(1,2), of large_drive "s\<lparr> dev := d0 \<rparr>" "SectorSize * FirstDataSector"] by blast
  obtain d2 where d2: "fp_seek api (dev s1) (DiskSize - SectorSize * 128) = Some d2" using reliableD(2) [OF assms(2)] by blast
  show ?thesis using d0 s1 d2 assms(5) lt m reliableD(1) [OF assms(2)]
    by (simp add: ClearMBRGPT_def Let_def n MAX_SECTORS_TO_CLEAR_def)
qed

theorem ClearMBRGPT_overread_witness:
  "ClearMBRGPT (mem_api None) False (\<lambda>d. False) 63 True 1048576 512 False \<lparr> dev = (\<lambda>a. 7, 3, 0), LastWriteError = NoWriteError \<rparr> = None"
  by (rule ClearMBRGPT_overread [OF mem_api_honest mem_api_reliable]) simp_all

end
