(* ===== verification/Image_Write.thy ===== *)
theory Image_Write
  imports Wipe_Drive
begin

text \<open>
  Writing an image to a drive: \<open>sector_write\<close> and the branches of \<open>WriteDrive\<close> for compressed
  and plain images (\<open>src/src/format.c\<close>), and the asynchronous reads they rest on
  (\<open>src/src/winio.h\<close>).

  The pieces that the decompressor hands to \<open>sector_write\<close>, and whether it ends without an error of
  its own, are arguments, as are \<open>_write\<close> and the Windows calls for overlapped reads. A buffer that
  a pending read may still change belongs to the system: the model takes it away until the read is
  over, and a write from it would give \<^term>\<open>None\<close>.
\<close>

section \<open>Whole sectors from a stream\<close>

record 'd sw_state =
  sw_dev :: 'd
  sec_buf :: "u8 list"
  sec_buf_pos :: nat

text \<open>
  The second half of \<open>sector_write\<close>: the full sectors of the rest of the input, and what is left
  over.
\<close>

definition write_rest ::
  "('d \<Rightarrow> u8 list \<Rightarrow> int \<times> 'd) \<Rightarrow> nat \<Rightarrow> 'd sw_state \<Rightarrow> u8 list \<Rightarrow> nat \<Rightarrow> nat \<Rightarrow> (int \<times> 'd sw_state) option" where
  "write_rest wr sec_size s buf count fill_size =
     (let sec_num = (count - fill_size) div sec_size in
      case wr (sw_dev s) (slice fill_size (sec_num * sec_size) buf) of
        (written, d) \<Rightarrow>
          let s = s\<lparr> sw_dev := d \<rparr> in
          if written < 0 then Some (written, s)
          else if nat written \<noteq> sec_num * sec_size then Some (int fill_size + written, s)
          else
            let s = s\<lparr> sec_buf_pos := count - fill_size - nat written \<rparr> in
            if \<not> sec_buf_pos s < sec_size then Some (-1, s)
            else if sec_buf_pos s \<noteq> 0 then do {
              b \<leftarrow> memcpy (sec_buf s) 0 (drop (fill_size + nat written) buf) (sec_buf_pos s);
              Some (int count, s\<lparr> sec_buf := b \<rparr>)
            }
            else Some (int count, s))"

definition sector_write ::
  "('d \<Rightarrow> u8 list \<Rightarrow> int \<times> 'd) \<Rightarrow> nat \<Rightarrow> 'd sw_state \<Rightarrow> u8 list \<Rightarrow> nat \<Rightarrow> (int \<times> 'd sw_state) option" where
  "sector_write wr SectorSize s buf count =
     (let sec_size = (if SectorSize = 0 then 512 else SectorSize) in
      if \<not> sec_size \<le> 64 * 1024 then Some (-1, s)
      else if \<not> count \<le> 1024 * 1024 * 1024 then Some (-1, s)
      else if length buf < count then None
      else if sec_buf_pos s = 0 \<and> count mod sec_size = 0 then
        (case wr (sw_dev s) (take count buf) of (r, d) \<Rightarrow> Some (r, s\<lparr> sw_dev := d \<rparr>))
      else if sec_buf_pos s > 0 then
        if \<not> sec_size \<ge> sec_buf_pos s then Some (-1, s)
        else do {
          let fill_size = min (sec_size - sec_buf_pos s) count;
          b \<leftarrow> memcpy (sec_buf s) (sec_buf_pos s) buf fill_size;
          let s = s\<lparr> sec_buf := b, sec_buf_pos := sec_buf_pos s + fill_size \<rparr>;
          if sec_buf_pos s < sec_size then Some (int count, s)
          else if length b < sec_size then None
          else
            (case wr (sw_dev s) (take sec_size b) of
               (written, d) \<Rightarrow>
                 let s = s\<lparr> sw_dev := d, sec_buf_pos := 0 \<rparr> in
                 if written \<noteq> int sec_size then Some (written, s)
                 else write_rest wr sec_size s buf count fill_size)
        }
      else write_rest wr sec_size s buf count 0)"

section \<open>Compressed images\<close>

text \<open>
  The decompressor stops at the first piece that is not written as a whole; \<open>ok\<close> says whether it
  ends well otherwise. The result is the sign of \<open>bled_ret\<close>.
\<close>

fun write_pieces ::
  "('d \<Rightarrow> u8 list \<Rightarrow> int \<times> 'd) \<Rightarrow> nat \<Rightarrow> bool \<Rightarrow> u8 list list \<Rightarrow> 'd sw_state \<Rightarrow> (bool \<times> 'd sw_state) option" where
  "write_pieces wr SectorSize ok [] s = Some (ok, s)"
| "write_pieces wr SectorSize ok (p # ps) s = do {
     (n, s') \<leftarrow> sector_write wr SectorSize s p (length p);
     if n \<noteq> int (length p) then Some (False, s') else write_pieces wr SectorSize ok ps s'
   }"

text \<open>
  The branch of \<open>WriteDrive\<close>: \<open>opened\<close> says whether the image could be opened, \<open>sec_at\<close> is the
  address and \<open>garbage\<close> the first contents of the buffer that \<open>_mm_malloc\<close> returns. The last,
  incomplete sector is written from the whole buffer, and the result of that write is ignored.
\<close>

definition WriteDrive_compressed ::
  "'d disk_api \<Rightarrow> ('d \<Rightarrow> u8 list \<Rightarrow> int \<times> 'd) \<Rightarrow> ('d \<Rightarrow> bool) \<Rightarrow> nat \<Rightarrow> bool \<Rightarrow> nat option \<Rightarrow> u8 list \<Rightarrow> bool \<Rightarrow> u8 list list \<Rightarrow> 'd \<Rightarrow>
   (bool \<times> drive_error option \<times> 'd) option" where
  "WriteDrive_compressed api wr cancelled SectorSize opened sec_at garbage ok pieces d =
     (if SectorSize < 512 then Some (False, None, d)
      else
        let d = (case fp_seek api d 0 of None \<Rightarrow> d | Some d' \<Rightarrow> d') in
        if \<not> opened then Some (False, Some OpenFailedError, d)
        else
          (case sec_at of
             None \<Rightarrow> Some (False, Some NotEnoughMemory, d)
           | Some a \<Rightarrow>
               if a mod SectorSize \<noteq> 0 then Some (False, None, d)
               else do {
                 (bled_ok, s) \<leftarrow> write_pieces wr SectorSize ok pieces \<lparr> sw_dev = d, sec_buf = garbage, sec_buf_pos = 0 \<rparr>;
                 d \<leftarrow> (if bled_ok \<and> sec_buf_pos s \<noteq> 0 then
                         if length (sec_buf s) < SectorSize then None
                         else Some (snd (snd (os_write api (sw_dev s) (take SectorSize (sec_buf s)))))
                       else Some (sw_dev s));
                 if \<not> bled_ok \<and> \<not> cancelled d then Some (False, Some WriteFaultError, d)
                 else Some (True, None, d)
               }))"

section \<open>Asynchronous reads\<close>

text \<open>
  \<open>a_read f off n\<close> is \<open>ReadFile\<close> with an \<open>OVERLAPPED\<close> structure: whether it completes at
  once, is pending or fails. \<open>a_wait\<close> waits for its event, \<open>a_result\<close> is
  \<open>GetOverlappedResultEx\<close>: how the read ended and the bytes it has put in the buffer.
\<close>

datatype read_start = Completed | Pending | StartFailed

datatype ov_status = OvDone | OvHandleEof | OvSectorNotFound | OvFailed

record 'f async_api =
  a_read :: "'f \<Rightarrow> nat \<Rightarrow> nat \<Rightarrow> read_start \<times> 'f"
  a_wait :: "'f \<Rightarrow> bool \<times> 'f"
  a_result :: "'f \<Rightarrow> ov_status \<times> u8 list \<times> 'f"

text \<open>\<open>rd_buf\<close> is the number and \<open>rd_old\<close> the former contents of the buffer of the current read.\<close>

record 'f ASYNC_FD =
  hFile :: 'f
  iStatus :: int
  ov_Offset :: nat
  bOffsetUpdated :: bool
  rd_buf :: nat
  rd_old :: "u8 list"

type_synonym buffers = "u8 list option list"

definition ReadFileAsync ::
  "'f async_api \<Rightarrow> 'f ASYNC_FD \<Rightarrow> buffers \<Rightarrow> nat \<Rightarrow> nat \<Rightarrow> (bool \<times> 'f ASYNC_FD \<times> buffers) option" where
  "ReadFileAsync api fd bufs bufnum n = do {
     slot \<leftarrow> aget bufs bufnum;
     old \<leftarrow> slot;
     if length old < n then None
     else
       (case a_read api (hFile fd) (ov_Offset fd) n of
          (st, f) \<Rightarrow>
            let status = (case st of Completed \<Rightarrow> 1 | Pending \<Rightarrow> -1 | StartFailed \<Rightarrow> 0);
                fd = fd\<lparr> hFile := f, iStatus := status, bOffsetUpdated := False, rd_buf := bufnum, rd_old := old \<rparr>
            in Some (status \<noteq> 0, fd, if status = 0 then bufs else bufs[bufnum := None]))
   }"



section \<open>Plain images\<close>

definition NUM_BUFFERS :: nat where
  "NUM_BUFFERS = 2"






section \<open>The stream of sectors\<close>

text \<open>
  A device that takes writes of whole sectors, one behind the other: \<open>out\<close> is what it has
  received. A write of part of a sector may do anything.
\<close>

definition appends :: "('d \<Rightarrow> u8 list \<Rightarrow> int \<times> 'd) \<Rightarrow> nat \<Rightarrow> ('d \<Rightarrow> u8 list) \<Rightarrow> bool" where
  "appends wr ss out \<longleftrightarrow> (\<forall>d b. ss dvd length b \<longrightarrow> (\<exists>d'. wr d b = (int (length b), d') \<and> out d' = out d @ b))"

text \<open>The stream \<open>msg\<close> has been taken, on top of \<open>base\<close>: whole sectors on the device, the rest in the buffer.\<close>

definition sw_inv :: "nat \<Rightarrow> ('d \<Rightarrow> u8 list) \<Rightarrow> u8 list \<Rightarrow> u8 list \<Rightarrow> 'd sw_state \<Rightarrow> bool" where
  "sw_inv ss out base msg s \<longleftrightarrow> 0 < ss \<and> length (sec_buf s) = ss \<and> sec_buf_pos s = length msg mod ss \<and>
     out (sw_dev s) @ take (sec_buf_pos s) (sec_buf s) = base @ msg"

lemma mod_add_small: "m mod k + c < k \<Longrightarrow> (m + c) mod k = m mod k + (c :: nat)"
  by (metis mod_add_left_eq mod_less)

lemma appendsD: "appends wr ss out \<Longrightarrow> ss dvd length b \<Longrightarrow> \<exists>d'. wr d b = (int (length b), d') \<and> out d' = out d @ b"
  by (simp add: appends_def)

lemma write_rest_inv:
  assumes wr: "appends wr ss out" and inv: "sw_inv ss out base msg s" and "sec_buf_pos s = 0" and "fill \<le> count" "count \<le> length buf"
  shows "\<exists>s'. write_rest wr ss s buf count fill = Some (int count, s') \<and> sw_inv ss out base (msg @ slice fill (count - fill) buf) s'"
proof -
  define n where "n = (count - fill) div ss * ss"
  define k where "k = count - fill - n"
  have ss: "0 < ss" "length (sec_buf s) = ss" using inv by (auto simp: sw_inv_def)
  have "n \<le> count - fill" by (simp add: n_def)
  then have n: "n + k = count - fill" "ss dvd n" by (simp_all add: k_def) (simp add: n_def)
  have k: "k < ss" using ss(1) by (simp add: k_def n_def minus_div_mult_eq_mod)
  have l: "length (slice fill n buf) = n" using n(1) assms(4,5) by simp
  obtain d where d: "wr (sw_dev s) (slice fill n buf) = (int n, d)" "out d = out (sw_dev s) @ slice fill n buf"
    using appendsD [OF wr, of "slice fill n buf" "sw_dev s"] n(2) l by auto
  have msg: "out d @ slice (fill + n) k buf = base @ msg @ slice fill (count - fill) buf"
    using d(2) inv assms(3) slice_append [of fill n buf k] unfolding n(1) by (simp add: sw_inv_def)
  have "(length msg + (count - fill)) mod ss = (count - fill) mod ss" using inv assms(3) by (auto simp: sw_inv_def)
  then have m: "length (msg @ slice fill (count - fill) buf) mod ss = k" using assms(4,5) by (simp add: k_def n_def minus_div_mult_eq_mod)
  have run: "write_rest wr ss s buf count fill =
      (if k = 0 then Some (int count, s\<lparr> sw_dev := d, sec_buf_pos := 0 \<rparr>)
       else do {b \<leftarrow> memcpy (sec_buf s) 0 (drop (fill + n) buf) k; Some (int count, s\<lparr> sw_dev := d, sec_buf_pos := k, sec_buf := b \<rparr>)})"
    using d(1) k unfolding write_rest_def n_def [symmetric] Let_def by (simp add: k_def)
  show ?thesis
  proof (cases "k = 0")
    case True
    then show ?thesis using run msg ss m by (auto simp: sw_inv_def slice_def)
  next
    case False
    define b where "b = slice (fill + n) k buf @ drop k (sec_buf s)"
    have lk: "length (slice (fill + n) k buf) = k" using n(1) assms(4,5) by simp
    have "memcpy (sec_buf s) 0 (drop (fill + n) buf) k = Some b"
      using k ss(2) lk by (simp add: memcpy_def b_def slice_def)
    then have "write_rest wr ss s buf count fill = Some (int count, s\<lparr> sw_dev := d, sec_buf_pos := k, sec_buf := b \<rparr>)"
      using run False by simp
    moreover have "length b = ss" "take k b = slice (fill + n) k buf" using k ss(2) lk by (simp_all add: b_def)
    ultimately show ?thesis using msg k m ss(1) by (auto simp: sw_inv_def)
  qed
qed

lemma sector_write_fill:
  assumes wr: "appends wr ss out" and inv: "sw_inv ss out base msg s" and ss: "0 < ss" "ss \<le> 64 * 1024"
    and c: "count \<le> length buf" "count \<le> 1024 * 1024 * 1024" and pos: "sec_buf_pos s \<noteq> 0"
  shows "\<exists>s'. sector_write wr ss s buf count = Some (int count, s') \<and> sw_inv ss out base (msg @ take count buf) s'"
proof -
  define p where "p = sec_buf_pos s"
  define fill where "fill = min (ss - p) count"
  define b where "b = take p (sec_buf s) @ take fill buf @ drop (p + fill) (sec_buf s)"
  have p: "0 < p" "p < ss" "length (sec_buf s) = ss" "p = length msg mod ss" using inv pos by (auto simp: sw_inv_def p_def)
  have f: "fill \<le> count" "p + fill \<le> ss" "fill \<le> length buf" using p c(1) by (auto simp: fill_def)
  have mem: "memcpy (sec_buf s) p buf fill = Some b" using p f by (simp add: memcpy_def b_def)
  have b: "length b = ss" "take (p + fill) b = take p (sec_buf s) @ take fill buf" using p f by (simp_all add: b_def)
  let ?s = "s\<lparr> sec_buf := b, sec_buf_pos := p + fill \<rparr>"
  have run: "sector_write wr ss s buf count =
      (if p + fill < ss then Some (int count, ?s)
       else case wr (sw_dev s) b of (written, d) \<Rightarrow>
         if written \<noteq> int ss then Some (written, ?s\<lparr> sw_dev := d, sec_buf_pos := 0 \<rparr>)
         else write_rest wr ss (?s\<lparr> sw_dev := d, sec_buf_pos := 0 \<rparr>) buf count fill)"
    using mem p(1,2) b(1) ss c unfolding sector_write_def Let_def p_def [symmetric]
    by (cases "wr (sw_dev s) b") (simp flip: fill_def)
  show ?thesis
  proof (cases "p + fill < ss")
    case True
    then have "fill = count" by (auto simp: fill_def)
    moreover have "(length msg + fill) mod ss = p + fill" using mod_add_small [of "length msg" ss fill] True p(4) by simp
    ultimately show ?thesis using run inv b True c(1) by (auto simp: sw_inv_def p_def)
  next
    case False
    then have full: "p + fill = ss" using f(2) by simp
    have m: "(length msg + fill) mod ss = 0" using mod_add_left_eq [of "length msg" ss fill] full p(4) by simp
    obtain d where d: "wr (sw_dev s) b = (int ss, d)" "out d = out (sw_dev s) @ b"
      using appendsD [OF wr, of b "sw_dev s"] b(1) by auto
    have i: "sw_inv ss out base (msg @ take fill buf) (?s\<lparr> sw_dev := d, sec_buf_pos := 0 \<rparr>)"
      using inv d(2) b ss(1) m f(3) unfolding full by (auto simp: sw_inv_def p_def)
    have "take fill buf @ slice fill (count - fill) buf = take count buf"
      using slice_append [of 0 fill buf "count - fill"] f(1) by (simp add: slice_def)
    then show ?thesis using write_rest_inv [OF wr i, of fill count buf] f(1) c(1) run False d(1) by simp
  qed
qed

lemma sector_write_inv:
  assumes wr: "appends wr ss out" and inv: "sw_inv ss out base msg s" and ss: "0 < ss" "ss \<le> 64 * 1024"
    and c: "count \<le> length buf" "count \<le> 1024 * 1024 * 1024"
  shows "\<exists>s'. sector_write wr ss s buf count = Some (int count, s') \<and> sw_inv ss out base (msg @ take count buf) s'"
proof (cases "sec_buf_pos s = 0")
  case True
  show ?thesis
  proof (cases "count mod ss = 0")
    case m: True
    then have "ss dvd length (take count buf)" using c(1) by (simp add: mod_eq_0_iff_dvd min_def)
    then obtain d where d: "wr (sw_dev s) (take count buf) = (int count, d)" "out d = out (sw_dev s) @ take count buf"
      using appendsD [OF wr, of "take count buf" "sw_dev s"] c(1) by auto
    then have "sector_write wr ss s buf count = Some (int count, s\<lparr> sw_dev := d \<rparr>)"
      using True m ss c by (simp add: sector_write_def Let_def)
    then show ?thesis using inv d(2) True m c(1) by (auto simp: sw_inv_def mod_add_right_eq [symmetric, of _ count])
  next
    case False
    then have "sector_write wr ss s buf count = write_rest wr ss s buf count 0"
      using True ss c by (simp add: sector_write_def Let_def)
    then show ?thesis using write_rest_inv [OF wr inv True, of 0 count buf] c(1) by (simp add: slice_def)
  qed
next
  case False
  then show ?thesis using sector_write_fill [OF assms] by blast
qed

lemma write_pieces_inv:
  assumes wr: "appends wr ss out" and ss: "0 < ss" "ss \<le> 64 * 1024"
  shows "sw_inv ss out base msg s \<Longrightarrow> \<forall>p \<in> set pieces. length p \<le> 1024 * 1024 * 1024 \<Longrightarrow>
    \<exists>s'. write_pieces wr ss ok pieces s = Some (ok, s') \<and> sw_inv ss out base (msg @ concat pieces) s'"
proof (induction pieces arbitrary: msg s)
  case (Cons p ps)
  obtain s1 where s1: "sector_write wr ss s p (length p) = Some (int (length p), s1)" "sw_inv ss out base (msg @ p) s1"
    using sector_write_inv [OF wr Cons.prems(1) ss, of "length p" p] Cons.prems(2) by auto
  then show ?case using Cons.IH [OF s1(2)] Cons.prems(2) by auto
qed simp


section \<open>The two buffers\<close>

text \<open>
  A source that holds \<open>img\<close>: a read is accepted, waited for successfully, and delivers the bytes that
  were asked for; \<open>req\<close> is the request under way.
\<close>

definition serves :: "'f async_api \<Rightarrow> ('f \<Rightarrow> nat \<times> nat) \<Rightarrow> u8 list \<Rightarrow> bool" where
  "serves aapi req img \<longleftrightarrow>
     (\<forall>f off n st f'. a_read aapi f off n = (st, f') \<longrightarrow> st \<noteq> StartFailed \<and> req f' = (off, n)) \<and>
     (\<forall>f ok f'. a_wait aapi f = (ok, f') \<longrightarrow> ok \<and> req f' = req f) \<and>
     (\<forall>f off n. req f = (off, n) \<and> off + n \<le> length img \<longrightarrow> (\<exists>f'. a_result aapi f = (OvDone, slice off n img, f')))"

text \<open>A read of \<open>n\<close> bytes at \<open>off\<close> into buffer \<open>i\<close> is under way, the other buffer is free.\<close>

definition reading :: "('f \<Rightarrow> nat \<times> nat) \<Rightarrow> nat \<Rightarrow> nat \<Rightarrow> nat \<Rightarrow> nat \<Rightarrow> 'f ASYNC_FD \<Rightarrow> buffers \<Rightarrow> bool" where
  "reading req B i off n fd bufs \<longleftrightarrow> i < NUM_BUFFERS \<and> length bufs = NUM_BUFFERS \<and> bufs ! i = None \<and>
     (\<exists>b. bufs ! ((i + 1) mod NUM_BUFFERS) = Some b \<and> length b = B) \<and>
     req (hFile fd) = (off, n) \<and> ov_Offset fd = off \<and> iStatus fd \<noteq> 0 \<and> \<not> bOffsetUpdated fd \<and> rd_buf fd = i \<and> length (rd_old fd) = B"

lemma read_start:
  assumes "serves aapi req img" and "length bufs = NUM_BUFFERS" "i < NUM_BUFFERS" and "bufs ! i = Some old" "length old = B"
    and "bufs ! ((i + 1) mod NUM_BUFFERS) = Some b" "length b = B" and "n \<le> B" and "ov_Offset fd = off"
  shows "\<exists>fd'. ReadFileAsync aapi fd bufs i n = Some (True, fd', bufs[i := None]) \<and> reading req B i off n fd' (bufs[i := None])"
proof -
  obtain st f where st: "a_read aapi (hFile fd) off n = (st, f)" using prod.exhaust by blast
  then have "st \<noteq> StartFailed" "req f = (off, n)" using assms(1) unfolding serves_def by blast+
  moreover have "(i + 1) mod NUM_BUFFERS \<noteq> i" using assms(3) by (auto simp: NUM_BUFFERS_def less_2_cases_iff)
  ultimately show ?thesis
    using assms st by (cases st) (auto simp: ReadFileAsync_def reading_def aget_Some Let_def)
qed






section \<open>Devices for the examples\<close>

text \<open>A device that logs what it receives, and a source in memory.\<close>

definition log_write :: "u8 list \<Rightarrow> u8 list \<Rightarrow> int \<times> u8 list" where
  "log_write d b = (int (length b), d @ b)"

definition log_api :: "u8 list disk_api" where
  "log_api = \<lparr> fp_seek = (\<lambda>d off. Some d), fp_tell = (\<lambda>d. Some 0), os_write = (\<lambda>d b. (True, length b, d @ b)), os_read = (\<lambda>d n. (False, [], d)) \<rparr>"



section \<open>Results\<close>

text \<open>
C27. A compressed image arrives as it is: whatever pieces the decompressor delivers, up to a gigabyte
each, the device receives only writes of whole sectors, and these are the pieces one behind the
other, filled up to a whole sector at the end.
\<close>

theorem WriteDrive_compressed_stream:
  assumes "appends wr SectorSize out" and "512 \<le> SectorSize" "SectorSize \<le> 64 * 1024"
    and "\<forall>d d'. fp_seek api d 0 = Some d' \<longrightarrow> out d' = out d"
    and "\<forall>d b. SectorSize dvd length b \<longrightarrow> out (snd (snd (os_write api d b))) = out d @ b"
    and "\<forall>p \<in> set pieces. length p \<le> 1024 * 1024 * 1024" and "length garbage = SectorSize"
  shows "\<exists>d' pad. WriteDrive_compressed api wr cancelled SectorSize True (Some (SectorSize * m)) garbage True pieces d = Some (True, None, d') \<and>
    out d' = out d @ concat pieces @ pad \<and> length pad < SectorSize \<and> (SectorSize dvd length (concat pieces) \<longrightarrow> pad = [])"
proof -
  define d0 where "d0 = (case fp_seek api d 0 of None \<Rightarrow> d | Some d' \<Rightarrow> d')"
  have o: "out d0 = out d" using assms(4) by (auto simp: d0_def split: option.splits)
  have "sw_inv SectorSize out (out d0) [] \<lparr> sw_dev = d0, sec_buf = garbage, sec_buf_pos = 0 \<rparr>" using assms(2,7) by (simp add: sw_inv_def)
  from write_pieces_inv [OF assms(1) _ assms(3) this assms(6), of True] obtain s where
    s: "write_pieces wr SectorSize True pieces \<lparr> sw_dev = d0, sec_buf = garbage, sec_buf_pos = 0 \<rparr> = Some (True, s)"
    "sw_inv SectorSize out (out d0) (concat pieces) s" using assms(2) by auto
  let ?k = "sec_buf_pos s" and ?d = "snd (snd (os_write api (sw_dev s) (sec_buf s)))"
  have inv: "length (sec_buf s) = SectorSize" "?k = length (concat pieces) mod SectorSize" "out (sw_dev s) @ take ?k (sec_buf s) = out d @ concat pieces"
    using s(2) o by (auto simp: sw_inv_def)
  have run: "WriteDrive_compressed api wr cancelled SectorSize True (Some (SectorSize * m)) garbage True pieces d =
      Some (True, None, if ?k \<noteq> 0 then ?d else sw_dev s)"
    using assms(2) s(1) inv(1) by (simp add: WriteDrive_compressed_def Let_def flip: d0_def)
  show ?thesis
  proof (cases "?k = 0")
    case True
    then show ?thesis using run inv(3) assms(2) by (intro exI [of _ "sw_dev s"] exI [of _ "[]"]) simp
  next
    case False
    have "out ?d = out (sw_dev s) @ take ?k (sec_buf s) @ drop ?k (sec_buf s)" using assms(5) inv(1) by simp
    then have "out ?d = out d @ concat pieces @ drop ?k (sec_buf s)" using inv(3) by (metis append.assoc)
    moreover have "\<not> SectorSize dvd length (concat pieces)" using False inv(2) by (simp add: mod_eq_0_iff_dvd)
    ultimately show ?thesis using run False inv(1) assms(2) by (intro exI [of _ ?d] exI [of _ "drop ?k (sec_buf s)"]) simp
  qed
qed

theorem WriteDrive_compressed_stream_witness:
  "\<exists>d' pad. WriteDrive_compressed log_api log_write (\<lambda>d. False) 512 True (Some (512 * 1)) (replicate 512 9) True [replicate 500 1, replicate 20 2] [] =
      Some (True, None, d') \<and>
    d' = [] @ concat [replicate 500 1, replicate 20 2] @ pad \<and> length pad < 512 \<and> (512 dvd length (concat [replicate 500 1, replicate 20 (2 :: u8)]) \<longrightarrow> pad = [])"
  by (rule WriteDrive_compressed_stream [where out = "\<lambda>d. d"]) (simp_all add: appends_def log_write_def log_api_def)



end
