(* ===== verification/Format_FAT32.thy ===== *)
theory Format_FAT32
  imports Wipe_Drive
begin

text \<open>
  Formatting a volume with a large FAT32 file system: \<open>src/src/format_fat32.c\<close>.

  The handle of the volume, its geometry and its place on the drive come from Windows and are
  arguments, as are \<open>WritePBR\<close> and the call that sets the label. \<open>DWORD\<close> values are natural
  numbers; where the code computes on them the reduction modulo \<open>2 ^ 32\<close> is written out, and
  stores to narrower fields of the boot sector are truncated by \<^const>\<open>store_le\<close>.
\<close>

section \<open>The volume serial number\<close>

record SYSTEMTIME =
  wYear :: u16
  wMonth :: u16
  wDay :: u16
  wHour :: u16
  wMinute :: u16
  wSecond :: u16
  wMilliseconds :: u16

definition GetVolumeID :: "SYSTEMTIME \<Rightarrow> u32" where
  "GetVolumeID s =
     (let lo = wDay s + push_bit 8 (wMonth s);
          tmp = wMilliseconds s div 10 + push_bit 8 (wSecond s);
          lo = lo + tmp;
          hi = wMinute s + push_bit 8 (wHour s);
          hi = hi + wYear s
      in ucast lo + push_bit 16 (ucast hi))"

section \<open>The layout\<close>

definition dw :: "nat \<Rightarrow> nat" where
  "dw x = x mod 2 ^ 32"

text \<open>The subtraction of two \<open>DWORD\<close> values.\<close>

definition sub32 :: "nat \<Rightarrow> nat \<Rightarrow> nat" where
  "sub32 a b = dw (a + 2 ^ 32 - b)"

definition GetFATSizeSectors :: "nat \<Rightarrow> nat \<Rightarrow> nat \<Rightarrow> nat \<Rightarrow> nat \<Rightarrow> nat option" where
  "GetFATSizeSectors DskSize ReservedSecCnt SecPerClus NumFATs BytesPerSect =
     (let Numerator = sub32 DskSize ReservedSecCnt + 2 * SecPerClus;
          Denominator = SecPerClus * BytesPerSect div 4 + NumFATs
      in if Denominator = 0 then None else Some (dw (Numerator div Denominator + 1)))"

definition default_cluster_size :: "nat \<Rightarrow> nat" where
  "default_cluster_size PartitionLength =
     (let KB = 1024; MB = 1024 * KB; GB = 1024 * MB; TB = 1024 * GB in
      if PartitionLength < 64 * MB then 512
      else if PartitionLength < 128 * MB then 1 * KB
      else if PartitionLength < 256 * MB then 2 * KB
      else if PartitionLength < 8 * GB then 4 * KB
      else if PartitionLength < 16 * GB then 8 * KB
      else if PartitionLength < 32 * GB then 16 * KB
      else if PartitionLength < 2 * TB then 32 * KB
      else 64 * KB)"

datatype fat32_error =
  InvalidParameter | InvalidHandle | NotSupported | InvalidClusterSize | InvalidVolumeSize | FatOutOfMemory | FatWriteFault | FatCancelled

text \<open>What the computation settles before anything is written.\<close>

record fat32_layout =
  TotalSectors :: nat
  SectorsPerCluster :: nat
  ReservedSectCount :: nat
  FatSize :: nat
  ClusterCount :: nat

definition NumFATs :: nat where
  "NumFATs = 2"

definition BackupBootSect :: nat where
  "BackupBootSect = 6"

definition BurstSize :: nat where
  "BurstSize = 128"

text \<open>The checks on the size of the volume.\<close>

definition fat32_check_size :: "nat \<Rightarrow> nat \<Rightarrow> fat32_error option" where
  "fat32_check_size BytesPerSect PartitionLength =
     (let qTotalSectors = PartitionLength div BytesPerSect in
      if qTotalSectors < 65536 then Some InvalidClusterSize
      else if qTotalSectors \<ge> 0xffffffff then Some InvalidVolumeSize
      else None)"

text \<open>
  The FAT size is computed while the field \<open>wRsvdSecCnt\<close> of the cleared boot sector is still 0, and
  from \<open>bSecPerClus\<close>, a byte. A division by 0 is \<^term>\<open>None\<close>.
\<close>

definition fat32_plan :: "nat \<Rightarrow> nat \<Rightarrow> nat \<Rightarrow> (fat32_error + fat32_layout) option" where
  "fat32_plan BytesPerSect PartitionLength ClusterSize = do {
     let ClusterSize = (if ClusterSize = 0 then default_cluster_size PartitionLength else ClusterSize);
     let SectorsPerCluster = ClusterSize div BytesPerSect;
     let TotalSectors = dw (PartitionLength div BytesPerSect);
     FatSize \<leftarrow> GetFATSizeSectors TotalSectors 0 (SectorsPerCluster mod 256) NumFATs BytesPerSect;
     let ReservedSectCount = 32;
     let SystemAreaSize = dw (ReservedSectCount + NumFATs * FatSize);
     let AlignSectors = 1024 * 1024 div BytesPerSect;
     if AlignSectors = 0 then None
     else do {
       let SystemAreaSize = dw (dw (SystemAreaSize + AlignSectors - 1) div AlignSectors * AlignSectors);
       let ReservedSectCount = sub32 SystemAreaSize (dw (NumFATs * FatSize));
       let UserAreaSize = sub32 (sub32 TotalSectors ReservedSectCount) (dw (NumFATs * FatSize));
       if SectorsPerCluster = 0 then None
       else do {
         let ClusterCount = UserAreaSize div SectorsPerCluster;
         if ClusterCount > 0x0FFFFFFF then Some (Inl InvalidClusterSize)
         else if ClusterCount < 65536 then Some (Inl InvalidClusterSize)
         else do {
           let FatNeeded = (ClusterCount * 4 + (BytesPerSect - 1)) div BytesPerSect;
           if FatNeeded > FatSize then Some (Inl InvalidVolumeSize)
           else Some (Inr \<lparr> TotalSectors = TotalSectors, SectorsPerCluster = SectorsPerCluster, ReservedSectCount = ReservedSectCount,
                            FatSize = FatSize, ClusterCount = ClusterCount \<rparr>)
         }
       }
     }
      }"

section \<open>The sectors\<close>

text \<open>The bytes of a string in the boot sector.\<close>

definition chars :: "string \<Rightarrow> u8 list" where
  "chars = map of_char"

definition field :: "nat \<Rightarrow> nat \<Rightarrow> u8 list" where
  "field n x = store_le n (of_nat x :: u32)"

definition boot_fields :: "nat \<Rightarrow> nat \<Rightarrow> nat \<Rightarrow> nat \<Rightarrow> u32 \<Rightarrow> fat32_layout \<Rightarrow> u8 list" where
  "boot_fields BytesPerSect SectorsPerTrack TracksPerCylinder HiddenSectors VolumeId L =
     [0xEB, 0x58, 0x90] @ chars ''MSWIN4.1'' @ field 2 BytesPerSect @ field 1 (SectorsPerCluster L) @ field 2 (ReservedSectCount L) @
     field 1 NumFATs @ field 2 0 @ field 2 0 @ [0xF8] @ field 2 0 @ field 2 SectorsPerTrack @ field 2 TracksPerCylinder @
     field 4 HiddenSectors @ field 4 (TotalSectors L) @ field 4 (FatSize L) @ field 2 0 @ field 2 0 @ field 4 2 @ field 2 1 @
     field 2 BackupBootSect @ replicate 12 0 @ [0x80, 0, 0x29] @ store_le 4 VolumeId @ chars ''NO NAME    '' @ chars ''FAT32   ''"

definition boot_sector :: "nat \<Rightarrow> nat \<Rightarrow> nat \<Rightarrow> nat \<Rightarrow> u32 \<Rightarrow> fat32_layout \<Rightarrow> u8 list" where
  "boot_sector BytesPerSect SectorsPerTrack TracksPerCylinder HiddenSectors VolumeId L =
     (let fields = boot_fields BytesPerSect SectorsPerTrack TracksPerCylinder HiddenSectors VolumeId L;
          sect = fields @ replicate (510 - length fields) 0 @ [0x55, 0xaa] @ replicate (BytesPerSect - 512) 0
      in if BytesPerSect \<noteq> 512 then sect[BytesPerSect - 2 := 0x55, BytesPerSect - 1 := 0xaa] else sect)"

definition fsinfo_sector :: "nat \<Rightarrow> fat32_layout \<Rightarrow> u8 list" where
  "fsinfo_sector BytesPerSect L =
     field 4 0x41615252 @ replicate 480 0 @ field 4 0x61417272 @ field 4 (ClusterCount L - 1) @ field 4 3 @ replicate 12 0 @ field 4 0xaa550000 @
     replicate (BytesPerSect - 512) 0"

definition first_fat_sector :: "nat \<Rightarrow> u8 list" where
  "first_fat_sector BytesPerSect = field 4 0x0ffffff8 @ field 4 0x0fffffff @ field 4 0x0fffffff @ replicate (BytesPerSect - 12) 0"

section \<open>Formatting\<close>

text \<open>The loop that clears the system area in bursts of 128 sectors.\<close>

partial_function (option) clear_bursts ::
  "'d disk_api \<Rightarrow> bool \<Rightarrow> ('d \<Rightarrow> bool) \<Rightarrow> nat \<Rightarrow> nat \<Rightarrow> nat \<Rightarrow> 'd io_state \<Rightarrow> (fat32_error option \<times> 'd io_state) option" where
  "clear_bursts api large_drive cancelled BytesPerSect limit i s =
     (if i < limit then
        if cancelled (dev s) then Some (Some FatCancelled, s)
        else
          (case write_sectors api large_drive BytesPerSect i BurstSize (replicate (BytesPerSect * BurstSize) 0) s of
             (r, s') \<Rightarrow>
               if r \<noteq> int (dw (BytesPerSect * BurstSize)) then Some (Some FatWriteFault, s')
               else clear_bursts api large_drive cancelled BytesPerSect limit (dw (i + BurstSize)) s')
      else Some (None, s))"

declare clear_bursts.simps [code]

text \<open>The start sector of a write held in an \<open>int\<close> and passed on as a 64-bit number.\<close>

definition int_sector :: "nat \<Rightarrow> nat" where
  "int_sector x = (let y = dw x in if y < 2 ^ 31 then y else y + 2 ^ 64 - 2 ^ 32)"

text \<open>The results of the writes below are ignored.\<close>

definition put_sector :: "'d disk_api \<Rightarrow> bool \<Rightarrow> nat \<Rightarrow> nat \<Rightarrow> u8 list \<Rightarrow> 'd io_state \<Rightarrow> 'd io_state" where
  "put_sector api large_drive BytesPerSect n bytes s = snd (write_sectors api large_drive BytesPerSect (int_sector n) 1 bytes s)"

definition put_tables :: "'d disk_api \<Rightarrow> bool \<Rightarrow> nat \<Rightarrow> u8 list \<Rightarrow> fat32_layout \<Rightarrow> 'd io_state \<Rightarrow> 'd io_state" where
  "put_tables api large_drive BytesPerSect boot L s =
     (let put = put_sector api large_drive BytesPerSect;
          s = put 0 boot s;
          s = put 1 (fsinfo_sector BytesPerSect L) s;
          s = put BackupBootSect boot s;
          s = put (BackupBootSect + 1) (fsinfo_sector BytesPerSect L) s;
          s = put (ReservedSectCount L) (first_fat_sector BytesPerSect) s
      in put (ReservedSectCount L + FatSize L) (first_fat_sector BytesPerSect) s)"

text \<open>
  What the queries about the partition say: \<open>IOCTL_DISK_GET_PARTITION_INFO\<close>, or else its extended
  form.
\<close>

datatype partition_info = PartInfo nat nat | PartInfoEx nat nat | NoPartInfo

record 'd fat32_env =
  env_time :: SYSTEMTIME
  env_open_error :: bool
  env_handle :: bool
  env_geometry :: "(nat \<times> nat \<times> nat) option"
  env_partition :: partition_info
  env_alloc :: bool
  env_zero_alloc :: bool
  env_cancelled :: "'d \<Rightarrow> bool"
  env_WritePBR :: "'d io_state \<Rightarrow> 'd io_state"
  env_SetVolumeLabel :: "'d io_state \<Rightarrow> 'd io_state"

definition FormatLargeFAT32 ::
  "'d disk_api \<Rightarrow> bool \<Rightarrow> 'd fat32_env \<Rightarrow> nat \<Rightarrow> string \<Rightarrow> bool \<Rightarrow> 'd io_state \<Rightarrow> (bool \<times> fat32_error option \<times> 'd io_state) option" where
  "FormatLargeFAT32 api large_drive env ClusterSize FSName FP_NO_BOOT s =
     (if take 3 FSName \<noteq> ''FAT'' then Some (False, Some InvalidParameter, s)
      else if env_open_error env then Some (False, None, s)
      else if \<not> env_handle env then Some (False, Some InvalidHandle, s)
      else
        (case env_geometry env of
           None \<Rightarrow> Some (False, Some NotSupported, s)
         | Some (bps, SectorsPerTrack, TracksPerCylinder) \<Rightarrow>
             let BytesPerSect = (if bps < 512 then 512 else bps);
                 VolumeId = GetVolumeID (env_time env)
             in
             if env_cancelled env (dev s) then Some (False, Some FatCancelled, s) else
             (case (case env_partition env of
                      NoPartInfo \<Rightarrow> None
                    | PartInfo len hidden \<Rightarrow> Some (len, hidden)
                    | PartInfoEx start len \<Rightarrow> Some (len, dw (start div BytesPerSect))) of
                None \<Rightarrow> Some (False, Some NotSupported, s)
              | Some (PartitionLength, HiddenSectors) \<Rightarrow>
                if env_cancelled env (dev s) then Some (False, Some FatCancelled, s)
                else if fat32_check_size BytesPerSect PartitionLength \<noteq> None then Some (False, fat32_check_size BytesPerSect PartitionLength, s)
                else if \<not> env_alloc env then Some (False, Some FatOutOfMemory, s)
                else do {
                  plan \<leftarrow> fat32_plan BytesPerSect PartitionLength ClusterSize;
                  case plan of
                    Inl e \<Rightarrow> Some (False, Some e, s)
                  | Inr L \<Rightarrow>
                      if \<not> env_zero_alloc env then Some (False, Some FatOutOfMemory, s)
                      else do {
                        (e, s) \<leftarrow> clear_bursts api large_drive (env_cancelled env) BytesPerSect
                          (dw (dw (ReservedSectCount L + NumFATs * FatSize L + SectorsPerCluster L) + BurstSize - 1)) 0 s;
                        if e \<noteq> None then Some (False, e, s)
                        else do {
                          let boot = boot_sector BytesPerSect SectorsPerTrack TracksPerCylinder HiddenSectors VolumeId L;
                          let s = put_tables api large_drive BytesPerSect boot L s;
                          let s = (if FP_NO_BOOT then s else env_WritePBR env s);
                          Some (True, None, env_SetVolumeLabel env s)
                        }
                      }
                })))"


section \<open>The arithmetic of the layout\<close>

text \<open>Sector sizes of drives that Windows supports.\<close>

definition fat_sector :: "nat \<Rightarrow> bool" where
  "fat_sector B \<longleftrightarrow> B \<in> {512, 1024, 2048, 4096}"

lemma dw_small: "x < 2 ^ 32 \<Longrightarrow> dw x = x"
  by (simp add: dw_def)

lemma sub32_small: "b \<le> a \<Longrightarrow> a < 2 ^ 32 \<Longrightarrow> sub32 a b = a - b"
proof -
  assume "b \<le> a" "a < 2 ^ 32"
  then have "a + 2 ^ 32 - b = (a - b) + 2 ^ 32" by simp
  then show ?thesis using \<open>a < 2 ^ 32\<close> by (simp only: sub32_def dw_def mod_add_self2 mod_less less_imp_diff_less)
qed

text \<open>The size of the FAT, and that two of them leave most of the volume to the data.\<close>

lemma fat_size_bounds:
  assumes B: "512 \<le> B" "4 dvd B" and S: "1 \<le> S" "S < 256" and T: "T < 2 ^ 32"
    and F: "GetFATSizeSectors T 0 S 2 B = Some F"
  shows "T + 2 * S < F * (S * (B div 4) + 2)" "(F - 1) * 130 \<le> T + 510" "1 \<le> F"
proof -
  define D where "D = S * (B div 4) + 2"
  have "S * B div 4 = S * (B div 4)" using B(2) by (auto elim!: dvdE)
  then have D: "S * B div 4 + 2 = D" by (simp add: D_def)
  have "1 * 128 \<le> S * (B div 4)" using S(1) B by (intro mult_le_mono) auto
  then have D130: "130 \<le> D" by (simp add: D_def)
  have "(T + 2 * S) div D \<le> T + 2 * S" by simp
  moreover have "(T + 2 * S) div D \<le> (T + 2 * S) div 130" using D130 by (rule div_le_mono2 [rotated]) simp
  ultimately have "(T + 2 * S) div D + 1 < 2 ^ 32" using T S(2) by simp
  then have f: "F = (T + 2 * S) div D + 1" using F T D D130 by (simp add: GetFATSizeSectors_def sub32_small dw_small Let_def)
  have "T + 2 * S < D + (T + 2 * S) div D * D" using D130 by (intro dividend_less_div_times) simp
  then show "T + 2 * S < F * (S * (B div 4) + 2)" unfolding f D_def [symmetric] by (simp add: algebra_simps)
  have "(F - 1) * 130 \<le> (F - 1) * D" using D130 by (rule mult_le_mono2)
  also have "\<dots> \<le> T + 2 * S" unfolding f by simp
  finally show "(F - 1) * 130 \<le> T + 510" using S(2) by simp
  show "1 \<le> F" unfolding f by simp
qed

definition layout_ok :: "nat \<Rightarrow> nat \<Rightarrow> fat32_layout \<Rightarrow> bool" where
  "layout_ok B T L \<longleftrightarrow> TotalSectors L = T \<and> 1 \<le> FatSize L \<and> 32 \<le> ReservedSectCount L \<and> ReservedSectCount L < 65536 \<and>
     4 * (ClusterCount L + 2) \<le> FatSize L * B \<and> 65536 \<le> ClusterCount L \<and> ClusterCount L \<le> 0x0FFFFFFF \<and>
     ReservedSectCount L + 2 * FatSize L + ClusterCount L * SectorsPerCluster L \<le> T \<and>
     1024 * 1024 dvd (ReservedSectCount L + 2 * FatSize L) * B"

text \<open>The cluster size in effect; by default it is never below the sector size.\<close>

definition cluster_size :: "nat \<Rightarrow> nat \<Rightarrow> nat" where
  "cluster_size P C = (if C = 0 then default_cluster_size P else C)"

lemma default_cluster_bounds:
  assumes "fat_sector B" "fat32_check_size B P = None"
  shows "B \<le> default_cluster_size P" "default_cluster_size P div B < 256"
proof -
  have P: "65536 * B \<le> P" and b: "B = 512 \<or> B = 1024 \<or> B = 2048 \<or> B = 4096"
    using assms by (auto simp: fat_sector_def fat32_check_size_def Let_def not_less less_eq_div_iff_mult_less_eq split: if_splits)
  from b P show "B \<le> default_cluster_size P" by (elim disjE) (simp_all add: default_cluster_size_def Let_def)
  from b show "default_cluster_size P div B < 256" by (elim disjE) (simp_all add: default_cluster_size_def Let_def)
qed

lemma cluster_size_bounds:
  assumes "fat_sector B" "fat32_check_size B P = None" "C = 0 \<or> B \<le> C \<and> C div B < 256"
  shows "1 \<le> cluster_size P C div B" "cluster_size P C div B < 256"
proof -
  have "B \<le> cluster_size P C" "0 < B"
    using assms(3) default_cluster_bounds [OF assms(1,2)] assms(1) by (auto simp: cluster_size_def fat_sector_def)
  then show "1 \<le> cluster_size P C div B" by (simp add: less_eq_div_iff_mult_less_eq)
  show "cluster_size P C div B < 256" using assms(3) default_cluster_bounds [OF assms(1,2)] by (auto simp: cluster_size_def)
qed

lemma fat32_plan_ok:
  assumes B: "fat_sector B" and small: "fat32_check_size B P = None" and C: "C = 0 \<or> B \<le> C \<and> C div B < 256"
  shows "\<exists>r. fat32_plan B P C = Some r \<and>
    (case r of Inl e \<Rightarrow> e = InvalidClusterSize
     | Inr L \<Rightarrow> layout_ok B (P div B) L \<and> SectorsPerCluster L = cluster_size P C div B \<and> SectorsPerCluster L < 256)"
proof -
  define T where "T = P div B"
  define A where "A = 1024 * 1024 div B"
  define s where "s = cluster_size P C div B"
  have b: "512 \<le> B" "B \<le> 4096" "4 dvd B" "A * B = 1024 * 1024" using B by (auto simp: fat_sector_def A_def)
  have A: "256 \<le> A" "A \<le> 2048"
    using div_le_mono2 [of 512 B "1024 * 1024"] div_le_mono2 [of B 4096 "1024 * 1024"] b(1,2) by (simp_all add: A_def)
  have T: "65536 \<le> T" "T < 2 ^ 32" using small by (auto simp: fat32_check_size_def T_def Let_def split: if_splits)
  have dT: "dw T = T" using T(2) by (rule dw_small)
  have s: "1 \<le> s" "s < 256" using cluster_size_bounds [OF B small C] by (simp_all add: s_def)
  obtain F where f: "GetFATSizeSectors T 0 s 2 B = Some F" by (auto simp: GetFATSizeSectors_def Let_def)
  note fat = fat_size_bounds [OF b(1,3) s T(2) f]
  define Y where "Y = (32 + 2 * F + A - 1) div A * A"
  have Y: "32 + 2 * F \<le> Y" "Y < 32 + 2 * F + A" "A dvd Y"
    using dividend_less_div_times [of A "32 + 2 * F + A - 1"] A(1) unfolding Y_def by (auto intro: le_less_trans [OF div_times_less_eq_dividend])
  have YT: "Y \<le> T" using Y(2) fat(2,3) A(2) T(1) by linarith
  have sys: "dw (dw (dw (32 + 2 * F) + A - 1) div A * A) = Y"
  proof -
    have "F * 130 \<le> T + 640" using fat(2) by (simp add: diff_mult_distrib)
    then have "32 + 2 * F + A - 1 < 2 ^ 32" using A(2) T(2) by simp
    moreover have "Y < 2 ^ 32" using YT T(2) by linarith
    ultimately show ?thesis unfolding Y_def using A(1) by (simp add: dw_small)
  qed
  have d2: "dw (2 * F) = 2 * F" using Y(1) YT T(2) by (intro dw_small) linarith
  have res: "sub32 Y (dw (2 * F)) = Y - 2 * F" unfolding d2 using Y(1) YT T(2) by (intro sub32_small) linarith+
  have "sub32 (T - (Y - 2 * F)) (2 * F) = T - Y" using Y(1) YT T(2) by (subst sub32_small) linarith+
  moreover have "sub32 T (Y - 2 * F) = T - (Y - 2 * F)" using YT T(2) by (intro sub32_small) linarith+
  ultimately have usr: "sub32 (sub32 T (Y - 2 * F)) (dw (2 * F)) = T - Y" unfolding d2 by simp
  define n where "n = (T - Y) div s"
  have ns: "n * s \<le> T - Y" by (simp add: n_def)
  then have "(n + 2) * s \<le> T - Y + 2 * s" by (simp add: algebra_simps)
  also have "\<dots> < F * (s * (B div 4))" using fat(1) Y(1) YT by (simp add: algebra_simps)
  finally have "(n + 2) * s < (F * (B div 4)) * s" by (simp only: mult.assoc mult.commute [of s])
  then have "n + 2 < F * (B div 4)" by (simp only: mult_less_cancel2)
  then have "4 * (n + 2) \<le> F * (4 * (B div 4))" by (simp add: algebra_simps)
  then have big: "4 * (n + 2) \<le> F * B" using b(3) by simp
  have "n * 4 + (B - 1) < (F + 1) * B" using big b(1) by (simp add: algebra_simps)
  then have need: "\<not> (n * 4 + (B - 1)) div B > F" using b(1) by (simp only: not_less div_less_iff_less_mult less_Suc_eq_le [symmetric] Suc_eq_plus1)
  have "1024 * 1024 dvd Y * B" using Y(3) b(4) by (metis mult_dvd_mono dvd_refl)
  moreover have "Y - 2 * F + 2 * F = Y" "Y - 2 * F < 65536" "32 \<le> Y - 2 * F" using Y(1,2) A(2) by linarith+
  ultimately have ok: "layout_ok B T \<lparr> TotalSectors = T, SectorsPerCluster = s, ReservedSectCount = Y - 2 * F, FatSize = F, ClusterCount = n \<rparr>"
    if "65536 \<le> n" "n \<le> 0x0FFFFFFF"
    using that fat(3) big ns YT unfolding layout_ok_def by simp
  have "fat32_plan B P C = Some (if n > 0x0FFFFFFF then Inl InvalidClusterSize else if n < 65536 then Inl InvalidClusterSize
    else Inr \<lparr> TotalSectors = T, SectorsPerCluster = s, ReservedSectCount = Y - 2 * F, FatSize = F, ClusterCount = n \<rparr>)"
  proof -
    have "s mod 256 = s" "A \<noteq> 0" "s \<noteq> 0" using s A(1) by simp_all
    then show ?thesis
      unfolding fat32_plan_def Let_def cluster_size_def [symmetric] s_def [symmetric] T_def [symmetric] A_def [symmetric] NumFATs_def dT
      by (simp only: f sys res usr n_def [symmetric] need bind.simps if_False if_True if_distrib [of Some] refl)
  qed
  then show ?thesis using ok s unfolding T_def [symmetric] s_def [symmetric] by auto
qed


section \<open>The sectors on the device\<close>

lemma length_field [simp]: "length (field n x) = n"
  by (simp add: field_def)

lemma length_chars [simp]: "length (chars s) = length s"
  by (simp add: chars_def)

lemma length_boot_fields: "length (boot_fields B spt tpc hid vol L) = 90"
  by (simp add: boot_fields_def)

lemma length_boot_sector: "512 \<le> B \<Longrightarrow> length (boot_sector B spt tpc hid vol L) = B"
  by (auto simp: boot_sector_def Let_def length_boot_fields)

lemma length_fsinfo_sector: "512 \<le> B \<Longrightarrow> length (fsinfo_sector B L) = B"
  by (simp add: fsinfo_sector_def)

lemma length_first_fat_sector: "512 \<le> B \<Longrightarrow> length (first_fat_sector B) = B"
  by (simp add: first_fat_sector_def)

lemmas sector_lengths = length_boot_sector length_fsinfo_sector length_first_fat_sector

text \<open>Sector \<open>n\<close> of the volume, and the effect of a write on it.\<close>

definition sect :: "(nat \<Rightarrow> u8) \<Rightarrow> nat \<Rightarrow> nat \<Rightarrow> u8 list" where
  "sect c B n = map (\<lambda>i. c (n * B + i)) [0..<B]"

lemma sect_store:
  assumes "length bs = B" "0 < B"
  shows "sect (store (\<lambda>a. a) (n * B) bs c) B m = (if m = n then bs else sect c B m)"
proof (cases "m = n")
  case True
  then show ?thesis using assms by (auto simp: sect_def store_id intro!: nth_equalityI)
next
  case False
  have "\<not> (n * B \<le> m * B + i \<and> m * B + i < n * B + B)" if "i < B" for i
  proof
    assume "n * B \<le> m * B + i \<and> m * B + i < n * B + B"
    then have "(m * B + i) div B = n" using assms(2) by (intro div_nat_eqI) (simp_all add: algebra_simps)
    then show False using that False by simp
  qed
  then show ?thesis using False assms(1) by (auto simp: sect_def store_id)
qed

lemma sect_zero: "\<forall>a. m * B \<le> a \<and> a < (m + 1) * B \<longrightarrow> c a = 0 \<Longrightarrow> sect c B m = replicate B 0"
  by (auto simp: sect_def intro!: nth_equalityI)

lemma put_sector_run:
  assumes disk: "mapped_disk api (\<lambda>a. a) cap content pos" "cap < 2 ^ 64" and "length bytes = B" "0 < B" "B \<le> 4096" and "(n + 1) * B \<le> cap" and "n < 2 ^ 31"
  shows "content (dev (put_sector api large_drive B n bytes s)) = store (\<lambda>a. a) (n * B) bytes (content (dev s))"
proof -
  have "int_sector n = n" using assms(7) by (simp add: int_sector_def dw_def)
  then show ?thesis using write_sectors_mapped [OF disk, of n B 1 bytes large_drive s] assms(3-6) by (auto simp: put_sector_def)
qed

lemma clear_bursts_run:
  assumes disk: "mapped_disk api (\<lambda>a. a) cap content pos" "cap < 2 ^ 64" and B: "0 < B" "B \<le> 4096" and nc: "\<And>d. \<not> cancelled d"
    and lim: "limit + 128 < 2 ^ 32" "(limit + 128) * B \<le> cap"
  shows "i \<le> limit + 128 \<Longrightarrow> \<exists>s'. clear_bursts api large_drive cancelled B limit i s = Some (None, s') \<and>
    (\<forall>a. i * B \<le> a \<and> a < limit * B \<longrightarrow> content (dev s') a = 0) \<and>
    (\<forall>a. a < i * B \<or> (limit + 127) * B \<le> a \<longrightarrow> content (dev s') a = content (dev s) a)"
proof (induction "limit + 128 - i" arbitrary: i s rule: less_induct)
  case less
  show ?case
  proof (cases "i < limit")
    case False
    then have "clear_bursts api large_drive cancelled B limit i s = Some (None, s)" by (subst clear_bursts.simps) simp
    moreover have "\<not> (i * B \<le> a \<and> a < limit * B)" for a using False mult_le_mono1 [of limit i B] by linarith
    ultimately show ?thesis by auto
  next
    case True
    let ?z = "replicate (B * 128) 0 :: u8 list"
    have m: "(i + 128) * B \<le> (limit + 127) * B" using True by (intro mult_le_mono1) simp
    have "(limit + 127) * B \<le> (limit + 128) * B" by (intro mult_le_mono1) simp
    then have "i * B + 128 * B \<le> cap" using m lim(2) by (simp add: algebra_simps)
    then obtain s1 where s1: "write_sectors api large_drive B i 128 ?z s = (int (128 * B), s1)"
      "content (dev s1) = store (\<lambda>a. a) (i * B) (take (128 * B) ?z) (content (dev s))"
      using write_sectors_mapped [OF disk, of i B 128 ?z large_drive s] B(2) by (auto simp: mult.commute)
    have c1: "content (dev s1) a = (if i * B \<le> a \<and> a < (i + 128) * B then 0 else content (dev s) a)" for a
      by (auto simp: s1(2) store_id algebra_simps)
    have "dw (i + 128) = i + 128" using True lim(1) by (intro dw_small) simp
    moreover have "dw (B * 128) = B * 128" using B(2) by (intro dw_small) simp
    ultimately have step: "clear_bursts api large_drive cancelled B limit i s = clear_bursts api large_drive cancelled B limit (i + 128) s1"
      using True nc s1(1) by (subst clear_bursts.simps) (simp add: BurstSize_def mult.commute)
    have "limit + 128 - (i + 128) < limit + 128 - i" "i + 128 \<le> limit + 128" using True by linarith+
    from less.hyps [OF this, of s1]
    obtain s' where s': "clear_bursts api large_drive cancelled B limit (i + 128) s1 = Some (None, s')"
      "\<forall>a. (i + 128) * B \<le> a \<and> a < limit * B \<longrightarrow> content (dev s') a = 0"
      "\<forall>a. a < (i + 128) * B \<or> (limit + 127) * B \<le> a \<longrightarrow> content (dev s') a = content (dev s1) a" by auto
    have "content (dev s') a = 0" if "i * B \<le> a" "a < limit * B" for a
      using s'(2,3) c1 [of a] that by (cases "a < (i + 128) * B") auto
    moreover have "content (dev s') a = content (dev s) a" if "a < i * B \<or> (limit + 127) * B \<le> a" for a
    proof -
      have "a < (i + 128) * B \<or> (limit + 127) * B \<le> a" "\<not> (i * B \<le> a \<and> a < (i + 128) * B)" using that m by (auto simp: algebra_simps)
      then show ?thesis using s'(3) c1 [of a] by auto
    qed
    ultimately show ?thesis using step s'(1) by auto
  qed
qed


text \<open>What a reader of the volume finds in the boot sector: the little-endian number at an offset.\<close>

definition bpb :: "nat \<Rightarrow> nat \<Rightarrow> u8 list \<Rightarrow> nat" where
  "bpb off n boot = unat (load_le (slice off n boot) :: u32)"

lemma boot_sector_fields:
  assumes "fat_sector B" "off + n \<le> 90"
  shows "slice off n (boot_sector B spt tpc hid vol L) = slice off n (boot_fields B spt tpc hid vol L)"
proof -
  let ?f = "boot_fields B spt tpc hid vol L"
  have "slice off n (xs[i := v]) = slice off n xs" if "90 \<le> i" for i v and xs :: "u8 list"
    using that assms(2) by (simp add: slice_def drop_update_swap take_update_cancel)
  moreover have "slice off n (?f @ ys) = slice off n ?f" for ys using assms(2) by (simp add: slice_def length_boot_fields)
  moreover have "B = 512 \<or> 512 \<le> B - 2" using assms(1) by (auto simp: fat_sector_def elim!: dvdE)
  ultimately show ?thesis using assms(1) by (auto simp: boot_sector_def Let_def)
qed

lemma load_field:
  assumes "x < 2 ^ (8 * n)" "n \<le> 4"
  shows "unat (load_le (field n x) :: u32) = x"
proof -
  have "(2::nat) ^ (8 * n) \<le> 2 ^ 32" using assms(2) by (intro power_increasing) auto
  then have x: "unat (of_nat x :: u32) = x" using assms(1) by (simp add: unat_of_nat)
  have "load_le (field n x) = (of_nat x :: u32)"
  proof (rule bit_word_eqI)
    fix i assume i: "i < LENGTH(32)"
    have "\<not> bit x i" if "n \<le> i div 8"
    proof -
      have "(2::nat) ^ (8 * n) \<le> 2 ^ i" using that by (intro power_increasing) auto
      then have "x < 2 ^ i" using assms(1) by (rule less_le_trans [rotated])
      then show ?thesis by (simp add: bit_iff_odd)
    qed
    then show "bit (load_le (field n x) :: u32) i \<longleftrightarrow> bit (of_nat x :: u32) i"
      using i by (cases "i div 8 < n") (simp_all add: bit_load_le field_def store_le_def bit_simps)
  qed
  then show ?thesis using x by simp
qed

text \<open>The fields of the boot sector that describe the layout, as a driver reads them.\<close>

definition describes :: "u8 list \<Rightarrow> nat \<Rightarrow> fat32_layout \<Rightarrow> bool" where
  "describes boot B L \<longleftrightarrow> bpb 11 2 boot = B \<and> bpb 13 1 boot = SectorsPerCluster L \<and> bpb 14 2 boot = ReservedSectCount L \<and>
     bpb 16 1 boot = 2 \<and> bpb 32 4 boot = TotalSectors L \<and> bpb 36 4 boot = FatSize L \<and> bpb 44 4 boot = 2 \<and>
     bpb 48 2 boot = 1 \<and> bpb 50 2 boot = 6 \<and> bpb 510 2 boot = 0xaa55"

lemma slice_skip: "length xs \<le> off \<Longrightarrow> slice off n (xs @ ys) = slice (off - length xs) n ys"
  by (simp add: slice_def)

lemma slice_hit: "length xs = n \<Longrightarrow> slice 0 n (xs @ ys) = xs"
  by (simp add: slice_def)

lemma boot_signature:
  assumes "fat_sector B"
  shows "bpb 510 2 (boot_sector B spt tpc hid vol L) = 0xaa55"
proof -
  let ?f = "boot_fields B spt tpc hid vol L"
  have "slice 510 2 (xs[i := v]) = slice 510 2 xs" if "512 \<le> i" for i v and xs :: "u8 list"
    using that by (simp add: slice_def drop_update_swap take_update_cancel)
  moreover have "slice 510 2 (?f @ replicate 420 0 @ [0x55, 0xaa] @ ys) = [0x55, 0xaa]" for ys
    by (simp add: slice_def length_boot_fields)
  moreover have "B = 512 \<or> 512 \<le> B - 2 \<and> 512 \<le> B - 1" using assms by (auto simp: fat_sector_def)
  ultimately have "slice 510 2 (boot_sector B spt tpc hid vol L) = [0x55, 0xaa]" by (auto simp: boot_sector_def Let_def length_boot_fields)
  then have "bpb 510 2 (boot_sector B spt tpc hid vol L) = unat (load_le [0x55, 0xaa :: u8] :: u32)" by (simp add: bpb_def)
  also have "\<dots> = 0xaa55" by code_simp
  finally show ?thesis .
qed

lemma boot_describes:
  assumes B: "fat_sector B" and L: "layout_ok B T L" "SectorsPerCluster L < 256" "T < 2 ^ 32"
  shows "describes (boot_sector B spt tpc hid vol L) B L"
proof -
  have "B < 2 ^ (8 * 2)" using B by (auto simp: fat_sector_def)
  moreover have "ReservedSectCount L < 2 ^ (8 * 2)" "TotalSectors L < 2 ^ (8 * 4)" "FatSize L < 2 ^ (8 * 4)" "SectorsPerCluster L < 2 ^ (8 * 1)"
    using L by (auto simp: layout_ok_def)
  ultimately show ?thesis
    unfolding describes_def using boot_signature [OF B]
    by (simp add: bpb_def boot_sector_fields [OF B] boot_fields_def slice_skip slice_hit load_field NumFATs_def BackupBootSect_def del: append_Cons)
qed

section \<open>The formatted volume\<close>

text \<open>
  A volume with the layout: boot sector and FSInfo with their copies, two FATs whose first entries
  are the reserved ones and the end of the root directory's chain, everything else up to the end of the
  root directory zero.
\<close>

definition formatted :: "nat \<Rightarrow> u8 list \<Rightarrow> fat32_layout \<Rightarrow> (nat \<Rightarrow> u8) \<Rightarrow> bool" where
  "formatted B boot L c \<longleftrightarrow>
     (let R = ReservedSectCount L; F = FatSize L in
      \<forall>n < R + 2 * F + SectorsPerCluster L.
        sect c B n =
          (if n = 0 \<or> n = 6 then boot else if n = 1 \<or> n = 7 then fsinfo_sector B L
           else if n = R \<or> n = R + F then first_fat_sector B else replicate B 0))"

lemma layout_bounds:
  assumes "layout_ok B T L" "1 \<le> SectorsPerCluster L" "T < 2 ^ 32"
  shows "ReservedSectCount L + 2 * FatSize L + SectorsPerCluster L + 255 \<le> T" "ReservedSectCount L + FatSize L < 2 ^ 31"
proof -
  let ?R = "ReservedSectCount L" and ?F = "FatSize L" and ?s = "SectorsPerCluster L"
  have l: "?R < 65536" "?R + 2 * ?F + ClusterCount L * ?s \<le> T" "65536 \<le> ClusterCount L" using assms(1) by (simp_all add: layout_ok_def)
  have "65536 * ?s \<le> ClusterCount L * ?s" using l(3) by (rule mult_le_mono1)
  then have n: "?R + 2 * ?F + 65536 * ?s \<le> T" using l(2) by linarith
  then show "?R + 2 * ?F + ?s + 255 \<le> T" using assms(2) by linarith
  have "?R + 2 * ?F + 65536 < 2 ^ 32" using n assms(2,3) by linarith
  then show "?R + ?F < 2 ^ 31" using l(1) by simp
qed

lemma put_tables_run:
  assumes disk: "mapped_disk api (\<lambda>a. a) cap content pos" "cap < 2 ^ 64"
    and B: "fat_sector B" and L: "layout_ok B T L" "1 \<le> SectorsPerCluster L" "T < 2 ^ 32" "T * B \<le> cap" and boot: "length boot = B"
    and clear: "\<forall>a < (ReservedSectCount L + 2 * FatSize L + SectorsPerCluster L) * B. content (dev s) a = 0"
    and d: "d = content (dev (put_tables api large_drive B boot L s))"
  shows "formatted B boot L d" "\<forall>a \<ge> (ReservedSectCount L + 2 * FatSize L) * B. d a = content (dev s) a"
proof -
  let ?R = "ReservedSectCount L" and ?F = "FatSize L" and ?st = "\<lambda>n. store (\<lambda>a. a) (n * B)"
  have b: "0 < B" "B \<le> 4096" "512 \<le> B" using B by (auto simp: fat_sector_def)
  have l: "32 \<le> ?R" "?R < 65536" "1 \<le> ?F" "?R + 2 * ?F \<le> T"
    using L(1) by (auto simp: layout_ok_def)
  have put: "content (dev (put_sector api large_drive B n bytes s)) = ?st n bytes (content (dev s))"
    if "length bytes = B" "n < ?R + 2 * ?F" "n < 2 ^ 31" for n bytes s
  proof -
    have "(n + 1) * B \<le> T * B" using that(2) l(4) by (intro mult_le_mono1) simp
    then show ?thesis using put_sector_run [OF disk that(1) b(1,2) _ that(3)] L(4) by simp
  qed
  note layout_bounds(2) [OF L(1-3)]
  then have dd: "d = ?st (?R + ?F) (first_fat_sector B) (?st ?R (first_fat_sector B) (?st 7 (fsinfo_sector B L) (?st 6 boot
      (?st 1 (fsinfo_sector B L) (?st 0 boot (content (dev s)))))))"
    unfolding d put_tables_def Let_def BackupBootSect_def using l boot b(3) by (simp add: put sector_lengths)
  show "formatted B boot L d"
    unfolding formatted_def Let_def dd
  proof (intro allI impI)
    fix n assume n: "n < ?R + 2 * ?F + SectorsPerCluster L"
    have "(n + 1) * B \<le> (?R + 2 * ?F + SectorsPerCluster L) * B" using n by (intro mult_le_mono1) simp
    then have "sect (content (dev s)) B n = replicate B 0" using clear by (intro sect_zero) auto
    then show "sect (?st (?R + ?F) (first_fat_sector B) (?st ?R (first_fat_sector B) (?st 7 (fsinfo_sector B L) (?st 6 boot
      (?st 1 (fsinfo_sector B L) (?st 0 boot (content (dev s)))))))) B n =
          (if n = 0 \<or> n = 6 then boot else if n = 1 \<or> n = 7 then fsinfo_sector B L
           else if n = ?R \<or> n = ?R + ?F then first_fat_sector B else replicate B 0)"
      using l b boot by (simp add: sect_store sect_store [of _ B 0, simplified] sect_store [of _ B 1, simplified] sector_lengths)
  qed
  show "\<forall>a \<ge> (?R + 2 * ?F) * B. d a = content (dev s) a"
  proof (intro allI impI)
    fix a assume a: "(?R + 2 * ?F) * B \<le> a"
    have "\<not> a < n * B + B" if "n < ?R + 2 * ?F" for n
      using mult_le_mono1 [of "n + 1" "?R + 2 * ?F" B] that a by simp
    note this [of 0] this [of 1] this [of 6] this [of 7] this [of ?R] this [of "?R + ?F"]
    then show "d a = content (dev s) a"
      unfolding dd using l boot b(3) by (simp add: store_id sector_lengths)
  qed
qed

section \<open>Properties\<close>

text \<open>
C12. On a volume of a size the format accepts, with the default cluster size or one from a sector to
255 sectors, the computation of the layout never divides by zero, and it either refuses the cluster size or
gives a layout in which each FAT has an entry for every cluster and for the two reserved ones, the
count of reserved sectors fits its 16-bit field, FATs and clusters lie inside the volume, and the data
area starts on a multiple of one megabyte. In particular the test that the FAT is big enough never fails.
\<close>

theorem fat32_plan_layout:
  assumes "fat_sector B" "fat32_check_size B P = None" "C = 0 \<or> B \<le> C \<and> C div B < 256"
  shows "\<exists>r. fat32_plan B P C = Some r \<and>
    (case r of Inl e \<Rightarrow> e = InvalidClusterSize
     | Inr L \<Rightarrow> TotalSectors L = P div B \<and> SectorsPerCluster L = (if C = 0 then default_cluster_size P else C) div B \<and>
         65536 \<le> ClusterCount L \<and> ClusterCount L \<le> 0x0FFFFFFF \<and> 32 \<le> ReservedSectCount L \<and> ReservedSectCount L < 65536 \<and>
         4 * (ClusterCount L + 2) \<le> FatSize L * B \<and>
         ReservedSectCount L + 2 * FatSize L + ClusterCount L * SectorsPerCluster L \<le> P div B \<and>
         1024 * 1024 dvd (ReservedSectCount L + 2 * FatSize L) * B)"
proof -
  obtain r where "fat32_plan B P C = Some r" "case r of Inl e \<Rightarrow> e = InvalidClusterSize
     | Inr L \<Rightarrow> layout_ok B (P div B) L \<and> SectorsPerCluster L = cluster_size P C div B \<and> SectorsPerCluster L < 256"
    using fat32_plan_ok [OF assms] by blast
  then show ?thesis by (cases r) (auto simp: layout_ok_def cluster_size_def)
qed

lemma small_volume_plan:
  "fat32_plan 512 (33 * 1024 * 1024) 0 =
     Some (Inr \<lparr> TotalSectors = 67584, SectorsPerCluster = 1, ReservedSectCount = 1008, FatSize = 520, ClusterCount = 65536 \<rparr>)"
  by (simp add: fat32_plan_def default_cluster_size_def GetFATSizeSectors_def sub32_def dw_def NumFATs_def Let_def)

lemma small_volume_size: "fat_sector 512" "fat32_check_size 512 (33 * 1024 * 1024) = None"
  by (simp_all add: fat_sector_def fat32_check_size_def)

theorem fat32_plan_layout_witness:
  "\<exists>L. fat32_plan 512 (33 * 1024 * 1024) 0 = Some (Inr L) \<and> 4 * (ClusterCount L + 2) \<le> FatSize L * 512 \<and> ClusterCount L = 65536"
  using fat32_plan_layout [OF small_volume_size, of 0] unfolding small_volume_plan by (auto simp only: option.inject sum.simps fat32_layout.simps simp_thms)

text \<open>
Volumes of 64, 128 and 256 MB pass the checks on the size and are refused with the cluster size
chosen for them by default: it gives fewer than 65536 clusters.
\<close>

lemma default_cluster_size_refused:
  "fat32_check_size 512 (64 * 1024 * 1024) = None" "fat32_plan 512 (64 * 1024 * 1024) 0 = Some (Inl InvalidClusterSize)"
  "fat32_check_size 512 (128 * 1024 * 1024) = None" "fat32_plan 512 (128 * 1024 * 1024) 0 = Some (Inl InvalidClusterSize)"
  "fat32_check_size 512 (256 * 1024 * 1024) = None" "fat32_plan 512 (256 * 1024 * 1024) 0 = Some (Inl InvalidClusterSize)"
  by (simp_all add: fat32_check_size_def fat32_plan_def default_cluster_size_def GetFATSizeSectors_def sub32_def dw_def NumFATs_def Let_def)

text \<open>
C11. Formatting a volume on a device that works, once the layout is settled, succeeds: boot sector and
FSInfo and their copies are in sectors 0, 1, 6 and 7, each FAT starts with the two reserved entries and the
end of the root directory's chain, the rest of the reserved sectors, of the FATs and the root
directory's cluster are zero; the boot sector describes the layout to a driver; and at most 254 sectors
behind the root directory's first cluster are touched.
\<close>

theorem FormatLargeFAT32_formats:
  assumes disk: "mapped_disk api (\<lambda>a. a) cap content pos" "cap < 2 ^ 64" "P \<le> cap"
    and env: "\<not> env_open_error env" "env_handle env" "env_geometry env = Some (B, spt, tpc)" "env_partition env = PartInfo P hidden"
      "env_alloc env" "env_zero_alloc env" "\<And>d. \<not> env_cancelled env d"
    and B: "fat_sector B" "fat32_check_size B P = None" "C = 0 \<or> B \<le> C \<and> C div B < 256"
    and plan: "fat32_plan B P C = Some (Inr L)" and fs: "take 3 FSName = ''FAT''"
  shows "\<exists>s' boot. FormatLargeFAT32 api large_drive env C FSName True s = Some (True, None, env_SetVolumeLabel env s') \<and>
    formatted B boot L (content (dev s')) \<and> describes boot B L \<and>
    (\<forall>a \<ge> (ReservedSectCount L + 2 * FatSize L + SectorsPerCluster L + 254) * B. content (dev s') a = content (dev s) a)"
proof -
  let ?S = "ReservedSectCount L + 2 * FatSize L + SectorsPerCluster L"
  define boot where "boot = boot_sector B spt tpc hidden (GetVolumeID (env_time env)) L"
  have L: "layout_ok B (P div B) L" "1 \<le> SectorsPerCluster L" "SectorsPerCluster L < 256"
    using fat32_plan_ok [OF B] plan cluster_size_bounds [OF B] by auto
  have T: "P div B < 2 ^ 32" using B(2) by (auto simp: fat32_check_size_def Let_def split: if_splits)
  have b: "512 \<le> B" "0 < B" "B \<le> 4096" using B(1) by (auto simp: fat_sector_def)
  have PB: "P div B * B \<le> cap" using disk(3) div_times_less_eq_dividend [of P B] by linarith
  note S = layout_bounds(1) [OF L(1,2) T]
  have lim: "dw (dw ?S + BurstSize - 1) = ?S + 127" using S T by (simp add: BurstSize_def dw_small)
  have "(?S + 127 + 128) * B \<le> P div B * B" using S by (intro mult_le_mono1) simp
  then have fits: "(?S + 127 + 128) * B \<le> cap" using PB by linarith
  have "?S + 127 + 128 < 2 ^ 32" using S T by linarith
  from clear_bursts_run [where cancelled = "env_cancelled env" and i = 0 and s = s and large_drive = large_drive, OF disk(1,2) b(2,3) env(7) this fits]
  obtain s1 where s1: "clear_bursts api large_drive (env_cancelled env) B (?S + 127) 0 s = Some (None, s1)"
    "\<forall>a < (?S + 127) * B. content (dev s1) a = 0" "\<forall>a \<ge> (?S + 127 + 127) * B. content (dev s1) a = content (dev s) a" by auto
  define s2 where "s2 = put_tables api large_drive B boot L s1"
  have "?S * B \<le> (?S + 127) * B" by (intro mult_le_mono1) simp
  then have clear: "\<forall>a < ?S * B. content (dev s1) a = 0" using s1(2) by (meson less_le_trans)
  note run = put_tables_run [OF disk(1,2) B(1) L(1,2) T PB _ clear refl, of boot large_drive, folded s2_def]
  have len: "length boot = B" using b(1) by (simp add: boot_def length_boot_sector)
  have far: "(ReservedSectCount L + 2 * FatSize L) * B \<le> a" if "(?S + 254) * B \<le> a" for a
    using that mult_le_mono1 [of "ReservedSectCount L + 2 * FatSize L" "?S + 254" B] by linarith
  have "FormatLargeFAT32 api large_drive env C FSName True s = Some (True, None, env_SetVolumeLabel env s2)"
    unfolding FormatLargeFAT32_def using env B(2) b(1) plan fs s1(1) lim
    by (simp add: NumFATs_def boot_def [symmetric] s2_def [symmetric] not_less)
  moreover have "describes boot B L" unfolding boot_def using boot_describes [OF B(1) L(1,3) T] .
  moreover have "content (dev s2) a = content (dev s) a" if "(?S + 254) * B \<le> a" for a
    using run(2) [OF len] far [OF that] s1(3) that by (simp add: add.assoc)
  ultimately show ?thesis using run(1) [OF len] by blast
qed

definition plain_fat32_env :: "mem_disk fat32_env" where
  "plain_fat32_env = \<lparr> env_time = \<lparr> wYear = 1995, wMonth = 12, wDay = 26, wHour = 21, wMinute = 55, wSecond = 41, wMilliseconds = 940 \<rparr>,
     env_open_error = False, env_handle = True, env_geometry = Some (512, 63, 255), env_partition = PartInfo (33 * 1024 * 1024) 2048,
     env_alloc = True, env_zero_alloc = True, env_cancelled = (\<lambda>d. False), env_WritePBR = id, env_SetVolumeLabel = id \<rparr>"

theorem FormatLargeFAT32_formats_witness:
  "\<exists>s' boot. FormatLargeFAT32 (mem_api None) False plain_fat32_env 0 ''FAT32'' True \<lparr> dev = (\<lambda>a. 7, 3, 0), LastWriteError = NoWriteError \<rparr> =
      Some (True, None, s') \<and> sect (fst (dev s')) 512 6 = boot \<and> describes boot 512 (\<lparr> TotalSectors = 67584, SectorsPerCluster = 1, ReservedSectCount = 1008, FatSize = 520, ClusterCount = 65536 \<rparr>) \<and>
      fst (dev s') 34603007 = 7"
proof -
  have "mapped_disk (mem_api None) (\<lambda>a. a) (33 * 1024 * 1024) fst (fst \<circ> snd)"
    by (auto simp: mapped_disk_def mem_api_def)
  from FormatLargeFAT32_formats [OF this _ _ _ _ _ _ _ _ _ small_volume_size _ small_volume_plan, of plain_fat32_env 63 255 2048 "''FAT32''" False
    "\<lparr> dev = (\<lambda>a. 7, 3, 0), LastWriteError = NoWriteError \<rparr>"]
  show ?thesis by (auto simp: plain_fat32_env_def formatted_def Let_def)
qed

text \<open>The volume serial number of the example in the comment.\<close>

lemma GetVolumeID_example: "GetVolumeID (env_time plain_fat32_env) = 0x1d023578"
  by (simp add: GetVolumeID_def plain_fat32_env_def Let_def) 

end
