(* ===== verification/Partition_Layout.thy ===== *)
theory Partition_Layout
  imports Wipe_Drive
begin

text \<open>
  The partition table of a drive: \<open>ClearPartition\<close>, \<open>CreatePartition\<close> and \<open>RefreshDriveLayout\<close> of
  \<open>src/src/drive.c\<close>.

  The settings of the dialog, the embedded image of the UEFI:NTFS partition, the three IOCTLs and new
  GUIDs are arguments. Unsigned 64-bit results are reduced modulo \<open>2 ^ 64\<close>. The program is compiled
  with assertions enabled, and a failing one ends it: the result is \<^term>\<open>None\<close>, as for a division by
  0 and an overflow of a signed integer.
\<close>

section \<open>Data\<close>

datatype partition_style = PARTITION_STYLE_MBR | PARTITION_STYLE_GPT | PARTITION_STYLE_SFD

datatype fs_type =
  FS_UNKNOWN | FS_FAT16 | FS_FAT32 | FS_NTFS | FS_UDF | FS_EXFAT | FS_REFS | FS_EXT2 | FS_EXT3 | FS_EXT4 | FS_MAX

definition XP_MSR :: u8 where "XP_MSR = 0x01"

definition XP_ESP :: u8 where "XP_ESP = 0x02"

definition XP_UEFI_NTFS :: u8 where "XP_UEFI_NTFS = 0x04"

definition XP_COMPAT :: u8 where "XP_COMPAT = 0x08"

definition XP_PERSISTENCE :: u8 where "XP_PERSISTENCE = 0x10"

definition PI_MAIN :: nat where "PI_MAIN = 0"

definition PI_ESP :: nat where "PI_ESP = 1"

definition PI_CASPER :: nat where "PI_CASPER = 2"

definition PI_UEFI_NTFS :: nat where "PI_UEFI_NTFS = 3"

definition PI_MAX :: nat where "PI_MAX = 4"

definition MAX_PARTITIONS :: nat where "MAX_PARTITIONS = 16"

record drive_partition =
  Name :: string
  Offset :: nat
  Size :: nat

text \<open>The fields of \<open>SelectedDrive\<close> that are used here, and the global \<open>partition_index\<close>.\<close>

record RUFUS_DRIVE_INFO =
  DiskSize :: nat
  SectorsPerTrack :: nat
  SectorSize :: nat
  FixedMedia :: bool
  Partition :: "drive_partition list"
  partition_index :: "nat list"

text \<open>The settings.\<close>

record layout_settings =
  item_cluster :: nat
  old_bios_fixes :: bool
  BuildNumber :: nat
  write_as_esp :: bool
  bootable :: bool
  persistence_size :: nat
  uefi_ntfs_size :: nat
  uefi_ntfs_img :: "u8 list option"
  TickCount :: nat

section \<open>The layout\<close>

definition w64 :: "nat \<Rightarrow> nat" where
  "w64 x = x mod 2 ^ 64"

definition FLOOR_ALIGN :: "nat \<Rightarrow> nat \<Rightarrow> nat option" where
  "FLOOR_ALIGN x y = (if y = 0 then None else Some (x div y * y))"

definition CEILING_ALIGN :: "nat \<Rightarrow> nat \<Rightarrow> nat option" where
  "CEILING_ALIGN x y = (if y = 0 then None else Some (w64 (w64 (x + y - 1) div y * y)))"

text \<open>The same on two signed 64-bit integers.\<close>

definition CEILING_ALIGN_signed :: "nat \<Rightarrow> nat \<Rightarrow> nat option" where
  "CEILING_ALIGN_signed x y = (if x + y \<ge> 2 ^ 63 then None else CEILING_ALIGN x y)"

definition KB :: nat where "KB = 1024"

definition MB :: nat where "MB = 1024 * KB"

record layout_state =
  parts :: "drive_partition list"
  index :: "nat list"
  pidx :: nat
  extra :: u8

definition set_part :: "nat \<Rightarrow> string \<Rightarrow> nat \<Rightarrow> layout_state \<Rightarrow> layout_state" where
  "set_part i name sz L = L\<lparr> parts := (parts L)[i := (parts L ! i)\<lparr> Name := name, Size := sz \<rparr>] \<rparr>"

definition set_offset :: "nat \<Rightarrow> nat \<Rightarrow> layout_state \<Rightarrow> layout_state" where
  "set_offset i off L = L\<lparr> parts := (parts L)[i := (parts L ! i)\<lparr> Offset := off \<rparr>] \<rparr>"

text \<open>Alignment to the cluster size, when that is a multiple of the sector size.\<close>

definition cluster_align :: "nat \<Rightarrow> nat \<Rightarrow> nat \<Rightarrow> nat option" where
  "cluster_align ss cluster x = (if ss = 0 then None else if cluster mod ss = 0 then FLOOR_ALIGN x cluster else Some x)"

definition first_offset :: "layout_settings \<Rightarrow> partition_style \<Rightarrow> nat \<Rightarrow> nat \<Rightarrow> nat option" where
  "first_offset env style bytes_per_track ClusterSize =
     (if style = PARTITION_STYLE_GPT \<or> \<not> old_bios_fixes env then Some (1 * MB)
      else do {
        off \<leftarrow> CEILING_ALIGN_signed bytes_per_track ClusterSize;
        Some (w64 (off * 2))
      })"

text \<open>A partition in front of the main one, and the offset of its successor.\<close>

definition front_partition :: "nat \<Rightarrow> nat \<Rightarrow> nat \<Rightarrow> string \<Rightarrow> nat \<Rightarrow> layout_state \<Rightarrow> layout_state option" where
  "front_partition ss bytes_per_track ClusterSize name sz L = do {
     let pi = pidx L;
     let L = set_part pi name sz L;
     let past = w64 (Offset (parts L ! pi) + sz);
     off \<leftarrow> CEILING_ALIGN past bytes_per_track;
     off \<leftarrow> cluster_align ss ClusterSize off;
     if \<not> off \<ge> past then None
     else Some ((set_offset (pi + 1) off L)\<lparr> pidx := pi + 1 \<rparr>)
   }"

definition esp_size :: nat where
  "esp_size = 260 * MB"

definition front_partitions ::
  "layout_settings \<Rightarrow> bool \<Rightarrow> partition_style \<Rightarrow> nat \<Rightarrow> nat \<Rightarrow> nat \<Rightarrow> layout_state \<Rightarrow> layout_state option" where
  "front_partitions env fixed style ss bytes_per_track ClusterSize L = do {
     L \<leftarrow> (if (fixed \<or> BuildNumber env > 15000) \<and> extra L AND XP_ESP \<noteq> 0 then
             if style \<noteq> PARTITION_STYLE_GPT then None
             else do {
               L \<leftarrow> front_partition ss bytes_per_track ClusterSize ''EFI System Partition'' esp_size (L\<lparr> index := (index L)[PI_ESP := pidx L] \<rparr>);
               Some (L\<lparr> extra := extra L AND NOT XP_ESP \<rparr>)
             }
           else Some L);
     if extra L AND XP_MSR \<noteq> 0 then
       if style \<noteq> PARTITION_STYLE_GPT then None
       else do {
         L \<leftarrow> front_partition ss bytes_per_track ClusterSize ''Microsoft Reserved Partition'' (128 * MB) L;
         Some (L\<lparr> extra := extra L AND NOT XP_MSR \<rparr>)
       }
     else Some L
   }"

definition main_partition :: "bool \<Rightarrow> layout_state \<Rightarrow> layout_state" where
  "main_partition esp L =
     (let mi = pidx L in
      L\<lparr> index := (index L)[PI_MAIN := mi], pidx := mi + 1,
         parts := (parts L)[mi := (parts L ! mi)\<lparr> Name := (if esp then ''EFI System Partition'' else ''Main Data Partition'') \<rparr>] \<rparr>)"

definition add_part :: "string \<Rightarrow> nat \<Rightarrow> layout_state \<Rightarrow> layout_state" where
  "add_part name sz L = (set_part (pidx L) name sz L)\<lparr> pidx := pidx L + 1 \<rparr>"

definition back_partitions :: "layout_settings \<Rightarrow> nat \<Rightarrow> layout_state \<Rightarrow> layout_state option" where
  "back_partitions env bytes_per_track L = do {
     L \<leftarrow> (if extra L AND XP_PERSISTENCE \<noteq> 0 then
             if persistence_size env = 0 then None
             else do {
               sz \<leftarrow> CEILING_ALIGN (persistence_size env) bytes_per_track;
               Some (add_part ''Linux Persistence'' sz (L\<lparr> index := (index L)[PI_CASPER := pidx L] \<rparr>))
             }
           else Some L);
     if extra L AND XP_ESP \<noteq> 0 then do {
       sz \<leftarrow> CEILING_ALIGN_signed esp_size bytes_per_track;
       Some (add_part ''EFI System Partition'' sz (L\<lparr> index := (index L)[PI_ESP := pidx L] \<rparr>))
     }
     else if extra L AND XP_UEFI_NTFS \<noteq> 0 then do {
       sz \<leftarrow> CEILING_ALIGN (uefi_ntfs_size env) bytes_per_track;
       Some (add_part ''UEFI:NTFS'' sz (L\<lparr> index := (index L)[PI_UEFI_NTFS := pidx L] \<rparr>))
     }
     else if extra L AND XP_COMPAT \<noteq> 0 then Some (add_part ''BIOS Compatibility'' bytes_per_track L)
     else Some L
   }"

text \<open>The offsets of the partitions behind the main one, from the end of the drive down.\<close>

fun place_back :: "nat \<Rightarrow> nat \<Rightarrow> nat \<Rightarrow> nat \<Rightarrow> drive_partition list \<Rightarrow> (nat \<times> drive_partition list) option" where
  "place_back bytes_per_track mi i last_offset ps =
     (if i > mi then
        if \<not> Size (ps ! i) < last_offset then None
        else do {
          off \<leftarrow> FLOOR_ALIGN (last_offset - Size (ps ! i)) bytes_per_track;
          place_back bytes_per_track mi (i - 1) off (ps[i := (ps ! i)\<lparr> Offset := off \<rparr>])
        }
      else Some (last_offset, ps))"

declare place_back.simps [simp del]

text \<open>The end of the space for partitions: a GPT has a copy in the last 33 sectors.\<close>

definition usable_end :: "partition_style \<Rightarrow> nat \<Rightarrow> nat \<Rightarrow> nat" where
  "usable_end style disk ss = (if style = PARTITION_STYLE_GPT then w64 (disk + 2 ^ 64 - 33 * ss) else disk)"

definition empty_partition :: drive_partition where
  "empty_partition = \<lparr> Name = [], Offset = 0, Size = 0 \<rparr>"

text \<open>The layout, and whether it is accepted.\<close>

definition compute_layout ::
  "layout_settings \<Rightarrow> RUFUS_DRIVE_INFO \<Rightarrow> partition_style \<Rightarrow> u8 \<Rightarrow> (bool \<times> layout_state) option" where
  "compute_layout env drive style extra_partitions = do {
     let ss = SectorSize drive;
     let bytes_per_track = SectorsPerTrack drive * ss;
     if bytes_per_track \<ge> 2 ^ 63 then None
     else do {
       let ClusterSize = (if item_cluster env = 0 then 0x200 else item_cluster env);
       let L = \<lparr> parts = replicate MAX_PARTITIONS empty_partition, index = replicate PI_MAX 0, pidx = 0, extra = extra_partitions \<rparr>;
       off \<leftarrow> first_offset env style bytes_per_track ClusterSize;
       L \<leftarrow> front_partitions env (FixedMedia drive) style ss bytes_per_track ClusterSize (set_offset 0 off L);
       let mi = pidx L;
       L \<leftarrow> back_partitions env bytes_per_track (main_partition (write_as_esp env) L);
       if pidx L > MAX_PARTITIONS then None
       else do {
         (last_offset, ps) \<leftarrow> place_back bytes_per_track mi (pidx L - 1) (usable_end style (DiskSize drive) ss) (parts L);
         if \<not> last_offset > Offset (ps ! mi) then None
         else do {
           sz \<leftarrow> FLOOR_ALIGN (last_offset - Offset (ps ! mi)) bytes_per_track;
           sz \<leftarrow> cluster_align ss ClusterSize sz;
           Some (sz > 0, L\<lparr> parts := ps[mi := (ps ! mi)\<lparr> Size := sz \<rparr>] \<rparr>)
         }
       }
     }
   }"

section \<open>The partition table\<close>

datatype gpt_type =
  PARTITION_MICROSOFT_DATA | PARTITION_GENERIC_ESP | PARTITION_LINUX_DATA | PARTITION_MICROSOFT_RESERVED

text \<open>The MBR part of an entry has the boot indicator and the type, the GPT part type, identifier, attributes and name.\<close>

datatype entry_kind = Mbr bool u8 | Gpt gpt_type nat u64 string

record PARTITION_INFORMATION_EX =
  StartingOffset :: nat
  PartitionLength :: nat
  PartitionNumber :: nat
  RewritePartition :: bool
  Kind :: entry_kind

datatype layout_kind = MbrLayout nat | GptLayout nat int nat nat

record DRIVE_LAYOUT =
  PartitionCount :: nat
  LayoutKind :: layout_kind
  PartitionEntry :: "PARTITION_INFORMATION_EX list"

datatype CREATE_DISK = CreateMbr nat | CreateGpt nat nat

definition RUFUS_EXTRA_PARTITION_TYPE :: u8 where "RUFUS_EXTRA_PARTITION_TYPE = 0xea"

definition MBR_UEFI_MARKER :: nat where "MBR_UEFI_MARKER = 0x49464555"

text \<open>The type of the main partition in an MBR; \<^term>\<open>None\<close> when the file system is not supported.\<close>

fun mbr_main_type :: "fs_type \<Rightarrow> u8 option" where
  "mbr_main_type FS_FAT16 = Some 0x0e"
| "mbr_main_type FS_NTFS = Some 0x07"
| "mbr_main_type FS_EXFAT = Some 0x07"
| "mbr_main_type FS_UDF = Some 0x07"
| "mbr_main_type FS_REFS = Some 0x07"
| "mbr_main_type FS_EXT2 = Some 0x83"
| "mbr_main_type FS_EXT3 = Some 0x83"
| "mbr_main_type FS_EXT4 = Some 0x83"
| "mbr_main_type FS_FAT32 = Some 0x0c"
| "mbr_main_type FS_UNKNOWN = None"
| "mbr_main_type FS_MAX = None"

definition mbr_kind :: "bool \<Rightarrow> fs_type \<Rightarrow> bool \<Rightarrow> string \<Rightarrow> entry_kind option" where
  "mbr_kind boot file_system is_main name = do {
     (indicator, type) \<leftarrow> (if is_main then do { t \<leftarrow> mbr_main_type file_system; Some (boot, t) } else Some (False, 0));
     Some (Mbr indicator
       (if name = ''EFI System Partition'' \<or> name = ''UEFI:NTFS'' then 0xef
        else if name = ''Linux Persistence'' then 0x83
        else if name = ''BIOS Compatibility'' then RUFUS_EXTRA_PARTITION_TYPE
        else type))
   }"

text \<open>The attributes of a basic data partition, as the Windows headers define them.\<close>

definition GPT_BASIC_DATA_ATTRIBUTE_NO_DRIVE_LETTER :: u64 where "GPT_BASIC_DATA_ATTRIBUTE_NO_DRIVE_LETTER = 0x8000000000000000"

definition GPT_BASIC_DATA_ATTRIBUTE_READ_ONLY :: u64 where "GPT_BASIC_DATA_ATTRIBUTE_READ_ONLY = 0x1000000000000000"

definition gpt_kind :: "nat \<Rightarrow> string \<Rightarrow> entry_kind" where
  "gpt_kind guid name =
     (if name = ''UEFI:NTFS'' then Gpt PARTITION_MICROSOFT_DATA guid (GPT_BASIC_DATA_ATTRIBUTE_NO_DRIVE_LETTER + GPT_BASIC_DATA_ATTRIBUTE_READ_ONLY) name
      else if name = ''EFI System Partition'' then Gpt PARTITION_GENERIC_ESP guid 0 name
      else if name = ''Linux Persistence'' then Gpt PARTITION_LINUX_DATA guid 0 name
      else if name = ''Microsoft Reserved Partition'' then Gpt PARTITION_MICROSOFT_RESERVED guid 0 name
      else Gpt PARTITION_MICROSOFT_DATA guid 0 name)"

section \<open>Writing it\<close>

text \<open>What the system offers: memory, new GUIDs and the IOCTLs.\<close>

record 'd layout_sys =
  calloc_ok :: "nat \<Rightarrow> bool"
  new_guid :: "nat \<Rightarrow> nat"
  ioctl_create_disk :: "CREATE_DISK \<Rightarrow> 'd \<Rightarrow> bool \<times> 'd"
  ioctl_set_layout :: "DRIVE_LAYOUT \<Rightarrow> 'd \<Rightarrow> bool \<times> 'd"
  ioctl_update :: "'d \<Rightarrow> bool \<times> 'd"

definition ClearPartition :: "'d disk_api \<Rightarrow> bool \<Rightarrow> 'd layout_sys \<Rightarrow> nat \<Rightarrow> nat \<Rightarrow> 'd io_state \<Rightarrow> bool \<times> 'd io_state" where
  "ClearPartition api large_drive sys off n s =
     (if \<not> calloc_ok sys n then (False, s)
      else
        (case fp_seek api (dev s) off of
           None \<Rightarrow> (False, s)
         | Some d \<Rightarrow>
             (case WriteFileWithRetry api large_drive (s\<lparr> dev := d \<rparr>) (replicate n 0) WRITE_RETRIES of
                (ok, written, s') \<Rightarrow> (ok, s'))))"

definition RefreshDriveLayout :: "'d layout_sys \<Rightarrow> 'd io_state \<Rightarrow> bool \<times> 'd io_state" where
  "RefreshDriveLayout sys s = (case ioctl_update sys (dev s) of (ok, d) \<Rightarrow> (ok, s\<lparr> dev := d \<rparr>))"

definition entry_of :: "layout_settings \<Rightarrow> 'd layout_sys \<Rightarrow> partition_style \<Rightarrow> fs_type \<Rightarrow> nat \<Rightarrow> nat \<Rightarrow> drive_partition \<Rightarrow> PARTITION_INFORMATION_EX option" where
  "entry_of env sys style file_system mi i p = do {
     kind \<leftarrow> (if style = PARTITION_STYLE_MBR then mbr_kind (bootable env) file_system (i = mi) (Name p) else Some (gpt_kind (new_guid sys (i + 1)) (Name p)));
     Some \<lparr> StartingOffset = Offset p, PartitionLength = Size p, PartitionNumber = i + 1, RewritePartition = True, Kind = kind \<rparr>
   }"

text \<open>The loop over the partitions; \<^term>\<open>None\<close> stands for the return at an unsupported file system.\<close>

fun build_entries ::
  "'d disk_api \<Rightarrow> bool \<Rightarrow> layout_settings \<Rightarrow> 'd layout_sys \<Rightarrow> partition_style \<Rightarrow> fs_type \<Rightarrow> nat \<Rightarrow> nat \<Rightarrow> nat \<Rightarrow> drive_partition list \<Rightarrow>
   'd io_state \<Rightarrow> PARTITION_INFORMATION_EX list option \<times> 'd io_state" where
  "build_entries api large_drive env sys style file_system size_to_clear mi i [] s = (Some [], s)"
| "build_entries api large_drive env sys style file_system size_to_clear mi i (p # ps) s =
     (let s = snd (ClearPartition api large_drive sys (Offset p) (min size_to_clear (Size p) mod 2 ^ 32) s) in
      case entry_of env sys style file_system mi i p of
        None \<Rightarrow> (None, s)
      | Some e \<Rightarrow>
          (case build_entries api large_drive env sys style file_system size_to_clear mi (i + 1) ps s of
             (None, s) \<Rightarrow> (None, s)
           | (Some es, s) \<Rightarrow> (Some (e # es), s)))"

definition write_uefi_ntfs :: "'d disk_api \<Rightarrow> bool \<Rightarrow> layout_settings \<Rightarrow> layout_state \<Rightarrow> 'd io_state \<Rightarrow> bool \<times> 'd io_state" where
  "write_uefi_ntfs api large_drive env L s =
     (if extra L AND XP_UEFI_NTFS = 0 then (True, s)
      else
        (case fp_seek api (dev s) (Offset (parts L ! (index L ! PI_UEFI_NTFS))) of
           None \<Rightarrow> (False, s)
         | Some d \<Rightarrow>
             (case uefi_ntfs_img env of
                None \<Rightarrow> (False, s\<lparr> dev := d \<rparr>)
              | Some img \<Rightarrow>
                  (case WriteFileWithRetry api large_drive (s\<lparr> dev := d \<rparr>) img WRITE_RETRIES of (ok, written, s') \<Rightarrow> (ok, s')))))"

definition disk_layout ::
  "layout_settings \<Rightarrow> 'd layout_sys \<Rightarrow> RUFUS_DRIVE_INFO \<Rightarrow> partition_style \<Rightarrow> bool \<Rightarrow> nat \<Rightarrow> PARTITION_INFORMATION_EX list \<Rightarrow> CREATE_DISK \<times> DRIVE_LAYOUT" where
  "disk_layout env sys drive style mbr_uefi_marker pi entries =
     (if style = PARTITION_STYLE_MBR then
        let sig = (if mbr_uefi_marker then MBR_UEFI_MARKER else TickCount env mod 2 ^ 32) in
        (CreateMbr sig, \<lparr> PartitionCount = 4, LayoutKind = MbrLayout sig, PartitionEntry = entries \<rparr>)
      else
        (CreateGpt (new_guid sys 0) MAX_PARTITIONS,
         \<lparr> PartitionCount = pi,
           LayoutKind = GptLayout (34 * SectorSize drive mod 2 ^ 32) (int (DiskSize drive) - int (67 * SectorSize drive mod 2 ^ 32)) MAX_PARTITIONS (new_guid sys 0),
           PartitionEntry = entries \<rparr>))"

definition put_layout :: "'d layout_sys \<Rightarrow> CREATE_DISK \<Rightarrow> DRIVE_LAYOUT \<Rightarrow> 'd io_state \<Rightarrow> bool \<times> 'd io_state" where
  "put_layout sys create layout s =
     (case ioctl_create_disk sys create (dev s) of
        (False, d) \<Rightarrow> (False, s\<lparr> dev := d \<rparr>)
      | (True, d) \<Rightarrow>
          let s = snd (RefreshDriveLayout sys (s\<lparr> dev := d \<rparr>)) in
          (case ioctl_set_layout sys layout (dev s) of
             (False, d) \<Rightarrow> (False, s\<lparr> dev := d \<rparr>)
           | (True, d) \<Rightarrow> RefreshDriveLayout sys (s\<lparr> dev := d \<rparr>)))"

definition CreatePartition ::
  "'d disk_api \<Rightarrow> bool \<Rightarrow> layout_settings \<Rightarrow> 'd layout_sys \<Rightarrow> partition_style \<Rightarrow> fs_type \<Rightarrow> bool \<Rightarrow> u8 \<Rightarrow> RUFUS_DRIVE_INFO \<Rightarrow> 'd io_state \<Rightarrow>
   (bool \<times> RUFUS_DRIVE_INFO \<times> 'd io_state) option" where
  "CreatePartition api large_drive env sys style file_system mbr_uefi_marker extra_partitions drive s =
     (if style = PARTITION_STYLE_SFD then Some (True, drive, s)
      else if extra_partitions AND XP_UEFI_NTFS \<noteq> 0 \<and> uefi_ntfs_size env = 0 then Some (False, drive, s)
      else do {
        (ok, L) \<leftarrow> compute_layout env drive style extra_partitions;
        let drive = drive\<lparr> Partition := parts L, partition_index := index L \<rparr>;
        if \<not> ok then Some (False, drive, s)
        else
          (case build_entries api large_drive env sys style file_system (MAX_SECTORS_TO_CLEAR * SectorSize drive mod 2 ^ 32) (index L ! PI_MAIN) 0
                  (take (pidx L) (parts L)) s of
             (None, s) \<Rightarrow> Some (False, drive, s)
           | (Some entries, s) \<Rightarrow>
               (case write_uefi_ntfs api large_drive env L s of
                  (False, s) \<Rightarrow> Some (False, drive, s)
                | (True, s) \<Rightarrow>
                    (case disk_layout env sys drive style mbr_uefi_marker (pidx L) entries of
                       (create, layout) \<Rightarrow>
                         (case put_layout sys create layout s of (ok, s) \<Rightarrow> Some (ok, drive, s)))))
      })"

section \<open>Ordered partitions\<close>

text \<open>
  The partitions from \<open>a\<close> up to \<open>b\<close> do not overlap and lie in ascending order, the last of them in
  front of \<open>lim\<close>.
\<close>

fun ordered :: "drive_partition list \<Rightarrow> nat \<Rightarrow> nat \<Rightarrow> nat \<Rightarrow> bool" where
  "ordered ps a 0 lim = True"
| "ordered ps a (Suc b) lim = (a \<le> b \<longrightarrow> ordered ps a b (Offset (ps ! b)) \<and> Offset (ps ! b) + Size (ps ! b) \<le> lim)"

lemma ordered_empty [simp]: "b \<le> a \<Longrightarrow> ordered ps a b lim"
  by (cases b) auto

lemma ordered_cong:
  "(\<And>i. a \<le> i \<Longrightarrow> i < b \<Longrightarrow> ps ! i = qs ! i) \<Longrightarrow> ordered ps a b lim = ordered qs a b lim"
  by (induction b arbitrary: lim) auto

lemma ordered_append: "ordered ps m b lim \<Longrightarrow> m < b \<Longrightarrow> a \<le> m \<Longrightarrow> ordered ps a m (Offset (ps ! m)) \<Longrightarrow> ordered ps a b lim"
proof (induction b arbitrary: lim)
  case (Suc b)
  then show ?case by (cases "m = b") auto
qed simp

lemma ordered_insert:
  assumes "ordered ps a m (Offset (ps ! m))" "ordered ps (m + 1) b lim"
    and "Offset (ps ! m) + Size (ps ! m) \<le> (if m + 1 = b then lim else Offset (ps ! (m + 1)))" "a \<le> m" "m < b"
  shows "ordered ps a b lim"
proof (cases "m + 1 = b")
  case True
  then show ?thesis using assms by auto
next
  case False
  then have "ordered ps a (m + 1) (Offset (ps ! (m + 1)))" using assms by simp
  then show ?thesis using False assms by (intro ordered_append [OF assms(2)]) auto
qed

lemma ordered_last: "ordered ps a b lim \<Longrightarrow> a \<le> i \<Longrightarrow> i < b \<Longrightarrow> Offset (ps ! i) + Size (ps ! i) \<le> lim"
proof (induction b arbitrary: lim)
  case (Suc b)
  then show ?case by (cases "i = b") (fastforce dest: Suc.IH [where lim = "Offset (ps ! b)"])+
qed simp

lemma ordered_disjoint: "ordered ps a b lim \<Longrightarrow> a \<le> i \<Longrightarrow> i < j \<Longrightarrow> j < b \<Longrightarrow> Offset (ps ! i) + Size (ps ! i) \<le> Offset (ps ! j)"
proof (induction b arbitrary: lim)
  case (Suc b)
  then show ?case by (cases "j = b") (auto intro: ordered_last)
qed simp

lemma FLOOR_ALIGN_Some: "FLOOR_ALIGN x y = Some z \<Longrightarrow> z \<le> x \<and> y dvd z"
  by (auto simp: FLOOR_ALIGN_def split: if_splits)

lemma cluster_align_Some: "cluster_align ss c x = Some z \<Longrightarrow> z \<le> x"
  by (auto simp: cluster_align_def dest: FLOOR_ALIGN_Some split: if_splits)

lemma CEILING_ALIGN_Some: "CEILING_ALIGN x y = Some z \<Longrightarrow> z < x + y"
proof -
  assume "CEILING_ALIGN x y = Some z"
  then have y: "0 < y" and z: "z = w64 (w64 (x + y - 1) div y * y)" by (auto simp: CEILING_ALIGN_def split: if_splits)
  have "z \<le> w64 (x + y - 1) div y * y" unfolding z w64_def by (rule mod_less_eq_dividend)
  also have "\<dots> \<le> w64 (x + y - 1)" by simp
  also have "\<dots> \<le> x + y - 1" unfolding w64_def by (rule mod_less_eq_dividend)
  finally show "z < x + y" using y by linarith
qed

lemma place_back_ordered:
  "place_back bpt mi i lim ps = Some (lim', ps') \<Longrightarrow> i < length ps \<Longrightarrow> mi \<le> i \<Longrightarrow>
   length ps' = length ps \<and> (\<forall>j. j \<le> mi \<or> i < j \<longrightarrow> ps' ! j = ps ! j) \<and> lim' \<le> lim \<and>
   ordered ps' (mi + 1) (i + 1) lim \<and> lim' = (if mi = i then lim else Offset (ps' ! (mi + 1)))"
proof (induction bpt mi i lim ps rule: place_back.induct)
  case (1 bpt mi i lim ps)
  show ?case
  proof (cases "i > mi")
    case False
    then show ?thesis using 1(2,4) by (subst (asm) place_back.simps) auto
  next
    case True
    then obtain off where off: "\<not> \<not> Size (ps ! i) < lim" "FLOOR_ALIGN (lim - Size (ps ! i)) bpt = Some off"
      and rec: "place_back bpt mi (i - 1) off (ps[i := (ps ! i)\<lparr> Offset := off \<rparr>]) = Some (lim', ps')"
      using 1(2) by (subst (asm) (2) place_back.simps) (auto simp: bind_eq_Some_conv split: if_splits)
    note IH = 1(1) [OF True off(1) off(2) rec]
    have fit: "off + Size (ps ! i) \<le> lim" using FLOOR_ALIGN_Some [OF off(2)] off(1) by linarith
    have "i - 1 + 1 = i" using True by simp
    have le: "i - 1 < length (ps[i := (ps ! i)\<lparr> Offset := off \<rparr>])" "mi \<le> i - 1" using True 1(3) by auto
    note IH = IH [OF this, unfolded \<open>i - 1 + 1 = i\<close>]
    have at: "ps' ! i = (ps ! i)\<lparr> Offset := off \<rparr>" using IH True 1(3) by auto
    have "ordered ps' (mi + 1) i off" "lim' \<le> off" "lim' = (if mi = i - 1 then off else Offset (ps' ! (mi + 1)))" using IH by auto
    moreover from this(1) have "ordered ps' (mi + 1) (i + 1) lim" using at fit True by simp
    ultimately show ?thesis using IH True 1(3) at fit by (cases "mi = i - 1") auto
  qed
qed

text \<open>The partitions in front of the main one.\<close>

definition front_ok :: "layout_state \<Rightarrow> bool" where
  "front_ok L \<longleftrightarrow> length (parts L) = MAX_PARTITIONS \<and> length (index L) = PI_MAX \<and> ordered (parts L) 0 (pidx L) (Offset (parts L ! pidx L))"

lemma front_partition_ok:
  assumes run: "front_partition ss bpt c name sz L = Some L'" and ok: "front_ok L" "pidx L < 2" and nw: "Offset (parts L ! pidx L) + sz < 2 ^ 64"
  shows "front_ok L' \<and> pidx L' = pidx L + 1 \<and> extra L' = extra L \<and> Offset (parts L' ! pidx L') < Offset (parts L ! pidx L) + sz + bpt"
proof -
  let ?i = "pidx L" and ?past = "Offset (parts L ! pidx L) + sz"
  have len: "length (parts L) = 16" "length (index L) = 4" using ok(1) by (simp_all add: front_ok_def MAX_PARTITIONS_def PI_MAX_def)
  have past: "w64 (Offset (parts (set_part ?i name sz L) ! ?i) + sz) = ?past"
    using nw len ok(2) by (simp add: w64_def set_part_def)
  from run obtain off off' where off: "CEILING_ALIGN ?past bpt = Some off" "cluster_align ss c off = Some off'" "?past \<le> off'"
    and L': "L' = (set_offset (?i + 1) off' (set_part ?i name sz L))\<lparr> pidx := ?i + 1 \<rparr>"
    unfolding front_partition_def Let_def past by (auto simp: bind_eq_Some_conv split: if_splits)
  have "off' < ?past + bpt" using CEILING_ALIGN_Some [OF off(1)] cluster_align_Some [OF off(2)] by linarith
  moreover have "ordered (parts L') 0 ?i (Offset (parts L ! ?i))"
    using ok(1) ordered_cong [of 0 ?i "parts L'" "parts L"] by (auto simp: front_ok_def L' set_offset_def set_part_def)
  ultimately show ?thesis using len ok(2) off(3) by (simp add: front_ok_def L' set_offset_def set_part_def MAX_PARTITIONS_def PI_MAX_def)
qed

lemma front_partitions_ok:
  assumes run: "front_partitions env fixed style ss bpt c L = Some L'" and ok: "front_ok L" "pidx L = 0"
    and first: "style = PARTITION_STYLE_GPT \<Longrightarrow> Offset (parts L ! 0) \<le> MB" and bpt: "bpt < 2 ^ 63"
  shows "front_ok L' \<and> pidx L' \<le> 2"
proof -
  have MB: "MB = 1048576" "esp_size = 272629760" by (simp_all add: MB_def KB_def esp_size_def)
  from run obtain L1 where
    L1: "(if (fixed \<or> BuildNumber env > 15000) \<and> extra L AND XP_ESP \<noteq> 0 then
             if style \<noteq> PARTITION_STYLE_GPT then None
             else do {
               L \<leftarrow> front_partition ss bpt c ''EFI System Partition'' esp_size (L\<lparr> index := (index L)[PI_ESP := pidx L] \<rparr>);
               Some (L\<lparr> extra := extra L AND NOT XP_ESP \<rparr>)
             }
           else Some L) = Some L1"
    and L2: "(if extra L1 AND XP_MSR \<noteq> 0 then
       if style \<noteq> PARTITION_STYLE_GPT then None
       else do {
         L \<leftarrow> front_partition ss bpt c ''Microsoft Reserved Partition'' (128 * MB) L1;
         Some (L\<lparr> extra := extra L AND NOT XP_MSR \<rparr>)
       }
     else Some L1) = Some L'"
    unfolding front_partitions_def bind_eq_Some_conv by blast
  have A: "front_ok L1 \<and> pidx L1 < 2 \<and> (style = PARTITION_STYLE_GPT \<longrightarrow> Offset (parts L1 ! pidx L1) + 128 * MB < 2 ^ 64)"
  proof (cases "L1 = L")
    case True
    then show ?thesis using ok first by (auto simp: MB)
  next
    case False
    then obtain K where K: "style = PARTITION_STYLE_GPT" "front_partition ss bpt c ''EFI System Partition'' esp_size (L\<lparr> index := (index L)[PI_ESP := pidx L] \<rparr>) = Some K"
      "L1 = K\<lparr> extra := extra K AND NOT XP_ESP \<rparr>" using L1 by (auto simp: bind_eq_Some_conv split: if_splits)
    have "front_ok (L\<lparr> index := (index L)[PI_ESP := pidx L] \<rparr>)" using ok by (simp add: front_ok_def)
    from front_partition_ok [OF K(2) this] ok first [OF K(1)]
    have "front_ok K" "pidx K = 1" "Offset (parts K ! 1) < MB + esp_size + bpt" by (auto simp: MB)
    then show ?thesis using K(3) bpt by (auto simp: front_ok_def MB)
  qed
  then show ?thesis
  proof (cases "L' = L1")
    case False
    then obtain K where K: "style = PARTITION_STYLE_GPT" "front_partition ss bpt c ''Microsoft Reserved Partition'' (128 * MB) L1 = Some K"
      "L' = K\<lparr> extra := extra K AND NOT XP_MSR \<rparr>" using L2 by (auto simp: bind_eq_Some_conv split: if_splits)
    from front_partition_ok [OF K(2)] A K(1) have "front_ok K" "pidx K \<le> 2" by auto
    then show ?thesis using K(3) by (simp add: front_ok_def)
  qed auto
qed

text \<open>The ones behind it are added one by one.\<close>

definition grown :: "layout_state \<Rightarrow> nat \<Rightarrow> layout_state \<Rightarrow> bool" where
  "grown L n K \<longleftrightarrow> length (parts K) = length (parts L) \<and> index K ! PI_MAIN = index L ! PI_MAIN \<and> pidx L \<le> pidx K \<and> pidx K \<le> pidx L + n \<and>
     (\<forall>i < pidx L. parts K ! i = parts L ! i)"

lemma grown_refl: "grown L n L"
  by (simp add: grown_def)

lemma grown_add: "grown L n K \<Longrightarrow> n < m \<Longrightarrow> grown L m (add_part name sz K)"
  by (auto simp: grown_def add_part_def set_part_def)

lemma grown_add_index: "grown L n K \<Longrightarrow> n < m \<Longrightarrow> j \<noteq> PI_MAIN \<Longrightarrow> grown L m (add_part name sz (K\<lparr> index := (index K)[j := v] \<rparr>))"
  by (auto simp: grown_def add_part_def set_part_def)

lemma back_partitions_ok:
  assumes "back_partitions env bpt L = Some L'"
  shows "grown L 2 L'"
proof -
  have ne: "PI_CASPER \<noteq> PI_MAIN" "PI_ESP \<noteq> PI_MAIN" "PI_UEFI_NTFS \<noteq> PI_MAIN" by (simp_all add: PI_CASPER_def PI_ESP_def PI_UEFI_NTFS_def PI_MAIN_def)
  from assms obtain K where
    K: "(if extra L AND XP_PERSISTENCE \<noteq> 0 then
             if persistence_size env = 0 then None
             else do {
               sz \<leftarrow> CEILING_ALIGN (persistence_size env) bpt;
               Some (add_part ''Linux Persistence'' sz (L\<lparr> index := (index L)[PI_CASPER := pidx L] \<rparr>))
             }
           else Some L) = Some K"
    and L': "(if extra K AND XP_ESP \<noteq> 0 then do {
       sz \<leftarrow> CEILING_ALIGN_signed esp_size bpt;
       Some (add_part ''EFI System Partition'' sz (K\<lparr> index := (index K)[PI_ESP := pidx K] \<rparr>))
     }
     else if extra K AND XP_UEFI_NTFS \<noteq> 0 then do {
       sz \<leftarrow> CEILING_ALIGN (uefi_ntfs_size env) bpt;
       Some (add_part ''UEFI:NTFS'' sz (K\<lparr> index := (index K)[PI_UEFI_NTFS := pidx K] \<rparr>))
     }
     else if extra K AND XP_COMPAT \<noteq> 0 then Some (add_part ''BIOS Compatibility'' bpt K)
     else Some K) = Some L'"
    unfolding back_partitions_def bind_eq_Some_conv by blast
  have "grown L 1 K" using K ne(1) by (auto simp: bind_eq_Some_conv intro: grown_refl grown_add_index [of L 0] split: if_splits)
  moreover from this have "grown L 2 K" by (auto simp: grown_def)
  ultimately show ?thesis using L' ne by (auto simp: bind_eq_Some_conv intro: grown_add [of L 1] grown_add_index [of L 1] split: if_splits)
qed

lemma compute_layoutE:
  assumes run: "compute_layout env drive style x = Some (ok, L)" and bpt: "bpt = SectorsPerTrack drive * SectorSize drive"
    and c: "c = (if item_cluster env = 0 then 0x200 else item_cluster env)"
  obtains off K M lim ps sz sz' where "bpt < 2 ^ 63" "first_offset env style bpt c = Some off"
    "front_partitions env (FixedMedia drive) style (SectorSize drive) bpt c
       (set_offset 0 off \<lparr> parts = replicate MAX_PARTITIONS empty_partition, index = replicate PI_MAX 0, pidx = 0, extra = x \<rparr>) = Some K"
    "back_partitions env bpt (main_partition (write_as_esp env) K) = Some M"
    "place_back bpt (pidx K) (pidx M - 1) (usable_end style (DiskSize drive) (SectorSize drive)) (parts M) = Some (lim, ps)"
    "Offset (ps ! pidx K) < lim" "FLOOR_ALIGN (lim - Offset (ps ! pidx K)) bpt = Some sz" "cluster_align (SectorSize drive) c sz = Some sz'"
    "ok = (sz' > 0)" "L = M\<lparr> parts := ps[pidx K := (ps ! pidx K)\<lparr> Size := sz' \<rparr>] \<rparr>"
  using run unfolding compute_layout_def Let_def bpt [symmetric] c [symmetric]
  by (auto simp: bind_eq_Some_conv split: if_splits)

lemma compute_layout_ordered:
  assumes run: "compute_layout env drive style x = Some (ok, L)"
  shows "index L ! PI_MAIN < pidx L \<and> pidx L \<le> length (parts L) \<and> ordered (parts L) 0 (pidx L) (usable_end style (DiskSize drive) (SectorSize drive)) \<and>
    (ok \<longrightarrow> 0 < Size (parts L ! (index L ! PI_MAIN)))"
proof (rule compute_layoutE [OF run refl refl])
  let ?bpt = "SectorsPerTrack drive * SectorSize drive" and ?c = "if item_cluster env = 0 then 0x200 else item_cluster env"
  let ?start = "\<lparr> parts = replicate MAX_PARTITIONS empty_partition, index = replicate PI_MAX 0, pidx = 0, extra = x \<rparr>"
  fix off K M lim ps sz sz'
  assume bpt: "?bpt < 2 ^ 63" and off: "first_offset env style ?bpt ?c = Some off"
    and K: "front_partitions env (FixedMedia drive) style (SectorSize drive) ?bpt ?c (set_offset 0 off ?start) = Some K"
    and M: "back_partitions env ?bpt (main_partition (write_as_esp env) K) = Some M"
    and ps: "place_back ?bpt (pidx K) (pidx M - 1) (usable_end style (DiskSize drive) (SectorSize drive)) (parts M) = Some (lim, ps)"
    and sz: "Offset (ps ! pidx K) < lim" "FLOOR_ALIGN (lim - Offset (ps ! pidx K)) ?bpt = Some sz" "cluster_align (SectorSize drive) ?c sz = Some sz'"
    and ok: "ok = (sz' > 0)" and L: "L = M\<lparr> parts := ps[pidx K := (ps ! pidx K)\<lparr> Size := sz' \<rparr>] \<rparr>"
  let ?mi = "pidx K" and ?pi = "pidx M"
  have "front_ok (set_offset 0 off ?start)" by (simp add: front_ok_def set_offset_def)
  moreover have "Offset (parts (set_offset 0 off ?start) ! 0) \<le> MB" if "style = PARTITION_STYLE_GPT"
    using off that by (simp add: first_offset_def set_offset_def MAX_PARTITIONS_def)
  ultimately have k: "front_ok K" "?mi \<le> 2" using front_partitions_ok [OF K _ _ _ bpt] by (auto simp: set_offset_def)
  have g: "grown (main_partition (write_as_esp env) K) 2 M" using back_partitions_ok [OF M] .
  have m: "length (parts M) = 16" "index M ! PI_MAIN = ?mi" "?mi < ?pi" "?pi \<le> 5" "\<forall>i < ?mi. parts M ! i = parts K ! i" "Offset (parts M ! ?mi) = Offset (parts K ! ?mi)"
    using g k by (auto simp: grown_def front_ok_def main_partition_def MAX_PARTITIONS_def PI_MAIN_def PI_MAX_def Let_def)
  have p: "length ps = 16" "\<forall>j \<le> ?mi. ps ! j = parts M ! j" "ordered ps (?mi + 1) ?pi (usable_end style (DiskSize drive) (SectorSize drive))"
    "lim = (if ?mi = ?pi - 1 then usable_end style (DiskSize drive) (SectorSize drive) else Offset (ps ! (?mi + 1)))"
    using place_back_ordered [OF ps] m by auto
  have "sz' \<le> lim - Offset (ps ! ?mi)" using FLOOR_ALIGN_Some [OF sz(2)] cluster_align_Some [OF sz(3)] by linarith
  then have fit: "Offset (ps ! ?mi) + sz' \<le> lim" using sz(1) by linarith
  let ?qs = "ps[?mi := (ps ! ?mi)\<lparr> Size := sz' \<rparr>]"
  have "ordered ?qs 0 ?mi (Offset (?qs ! ?mi))"
    using k(1) p(1,2) m ordered_cong [of 0 ?mi ?qs "parts K"] by (auto simp: front_ok_def)
  moreover have "ordered ?qs (?mi + 1) ?pi (usable_end style (DiskSize drive) (SectorSize drive))"
    using p(3) ordered_cong [of "?mi + 1" ?pi ?qs ps] by auto
  moreover have "Offset (?qs ! ?mi) + Size (?qs ! ?mi) \<le> (if ?mi + 1 = ?pi then usable_end style (DiskSize drive) (SectorSize drive) else Offset (?qs ! (?mi + 1)))"
  proof (cases "?mi + 1 = ?pi")
    case True
    then have "?mi = ?pi - 1" by simp
    then show ?thesis using fit p(1,4) m(3,4) True by simp
  next
    case False
    then have "?mi \<noteq> ?pi - 1" using m(3) by simp
    then show ?thesis using fit p(1,4) m(3,4) False by simp
  qed
  ultimately have "ordered ?qs 0 ?pi (usable_end style (DiskSize drive) (SectorSize drive))" by (rule ordered_insert) (use m(3) in simp_all)
  then show ?thesis using L ok m p(1) by auto
qed

lemma usable_end_eq:
  assumes "disk < 2 ^ 64" "33 * ss \<le> disk"
  shows "usable_end style disk ss = disk - (if style = PARTITION_STYLE_GPT then 33 * ss else 0)"
proof -
  have "disk + 2 ^ 64 - 33 * ss = (disk - 33 * ss) + 2 ^ 64" using assms(2) by simp
  then show ?thesis using assms by (simp only: usable_end_def w64_def mod_add_self2) (simp add: less_imp_diff_less)
qed

section \<open>The assertions hold\<close>

text \<open>
  On a drive with room for the partitions, with a cluster size that divides a megabyte or is not a
  multiple of the sector size, no assertion fails and no division is by 0.
\<close>

lemma CEILING_ALIGN_total: "0 < y \<Longrightarrow> x + y < 2 ^ 64 \<Longrightarrow> \<exists>z. CEILING_ALIGN x y = Some z \<and> x \<le> z \<and> y dvd z"
proof -
  assume y: "0 < y" and w: "x + y < 2 ^ 64"
  have a: "w64 (x + y - 1) = x + y - 1" using w by (simp add: w64_def)
  have "x + y - 1 < y + (x + y - 1) div y * y" using y by (rule dividend_less_div_times)
  then have "x \<le> (x + y - 1) div y * y" by linarith
  moreover have "(x + y - 1) div y * y < 2 ^ 64" using w div_times_less_eq_dividend [of "x + y - 1" y] by linarith
  then have "w64 ((x + y - 1) div y * y) = (x + y - 1) div y * y" by (simp only: w64_def mod_less)
  ultimately show ?thesis unfolding CEILING_ALIGN_def a using y by simp
qed

lemma cluster_align_total:
  assumes "0 < ss" "0 < c" "c mod ss = 0 \<longrightarrow> c dvd past" "past \<le> x"
  shows "\<exists>z. cluster_align ss c x = Some z \<and> past \<le> z \<and> (c mod ss = 0 \<longrightarrow> c dvd z)"
proof (cases "c mod ss = 0")
  case True
  then have "past div c * c = past" using assms(3) by simp
  moreover have "past div c * c \<le> x div c * c" using assms(4) by (intro mult_le_mono1 div_le_mono)
  ultimately show ?thesis using assms(1,2) True by (simp add: cluster_align_def FLOOR_ALIGN_def)
qed (use assms in \<open>simp add: cluster_align_def\<close>)

definition sound_cluster :: "nat \<Rightarrow> nat \<Rightarrow> bool" where
  "sound_cluster ss c \<longleftrightarrow> 0 < ss \<and> 0 < c \<and> (c mod ss = 0 \<longrightarrow> c dvd MB)"

definition front_at :: "nat \<Rightarrow> nat \<Rightarrow> nat \<Rightarrow> layout_state \<Rightarrow> bool" where
  "front_at ss c b L \<longleftrightarrow> front_ok L \<and> Offset (parts L ! pidx L) \<le> b \<and> (c mod ss = 0 \<longrightarrow> c dvd Offset (parts L ! pidx L))"

lemma front_partition_total:
  assumes c: "sound_cluster ss c" and L: "front_at ss c b L" "pidx L < 2" and sz: "MB dvd sz" and bpt: "0 < bpt" "b + sz + bpt < 2 ^ 64"
  shows "\<exists>L'. front_partition ss bpt c name sz L = Some L' \<and> front_at ss c (b + sz + bpt) L' \<and> pidx L' = pidx L + 1 \<and> extra L' = extra L"
proof -
  let ?i = "pidx L" and ?past = "Offset (parts L ! pidx L) + sz"
  have l: "front_ok L" "Offset (parts L ! ?i) \<le> b" "c mod ss = 0 \<longrightarrow> c dvd ?past"
    using L(1) c sz by (auto simp: front_at_def sound_cluster_def dest: dvd_trans)
  have len: "length (parts L) = 16" using l(1) by (simp add: front_ok_def MAX_PARTITIONS_def)
  have nw: "?past + bpt < 2 ^ 64" using l(2) bpt(2) by linarith
  have past: "w64 (Offset (parts (set_part ?i name sz L) ! ?i) + sz) = ?past"
    using nw len L(2) by (simp add: w64_def set_part_def)
  obtain off where off: "CEILING_ALIGN ?past bpt = Some off" "?past \<le> off" using CEILING_ALIGN_total [OF bpt(1) nw] by blast
  obtain off' where off': "cluster_align ss c off = Some off'" "?past \<le> off'" "c mod ss = 0 \<longrightarrow> c dvd off'"
    using cluster_align_total [OF _ _ l(3) off(2)] c by (auto simp: sound_cluster_def)
  let ?L = "(set_offset (?i + 1) off' (set_part ?i name sz L))\<lparr> pidx := ?i + 1 \<rparr>"
  have run: "front_partition ss bpt c name sz L = Some ?L"
    unfolding front_partition_def Let_def past using off off' by simp
  have "Offset (parts ?L ! pidx ?L) = off'" using len L(2) by (simp add: set_offset_def set_part_def)
  moreover from this front_partition_ok [OF run l(1) L(2)] nw l(2)
  have "front_ok ?L" "off' \<le> b + sz + bpt" by auto
  ultimately have "front_at ss c (b + sz + bpt) ?L" using off'(3) by (simp add: front_at_def)
  then show ?thesis using run by (auto simp: set_offset_def set_part_def)
qed

lemma clear_flag:
  "(x AND NOT XP_ESP) AND XP_MSR = x AND XP_MSR" "(x AND NOT XP_ESP) AND XP_PERSISTENCE = x AND XP_PERSISTENCE"
  "(x AND NOT XP_ESP) AND XP_UEFI_NTFS = x AND XP_UEFI_NTFS" "(x AND NOT XP_MSR) AND XP_PERSISTENCE = x AND XP_PERSISTENCE"
  "(x AND NOT XP_MSR) AND XP_UEFI_NTFS = x AND XP_UEFI_NTFS"
  unfolding and.assoc by (simp_all add: XP_ESP_def XP_MSR_def XP_PERSISTENCE_def XP_UEFI_NTFS_def)

lemma front_at_cong: "front_at ss c b (L\<lparr> extra := y \<rparr>) = front_at ss c b L"
  "length xs = PI_MAX \<Longrightarrow> front_at ss c b L \<Longrightarrow> front_at ss c b (L\<lparr> index := xs \<rparr>)"
  by (auto simp: front_at_def front_ok_def)

lemma front_at_mono: "front_at ss c b L \<Longrightarrow> b \<le> b' \<Longrightarrow> front_at ss c b' L"
  by (auto simp: front_at_def)

lemma MB_dvd: "MB dvd esp_size" "MB dvd 128 * MB"
  by (simp_all add: esp_size_def)

lemma front_partitions_total:
  assumes c: "sound_cluster ss c" and L: "front_at ss c b L" "pidx L = 0"
    and style: "extra L AND XP_ESP \<noteq> 0 \<or> extra L AND XP_MSR \<noteq> 0 \<Longrightarrow> style = PARTITION_STYLE_GPT"
    and bpt: "0 < bpt" "b + 388 * MB + 2 * bpt < 2 ^ 64"
  shows "\<exists>L'. front_partitions env fixed style ss bpt c L = Some L' \<and> front_at ss c (b + 388 * MB + 2 * bpt) L' \<and> pidx L' \<le> 2 \<and>
    extra L' AND XP_PERSISTENCE = extra L AND XP_PERSISTENCE \<and> extra L' AND XP_UEFI_NTFS = extra L AND XP_UEFI_NTFS"
proof -
  let ?esp = "(fixed \<or> BuildNumber env > 15000) \<and> extra L AND XP_ESP \<noteq> 0"
  let ?stage = "if ?esp then
             if style \<noteq> PARTITION_STYLE_GPT then None
             else do {
               L \<leftarrow> front_partition ss bpt c ''EFI System Partition'' esp_size (L\<lparr> index := (index L)[PI_ESP := pidx L] \<rparr>);
               Some (L\<lparr> extra := extra L AND NOT XP_ESP \<rparr>)
             }
           else Some L"
  have b1: "b + esp_size + bpt < 2 ^ 64" "b + esp_size + bpt + 128 * MB + bpt = b + 388 * MB + 2 * bpt" using bpt(2) by (simp_all add: esp_size_def)
  have "length ((index L)[PI_ESP := pidx L]) = PI_MAX" using L(1) by (simp add: front_at_def front_ok_def)
  note L0 = front_at_cong(2) [OF this L(1)]
  obtain K where K: "?stage = Some K" "front_at ss c (b + esp_size + bpt) K" "pidx K \<le> 1" "extra K AND XP_MSR = extra L AND XP_MSR"
    "extra K AND XP_PERSISTENCE = extra L AND XP_PERSISTENCE" "extra K AND XP_UEFI_NTFS = extra L AND XP_UEFI_NTFS"
  proof (cases ?esp)
    case True
    then have "style = PARTITION_STYLE_GPT" using style by blast
    then show ?thesis using that front_partition_total [OF c L0 _ MB_dvd(1) bpt(1) b1(1), of "''EFI System Partition''"] True L(2)
      by (auto simp: front_at_cong(1) clear_flag)
  next
    case False
    have "front_at ss c (b + esp_size + bpt) L" by (rule front_at_mono [OF L(1)]) simp
    then show ?thesis using that [of L] L False by auto
  qed
  show ?thesis
  proof (cases "extra K AND XP_MSR \<noteq> 0")
    case True
    then have g: "style = PARTITION_STYLE_GPT" using style K(4) by auto
    have "pidx K < 2" "b + esp_size + bpt + 128 * MB + bpt < 2 ^ 64" using K(3) b1(2) bpt(2) by linarith+
    from front_partition_total [OF c K(2) this(1) MB_dvd(2) bpt(1) this(2), of "''Microsoft Reserved Partition''"]
    obtain M where "front_partition ss bpt c ''Microsoft Reserved Partition'' (128 * MB) K = Some M" "front_at ss c (b + 388 * MB + 2 * bpt) M"
      "pidx M = pidx K + 1" "extra M = extra K" unfolding b1(2) by blast
    then show ?thesis using K True g unfolding front_partitions_def K(1) by (auto simp: front_at_cong(1) clear_flag)
  next
    case False
    have "front_at ss c (b + 388 * MB + 2 * bpt) K" using K(2) b1(2) by (intro front_at_mono [OF K(2)]) linarith
    then show ?thesis using K False unfolding front_partitions_def K(1) by auto
  qed
qed

lemma place_back_total:
  "0 < bpt \<Longrightarrow> i < length ps \<Longrightarrow> mi \<le> i \<Longrightarrow> (\<Sum>j \<in> {mi<..i}. Size (ps ! j) + bpt) < lim \<Longrightarrow>
   \<exists>lim' ps'. place_back bpt mi i lim ps = Some (lim', ps') \<and> lim \<le> lim' + (\<Sum>j \<in> {mi<..i}. Size (ps ! j) + bpt)"
proof (induction bpt mi i lim ps rule: place_back.induct)
  case (1 bpt mi i lim ps)
  show ?case
  proof (cases "i > mi")
    case False
    then show ?thesis using 1(4) by (subst place_back.simps) auto
  next
    case True
    let ?off = "(lim - Size (ps ! i)) div bpt * bpt" and ?qs = "\<lambda>off. ps[i := (ps ! i)\<lparr> Offset := off \<rparr>]"
    have "{mi<..i} = insert i {mi<..i - 1}" using True by auto
    then have sum: "(\<Sum>j \<in> {mi<..i}. Size (ps ! j) + bpt) = Size (ps ! i) + bpt + (\<Sum>j \<in> {mi<..i - 1}. Size (ps ! j) + bpt)" using True by (simp only:) (subst sum.insert, auto)
    have same: "(\<Sum>j \<in> {mi<..i - 1}. Size (?qs off ! j) + bpt) = (\<Sum>j \<in> {mi<..i - 1}. Size (ps ! j) + bpt)" for off
      using True by (intro sum.cong) auto
    have lt: "\<not> \<not> Size (ps ! i) < lim" and fl: "FLOOR_ALIGN (lim - Size (ps ! i)) bpt = Some ?off" using 1(2,5) sum by (auto simp: FLOOR_ALIGN_def)
    have near: "lim - Size (ps ! i) < bpt + ?off" using 1(2) by (intro dividend_less_div_times)
    then have less: "(\<Sum>j \<in> {mi<..i - 1}. Size (?qs ?off ! j) + bpt) < ?off" unfolding same using 1(5) sum by linarith
    have len: "i - 1 < length (?qs ?off)" "mi \<le> i - 1" using 1(3) True by auto
    obtain lim' ps' where r: "place_back bpt mi (i - 1) ?off (?qs ?off) = Some (lim', ps')" "?off \<le> lim' + (\<Sum>j \<in> {mi<..i - 1}. Size (?qs ?off ! j) + bpt)"
      using 1(1) [OF True lt fl 1(2) len less] by blast
    have "place_back bpt mi i lim ps = Some (lim', ps')" using r(1) True lt fl by (subst place_back.simps) simp
    then show ?thesis using r(2) near sum lt unfolding same by (intro exI conjI) (assumption, linarith)
  qed
qed

lemma CEILING_ALIGN_signed_total: "0 < y \<Longrightarrow> x + y < 2 ^ 63 \<Longrightarrow> \<exists>z. CEILING_ALIGN_signed x y = Some z \<and> z < x + y"
  using CEILING_ALIGN_total [of y x] CEILING_ALIGN_Some [of x y] by (fastforce simp: CEILING_ALIGN_signed_def)

lemma back_partitions_total:
  assumes bpt: "0 < bpt" "esp_size + persistence_size env + uefi_ntfs_size env + bpt < 2 ^ 63" and p: "extra L AND XP_PERSISTENCE \<noteq> 0 \<Longrightarrow> 0 < persistence_size env"
    and L: "pidx L + 1 < length (parts L)"
  shows "\<exists>M. back_partitions env bpt L = Some M \<and> extra M = extra L \<and>
    (\<Sum>j \<in> {pidx L..<pidx M}. Size (parts M ! j) + bpt) \<le> esp_size + persistence_size env + uefi_ntfs_size env + 4 * bpt"
proof -
  have "persistence_size env + bpt < 2 ^ 64" "esp_size + bpt < 2 ^ 63" "uefi_ntfs_size env + bpt < 2 ^ 64" using bpt(2) by simp_all
  then obtain a b c where s: "CEILING_ALIGN (persistence_size env) bpt = Some a" "a < persistence_size env + bpt"
    "CEILING_ALIGN_signed esp_size bpt = Some b" "b < esp_size + bpt" "CEILING_ALIGN (uefi_ntfs_size env) bpt = Some c" "c < uefi_ntfs_size env + bpt"
    using CEILING_ALIGN_total [OF bpt(1)] CEILING_ALIGN_signed_total [OF bpt(1)] CEILING_ALIGN_Some by metis
  have two: "{k..<Suc (Suc k)} = {k, Suc k}" "{k..<Suc k} = {k}" for k :: nat by auto
  show ?thesis
    using s L p by (cases "extra L AND XP_PERSISTENCE = 0"; cases "extra L AND XP_ESP = 0"; cases "extra L AND XP_UEFI_NTFS = 0"; cases "extra L AND XP_COMPAT = 0")
      (auto simp: back_partitions_def add_part_def set_part_def two)
qed

lemma first_offset_total:
  assumes "sound_cluster ss c" "bpt + c < 2 ^ 62"
  shows "\<exists>off. first_offset env style bpt c = Some off \<and> off \<le> MB + 2 * bpt + 2 * c \<and> (c mod ss = 0 \<longrightarrow> c dvd off)"
proof -
  have c: "0 < c" "c mod ss = 0 \<longrightarrow> c dvd MB" using assms(1) by (simp_all add: sound_cluster_def)
  obtain z where z: "CEILING_ALIGN bpt c = Some z" "c dvd z" "z < bpt + c"
    using CEILING_ALIGN_total [OF c(1), of bpt] CEILING_ALIGN_Some [of bpt c] assms(2) by fastforce
  have "w64 (z * 2) = z * 2" using z(3) assms(2) by (simp add: w64_def)
  then show ?thesis using z c assms(2) by (auto simp: first_offset_def CEILING_ALIGN_signed_def)
qed

lemma main_size_total:
  assumes "sound_cluster ss c" "0 < bpt" "bpt + c \<le> y"
  shows "\<exists>sz sz'. FLOOR_ALIGN y bpt = Some sz \<and> cluster_align ss c sz = Some sz' \<and> 0 < sz'"
proof -
  have "y < bpt + y div bpt * bpt" using assms(2) by (rule dividend_less_div_times)
  then have sz: "c \<le> y div bpt * bpt" using assms(3) by linarith
  moreover have "0 < ss" "0 < c" using assms(1) by (simp_all add: sound_cluster_def)
  ultimately show ?thesis using assms(2) cluster_align_total [of ss c c "y div bpt * bpt"] by (fastforce simp: FLOOR_ALIGN_def)
qed

definition has_room :: "layout_settings \<Rightarrow> RUFUS_DRIVE_INFO \<Rightarrow> bool" where
  "has_room env drive \<longleftrightarrow>
     33 * SectorSize drive + 650 * MB + persistence_size env + uefi_ntfs_size env + 10 * (SectorsPerTrack drive * SectorSize drive) +
       3 * (if item_cluster env = 0 then 0x200 else item_cluster env) < DiskSize drive \<and> DiskSize drive < 2 ^ 62"

definition wants :: "layout_settings \<Rightarrow> partition_style \<Rightarrow> u8 \<Rightarrow> bool" where
  "wants env style x \<longleftrightarrow> (x AND XP_ESP \<noteq> 0 \<or> x AND XP_MSR \<noteq> 0 \<longrightarrow> style = PARTITION_STYLE_GPT) \<and> (x AND XP_PERSISTENCE \<noteq> 0 \<longrightarrow> 0 < persistence_size env) \<and>
     (x AND XP_UEFI_NTFS \<noteq> 0 \<longrightarrow> 0 < uefi_ntfs_size env \<and> uefi_ntfs_img env \<noteq> None)"

lemma compute_layout_total:
  assumes c: "sound_cluster (SectorSize drive) (if item_cluster env = 0 then 0x200 else item_cluster env)" and spt: "0 < SectorsPerTrack drive"
    and room: "has_room env drive" and x: "wants env style x"
  shows "\<exists>L. compute_layout env drive style x = Some (True, L) \<and> extra L AND XP_UEFI_NTFS = x AND XP_UEFI_NTFS"
proof -
  define ss where "ss = SectorSize drive"
  define bpt where "bpt = SectorsPerTrack drive * ss"
  define C where "C = (if item_cluster env = 0 then 0x200 else item_cluster env)"
  define lim where "lim = usable_end style (DiskSize drive) ss"
  let ?start = "\<lparr> parts = replicate MAX_PARTITIONS empty_partition, index = replicate PI_MAX 0, pidx = 0, extra = x \<rparr>"
  have c: "sound_cluster ss C" using c by (simp add: ss_def C_def)
  have b: "0 < bpt" using c spt by (simp add: bpt_def sound_cluster_def)
  have rm: "33 * ss + 650 * MB + persistence_size env + uefi_ntfs_size env + 10 * bpt + 3 * C < DiskSize drive" "DiskSize drive < 2 ^ 62"
    using room by (simp_all add: has_room_def ss_def bpt_def C_def)
  have "DiskSize drive < 2 ^ 64" "33 * ss \<le> DiskSize drive" using rm by simp_all
  then have lim: "DiskSize drive \<le> lim + 33 * ss" unfolding lim_def using usable_end_eq [of "DiskSize drive" ss style] by simp
  have MB: "esp_size = 260 * MB" by (simp add: esp_size_def)
  have "bpt + C < 2 ^ 62" using rm by linarith
  from first_offset_total [OF c this, of env style]
  obtain off where off: "first_offset env style bpt C = Some off" "off \<le> MB + 2 * bpt + 2 * C" "C mod ss = 0 \<longrightarrow> C dvd off" by (elim exE conjE)
  have at: "front_at ss C (MB + 2 * bpt + 2 * C) (set_offset 0 off ?start)" using off(2,3) by (simp add: front_at_def front_ok_def set_offset_def MAX_PARTITIONS_def)
  have ex: "extra (set_offset 0 off ?start) = x" "pidx (set_offset 0 off ?start) = 0" by (simp_all add: set_offset_def)
  define fb where "fb = MB + 2 * bpt + 2 * C + 388 * MB + 2 * bpt"
  have "fb < 2 ^ 64" using rm by (simp add: fb_def)
  from front_partitions_total [OF c at ex(2), of style bpt env "FixedMedia drive", folded fb_def] this b x
  obtain K where K: "front_partitions env (FixedMedia drive) style ss bpt C (set_offset 0 off ?start) = Some K" "front_at ss C fb K"
    "pidx K \<le> 2" "extra K AND XP_PERSISTENCE = x AND XP_PERSISTENCE" "extra K AND XP_UEFI_NTFS = x AND XP_UEFI_NTFS" unfolding ex(1) wants_def by blast
  let ?L = "main_partition (write_as_esp env) K" and ?mi = "pidx K"
  have l: "length (parts ?L) = 16" "pidx ?L = ?mi + 1" "extra ?L = extra K" "Offset (parts ?L ! ?mi) \<le> fb"
    using K(2,3) by (auto simp: main_partition_def front_at_def front_ok_def MAX_PARTITIONS_def Let_def)
  have "esp_size + persistence_size env + uefi_ntfs_size env + bpt < 2 ^ 63" using rm MB by simp
  from back_partitions_total [OF b this, of ?L] obtain M where M: "back_partitions env bpt ?L = Some M"
    "(\<Sum>j \<in> {?mi + 1..<pidx M}. Size (parts M ! j) + bpt) \<le> esp_size + persistence_size env + uefi_ntfs_size env + 4 * bpt" "extra M = extra K"
    using l K(3,4) x unfolding wants_def by auto
  have g: "?mi < pidx M" "pidx M \<le> 5" "length (parts M) = 16" "parts M ! ?mi = parts ?L ! ?mi"
    using back_partitions_ok [OF M(1)] l K(3) by (auto simp: grown_def)
  have set: "{?mi<..pidx M - 1} = {?mi + 1..<pidx M}" using g(1) by auto
  define S where "S = (\<Sum>j \<in> {?mi + 1..<pidx M}. Size (parts M ! j) + bpt)"
  have S: "S < lim" using M(2) rm(1) lim MB unfolding S_def by linarith
  have "pidx M - 1 < length (parts M)" "?mi \<le> pidx M - 1" using g by linarith+
  from place_back_total [OF b this, of lim, unfolded set, folded S_def, OF S]
  obtain lim' ps where ps: "place_back bpt ?mi (pidx M - 1) lim (parts M) = Some (lim', ps)" "lim \<le> lim' + S" by blast
  have "ps ! ?mi = parts M ! ?mi" using place_back_ordered [OF ps(1)] g by auto
  then have o: "Offset (ps ! ?mi) \<le> fb" using g(4) l(4) by simp
  have "bpt + C \<le> lim' - Offset (ps ! ?mi)" "Offset (ps ! ?mi) < lim'"
    using ps(2) o M(2) rm(1) lim MB unfolding fb_def S_def by linarith+
  moreover from main_size_total [OF c b this(1)] obtain sz sz' where "FLOOR_ALIGN (lim' - Offset (ps ! ?mi)) bpt = Some sz" "cluster_align ss C sz = Some sz'" "0 < sz'" by blast
  moreover have "\<not> 2 ^ 63 \<le> bpt" "\<not> MAX_PARTITIONS < pidx M" using rm g(2) by (simp_all add: MAX_PARTITIONS_def)
  ultimately show ?thesis
    unfolding compute_layout_def Let_def ss_def [symmetric] bpt_def [symmetric] C_def [symmetric] lim_def [symmetric]
    using off(1) K(1,5) M(1,3) ps(1) by simp
qed

section \<open>The table on the drive\<close>

lemma entry_of_Some:
  "entry_of env sys style fs mi i p = Some e \<Longrightarrow> StartingOffset e = Offset p \<and> PartitionLength e = Size p \<and> PartitionNumber e = i + 1"
  by (auto simp: entry_of_def bind_eq_Some_conv)

lemma build_entries_Some:
  "build_entries api large_drive env sys style fs n mi i ps s = (Some es, s') \<Longrightarrow>
   length es = length ps \<and> (\<forall>j < length ps. StartingOffset (es ! j) = Offset (ps ! j) \<and> PartitionLength (es ! j) = Size (ps ! j) \<and> PartitionNumber (es ! j) = i + j + 1)"
proof (induction ps arbitrary: i es s)
  case (Cons p ps)
  then obtain e es' s1 where e: "entry_of env sys style fs mi i p = Some e" and es: "es = e # es'"
    and rec: "build_entries api large_drive env sys style fs n mi (i + 1) ps s1 = (Some es', s')"
    by (auto simp: Let_def split: option.splits prod.splits)
  show ?case using Cons.IH [OF rec] entry_of_Some [OF e] by (auto simp: es nth_Cons split: nat.splits)
qed simp

text \<open>The table a drive reports is the one it was given last.\<close>

definition keeps_table :: "'d layout_sys \<Rightarrow> ('d \<Rightarrow> DRIVE_LAYOUT option) \<Rightarrow> bool" where
  "keeps_table sys tbl \<longleftrightarrow> (\<forall>t d d'. ioctl_set_layout sys t d = (True, d') \<longrightarrow> tbl d' = Some t) \<and> (\<forall>d. tbl (snd (ioctl_update sys d)) = tbl d)"

lemma disk_layout_entries: "PartitionEntry (snd (disk_layout env sys drive style m pi es)) = es"
  by (simp add: disk_layout_def Let_def)

lemma put_layout_table:
  assumes "put_layout sys create layout s = (True, s')" "keeps_table sys tbl"
  shows "tbl (dev s') = Some layout"
proof -
  obtain s1 d where "ioctl_set_layout sys layout (dev s1) = (True, d)" "RefreshDriveLayout sys (s1\<lparr> dev := d \<rparr>) = (True, s')"
    using assms(1) by (auto simp: put_layout_def Let_def split: prod.splits bool.splits)
  then have "tbl d = Some layout" "dev s' = snd (ioctl_update sys d)"
    using assms(2) by (auto simp: keeps_table_def RefreshDriveLayout_def split: prod.splits)
  then show ?thesis using assms(2) by (simp add: keeps_table_def)
qed

lemma CreatePartition_True:
  assumes "CreatePartition api large_drive env sys style fs m x drive s = Some (True, drive', s')" and "style \<noteq> PARTITION_STYLE_SFD"
  obtains L es create t s1 s2 where "compute_layout env drive style x = Some (True, L)" "drive' = drive\<lparr> Partition := parts L, partition_index := index L \<rparr>"
    "build_entries api large_drive env sys style fs (MAX_SECTORS_TO_CLEAR * SectorSize drive mod 2 ^ 32) (index L ! PI_MAIN) 0 (take (pidx L) (parts L)) s = (Some es, s1)"
    "put_layout sys create t s2 = (True, s')" "PartitionEntry t = es"
proof -
  from assms obtain ok L where L: "compute_layout env drive style x = Some (ok, L)"
    and rest: "(let drive = drive\<lparr> Partition := parts L, partition_index := index L \<rparr> in
        if \<not> ok then Some (False, drive, s)
        else
          (case build_entries api large_drive env sys style fs (MAX_SECTORS_TO_CLEAR * SectorSize drive mod 2 ^ 32) (index L ! PI_MAIN) 0
                  (take (pidx L) (parts L)) s of
             (None, s) \<Rightarrow> Some (False, drive, s)
           | (Some entries, s) \<Rightarrow>
               (case write_uefi_ntfs api large_drive env L s of
                  (False, s) \<Rightarrow> Some (False, drive, s)
                | (True, s) \<Rightarrow>
                    (case disk_layout env sys drive style m (pidx L) entries of
                       (create, layout) \<Rightarrow>
                         (case put_layout sys create layout s of (ok, s) \<Rightarrow> Some (ok, drive, s)))))) = Some (True, drive', s')"
    by (auto simp: CreatePartition_def bind_eq_Some_conv split: if_splits)
  have "ok" using rest by (cases ok) (auto simp: Let_def)
  let ?d = "drive\<lparr> Partition := parts L, partition_index := index L \<rparr>"
  let ?build = "build_entries api large_drive env sys style fs (MAX_SECTORS_TO_CLEAR * SectorSize drive mod 2 ^ 32) (index L ! PI_MAIN) 0 (take (pidx L) (parts L)) s"
  obtain e s1 where b: "?build = (e, s1)" by fastforce
  obtain es where es: "e = Some es" using rest \<open>ok\<close> b by (cases e) (auto simp: Let_def)
  obtain u s2 where u: "write_uefi_ntfs api large_drive env L s1 = (u, s2)" by fastforce
  have "u" using rest \<open>ok\<close> b es u by (cases u) (auto simp: Let_def)
  obtain create t where l: "disk_layout env sys ?d style m (pidx L) es = (create, t)" by fastforce
  have "put_layout sys create t s2 = (True, s')" "drive' = ?d"
    using rest \<open>ok\<close> b es u \<open>u\<close> l by (auto simp: Let_def split: prod.splits)
  moreover have "PartitionEntry t = es" using disk_layout_entries [of env sys ?d style m "pidx L" es] l by simp
  moreover have "compute_layout env drive style x = Some (True, L)" "?build = (Some es, s1)" using L \<open>ok\<close> b es by simp_all
  ultimately show ?thesis by (intro that)
qed

text \<open>A drive and a system on which every call succeeds.\<close>

definition calls_succeed :: "'d layout_sys \<Rightarrow> bool" where
  "calls_succeed sys \<longleftrightarrow> (\<forall>c d. fst (ioctl_create_disk sys c d)) \<and> (\<forall>t d. fst (ioctl_set_layout sys t d)) \<and> (\<forall>d. fst (ioctl_update sys d))"

lemma put_layout_succeeds: "calls_succeed sys \<Longrightarrow> \<exists>s'. put_layout sys create t s = (True, s')"
  unfolding put_layout_def RefreshDriveLayout_def calls_succeed_def Let_def by (auto split: prod.splits bool.splits) (metis fst_conv)+

lemma build_entries_total:
  "style = PARTITION_STYLE_MBR \<longrightarrow> mbr_main_type fs \<noteq> None \<Longrightarrow> \<exists>es s'. build_entries api large_drive env sys style fs n mi i ps s = (Some es, s')"
proof (induction ps arbitrary: i s)
  case (Cons p ps)
  obtain e where e: "entry_of env sys style fs mi i p = Some e" using Cons.prems by (cases "style = PARTITION_STYLE_MBR"; cases "i = mi") (auto simp: entry_of_def mbr_kind_def)
  obtain es s' where "build_entries api large_drive env sys style fs n mi (i + 1) ps
      (snd (ClearPartition api large_drive sys (Offset p) (min n (Size p) mod 2 ^ 32) s)) = (Some es, s')"
    using Cons by blast
  then show ?case using e by (simp add: Let_def)
qed simp

lemma write_uefi_ntfs_succeeds:
  assumes "reliable api cancelled" "extra L AND XP_UEFI_NTFS \<noteq> 0 \<Longrightarrow> uefi_ntfs_img env \<noteq> None"
  shows "\<exists>s'. write_uefi_ntfs api large_drive env L s = (True, s')"
proof (cases "extra L AND XP_UEFI_NTFS = 0")
  case False
  then obtain img where img: "uefi_ntfs_img env = Some img" using assms(2) by blast
  obtain d where d: "fp_seek api (dev s) (Offset (parts L ! (index L ! PI_UEFI_NTFS))) = Some d" using reliableD(2) [OF assms(1)] by blast
  obtain d' where d': "os_write api d img = (True, length img, d')" using reliableD(3) [OF assms(1)] by blast
  then have "os_write api (dev (s\<lparr> dev := d \<rparr>)) img = (True, length img, d')" by simp
  from WriteFileWithRetry_first [OF this] show ?thesis using False img d by (simp add: write_uefi_ntfs_def)
qed (simp add: write_uefi_ntfs_def)

lemma CreatePartition_total:
  assumes calls: "reliable api cancelled" "calls_succeed sys"
    and style: "style \<noteq> PARTITION_STYLE_SFD" "style = PARTITION_STYLE_MBR \<longrightarrow> mbr_main_type fs \<noteq> None" "wants env style x"
    and drive: "sound_cluster (SectorSize drive) (if item_cluster env = 0 then 0x200 else item_cluster env)" "0 < SectorsPerTrack drive" "has_room env drive"
  shows "\<exists>drive' s'. CreatePartition api large_drive env sys style fs m x drive s = Some (True, drive', s')"
proof -
  obtain L where L: "compute_layout env drive style x = Some (True, L)" "extra L AND XP_UEFI_NTFS = x AND XP_UEFI_NTFS"
    using compute_layout_total [OF drive style(3)] by blast
  let ?d = "drive\<lparr> Partition := parts L, partition_index := index L \<rparr>"
  obtain es s1 where b: "build_entries api large_drive env sys style fs (MAX_SECTORS_TO_CLEAR * SectorSize drive mod 2 ^ 32) (index L ! PI_MAIN) 0
      (take (pidx L) (parts L)) s = (Some es, s1)" using build_entries_total [OF style(2)] by blast
  have "extra L AND XP_UEFI_NTFS \<noteq> 0 \<Longrightarrow> uefi_ntfs_img env \<noteq> None" using style(3) L(2) by (simp add: wants_def)
  from write_uefi_ntfs_succeeds [OF calls(1) this]
  obtain s2 where u: "write_uefi_ntfs api large_drive env L s1 = (True, s2)" by blast
  obtain create t where l: "disk_layout env sys ?d style m (pidx L) es = (create, t)" by fastforce
  obtain s' where p: "put_layout sys create t s2 = (True, s')" using put_layout_succeeds [OF calls(2)] by blast
  have "\<not> (x AND XP_UEFI_NTFS \<noteq> 0 \<and> uefi_ntfs_size env = 0)" using style(3) by (auto simp: wants_def)
  then have "CreatePartition api large_drive env sys style fs m x drive s = Some (True, ?d, s')"
    unfolding CreatePartition_def using style(1) L(1) b u l p by simp
  then show ?thesis by blast
qed

section \<open>Properties\<close>

text \<open>
C13. When \<open>CreatePartition\<close> reports success, the table on the drive has partitions in ascending
order that do not overlap and end within the drive, in front of the last 33 sectors with a
GPT; the main partition is one of them and not empty.
\<close>

theorem CreatePartition_disjoint:
  assumes run: "CreatePartition api large_drive env sys style fs m x drive s = Some (True, drive', s')"
    and style: "style \<noteq> PARTITION_STYLE_SFD" and sys: "keeps_table sys tbl" and disk: "DiskSize drive < 2 ^ 64" "33 * SectorSize drive \<le> DiskSize drive"
  shows "\<exists>t. tbl (dev s') = Some t \<and>
    (\<forall>i j. i < j \<and> j < length (PartitionEntry t) \<longrightarrow>
       StartingOffset (PartitionEntry t ! i) + PartitionLength (PartitionEntry t ! i) \<le> StartingOffset (PartitionEntry t ! j)) \<and>
    (\<forall>e \<in> set (PartitionEntry t). StartingOffset e + PartitionLength e \<le> DiskSize drive - (if style = PARTITION_STYLE_GPT then 33 * SectorSize drive else 0)) \<and>
    partition_index drive' ! PI_MAIN < length (PartitionEntry t) \<and> 0 < PartitionLength (PartitionEntry t ! (partition_index drive' ! PI_MAIN))"
proof (rule CreatePartition_True [OF run style])
  fix L es create t s1 s2
  assume L: "compute_layout env drive style x = Some (True, L)" and d: "drive' = drive\<lparr> Partition := parts L, partition_index := index L \<rparr>"
    and b: "build_entries api large_drive env sys style fs (MAX_SECTORS_TO_CLEAR * SectorSize drive mod 2 ^ 32) (index L ! PI_MAIN) 0 (take (pidx L) (parts L)) s = (Some es, s1)"
    and t: "put_layout sys create t s2 = (True, s')" "PartitionEntry t = es"
  let ?lim = "usable_end style (DiskSize drive) (SectorSize drive)"
  have lim: "?lim = DiskSize drive - (if style = PARTITION_STYLE_GPT then 33 * SectorSize drive else 0)"
    using usable_end_eq [OF disk] .
  have o: "index L ! PI_MAIN < pidx L" "pidx L \<le> length (parts L)" "ordered (parts L) 0 (pidx L) ?lim" "0 < Size (parts L ! (index L ! PI_MAIN))"
    using compute_layout_ordered [OF L] by auto
  have e: "length es = pidx L" "\<And>j. j < pidx L \<Longrightarrow> StartingOffset (es ! j) = Offset (parts L ! j) \<and> PartitionLength (es ! j) = Size (parts L ! j)"
    using build_entries_Some [OF b] o(2) by auto
  have "\<forall>e \<in> set es. StartingOffset e + PartitionLength e \<le> ?lim" using e ordered_last [OF o(3)] by (auto simp: in_set_conv_nth)
  moreover have "\<forall>i j. i < j \<and> j < length es \<longrightarrow> StartingOffset (es ! i) + PartitionLength (es ! i) \<le> StartingOffset (es ! j)"
    using e ordered_disjoint [OF o(3)] by auto
  ultimately show ?thesis using put_layout_table [OF t(1) sys] t(2) e o lim d by auto
qed

text \<open>A drive that remembers the table it was given, of four gigabytes, for the witnesses.\<close>

type_synonym table_disk = "mem_disk \<times> DRIVE_LAYOUT option"

definition table_api :: "table_disk disk_api" where
  "table_api = \<lparr>
     fp_seek = (\<lambda>(d, t) off. map_option (\<lambda>d. (d, t)) (fp_seek (mem_api None) d off)),
     fp_tell = (\<lambda>(d, t). fp_tell (mem_api None) d),
     os_write = (\<lambda>(d, t) buf. case os_write (mem_api None) d buf of (ok, n, d') \<Rightarrow> (ok, n, (d', t))),
     os_read = (\<lambda>(d, t) n. case os_read (mem_api None) d n of (ok, bytes, d') \<Rightarrow> (ok, bytes, (d', t))) \<rparr>"

definition table_sys :: "table_disk layout_sys" where
  "table_sys = \<lparr> calloc_ok = (\<lambda>n. True), new_guid = id, ioctl_create_disk = (\<lambda>c (d, t). (True, (d, None))),
     ioctl_set_layout = (\<lambda>t (d, _). (True, (d, Some t))), ioctl_update = (\<lambda>d. (True, d)) \<rparr>"

definition four_gigabytes :: RUFUS_DRIVE_INFO where
  "four_gigabytes = \<lparr> DiskSize = 4294967296, SectorsPerTrack = 63, SectorSize = 512, FixedMedia = True, Partition = [], partition_index = [] \<rparr>"

definition to_go :: layout_settings where
  "to_go = \<lparr> item_cluster = 4096, old_bios_fixes = False, BuildNumber = 19045, write_as_esp = False, bootable = True, persistence_size = 0,
     uefi_ntfs_size = 0, uefi_ntfs_img = None, TickCount = 0 \<rparr>"

lemma table_api_reliable: "reliable table_api (\<lambda>d. False)"
  by (auto simp: reliable_def table_api_def mem_api_def)

lemma table_sys_ok: "calls_succeed table_sys" "keeps_table table_sys snd"
  by (auto simp: calls_succeed_def keeps_table_def table_sys_def)

lemma to_go_ok:
  "wants to_go PARTITION_STYLE_GPT (XP_ESP OR XP_MSR)" "sound_cluster (SectorSize four_gigabytes) (if item_cluster to_go = 0 then 0x200 else item_cluster to_go)"
  "0 < SectorsPerTrack four_gigabytes" "has_room to_go four_gigabytes" "DiskSize four_gigabytes < 2 ^ 64" "33 * SectorSize four_gigabytes \<le> DiskSize four_gigabytes"
  by (simp_all add: wants_def to_go_def four_gigabytes_def sound_cluster_def has_room_def MB_def KB_def XP_ESP_def XP_MSR_def XP_PERSISTENCE_def XP_UEFI_NTFS_def)

lemmas to_go_run = CreatePartition_total [OF table_api_reliable table_sys_ok(1) _ _ to_go_ok(1-4)]

theorem CreatePartition_disjoint_witness:
  "\<exists>drive' s'. CreatePartition table_api False to_go table_sys PARTITION_STYLE_GPT FS_NTFS False (XP_ESP OR XP_MSR) four_gigabytes
     \<lparr> dev = ((\<lambda>a. 7, 0, 0), None), LastWriteError = NoWriteError \<rparr> = Some (True, drive', s') \<and>
     (\<exists>t. snd (dev s') = Some t \<and> (\<forall>e \<in> set (PartitionEntry t). StartingOffset e + PartitionLength e \<le> 4294967296 - 33 * 512))"
proof -
  obtain drive' s' where run: "CreatePartition table_api False to_go table_sys PARTITION_STYLE_GPT FS_NTFS False (XP_ESP OR XP_MSR) four_gigabytes
     \<lparr> dev = ((\<lambda>a. 7, 0, 0), None), LastWriteError = NoWriteError \<rparr> = Some (True, drive', s')"
    using to_go_run [of FS_NTFS False False "\<lparr> dev = ((\<lambda>a. 7, 0, 0), None), LastWriteError = NoWriteError \<rparr>"] by auto
  have "DiskSize four_gigabytes = 4294967296" "SectorSize four_gigabytes = 512" by (simp_all add: four_gigabytes_def)
  then show ?thesis using CreatePartition_disjoint [OF run _ table_sys_ok(2) to_go_ok(5,6)] run by auto
qed

text \<open>
C14. On a drive with enough room for what is asked, with a cluster size that divides a megabyte or is
no multiple of the sector size, and with extra partitions that suit the partition style, no assertion
of \<open>CreatePartition\<close> fails, and when the calls of the system succeed it reports success and
records the computed layout in \<open>SelectedDrive\<close>.
\<close>

theorem CreatePartition_succeeds:
  assumes calls: "reliable api cancelled" "calls_succeed sys"
    and style: "style \<noteq> PARTITION_STYLE_SFD" "style = PARTITION_STYLE_MBR \<longrightarrow> mbr_main_type fs \<noteq> None" "wants env style x"
    and drive: "sound_cluster (SectorSize drive) (if item_cluster env = 0 then 0x200 else item_cluster env)" "0 < SectorsPerTrack drive" "has_room env drive"
  shows "\<exists>L s'. CreatePartition api large_drive env sys style fs m x drive s =
      Some (True, drive\<lparr> Partition := parts L, partition_index := index L \<rparr>, s') \<and> compute_layout env drive style x = Some (True, L)"
proof -
  obtain drive' s' where run: "CreatePartition api large_drive env sys style fs m x drive s = Some (True, drive', s')"
    using CreatePartition_total [OF assms] by blast
  show ?thesis by (rule CreatePartition_True [OF run style(1)]) (use run in blast)
qed

theorem CreatePartition_succeeds_witness:
  "\<exists>L s'. CreatePartition table_api False to_go table_sys PARTITION_STYLE_GPT FS_NTFS False (XP_ESP OR XP_MSR) four_gigabytes
     \<lparr> dev = ((\<lambda>a. 7, 0, 0), None), LastWriteError = NoWriteError \<rparr> =
       Some (True, four_gigabytes\<lparr> Partition := parts L, partition_index := index L \<rparr>, s') \<and>
     compute_layout to_go four_gigabytes PARTITION_STYLE_GPT (XP_ESP OR XP_MSR) = Some (True, L)"
  using CreatePartition_succeeds [OF table_api_reliable table_sys_ok(1) _ _ to_go_ok(1-4), of FS_NTFS False False
    "\<lparr> dev = ((\<lambda>a. 7, 0, 0), None), LastWriteError = NoWriteError \<rparr>"] by simp

end
