(* ===== verification/Bad_Block_List.thy ===== *)
theory Bad_Block_List
  imports Prelude
begin

text \<open>
  The in-memory list of bad blocks of \<open>src/src/badblocks.c\<close> (lines 46 to 221): creation,
  insertion at the sorted place with growth of the array, lookup by bisection, and the
  iterator. The array is the C array with its spare cells; the entries in use are its first
  \<open>bb_num\<close> cells.

  The locale \<open>block_registry\<close> states what a client of the list relies on: a set of blocks
  with insertion and membership. It is interpreted on the C operations.
\<close>

section \<open>Data\<close>

datatype errcode_t =
    BB_OK
  | BB_ET_NO_MEMORY
  | BB_ET_MAGIC_BADBLOCKS_LIST
  | BB_ET_MAGIC_BADBLOCKS_ITERATE

record bb_struct_u64_list =
  bb_magic :: errcode_t
  bb_num :: nat
  bb_size :: nat
  bb_array :: "u64 list"

record bb_struct_u64_iterate =
  iter_magic :: errcode_t
  iter_ptr :: nat

section \<open>Operations\<close>

text \<open>
  Whether \<open>calloc\<close>, \<open>malloc\<close> and \<open>realloc\<close> succeed is an argument of the model. Cells
  that \<open>malloc\<close> or \<open>realloc\<close> leave indeterminate are given the value 0; the code
  overwrites every one of them before it is read.
\<close>

definition make_u64_list ::
  "bool \<Rightarrow> bool \<Rightarrow> nat \<Rightarrow> nat \<Rightarrow> u64 list option \<Rightarrow>
   (errcode_t \<times> bb_struct_u64_list option) option" where
  "make_u64_list calloc_ok malloc_ok size0 num list =
     (if \<not> calloc_ok then Some (BB_ET_NO_MEMORY, None)
      else
        let sz = (if size0 \<noteq> 0 then size0 else 10) in
        if \<not> malloc_ok then Some (BB_ET_NO_MEMORY, None)
        else do {
          arr \<leftarrow> (case list of
                   Some xs \<Rightarrow> memcpy (replicate sz 0) 0 xs sz
                 | None \<Rightarrow> memset (replicate sz 0) 0 0 sz);
          Some (BB_OK, Some \<lparr> bb_magic = BB_ET_MAGIC_BADBLOCKS_LIST, bb_num = num,
                              bb_size = sz, bb_array = arr \<rparr>)
        })"

definition bb_badblocks_list_create ::
  "bool \<Rightarrow> bool \<Rightarrow> nat \<Rightarrow> (errcode_t \<times> bb_struct_u64_list option) option" where
  "bb_badblocks_list_create calloc_ok malloc_ok size0 =
     make_u64_list calloc_ok malloc_ok size0 0 None"

text \<open>
  The scan of \<open>bb_u64_list_add\<close> (lines 125 to 133): \<open>Inl ()\<close> is the early return on a
  block that is already there, \<open>Inr j\<close> the place for the new one.
\<close>

function add_scan :: "u64 list \<Rightarrow> nat \<Rightarrow> u64 \<Rightarrow> nat \<Rightarrow> (unit + nat) option" where
  "add_scan arr num blk i =
     (if i < num then do {
        x \<leftarrow> aget arr i;
        if x = blk then Some (Inl ())
        else if x > blk then Some (Inr i)
        else add_scan arr num blk (Suc i)
      } else Some (Inr num))"
  by pat_completeness auto
termination
  by (relation "measure (\<lambda>(arr, num, blk, i). num - i)") auto

text \<open>The loop that moves the tail up by one cell (lines 134 and 135).\<close>

fun add_shift :: "u64 list \<Rightarrow> nat \<Rightarrow> nat \<Rightarrow> u64 list option" where
  "add_shift arr i j =
     (if i > j then do {
        x \<leftarrow> aget arr (i - 1);
        arr' \<leftarrow> aset arr i x;
        add_shift arr' (i - 1) j
      } else Some arr)"

declare add_scan.simps [simp del] add_shift.simps [simp del]

text \<open>Lines 117 to 138, once there is room for one more entry.\<close>

definition add_entry :: "bb_struct_u64_list \<Rightarrow> u64 \<Rightarrow> (errcode_t \<times> bb_struct_u64_list) option" where
  "add_entry bb blk = do {
     top \<leftarrow> (if bb_num bb \<noteq> 0 then aget (bb_array bb) (bb_num bb - 1) else Some 0);
     if bb_num bb \<noteq> 0 \<and> top = blk then Some (BB_OK, bb)
     else if bb_num bb = 0 \<or> top < blk then do {
       arr \<leftarrow> aset (bb_array bb) (bb_num bb) blk;
       Some (BB_OK, bb\<lparr> bb_array := arr, bb_num := Suc (bb_num bb) \<rparr>)
     }
     else do {
       place \<leftarrow> add_scan (bb_array bb) (bb_num bb) blk 0;
       case place of
         Inl _ \<Rightarrow> Some (BB_OK, bb)
       | Inr j \<Rightarrow> do {
           arr \<leftarrow> add_shift (bb_array bb) (bb_num bb) j;
           arr' \<leftarrow> aset arr j blk;
           Some (BB_OK, bb\<lparr> bb_array := arr', bb_num := Suc (bb_num bb) \<rparr>)
         }
     }
   }"

definition realloc_array :: "u64 list \<Rightarrow> nat \<Rightarrow> u64 list" where
  "realloc_array arr n = take n arr @ replicate (n - length arr) 0"

definition bb_u64_list_add ::
  "bool \<Rightarrow> bb_struct_u64_list \<Rightarrow> u64 \<Rightarrow> (errcode_t \<times> bb_struct_u64_list) option" where
  "bb_u64_list_add realloc_ok bb blk =
     (if bb_magic bb \<noteq> BB_ET_MAGIC_BADBLOCKS_LIST then Some (BB_ET_MAGIC_BADBLOCKS_LIST, bb)
      else if bb_num bb \<ge> bb_size bb then
        (if int (bb_size bb) + 100 > INT_MAX then None
         else if \<not> realloc_ok then Some (BB_ET_NO_MEMORY, bb)
         else do {
           arr \<leftarrow> memset (realloc_array (bb_array bb) (bb_size bb + 100)) (bb_size bb) 0 100;
           add_entry (bb\<lparr> bb_size := bb_size bb + 100, bb_array := arr \<rparr>) blk
         })
      else add_entry bb blk)"

definition bb_badblocks_list_add ::
  "bool \<Rightarrow> bb_struct_u64_list \<Rightarrow> u64 \<Rightarrow> (errcode_t \<times> bb_struct_u64_list) option" where
  "bb_badblocks_list_add = bb_u64_list_add"

text \<open>The bisection loop of \<open>bb_u64_list_find\<close> (lines 167 to 178).\<close>

function find_loop :: "u64 list \<Rightarrow> u64 \<Rightarrow> nat \<Rightarrow> nat \<Rightarrow> int option" where
  "find_loop arr blk low high =
     (if low < high then
        let mid = (low + high) div 2 in
        if mid = low \<or> mid = high then Some (-1)
        else do {
          x \<leftarrow> aget arr mid;
          if blk = x then Some (int mid)
          else if blk < x then find_loop arr blk low mid
          else find_loop arr blk mid high
        }
      else Some (-1))"
  by pat_completeness auto
termination
  by (relation "measure (\<lambda>(arr, blk, low, high). high - low)") auto

declare find_loop.simps [simp del]

definition bb_u64_list_find :: "bb_struct_u64_list \<Rightarrow> u64 \<Rightarrow> int option" where
  "bb_u64_list_find bb blk =
     (if bb_magic bb \<noteq> BB_ET_MAGIC_BADBLOCKS_LIST then Some (-1)
      else if bb_num bb = 0 then Some (-1)
      else do {
        x \<leftarrow> aget (bb_array bb) 0;
        if blk = x then Some 0
        else do {
          y \<leftarrow> aget (bb_array bb) (bb_num bb - 1);
          if blk = y then Some (int (bb_num bb - 1))
          else find_loop (bb_array bb) blk 0 (bb_num bb - 1)
        }
      })"

definition bb_u64_list_test :: "bb_struct_u64_list \<Rightarrow> u64 \<Rightarrow> nat option" where
  "bb_u64_list_test bb blk = do {
     r \<leftarrow> bb_u64_list_find bb blk;
     Some (if r < 0 then 0 else 1)
   }"

definition bb_badblocks_list_test :: "bb_struct_u64_list \<Rightarrow> u64 \<Rightarrow> nat option" where
  "bb_badblocks_list_test = bb_u64_list_test"

text \<open>
  The iterator. It points at the list, which is an argument here; the result is the return
  value, the new iterator and the value stored through \<open>blk\<close> (unchanged where the C
  function returns before it stores).
\<close>

definition bb_u64_list_iterate ::
  "bb_struct_u64_iterate \<Rightarrow> bb_struct_u64_list \<Rightarrow> u64 \<Rightarrow>
   (nat \<times> bb_struct_u64_iterate \<times> u64) option" where
  "bb_u64_list_iterate iter bb blk =
     (if iter_magic iter \<noteq> BB_ET_MAGIC_BADBLOCKS_ITERATE then Some (0, iter, blk)
      else if bb_magic bb \<noteq> BB_ET_MAGIC_BADBLOCKS_LIST then Some (0, iter, blk)
      else if iter_ptr iter < bb_num bb then do {
        x \<leftarrow> aget (bb_array bb) (iter_ptr iter);
        Some (1, iter\<lparr> iter_ptr := Suc (iter_ptr iter) \<rparr>, x)
      }
      else Some (0, iter, 0))"

definition bb_badblocks_list_iterate ::
  "bb_struct_u64_iterate \<Rightarrow> bb_struct_u64_list \<Rightarrow> u64 \<Rightarrow>
   (nat \<times> bb_struct_u64_iterate \<times> u64) option" where
  "bb_badblocks_list_iterate = bb_u64_list_iterate"

section \<open>Invariant and abstraction\<close>

definition bb_entries :: "bb_struct_u64_list \<Rightarrow> u64 list" where
  "bb_entries bb = take (bb_num bb) (bb_array bb)"

definition bb_inv :: "bb_struct_u64_list \<Rightarrow> bool" where
  "bb_inv bb \<longleftrightarrow> bb_magic bb = BB_ET_MAGIC_BADBLOCKS_LIST \<and> bb_num bb \<le> bb_size bb \<and>
     length (bb_array bb) = bb_size bb \<and> sorted_wrt (<) (bb_entries bb)"

text \<open>Insertion into a strictly increasing list, the specification of the C insertion.\<close>

fun ins_block :: "u64 \<Rightarrow> u64 list \<Rightarrow> u64 list" where
  "ins_block x [] = [x]"
| "ins_block x (y # ys) =
     (if x < y then x # y # ys else if x = y then y # ys else y # ins_block x ys)"

lemma set_ins_block [simp]: "set (ins_block x ys) = insert x (set ys)"
  by (induction ys) auto

lemma sorted_ins_block: "sorted_wrt (<) ys \<Longrightarrow> sorted_wrt (<) (ins_block x ys)"
  by (induction ys) auto

lemma ins_block_member: "sorted_wrt (<) ys \<Longrightarrow> x \<in> set ys \<Longrightarrow> ins_block x ys = ys"
  by (induction ys) (auto dest: order.asym)

lemma ins_block_split:
  "sorted_wrt (<) ys \<Longrightarrow> x \<notin> set ys \<Longrightarrow>
   ins_block x ys = takeWhile (\<lambda>y. y < x) ys @ x # dropWhile (\<lambda>y. y < x) ys"
proof (induction ys)
  case (Cons y ys)
  then show ?case by (cases "x < y") auto
qed simp

lemma length_ins_block:
  "sorted_wrt (<) ys \<Longrightarrow> length (ins_block x ys) = (if x \<in> set ys then length ys else Suc (length ys))"
  by (induction ys) (auto dest: order.asym)

section \<open>The two loops of the insertion\<close>

lemma drop_take_step:
  "i < n \<Longrightarrow> n \<le> length xs \<Longrightarrow> drop i (take n xs) = xs ! i # drop (Suc i) (take n xs)"
  by (metis Cons_nth_drop_Suc length_take min.absorb2 nth_take)

lemma add_scan_result:
  assumes "i \<le> num" and "num \<le> length arr"
  shows "add_scan arr num blk i =
    Some (case dropWhile (\<lambda>y. y < blk) (drop i (take num arr)) of
            [] \<Rightarrow> Inr num
          | x # xs \<Rightarrow> if x = blk then Inl () else Inr (num - length (x # xs)))"
  using assms
proof (induction arr num blk i rule: add_scan.induct)
  case (1 arr num blk i)
  show ?case
  proof (cases "i < num")
    case True
    then have d: "drop i (take num arr) = arr ! i # drop (Suc i) (take num arr)"
      using "1.prems" by (intro drop_take_step) auto
    have "num - Suc (num - Suc i) = i" using True by simp
    then show ?thesis
      using True "1.prems" "1.IH"
      by (subst add_scan.simps) (auto simp: array_simps d min_def)
  next
    case False
    then show ?thesis using "1.prems" by (subst add_scan.simps) simp
  qed
qed

lemma add_shift_result:
  "j \<le> i \<Longrightarrow> i < length arr \<Longrightarrow>
   add_shift arr i j = Some (take (Suc j) arr @ drop j (take i arr) @ drop (Suc i) arr)"
proof (induction arr i j rule: add_shift.induct)
  case (1 arr i j)
  show ?case
  proof (cases "j < i")
    case True
    let ?arr = "arr[i := arr ! (i - 1)]"
    have "add_shift arr i j = add_shift ?arr (i - 1) j"
      using True "1.prems" by (subst add_shift.simps) (simp add: array_simps)
    also have "\<dots> = Some (take (Suc j) ?arr @ drop j (take (i - 1) ?arr) @ drop (Suc (i - 1)) ?arr)"
      using True "1.prems" by (intro "1.IH" [OF True]) (auto simp: array_simps)
    also have "take (Suc j) ?arr = take (Suc j) arr" using True by simp
    also have "drop (Suc (i - 1)) ?arr = arr ! (i - 1) # drop (Suc i) arr"
      using True "1.prems" by (simp add: Cons_nth_drop_Suc [symmetric])
    also have "take (i - 1) ?arr = take (i - 1) arr" by simp
    also have "drop j (take (i - 1) arr) @ arr ! (i - 1) # drop (Suc i) arr
             = drop j (take i arr) @ drop (Suc i) arr"
    proof -
      have "take i arr = take (i - 1) arr @ [arr ! (i - 1)]"
        using True "1.prems" take_Suc_conv_app_nth [of "i - 1" arr] by simp
      then show ?thesis using True "1.prems" by simp
    qed
    finally show ?thesis .
  next
    case False
    then show ?thesis using "1.prems" by (subst add_shift.simps) (simp add: id_take_nth_drop)
  qed
qed

section \<open>Insertion\<close>

lemma take_update_append:
  "j \<le> n \<Longrightarrow> n < length arr \<Longrightarrow>
   take (Suc n) ((take (Suc j) arr @ drop j (take n arr) @ drop (Suc n) arr)[j := x]) =
   take j (take n arr) @ x # drop j (take n arr)"
  by (simp add: list_update_append take_Suc_conv_app_nth min_def Suc_diff_le)

lemma sorted_le_last: "sorted_wrt (<) (xs :: u64 list) \<Longrightarrow> y \<in> set xs \<Longrightarrow> y \<le> last xs"
  by (induction xs) (auto split: if_splits dest: order.strict_implies_order)

lemma dropWhile_sorted_member:
  "sorted_wrt (<) xs \<Longrightarrow> x \<in> set xs \<Longrightarrow> \<exists>zs. dropWhile (\<lambda>y. y < x) xs = (x :: u64) # zs"
  by (induction xs) (auto dest: order.asym)

lemma scan_entries:
  assumes inv: "bb_inv bb"
  shows "add_scan (bb_array bb) (bb_num bb) blk 0 = Some (if blk \<in> set (bb_entries bb) then Inl ()
           else Inr (length (takeWhile (\<lambda>y. y < blk) (bb_entries bb))))"
proof -
  let ?xs = "bb_entries bb" and ?D = "dropWhile (\<lambda>y. y < blk) (bb_entries bb)"
  have len: "bb_num bb \<le> length (bb_array bb)" "length ?xs = bb_num bb"
    and srt: "sorted_wrt (<) ?xs"
    using inv by (auto simp: bb_inv_def bb_entries_def)
  have tw: "length (takeWhile (\<lambda>y. y < blk) ?xs) = bb_num bb - length ?D"
    using len by (metis add_diff_cancel_right' length_append takeWhile_dropWhile_id)
  have res: "add_scan (bb_array bb) (bb_num bb) blk 0 = Some (case ?D of [] \<Rightarrow> Inr (bb_num bb)
      | x # xs \<Rightarrow> if x = blk then Inl () else Inr (bb_num bb - length (x # xs)))"
    using add_scan_result [of 0 "bb_num bb" "bb_array bb" blk] len by (simp add: bb_entries_def)
  show ?thesis
  proof (cases "blk \<in> set ?xs")
    case True
    with dropWhile_sorted_member [OF srt] res show ?thesis by fastforce
  next
    case False
    then have "hd ?D \<noteq> blk" if "?D \<noteq> []" using that by (metis hd_in_set set_dropWhileD)
    with res tw False show ?thesis by (cases ?D) auto
  qed
qed

lemma add_entry_correct:
  assumes inv: "bb_inv bb" and room: "bb_num bb < bb_size bb"
  shows "\<exists>bb'. add_entry bb blk = Some (BB_OK, bb') \<and> bb_inv bb' \<and>
           bb_entries bb' = ins_block blk (bb_entries bb) \<and> bb_size bb' = bb_size bb"
proof -
  let ?n = "bb_num bb" and ?arr = "bb_array bb" and ?xs = "bb_entries bb"
  let ?j = "length (takeWhile (\<lambda>y. y < blk) (bb_entries bb))"
  have len: "?n < length ?arr" "length ?xs = ?n" and srt: "sorted_wrt (<) ?xs"
    using inv room by (auto simp: bb_inv_def bb_entries_def)
  have lst: "last ?xs = ?arr ! (?n - 1)" if "?n \<noteq> 0"
    using that len by (simp add: last_conv_nth bb_entries_def flip: length_greater_0_conv)
  have stored: ?thesis
    if "add_entry bb blk = Some (BB_OK, bb\<lparr>bb_array := arr', bb_num := Suc ?n\<rparr>)"
      and "length arr' = length ?arr" and "take (Suc ?n) arr' = ins_block blk ?xs" for arr'
    using that inv room sorted_ins_block [OF srt, of blk] by (auto simp: bb_inv_def bb_entries_def)
  consider (append) "?n = 0 \<or> ?arr ! (?n - 1) < blk"
    | (present) "?n \<noteq> 0" "blk \<in> set ?xs" "\<not> ?arr ! (?n - 1) < blk"
    | (inside) "?n \<noteq> 0" "blk \<notin> set ?xs" "\<not> ?arr ! (?n - 1) < blk"
    by blast
  then show ?thesis
  proof cases
    case append
    have "\<forall>y \<in> set ?xs. y < blk"
      using append lst sorted_le_last [OF srt] len by (cases "?n = 0") fastforce+
    then have "ins_block blk ?xs = ?xs @ [blk]"
      using srt by (subst ins_block_split) (auto simp: takeWhile_eq_all_conv [THEN iffD2])
    then show ?thesis using append len
      by (intro stored [of "?arr[?n := blk]"])
        (auto simp: add_entry_def array_simps take_Suc_conv_app_nth bb_entries_def)
  next
    case present
    then have "add_entry bb blk = Some (BB_OK, bb)"
      using len by (simp add: add_entry_def array_simps scan_entries [OF inv])
    then show ?thesis using inv ins_block_member [OF srt present(2)] by simp
  next
    case inside
    have j: "?j \<le> ?n" using len length_takeWhile_le by metis
    have "?arr ! (?n - 1) \<noteq> blk" using inside lst len by (metis last_in_set length_0_conv)
    moreover have "ins_block blk ?xs = take ?j ?xs @ blk # drop ?j ?xs"
      using ins_block_split [OF srt inside(2)] takeWhile_eq_take [of "\<lambda>y. y < blk" ?xs]
        dropWhile_eq_drop [of "\<lambda>y. y < blk" ?xs] by metis
    ultimately show ?thesis
      using inside len j take_update_append [OF j len(1), of blk]
      by (intro stored [of "(take (Suc ?j) ?arr @ drop ?j (take ?n ?arr) @ drop (Suc ?n) ?arr)[?j := blk]"])
        (simp_all add: add_entry_def array_simps scan_entries [OF inv] add_shift_result
          bb_entries_def [symmetric])
  qed
qed

text \<open>Growing the array keeps the entries and the invariant.\<close>

lemma grown_inv:
  assumes inv: "bb_inv bb"
  shows "memset (realloc_array (bb_array bb) (bb_size bb + 100)) (bb_size bb) 0 100 =
           Some (bb_array bb @ replicate 100 0)"
    and "bb_inv (bb\<lparr>bb_size := bb_size bb + 100, bb_array := bb_array bb @ replicate 100 0\<rparr>)"
    and "bb_entries (bb\<lparr>bb_size := bb_size bb + 100, bb_array := bb_array bb @ replicate 100 0\<rparr>)
           = bb_entries bb"
  using inv by (auto simp: bb_inv_def bb_entries_def realloc_array_def array_simps)

lemma bb_add_success:
  assumes inv: "bb_inv bb" and room: "bb_num bb < bb_size bb \<or> (ok \<and> int (bb_size bb) + 100 \<le> INT_MAX)"
  shows "\<exists>bb'. bb_u64_list_add ok bb blk = Some (BB_OK, bb') \<and> bb_inv bb' \<and>
           bb_entries bb' = ins_block blk (bb_entries bb)"
proof (cases "bb_num bb < bb_size bb")
  case True
  with inv add_entry_correct [OF inv True, of blk] show ?thesis
    by (auto simp: bb_u64_list_add_def bb_inv_def)
next
  case False
  let ?bb = "bb\<lparr>bb_size := bb_size bb + 100, bb_array := bb_array bb @ replicate 100 0\<rparr>"
  have "bb_num ?bb < bb_size ?bb" using inv by (simp add: bb_inv_def)
  from add_entry_correct [OF grown_inv(2) [OF inv] this, of blk] False room inv show ?thesis
    by (auto simp: bb_u64_list_add_def grown_inv [OF inv] bb_inv_def [of bb])
qed

lemma bb_add_no_memory:
  "bb_inv bb \<Longrightarrow> bb_size bb \<le> bb_num bb \<Longrightarrow> int (bb_size bb) + 100 \<le> INT_MAX \<Longrightarrow>
   bb_u64_list_add False bb blk = Some (BB_ET_NO_MEMORY, bb)"
  by (simp add: bb_u64_list_add_def bb_inv_def)

text \<open>Every outcome of an insertion into a well-formed list.\<close>

lemma bb_add_outcome:
  assumes inv: "bb_inv bb" and res: "bb_u64_list_add ok bb blk = Some (e, bb')"
  shows "(e = BB_OK \<and> bb_inv bb' \<and> bb_entries bb' = ins_block blk (bb_entries bb)) \<or>
         (e = BB_ET_NO_MEMORY \<and> bb' = bb)"
proof (cases "bb_num bb < bb_size bb \<or> (ok \<and> int (bb_size bb) + 100 \<le> INT_MAX)")
  case True
  from bb_add_success [OF inv this, of blk] res show ?thesis by auto
next
  case False
  with res inv show ?thesis by (auto simp: bb_u64_list_add_def bb_inv_def split: if_splits)
qed

section \<open>Lookup\<close>

lemma find_loop_result:
  assumes "sorted_wrt (<) xs" and "low \<le> high" and "high < length xs"
    and "xs ! low \<noteq> blk" and "xs ! high \<noteq> blk"
    and "xs = take n arr"
  shows "\<exists>r. find_loop arr blk low high = Some r \<and>
     (if \<exists>k. low \<le> k \<and> k \<le> high \<and> xs ! k = blk
      then 0 \<le> r \<and> nat r < length xs \<and> xs ! nat r = blk else r = -1)"
  using assms
proof (induction arr blk low high rule: find_loop.induct)
  case (1 arr blk low high)
  let ?mid = "(low + high) div 2"
  have le: "xs ! i < xs ! j" if "i < j" "j < length xs" for i j
    using "1.prems"(1) that by (simp add: sorted_wrt_iff_nth_less)
  show ?case
  proof (cases "low < high \<and> ?mid \<noteq> low \<and> ?mid \<noteq> high")
    case False
    then have "high \<le> Suc low" by auto
    then have "k = low \<or> k = high" if "low \<le> k" "k \<le> high" for k using that by auto
    then have "\<not> (\<exists>k. low \<le> k \<and> k \<le> high \<and> xs ! k = blk)" using "1.prems"(4,5) by blast
    with False show ?thesis by (subst find_loop.simps) (auto simp: Let_def)
  next
    case True
    then have mid: "low < ?mid" "?mid < high" by auto
    have acc: "aget arr ?mid = Some (xs ! ?mid)" using mid "1.prems" by (auto simp: aget_def)
    consider "xs ! ?mid = blk" | "blk < xs ! ?mid" | "xs ! ?mid < blk" by (metis linorder_cases)
    then show ?thesis
    proof cases
      case 1
      then show ?thesis using True mid acc "1.prems"(3)
        by (subst find_loop.simps) (auto simp: Let_def intro!: exI [of _ ?mid])
    next
      case 2
      have step: "find_loop arr blk low high = find_loop arr blk low ?mid"
        using True 2 acc by (subst find_loop.simps) (auto simp: Let_def)
      have "k < ?mid" if "xs ! k = blk" "k \<le> high" for k
        using 2 that le [of ?mid k] "1.prems"(3) by (cases k ?mid rule: linorder_cases) auto
      then have "(low \<le> k \<and> k \<le> high \<and> xs ! k = blk) =
                 (low \<le> k \<and> k \<le> ?mid \<and> xs ! k = blk)" for k
        using mid by (metis le_trans less_imp_le_nat)
      with "1.IH"(1) [OF _ refl _ acc] True 2 mid "1.prems" step show ?thesis by auto
    next
      case 3
      have step: "find_loop arr blk low high = find_loop arr blk ?mid high"
        using True 3 acc by (subst find_loop.simps) (auto simp: Let_def)
      have "?mid < k" if "xs ! k = blk" for k
        using 3 that le [of k ?mid] mid "1.prems"(3) by (cases k ?mid rule: linorder_cases) auto
      then have "(low \<le> k \<and> k \<le> high \<and> xs ! k = blk) =
                 (?mid \<le> k \<and> k \<le> high \<and> xs ! k = blk)" for k
        using mid by (metis le_trans less_imp_le_nat)
      with "1.IH"(2) [OF _ refl _ acc] True 3 mid "1.prems" step show ?thesis by auto
    qed
  qed
qed

lemma bb_find_result:
  assumes inv: "bb_inv bb"
  shows "\<exists>r. bb_u64_list_find bb blk = Some r \<and>
     (if blk \<in> set (bb_entries bb)
      then 0 \<le> r \<and> nat r < bb_num bb \<and> bb_entries bb ! nat r = blk else r = -1)"
proof (cases "bb_num bb = 0")
  case True
  with inv show ?thesis by (simp add: bb_u64_list_find_def bb_inv_def bb_entries_def)
next
  case False
  let ?xs = "bb_entries bb" and ?h = "bb_num bb - 1"
  have len: "length ?xs = bb_num bb" "bb_num bb \<le> length (bb_array bb)"
    using inv by (auto simp: bb_inv_def bb_entries_def)
  have nth: "bb_array bb ! k = ?xs ! k" if "k < bb_num bb" for k
    using that by (simp add: bb_entries_def)
  have mem: "blk \<in> set ?xs \<longleftrightarrow> (\<exists>k. 0 \<le> k \<and> k \<le> ?h \<and> ?xs ! k = blk)"
  proof -
    have "k \<le> ?h \<longleftrightarrow> k < bb_num bb" for k using False by auto
    then show ?thesis using len by (auto simp: in_set_conv_nth)
  qed
  show ?thesis
  proof (cases "?xs ! 0 = blk \<or> ?xs ! ?h = blk")
    case True
    then have "blk \<in> set ?xs"
      using len False nth_mem [of 0 ?xs] nth_mem [of ?h ?xs] by auto
    then show ?thesis using True inv False len nth
      by (auto simp: bb_u64_list_find_def bb_inv_def array_simps simp del: of_nat_diff)
  next
    case False2: False
    have "bb_u64_list_find bb blk = find_loop (bb_array bb) blk 0 ?h"
      using False False2 inv len nth by (auto simp: bb_u64_list_find_def bb_inv_def array_simps)
    moreover have "\<exists>r. find_loop (bb_array bb) blk 0 ?h = Some r \<and>
        (if \<exists>k. 0 \<le> k \<and> k \<le> ?h \<and> ?xs ! k = blk
         then 0 \<le> r \<and> nat r < length ?xs \<and> ?xs ! nat r = blk else r = -1)"
      using False False2 len inv
      by (intro find_loop_result [where n = "bb_num bb"]) (auto simp: bb_inv_def bb_entries_def)
    ultimately show ?thesis unfolding mem len(1) by simp
  qed
qed

lemma bb_test_result:
  "bb_inv bb \<Longrightarrow> bb_badblocks_list_test bb blk = Some (if blk \<in> set (bb_entries bb) then 1 else 0)"
  using bb_find_result [of bb blk]
  by (auto simp: bb_badblocks_list_test_def bb_u64_list_test_def split: if_splits)

section \<open>Creation and iteration\<close>

lemma bb_create_result:
  "bb_badblocks_list_create True True n = Some (BB_OK, Some bb) \<Longrightarrow>
   bb_inv bb \<and> bb_entries bb = [] \<and> bb_size bb = (if n = 0 then 10 else n)"
  by (auto simp: bb_badblocks_list_create_def make_u64_list_def array_simps bb_inv_def
      bb_entries_def Let_def split: if_splits)

lemma bb_create_success: "\<exists>bb. bb_badblocks_list_create True True n = Some (BB_OK, Some bb)"
  by (simp add: bb_badblocks_list_create_def make_u64_list_def array_simps Let_def)

text \<open>Calling the iterator until it returns 0 collects the values it stores.\<close>

fun iterate_all ::
  "nat \<Rightarrow> bb_struct_u64_iterate \<Rightarrow> bb_struct_u64_list \<Rightarrow> u64 list option" where
  "iterate_all 0 iter bb = None"
| "iterate_all (Suc fuel) iter bb = do {
     (more, iter', x) \<leftarrow> bb_badblocks_list_iterate iter bb 0;
     if more = 0 then Some [] else do {
       xs \<leftarrow> iterate_all fuel iter' bb;
       Some (x # xs)
     }
   }"

lemma iterate_all_suffix:
  assumes "bb_inv bb" and "iter_magic iter = BB_ET_MAGIC_BADBLOCKS_ITERATE"
    and "iter_ptr iter \<le> bb_num bb" and "bb_num bb - iter_ptr iter < fuel"
  shows "iterate_all fuel iter bb = Some (drop (iter_ptr iter) (bb_entries bb))"
  using assms
proof (induction fuel arbitrary: iter)
  case (Suc fuel)
  have len: "bb_num bb \<le> length (bb_array bb)" using Suc.prems by (simp add: bb_inv_def)
  show ?case
  proof (cases "iter_ptr iter < bb_num bb")
    case True
    have "drop (iter_ptr iter) (bb_entries bb) =
          bb_array bb ! iter_ptr iter # drop (Suc (iter_ptr iter)) (bb_entries bb)"
      unfolding bb_entries_def using True len by (rule drop_take_step)
    with True Suc len show ?thesis
      by (simp add: bb_badblocks_list_iterate_def bb_u64_list_iterate_def bb_inv_def array_simps)
  next
    case False
    with Suc.prems show ?thesis
      by (simp add: bb_badblocks_list_iterate_def bb_u64_list_iterate_def bb_inv_def bb_entries_def)
  qed
qed simp

section \<open>The interface its clients use\<close>

text \<open>
  A registry of blocks: membership, insertion that may fail for lack of memory and then
  changes nothing. A client that tests before it inserts counts every block once.
\<close>

locale block_registry =
  fixes invar :: "'s \<Rightarrow> bool"
    and blocks :: "'s \<Rightarrow> u64 set"
    and test :: "'s \<Rightarrow> u64 \<Rightarrow> nat option"
    and add :: "'s \<Rightarrow> u64 \<Rightarrow> (errcode_t \<times> 's) option"
  assumes finite_blocks: "invar s \<Longrightarrow> finite (blocks s)"
    and test_iff: "invar s \<Longrightarrow> test s b = Some (if b \<in> blocks s then 1 else 0)"
    and add_ok: "invar s \<Longrightarrow> add s b = Some (BB_OK, s') \<Longrightarrow> invar s' \<and> blocks s' = insert b (blocks s)"
    and add_error: "invar s \<Longrightarrow> add s b = Some (e, s') \<Longrightarrow> e \<noteq> BB_OK \<Longrightarrow> s' = s"
begin

definition register :: "'s \<Rightarrow> u64 \<Rightarrow> (nat \<times> 's) option" where
  "register s b = do {
     t \<leftarrow> test s b;
     if t \<noteq> 0 then Some (0, s)
     else do {
       (e, s') \<leftarrow> add s b;
       Some (if e = BB_OK then 1 else 0, s')
     }
   }"

lemma register_cases:
  assumes "invar s" and "register s b = Some (n, s')"
  shows "(n = 0 \<and> s' = s) \<or> (n = 1 \<and> b \<notin> blocks s \<and> invar s' \<and> blocks s' = insert b (blocks s))"
  using assms
  by (auto simp: register_def test_iff bind_eq_Some_conv split: if_splits prod.splits
      dest: add_ok add_error)

lemma register_counts:
  assumes "invar s" and "register s b = Some (n, s')"
  shows "invar s' \<and> card (blocks s') = card (blocks s) + n"
  using register_cases [OF assms] assms(1) finite_blocks by auto

end

interpretation bb: block_registry bb_inv "\<lambda>bb. set (bb_entries bb)" bb_badblocks_list_test
    "bb_badblocks_list_add ok" for ok
proof
  fix s s' :: bb_struct_u64_list and b :: u64 and e :: errcode_t
  assume inv: "bb_inv s"
  show "finite (set (bb_entries s))" by simp
  show "bb_badblocks_list_test s b = Some (if b \<in> set (bb_entries s) then 1 else 0)"
    using inv by (rule bb_test_result)
  show "bb_inv s' \<and> set (bb_entries s') = insert b (set (bb_entries s))"
    if "bb_badblocks_list_add ok s b = Some (BB_OK, s')"
    using bb_add_outcome [OF inv that [unfolded bb_badblocks_list_add_def]] by auto
  show "s' = s" if "bb_badblocks_list_add ok s b = Some (e, s')" and "e \<noteq> BB_OK"
    using bb_add_outcome [OF inv that(1) [unfolded bb_badblocks_list_add_def]] that(2) by auto
qed

section \<open>Results\<close>

fun add_all :: "bb_struct_u64_list \<Rightarrow> u64 list \<Rightarrow> bb_struct_u64_list option" where
  "add_all bb [] = Some bb"
| "add_all bb (b # bs) = do {
     (e, bb') \<leftarrow> bb_badblocks_list_add True bb b;
     if e = BB_OK then add_all bb' bs else None
   }"

lemma bb_add_growth: "bb_u64_list_add True bb b = Some (BB_OK, bb') \<Longrightarrow> bb_size bb' \<le> bb_size bb + 100"
  by (auto simp: bb_u64_list_add_def add_entry_def split: if_splits bind_splits sum.splits)

lemma add_all_result:
  "bb_inv bb \<Longrightarrow> int (bb_size bb) + 100 * int (length bs) \<le> INT_MAX \<Longrightarrow>
   \<exists>bb'. add_all bb bs = Some bb' \<and> bb_inv bb' \<and> set (bb_entries bb') = set (bb_entries bb) \<union> set bs"
proof (induction bs arbitrary: bb)
  case (Cons b bs)
  obtain bb1 where 1: "bb_u64_list_add True bb b = Some (BB_OK, bb1)" "bb_inv bb1" "bb_entries bb1 = ins_block b (bb_entries bb)"
    using bb_add_success [OF Cons.prems(1), of True b] Cons.prems(2) by auto
  have "int (bb_size bb1) + 100 * int (length bs) \<le> INT_MAX" using bb_add_growth [OF 1(1)] Cons.prems(2) by simp
  from Cons.IH [OF 1(2) this] show ?case using 1 by (auto simp: bb_badblocks_list_add_def)
qed simp

text \<open>
  C38. The list keeps exactly the blocks put into it. Starting from a new list, after any sequence
  of insertions that the \<open>int\<close> size admits, a lookup finds the inserted blocks and no others,
  and the iterator returns each of them once, in increasing order, and then stops.
\<close>

theorem bb_list_roundtrip:
  assumes "int (max 10 n) + 100 * int (length blks) \<le> INT_MAX"
  shows "\<exists>bb0 bb. bb_badblocks_list_create True True n = Some (BB_OK, Some bb0) \<and> add_all bb0 blks = Some bb \<and>
    (\<forall>b. bb_badblocks_list_test bb b = Some (if b \<in> set blks then 1 else 0)) \<and>
    iterate_all (Suc (length blks)) \<lparr> iter_magic = BB_ET_MAGIC_BADBLOCKS_ITERATE, iter_ptr = 0 \<rparr> bb =
      Some (sorted_list_of_set (set blks))"
proof -
  obtain bb0 where c: "bb_badblocks_list_create True True n = Some (BB_OK, Some bb0)" using bb_create_success by blast
  then have bb0: "bb_inv bb0" "bb_entries bb0 = []" "bb_size bb0 = (if n = 0 then 10 else n)" using bb_create_result by blast+
  have "int (bb_size bb0) + 100 * int (length blks) \<le> INT_MAX" using bb0(3) assms by (auto simp: max_def split: if_splits)
  then obtain bb where bb: "add_all bb0 blks = Some bb" "bb_inv bb" "set (bb_entries bb) = set blks"
    using add_all_result [OF bb0(1)] bb0(2) by auto
  have s: "sorted_wrt (<) (bb_entries bb)" and len: "length (bb_entries bb) = bb_num bb" using bb(2) by (auto simp: bb_inv_def bb_entries_def)
  then have "bb_entries bb = sorted_list_of_set (set blks)"
    using bb(3) by (metis List.finite_set sorted_list_of_set.idem_if_sorted_distinct strict_sorted_iff)
  moreover have "bb_num bb \<le> length blks"
    using len bb(3) s by (metis card_length distinct_card strict_sorted_iff)
  ultimately have "iterate_all (Suc (length blks)) \<lparr> iter_magic = BB_ET_MAGIC_BADBLOCKS_ITERATE, iter_ptr = 0 \<rparr> bb =
      Some (sorted_list_of_set (set blks))"
    using iterate_all_suffix [OF bb(2), of "\<lparr> iter_magic = BB_ET_MAGIC_BADBLOCKS_ITERATE, iter_ptr = 0 \<rparr>" "Suc (length blks)"] by simp
  then show ?thesis using c bb(1,3) bb_test_result [OF bb(2)] by auto
qed

theorem bb_list_roundtrip_witness:
  "\<exists>bb0 bb. bb_badblocks_list_create True True 0 = Some (BB_OK, Some bb0) \<and> add_all bb0 [7, 3, 7] = Some bb \<and>
    bb_badblocks_list_test bb 3 = Some 1 \<and> bb_badblocks_list_test bb 4 = Some 0"
  using bb_list_roundtrip [of 0 "[7, 3, 7]"] by (auto simp: INT_MAX_def)

text \<open>
  C39. One insertion. On a list in order, \<open>bb_badblocks_list_add\<close> refines insertion into a
  set and keeps the array strictly increasing and within its allocation; when the array is full
  and memory cannot be had it reports \<open>BB_ET_NO_MEMORY\<close> and changes nothing.
\<close>

theorem bb_add_refines:
  assumes "bb_inv bb" and "int (bb_size bb) + 100 \<le> INT_MAX"
  shows "\<exists>e bb'. bb_badblocks_list_add ok bb blk = Some (e, bb') \<and> bb_inv bb' \<and>
    (if bb_num bb < bb_size bb \<or> ok then e = BB_OK \<and> set (bb_entries bb') = insert blk (set (bb_entries bb))
     else e = BB_ET_NO_MEMORY \<and> bb' = bb)"
proof (cases "bb_num bb < bb_size bb \<or> ok")
  case True
  then show ?thesis using bb_add_success [OF assms(1), of ok blk] assms(2) by (auto simp: bb_badblocks_list_add_def)
next
  case False
  then show ?thesis using bb_add_no_memory [OF assms(1), of blk] assms by (auto simp: bb_badblocks_list_add_def)
qed

theorem bb_add_refines_witness:
  "\<exists>e bb'. bb_badblocks_list_add False \<lparr> bb_magic = BB_ET_MAGIC_BADBLOCKS_LIST, bb_num = 2, bb_size = 3, bb_array = [4, 9, 0] \<rparr> 5 =
      Some (e, bb') \<and> e = BB_OK \<and> set (bb_entries bb') = {4, 5, 9}"
  using bb_add_refines [of "\<lparr> bb_magic = BB_ET_MAGIC_BADBLOCKS_LIST, bb_num = 2, bb_size = 3, bb_array = [4, 9, 0] \<rparr>" False 5]
  by (auto simp: bb_inv_def bb_entries_def INT_MAX_def)

end
