(* ===== verification/Bad_Block_Test.thy ===== *)
theory Bad_Block_Test
  imports Bad_Block_List Sector_IO
begin

text \<open>
  The destructive surface test of \<open>src/src/badblocks.c\<close> (lines 226 to 606): filling the
  drive with test patterns, reading them back, counting the blocks that fail. The C globals
  and the locals of \<open>test_rw\<close> are the record \<open>bb_state\<close>; what the code does not decide
  (the drive, the random numbers, the allocator, the user's cancel request) is the record
  \<open>bb_env\<close>.
\<close>

section \<open>Data\<close>

datatype error_types = READ_ERROR | WRITE_ERROR | CORRUPTION_ERROR

datatype op_type = OP_READ | OP_WRITE

datatype log_entry = BlockError u64 error_types | AbortMsg

definition BB_BAD_BLOCKS_THRESHOLD :: nat where
  "BB_BAD_BLOCKS_THRESHOLD = 256"

definition BB_BLOCKS_AT_ONCE :: nat where
  "BB_BLOCKS_AT_ONCE = 64"

definition BADBLOCK_BLOCK_SIZE :: nat where
  "BADBLOCK_BLOCK_SIZE = 512 * 1024"

definition PB :: nat where
  "PB = 1024 ^ 5"

definition RAND_MAX :: nat where
  "RAND_MAX = 32767"

text \<open>The pattern table: one row per \<open>pattern_type\<close>, one column per pass.\<close>

definition bb_patterns :: "u32 list list" where
  "bb_patterns =
     [[0x55, 0x00, 0x00, 0x00],
      [0x55, 0xaa, 0x00, 0x00],
      [0x00, 0xff, 0x55, 0xaa],
      [0x00, 0xff, 0x33, 0xcc],
      [0x00, 0xff, 0x1c71c7, 0xe38e38]]"

definition BADLOCKS_PATTERN_TYPES :: int where
  "BADLOCKS_PATTERN_TYPES = 5"

definition BADBLOCK_PATTERN_COUNT :: int where
  "BADBLOCK_PATTERN_COUNT = 4"

text \<open>
  \<open>env_cancel d\<close> says that, with the drive in state \<open>d\<close>, the timer callback
  \<open>alarm_intr\<close> has run and found an \<open>ErrorStatus\<close>. \<open>env_rand k\<close> is the \<open>k\<close>-th
  value of \<open>rand\<close>, \<open>env_rand_id\<close> the one that selects the offset of the block numbers.
\<close>

record 'd bb_env =
  env_api :: "'d disk_api"
  env_large_drive :: bool
  env_detect_fakes :: bool
  env_realloc_ok :: "nat \<Rightarrow> bool"
  env_buffers_ok :: bool
  env_cancel :: "'d \<Rightarrow> bool"
  env_rand :: "nat \<Rightarrow> nat"
  env_rand_id :: nat

record 'd bb_state =
  cancel_ops :: bool
  cur_pattern :: nat
  nr_pattern :: nat
  cur_op :: op_type
  currently_testing :: nat
  num_blocks :: nat
  num_read_errors :: nat
  num_write_errors :: nat
  num_corruption_errors :: nat
  bb_list :: bb_struct_u64_list
  next_bad :: u64
  bb_iter :: "bb_struct_u64_iterate option"
  bb_log :: "log_entry list"
  bb_io :: "'d io_state"
  bb_count :: nat
  tryout :: nat
  recover_block :: "nat option"
  buffer :: "u8 list"
  read_buffer :: "u8 list"

text \<open>The arguments of \<open>test_rw\<close> that stay fixed during its run.\<close>

record rw_args =
  last_block :: nat
  block_size :: nat
  first_block :: nat
  blocks_at_once :: nat

section \<open>Reporting a block\<close>

text \<open>Lines 272 to 277: keep an iteration over the list in step with an insertion before it.\<close>

definition iter_kludge ::
  "u64 \<Rightarrow> bb_struct_u64_list \<Rightarrow> u64 \<Rightarrow> bb_struct_u64_iterate option \<Rightarrow>
   (bb_struct_u64_iterate option \<times> u64) option" where
  "iter_kludge bad lst nb iter =
     (case iter of
        None \<Rightarrow> Some (None, nb)
      | Some it \<Rightarrow>
          if bad < nb then do {
            (_, it', nb') \<leftarrow> bb_badblocks_list_iterate it lst nb;
            Some (Some it', nb')
          }
          else Some (Some it, nb))"

definition count_error :: "error_types \<Rightarrow> 'd bb_state \<Rightarrow> 'd bb_state" where
  "count_error error_type s =
     (case error_type of
        READ_ERROR \<Rightarrow> s\<lparr> num_read_errors := Suc (num_read_errors s) \<rparr>
      | WRITE_ERROR \<Rightarrow> s\<lparr> num_write_errors := Suc (num_write_errors s) \<rparr>
      | CORRUPTION_ERROR \<Rightarrow> s\<lparr> num_corruption_errors := Suc (num_corruption_errors s) \<rparr>)"

definition bb_output ::
  "'d bb_env \<Rightarrow> u64 \<Rightarrow> error_types \<Rightarrow> 'd bb_state \<Rightarrow> (nat \<times> 'd bb_state) option" where
  "bb_output env bad error_type s = do {
     t \<leftarrow> bb_badblocks_list_test (bb_list s) bad;
     if t \<noteq> 0 then Some (0, s)
     else do {
       (error_code, lst) \<leftarrow>
         bb_badblocks_list_add (env_realloc_ok env (bb_size (bb_list s))) (bb_list s) bad;
       let s1 = s\<lparr> bb_log := bb_log s @ [BlockError bad error_type], bb_list := lst \<rparr>;
       if error_code \<noteq> BB_OK then Some (0, s1)
       else do {
         (it, nb) \<leftarrow> iter_kludge bad lst (next_bad s1) (bb_iter s1);
         Some (1, count_error error_type (s1\<lparr> bb_iter := it, next_bad := nb \<rparr>))
       }
     }
   }"

text \<open>The timer callback, as far as it changes the state.\<close>

definition alarm_intr :: "'d bb_env \<Rightarrow> 'd bb_state \<Rightarrow> 'd bb_state" where
  "alarm_intr env s =
     (if num_blocks s = 0 then s
      else if env_cancel env (dev (bb_io s)) then s\<lparr> cancel_ops := True \<rparr>
      else s)"

section \<open>Filling the buffer\<close>

text \<open>The bytes of the pattern, least significant first, up to the last non-zero one.\<close>

fun bpattern :: "nat \<Rightarrow> u32 \<Rightarrow> u8 list" where
  "bpattern 0 pattern = []"
| "bpattern (Suc n) pattern =
     (if pattern = 0 then [] else ucast (pattern AND 0xFF) # bpattern n (drop_bit 8 pattern))"

fun fill_cycle :: "u8 list \<Rightarrow> nat \<Rightarrow> nat \<Rightarrow> nat \<Rightarrow> u8 list" where
  "fill_cycle bp nb i 0 = []"
| "fill_cycle bp nb i (Suc n) = bp ! i # fill_cycle bp nb (if i = 0 then nb else i - 1) n"

definition pattern_bytes :: "u32 \<Rightarrow> nat \<Rightarrow> u8 list" where
  "pattern_bytes pattern n =
     (let bp = bpattern 4 pattern;
          nb = (if length bp \<noteq> 0 then length bp - 1 else 0)
      in fill_cycle (if bp = [] then [0] else bp) nb nb n)"

definition pattern_fill :: "'d bb_env \<Rightarrow> u32 \<Rightarrow> nat \<Rightarrow> 'd bb_state \<Rightarrow> 'd bb_state option" where
  "pattern_fill env pattern n s =
     (if pattern = 0xFFFFFFFF then do {
        b \<leftarrow> memcpy (buffer s) 0 (map (\<lambda>k. of_nat (env_rand env k mod 256)) [0..<n]) n;
        Some (s\<lparr> buffer := b \<rparr>)
      }
      else do {
        b \<leftarrow> memcpy (buffer s) 0 (pattern_bytes pattern n) n;
        Some (s\<lparr> buffer := b, cur_pattern := Suc (cur_pattern s) \<rparr>)
      })"

text \<open>A 64-bit number as eight bytes, least significant first.\<close>

definition le64 :: "u64 \<Rightarrow> u8 list" where
  "le64 w = map (\<lambda>k. ucast (drop_bit (8 * k) w)) [0..<8]"

text \<open>The loop that writes the block numbers into the buffer (lines 482 to 485).\<close>

fun stamp_ids :: "u8 list \<Rightarrow> nat \<Rightarrow> nat \<Rightarrow> nat \<Rightarrow> nat \<Rightarrow> u8 list option" where
  "stamp_ids buf id_offset bsz cur 0 = Some buf"
| "stamp_ids buf id_offset bsz cur (Suc n) = do {
     buf' \<leftarrow> stamp_ids buf id_offset bsz cur n;
     memcpy buf' (id_offset + n * bsz) (le64 (of_nat (cur + n))) 8
   }"

section \<open>Reading and writing blocks\<close>

definition do_read ::
  "'d bb_env \<Rightarrow> nat \<Rightarrow> nat \<Rightarrow> nat \<Rightarrow> 'd bb_state \<Rightarrow> (nat \<times> 'd bb_state) option" where
  "do_read env try bsz current_block s =
     (case read_sectors (env_api env) bsz current_block try (bb_io s) of
        (got, bytes, io') \<Rightarrow> do {
          rb \<leftarrow> memcpy (read_buffer s) 0 bytes (length bytes);
          Some (nat (if got < 0 then 0 else got) div bsz, s\<lparr> read_buffer := rb, bb_io := io' \<rparr>)
        })"

definition do_write ::
  "'d bb_env \<Rightarrow> nat \<Rightarrow> nat \<Rightarrow> nat \<Rightarrow> 'd bb_state \<Rightarrow> (nat \<times> 'd bb_state) option" where
  "do_write env try bsz current_block s =
     (if length (buffer s) < try * bsz then None
      else
        case write_sectors (env_api env) (env_large_drive env) bsz current_block try (buffer s) (bb_io s) of
          (got, io') \<Rightarrow> Some (nat (if got < 0 then 0 else got) div bsz, s\<lparr> bb_io := io' \<rparr>))"

section \<open>The test\<close>

text \<open>
  Lines 491 to 503 and 535 to 547, the same in both phases: report a single block that could
  not be transferred, advance, and choose how many blocks to try next. The flag says whether
  the transfer was complete; \<open>recover_block = None\<close> stands for \<open>~0\<close>.
\<close>

definition advance ::
  "'d bb_env \<Rightarrow> rw_args \<Rightarrow> error_types \<Rightarrow> nat \<Rightarrow> 'd bb_state \<Rightarrow> (bool \<times> 'd bb_state) option" where
  "advance env a error_type got s = do {
     s1 \<leftarrow> (if got = 0 \<and> tryout s = 1 then do {
               (n, s') \<leftarrow> bb_output env (of_nat (currently_testing s)) error_type
                            (s\<lparr> currently_testing := Suc (currently_testing s) \<rparr>);
               Some (s'\<lparr> bb_count := bb_count s' + n \<rparr>)
             }
             else Some s);
     let s2 = s1\<lparr> currently_testing := currently_testing s1 + got \<rparr>;
     if got \<noteq> tryout s2 then
       Some (False, s2\<lparr> tryout := 1,
                        recover_block := (case recover_block s2 of
                            None \<Rightarrow> Some (currently_testing s2 - got + blocks_at_once a)
                          | Some r \<Rightarrow> Some r) \<rparr>)
     else if recover_block s2 = Some (currently_testing s2) then
       Some (True, s2\<lparr> tryout := blocks_at_once a, recover_block := None \<rparr>)
     else Some (True, s2)
   }"

text \<open>
  Lines 466 to 486 and 515 to 532: the checks at the top of both loops and the stamping of
  the block numbers. \<open>Inl\<close> is \<open>goto out\<close>.
\<close>

definition loop_head ::
  "'d bb_env \<Rightarrow> rw_args \<Rightarrow> nat \<Rightarrow> bool \<Rightarrow> 'd bb_state \<Rightarrow> ('d bb_state + 'd bb_state) option" where
  "loop_head env a id_offset stamped s =
     (let s0 = alarm_intr env s in
      if cancel_ops s0 then Some (Inl s0)
      else if bb_count s0 \<ge> BB_BAD_BLOCKS_THRESHOLD then
        Some (Inl (s0\<lparr> bb_log := bb_log s0 @ [AbortMsg], cancel_ops := True \<rparr>))
      else
        let s1 = (if currently_testing s0 + tryout s0 > last_block a
                  then s0\<lparr> tryout := last_block a - currently_testing s0 \<rparr> else s0)
        in if stamped then do {
             b \<leftarrow> stamp_ids (buffer s1) id_offset (block_size a) (currently_testing s1) (blocks_at_once a);
             Some (Inr (s1\<lparr> buffer := b \<rparr>))
           }
           else Some (Inr s1))"

definition write_iter ::
  "'d bb_env \<Rightarrow> rw_args \<Rightarrow> nat \<Rightarrow> bool \<Rightarrow> 'd bb_state \<Rightarrow> (bool \<times> 'd bb_state) option" where
  "write_iter env a id_offset stamped s = do {
     h \<leftarrow> loop_head env a id_offset stamped s;
     case h of
       Inl s' \<Rightarrow> Some (False, s')
     | Inr s' \<Rightarrow> do {
         (got, s1) \<leftarrow> do_write env (tryout s') (block_size a) (currently_testing s') s';
         (_, s2) \<leftarrow> advance env a WRITE_ERROR got s1;
         Some (True, s2)
       }
   }"

partial_function (option) write_loop ::
  "'d bb_env \<Rightarrow> rw_args \<Rightarrow> nat \<Rightarrow> bool \<Rightarrow> 'd bb_state \<Rightarrow> (bool \<times> 'd bb_state) option" where
  "write_loop env a id_offset stamped s =
     (if currently_testing s < last_block a then do {
        (go, s') \<leftarrow> write_iter env a id_offset stamped s;
        if go then write_loop env a id_offset stamped s' else Some (False, s')
      }
      else Some (True, s))"

declare write_loop.simps [code]

text \<open>The comparison of what was read with what was written (lines 548 to 557).\<close>

function compare_loop ::
  "'d bb_env \<Rightarrow> rw_args \<Rightarrow> nat \<Rightarrow> nat \<Rightarrow> 'd bb_state \<Rightarrow> (bool \<times> 'd bb_state) option" where
  "compare_loop env a got i s =
     (if i < got then
        (if length (read_buffer s) < Suc i * block_size a \<or> length (buffer s) < Suc i * block_size a
         then None
         else if slice (i * block_size a) (block_size a) (read_buffer s) \<noteq>
                 slice (i * block_size a) (block_size a) (buffer s)
         then
           (if \<not> mul64 (currently_testing s) (block_size a) < PB then Some (False, s)
            else do {
              (n, s') \<leftarrow> bb_output env (of_nat (currently_testing s + i - got)) CORRUPTION_ERROR s;
              compare_loop env a got (Suc i) (s'\<lparr> bb_count := bb_count s' + n \<rparr>)
            })
         else compare_loop env a got (Suc i) s)
      else Some (True, s))"
  by pat_completeness auto
termination
  by (relation "measure (\<lambda>(env, a, got, i, s). got - i)") auto

declare compare_loop.simps [simp del]

definition read_iter ::
  "'d bb_env \<Rightarrow> rw_args \<Rightarrow> nat \<Rightarrow> bool \<Rightarrow> 'd bb_state \<Rightarrow> (bool \<times> 'd bb_state) option" where
  "read_iter env a id_offset stamped s = do {
     h \<leftarrow> loop_head env a id_offset stamped s;
     case h of
       Inl s' \<Rightarrow> Some (False, s')
     | Inr s' \<Rightarrow> do {
         (got, s1) \<leftarrow> do_read env (tryout s') (block_size a) (currently_testing s') s';
         (full, s2) \<leftarrow> advance env a READ_ERROR got s1;
         if \<not> full then Some (True, s2) else compare_loop env a got 0 s2
       }
   }"

partial_function (option) read_loop ::
  "'d bb_env \<Rightarrow> rw_args \<Rightarrow> nat \<Rightarrow> bool \<Rightarrow> 'd bb_state \<Rightarrow> (bool \<times> 'd bb_state) option" where
  "read_loop env a id_offset stamped s =
     (if currently_testing s < last_block a then do {
        (go, s') \<leftarrow> read_iter env a id_offset stamped s;
        if go then read_loop env a id_offset stamped s' else Some (False, s')
      }
      else Some (True, s))"

declare read_loop.simps [code]

text \<open>One round of the outer \<open>for\<close> loop: one pattern written, read back and compared.\<close>

definition test_pass ::
  "'d bb_env \<Rightarrow> rw_args \<Rightarrow> u32 \<Rightarrow> nat \<Rightarrow> 'd bb_state \<Rightarrow> (bool \<times> 'd bb_state) option" where
  "test_pass env a pattern pat_idx s =
     (let s0 = alarm_intr env s;
          stamped = (env_detect_fakes env \<and> pat_idx = 0);
          id_offset = env_rand_id env * (block_size a - 8) div RAND_MAX
      in if cancel_ops s0 then Some (False, s0)
         else do {
           s1 \<leftarrow> pattern_fill env pattern (blocks_at_once a * block_size a) s0;
           (go, s2) \<leftarrow> write_loop env a id_offset stamped
             (s1\<lparr> num_blocks := (last_block a + 2 ^ 64 - 1) mod 2 ^ 64,
                  currently_testing := first_block a, cur_op := OP_WRITE,
                  tryout := blocks_at_once a \<rparr>);
           if \<not> go then Some (False, s2)
           else do {
             (go', s3) \<leftarrow> read_loop env a id_offset stamped
               (s2\<lparr> cur_op := OP_READ, num_blocks := last_block a,
                    currently_testing := first_block a, tryout := blocks_at_once a \<rparr>);
             if \<not> go' then Some (False, s3) else Some (True, s3\<lparr> num_blocks := 0 \<rparr>)
           }
         })"

fun test_passes ::
  "'d bb_env \<Rightarrow> rw_args \<Rightarrow> u32 list \<Rightarrow> nat \<Rightarrow> 'd bb_state \<Rightarrow> 'd bb_state option" where
  "test_passes env a [] pat_idx s = Some s"
| "test_passes env a (pattern # ps) pat_idx s = do {
     (go, s') \<leftarrow> test_pass env a pattern pat_idx s;
     if go then test_passes env a ps (Suc pat_idx) s' else Some s'
   }"

definition test_rw ::
  "'d bb_env \<Rightarrow> rw_args \<Rightarrow> int \<Rightarrow> int \<Rightarrow> 'd bb_state \<Rightarrow> (nat \<times> 'd bb_state) option" where
  "test_rw env a pattern_type nb_passes s =
     (if pattern_type < 0 \<or> pattern_type \<ge> BADLOCKS_PATTERN_TYPES then Some (0, s\<lparr> cancel_ops := True \<rparr>)
      else if nb_passes < 1 \<or> nb_passes > BADBLOCK_PATTERN_COUNT then Some (0, s\<lparr> cancel_ops := True \<rparr>)
      else if mul64 (first_block a) (block_size a) > PB \<or> mul64 (last_block a) (block_size a) > PB
        then Some (0, s\<lparr> cancel_ops := True \<rparr>)
      else if \<not> env_buffers_ok env then Some (0, s\<lparr> cancel_ops := True \<rparr>)
      else do {
        s' \<leftarrow> test_passes env a (take (nat nb_passes) (bb_patterns ! nat pattern_type)) 0
          (s\<lparr> nr_pattern := nat nb_passes, cur_pattern := 0, bb_count := 0, recover_block := None,
              buffer := replicate (blocks_at_once a * block_size a) 0,
              read_buffer := replicate (blocks_at_once a * block_size a) 0 \<rparr>);
        Some (bb_count s', s')
      })"

record badblocks_report =
  rep_bb_count :: nat
  rep_read_errors :: nat
  rep_write_errors :: nat
  rep_corruption_errors :: nat

text \<open>
  \<open>BadBlocks\<close> with a report to fill (\<open>report = None\<close> is the null pointer). The two flags
  say whether the list's two allocations succeed.
\<close>

definition BadBlocks ::
  "'d bb_env \<Rightarrow> bool \<Rightarrow> bool \<Rightarrow> nat \<Rightarrow> int \<Rightarrow> int \<Rightarrow> badblocks_report option \<Rightarrow> 'd bb_state \<Rightarrow>
   (bool \<times> badblocks_report option \<times> 'd bb_state) option" where
  "BadBlocks env calloc_ok malloc_ok disk_size nb_passes flash_type report s =
     (case report of
        None \<Rightarrow> Some (False, None, s)
      | Some rep \<Rightarrow> do {
          let s0 = s\<lparr> num_read_errors := 0, num_write_errors := 0, num_corruption_errors := 0 \<rparr>;
          let rep0 = rep\<lparr> rep_bb_count := 0 \<rparr>;
          (error_code, lst) \<leftarrow> bb_badblocks_list_create calloc_ok malloc_ok 0;
          case lst of
            None \<Rightarrow> Some (False, Some rep0, s0)
          | Some l \<Rightarrow> do {
              (n, s1) \<leftarrow> test_rw env
                \<lparr> last_block = disk_size div BADBLOCK_BLOCK_SIZE, block_size = BADBLOCK_BLOCK_SIZE,
                  first_block = 0, blocks_at_once = BB_BLOCKS_AT_ONCE \<rparr> flash_type nb_passes
                (s0\<lparr> bb_list := l, cancel_ops := False \<rparr>);
              Some (\<not> (cancel_ops s1 \<and> n = 0),
                    Some (rep0\<lparr> rep_bb_count := n, rep_read_errors := num_read_errors s1,
                               rep_write_errors := num_write_errors s1,
                               rep_corruption_errors := num_corruption_errors s1 \<rparr>), s1)
            }
        })"

section \<open>Accounting\<close>

text \<open>
  What the counters say at any time: the number of bad blocks is the number of entries of
  the list, it is the sum of the three error counts, and every entry is a block of the
  tested range. The bound on the array keeps its growth clear of a signed overflow.
\<close>

definition bb_acct :: "rw_args \<Rightarrow> 'd bb_state \<Rightarrow> bool" where
  "bb_acct a s \<longleftrightarrow> bb_inv (bb_list s) \<and> bb_count s = bb_num (bb_list s) \<and>
     bb_count s = num_read_errors s + num_write_errors s + num_corruption_errors s \<and>
     (\<forall>b \<in> set (bb_entries (bb_list s)). first_block a \<le> unat b \<and> unat b < last_block a) \<and>
     bb_size (bb_list s) \<le> bb_num (bb_list s) + 110 \<and> last_block a < 2 ^ 64"

text \<open>The parts of the state that reporting a block leaves alone.\<close>

definition bb_same :: "'d bb_state \<Rightarrow> 'd bb_state \<Rightarrow> bool" where
  "bb_same s s' \<longleftrightarrow> cancel_ops s' = cancel_ops s \<and> cur_pattern s' = cur_pattern s \<and>
     currently_testing s' = currently_testing s \<and> num_blocks s' = num_blocks s \<and>
     bb_io s' = bb_io s \<and> bb_count s' = bb_count s \<and> tryout s' = tryout s \<and>
     recover_block s' = recover_block s \<and> buffer s' = buffer s \<and> read_buffer s' = read_buffer s"

lemma bb_num_entries: "bb_inv bb \<Longrightarrow> length (bb_entries bb) = bb_num bb"
  by (auto simp: bb_inv_def bb_entries_def)

lemma bb_add_size:
  assumes "bb_inv bb" and "bb_u64_list_add ok bb blk = Some (BB_OK, bb')"
    and "bb_size bb \<le> bb_num bb + 110"
  shows "bb_size bb' \<le> bb_num bb + 110"
proof (cases "bb_num bb < bb_size bb")
  case True
  with add_entry_correct [OF assms(1) True, of blk] assms show ?thesis
    by (auto simp: bb_u64_list_add_def bb_inv_def)
next
  case False
  let ?bb = "bb\<lparr>bb_size := bb_size bb + 100, bb_array := bb_array bb @ replicate 100 0\<rparr>"
  have "bb_num ?bb < bb_size ?bb" using assms by (simp add: bb_inv_def)
  from add_entry_correct [OF grown_inv(2) [OF assms(1)] this, of blk] False assms show ?thesis
    by (auto simp: bb_u64_list_add_def grown_inv [OF assms(1)] bb_inv_def [of bb] split: if_splits)
qed

text \<open>The three ways \<open>bb_output\<close> can go.\<close>

lemma bb_outputE:
  assumes "bb_output env b et s = Some (n, s')"
  obtains (seen) t where "n = 0" "s' = s" "bb_badblocks_list_test (bb_list s) b = Some t" "t \<noteq> 0"
    | (failed) e l where "n = 0" "e \<noteq> BB_OK" "bb_badblocks_list_test (bb_list s) b = Some 0"
        "bb_badblocks_list_add (env_realloc_ok env (bb_size (bb_list s))) (bb_list s) b = Some (e, l)"
        "s' = s\<lparr> bb_log := bb_log s @ [BlockError b et], bb_list := l \<rparr>"
    | (stored) l it nb where "n = 1" "bb_badblocks_list_test (bb_list s) b = Some 0"
        "bb_badblocks_list_add (env_realloc_ok env (bb_size (bb_list s))) (bb_list s) b = Some (BB_OK, l)"
        "s' = count_error et (s\<lparr> bb_log := bb_log s @ [BlockError b et], bb_list := l,
                bb_iter := it, next_bad := nb \<rparr>)"
proof -
  obtain t where t: "bb_badblocks_list_test (bb_list s) b = Some t"
    using assms by (cases "bb_badblocks_list_test (bb_list s) b") (simp_all add: bb_output_def)
  show thesis
  proof (cases "t = 0")
    case False
    with t assms show thesis by (intro seen [of t]) (simp_all add: bb_output_def)
  next
    case True
    obtain e l where add: "bb_badblocks_list_add (env_realloc_ok env (bb_size (bb_list s))) (bb_list s) b
        = Some (e, l)"
      using assms t True
      by (cases "bb_badblocks_list_add (env_realloc_ok env (bb_size (bb_list s))) (bb_list s) b")
        (auto simp: bb_output_def)
    show thesis
    proof (cases "e = BB_OK")
      case False
      with t True add assms show thesis
        by (intro failed [of e l]) (simp_all add: bb_output_def Let_def)
    next
      case ok: True
      obtain it nb where "iter_kludge b l (next_bad s) (bb_iter s) = Some (it, nb)"
        using assms t True add ok
        by (cases "iter_kludge b l (next_bad s) (bb_iter s)") (auto simp: bb_output_def Let_def)
      with t True add ok assms show thesis
        by (intro stored [of l nb it]) (simp_all add: bb_output_def Let_def)
    qed
  qed
qed

lemma bb_same_count_error [simp]: "bb_same s (count_error et t) = bb_same s t"
  by (cases et) (simp_all add: count_error_def bb_same_def)

lemma bb_list_count_error [simp]: "bb_list (count_error et s) = bb_list s"
  by (cases et) (simp_all add: count_error_def)

lemma sum_count_error:
  "num_read_errors (count_error et s) + num_write_errors (count_error et s) +
   num_corruption_errors (count_error et s) =
   Suc (num_read_errors s + num_write_errors s + num_corruption_errors s)"
  by (cases et) (simp_all add: count_error_def)

lemma bb_output_frame:
  assumes "bb_output env b et s = Some (n, s')"
  shows "bb_same s s'"
  using assms
proof (cases rule: bb_outputE)
  case (stored l it nb)
  show ?thesis unfolding stored(4) bb_same_count_error by (simp add: bb_same_def)
qed (simp_all add: bb_same_def)

lemma bb_output_list:
  "bb_output env b et s = Some (n, s') \<Longrightarrow>
   bb.register (env_realloc_ok env (bb_size (bb_list s))) (bb_list s) b = Some (n, bb_list s')"
  by (erule bb_outputE) (simp_all add: bb.register_def)

lemma bb_output_counts:
  "bb_output env b et s = Some (n, s') \<Longrightarrow>
   num_read_errors s' + num_write_errors s' + num_corruption_errors s' =
   num_read_errors s + num_write_errors s + num_corruption_errors s + n"
  by (erule bb_outputE) (simp_all add: sum_count_error)

lemma bb_acct_bump:
  assumes "bb_acct a s" and "bb_same s s'" and "bb_inv (bb_list s')"
    and "num_read_errors s' + num_write_errors s' + num_corruption_errors s' =
         num_read_errors s + num_write_errors s + num_corruption_errors s + n"
    and "bb_num (bb_list s') = bb_num (bb_list s) + n"
    and "\<forall>x \<in> set (bb_entries (bb_list s')). first_block a \<le> unat x \<and> unat x < last_block a"
    and "bb_size (bb_list s') \<le> bb_num (bb_list s) + 110"
  shows "bb_acct a (s'\<lparr> bb_count := bb_count s' + n \<rparr>)"
  using assms by (simp add: bb_acct_def bb_same_def)

lemma bb_output_acct:
  assumes acct: "bb_acct a s" and out: "bb_output env b et s = Some (n, s')"
    and b: "first_block a \<le> unat b" "unat b < last_block a"
  shows "bb_acct a (s'\<lparr> bb_count := bb_count s' + n \<rparr>)" and "n \<le> 1"
proof -
  have inv: "bb_inv (bb_list s)" and size: "bb_size (bb_list s) \<le> bb_num (bb_list s) + 110"
    and range: "\<forall>x \<in> set (bb_entries (bb_list s)). first_block a \<le> unat x \<and> unat x < last_block a"
    using acct by (simp_all add: bb_acct_def)
  note bump = bb_acct_bump [OF acct bb_output_frame [OF out] _ bb_output_counts [OF out]]
  from out have "bb_acct a (s'\<lparr> bb_count := bb_count s' + n \<rparr>) \<and> n \<le> 1"
  proof (cases rule: bb_outputE)
    case (seen t)
    then show ?thesis using inv size range by (intro conjI bump) simp_all
  next
    case (failed e l)
    have "bb_list s' = bb_list s" using bb.add_error [OF inv failed(4,2)] failed(5) by simp
    then show ?thesis using inv size range failed(1) by (intro conjI bump) simp_all
  next
    case (stored l it nb)
    have l: "bb_list s' = l" unfolding stored(4) by simp
    have add: "bb_u64_list_add (env_realloc_ok env (bb_size (bb_list s))) (bb_list s) b = Some (BB_OK, l)"
      using stored(3) by (simp add: bb_badblocks_list_add_def)
    have l_inv: "bb_inv l" "bb_entries l = ins_block b (bb_entries (bb_list s))"
      using bb_add_outcome [OF inv add] by auto
    have "b \<notin> set (bb_entries (bb_list s))" using bb_test_result [OF inv, of b] stored(2)
      by (auto split: if_splits)
    then have "bb_num l = bb_num (bb_list s) + n"
      using length_ins_block [of "bb_entries (bb_list s)" b] bb_num_entries [OF inv]
        bb_num_entries [OF l_inv(1)] l_inv(2) stored(1) inv by (simp add: bb_inv_def)
    then show ?thesis
      using l_inv range b bb_add_size [OF inv add size] stored(1) by (intro conjI bump) (auto simp: l)
  qed
  then show "bb_acct a (s'\<lparr> bb_count := bb_count s' + n \<rparr>)" and "n \<le> 1" by auto
qed

lemma iter_kludge_total: "bb_inv l \<Longrightarrow> \<exists>r. iter_kludge b l nb it = Some r"
  by (auto simp: iter_kludge_def bb_badblocks_list_iterate_def bb_u64_list_iterate_def bb_inv_def
      array_simps split: option.splits)

lemma bb_output_total:
  assumes acct: "bb_acct a s" and few: "bb_count s < 2 ^ 30"
  shows "\<exists>n s'. bb_output env b et s = Some (n, s')"
proof -
  let ?ok = "env_realloc_ok env (bb_size (bb_list s))"
  have inv: "bb_inv (bb_list s)" and size: "int (bb_size (bb_list s)) + 100 \<le> INT_MAX"
    using acct few by (auto simp: bb_acct_def INT_MAX_def)
  obtain e l where add: "bb_badblocks_list_add ?ok (bb_list s) b = Some (e, l)" "bb_inv l"
    using bb_add_success [OF inv, of ?ok b] bb_add_no_memory [OF inv, of b] size inv
    unfolding bb_badblocks_list_add_def by (cases "bb_num (bb_list s) < bb_size (bb_list s) \<or> ?ok") auto
  obtain it nb where "iter_kludge b l (next_bad s) (bb_iter s) = Some (it, nb)"
    using iter_kludge_total [OF add(2), of b "next_bad s" "bb_iter s"] by auto
  then show ?thesis
    using add(1) bb_test_result [OF inv, of b] by (simp add: bb_output_def Let_def)
qed

section \<open>Both loops end, and keep the books\<close>

text \<open>
  The invariant of the two loops of \<open>test_rw\<close>. The last conjunct bounds the number of
  reported blocks: the abort test runs once per transfer, so one transfer can still add
  \<open>blocks_at_once\<close> blocks.
\<close>

definition rw_inv :: "rw_args \<Rightarrow> 'd bb_state \<Rightarrow> bool" where
  "rw_inv a s \<longleftrightarrow> bb_acct a s \<and> 1 \<le> tryout s \<and> tryout s \<le> blocks_at_once a \<and>
     length (buffer s) = blocks_at_once a * block_size a \<and>
     length (read_buffer s) = blocks_at_once a * block_size a \<and>
     first_block a \<le> currently_testing s \<and>
     bb_count s < BB_BAD_BLOCKS_THRESHOLD + blocks_at_once a"

text \<open>What is left of \<open>rw_inv\<close> when a loop is left by \<open>goto out\<close>.\<close>

definition rw_out :: "rw_args \<Rightarrow> 'd bb_state \<Rightarrow> bool" where
  "rw_out a s \<longleftrightarrow> bb_acct a s \<and> bb_count s < BB_BAD_BLOCKS_THRESHOLD + blocks_at_once a"

lemma rw_inv_out: "rw_inv a s \<Longrightarrow> rw_out a s"
  by (simp add: rw_inv_def rw_out_def)

text \<open>The arguments \<open>test_rw\<close> is called with: small enough for the reported blocks to be counted.\<close>

definition args_ok :: "rw_args \<Rightarrow> bool" where
  "args_ok a \<longleftrightarrow> 1 \<le> blocks_at_once a \<and> blocks_at_once a < 2 ^ 20 \<and> 8 \<le> block_size a \<and>
     last_block a < 2 ^ 64"

text \<open>\<open>ReadFile\<close> never delivers more than it was asked for.\<close>

definition read_bounded :: "'d disk_api \<Rightarrow> bool" where
  "read_bounded api \<longleftrightarrow> (\<forall>d n. length (fst (snd (os_read api d n))) \<le> n)"

lemma bb_acct_update [simp]:
  "bb_acct a (s\<lparr> currently_testing := c \<rparr>) = bb_acct a s"
  "bb_acct a (s\<lparr> tryout := t \<rparr>) = bb_acct a s"
  "bb_acct a (s\<lparr> recover_block := r \<rparr>) = bb_acct a s"
  "bb_acct a (s\<lparr> buffer := b \<rparr>) = bb_acct a s"
  "bb_acct a (s\<lparr> read_buffer := b \<rparr>) = bb_acct a s"
  "bb_acct a (s\<lparr> bb_io := io \<rparr>) = bb_acct a s"
  "bb_acct a (s\<lparr> bb_log := l \<rparr>) = bb_acct a s"
  "bb_acct a (s\<lparr> cancel_ops := x \<rparr>) = bb_acct a s"
  "bb_acct a (s\<lparr> num_blocks := n \<rparr>) = bb_acct a s"
  "bb_acct a (s\<lparr> cur_op := op \<rparr>) = bb_acct a s"
  "bb_acct a (s\<lparr> cur_pattern := n \<rparr>) = bb_acct a s"
  "bb_acct a (s\<lparr> nr_pattern := n \<rparr>) = bb_acct a s"
  by (simp_all add: bb_acct_def)

lemma stamp_ids_total:
  assumes "off + 8 \<le> bsz" and "n * bsz \<le> length buf"
  shows "\<exists>b. stamp_ids buf off bsz cur n = Some b \<and> length b = length buf"
  using assms(2)
proof (induction n)
  case (Suc n)
  then obtain b where b: "stamp_ids buf off bsz cur n = Some b" "length b = length buf" by auto
  have "off + n * bsz + 8 \<le> length b" using assms(1) Suc.prems b(2) by simp
  then show ?case using b by (auto simp: array_simps le64_def)
qed simp

lemma alarm_intr_fields [simp]:
  "bb_acct a (alarm_intr env s) = bb_acct a s"
  "currently_testing (alarm_intr env s) = currently_testing s"
  "tryout (alarm_intr env s) = tryout s"
  "bb_count (alarm_intr env s) = bb_count s"
  "buffer (alarm_intr env s) = buffer s"
  "read_buffer (alarm_intr env s) = read_buffer s"
  "recover_block (alarm_intr env s) = recover_block s"
  "bb_io (alarm_intr env s) = bb_io s"
  by (simp_all add: alarm_intr_def)

lemma loop_head_total:
  assumes inv: "rw_inv a s" and cur: "currently_testing s < last_block a"
    and off: "stamped \<Longrightarrow> off + 8 \<le> block_size a"
  shows "\<exists>h. loop_head env a off stamped s = Some h \<and>
    (case h of
       Inl s' \<Rightarrow> rw_out a s' \<and> cancel_ops s' \<and> bb_count s' = bb_count s
     | Inr s' \<Rightarrow> rw_inv a s' \<and> bb_count s' < BB_BAD_BLOCKS_THRESHOLD \<and> bb_count s' = bb_count s \<and>
         currently_testing s' = currently_testing s \<and>
         currently_testing s' + tryout s' \<le> last_block a \<and> tryout s' \<le> tryout s)"
proof -
  obtain b where b: "stamp_ids (buffer s) off (block_size a) (currently_testing s) (blocks_at_once a) = Some b"
      "length b = length (buffer s)" if stamped
    using stamp_ids_total [OF off, of "blocks_at_once a" "buffer s" "currently_testing s"] inv
    by (auto simp: rw_inv_def)
  show ?thesis
    using inv cur b by (simp add: loop_head_def Let_def rw_inv_def rw_out_def) auto
qed

lemma advance_total:
  assumes inv: "rw_inv a s" and few: "bb_count s < BB_BAD_BLOCKS_THRESHOLD"
    and room: "currently_testing s + tryout s \<le> last_block a"
  shows "\<exists>full s'. advance env a et got s = Some (full, s') \<and> rw_inv a s' \<and>
    (full \<longrightarrow> got = tryout s \<and> currently_testing s' = currently_testing s + got \<and>
             bb_count s' < BB_BAD_BLOCKS_THRESHOLD) \<and> bb_count s \<le> bb_count s' \<and>
    (currently_testing s < currently_testing s' \<or>
     (currently_testing s' = currently_testing s \<and> tryout s' < tryout s))"
proof (cases "got = 0 \<and> tryout s = 1")
  case True
  let ?c = "currently_testing s"
  let ?s = "s\<lparr> currently_testing := Suc ?c \<rparr>"
  have acct: "bb_acct a ?s" using inv by (simp add: rw_inv_def)
  obtain n s1 where out: "bb_output env (of_nat ?c) et ?s = Some (n, s1)"
    using bb_output_total [OF acct, of env "of_nat ?c" et] few
    by (auto simp: BB_BAD_BLOCKS_THRESHOLD_def)
  have c: "unat (of_nat ?c :: u64) = ?c"
    using inv room True by (intro unat_of_nat_u64) (simp add: rw_inv_def bb_acct_def)
  have acct1: "bb_acct a (s1\<lparr> bb_count := bb_count s1 + n \<rparr>)" and n: "n \<le> 1"
    using bb_output_acct [OF acct out] c inv room True by (simp_all add: rw_inv_def)
  have same: "bb_same ?s s1" by (rule bb_output_frame [OF out])
  show ?thesis
    using True out acct1 n same inv few
    by (simp add: advance_def Let_def rw_inv_def bb_same_def BB_BAD_BLOCKS_THRESHOLD_def)
next
  case False
  then have "got = 0 \<longrightarrow> 1 < tryout s" using inv by (auto simp: rw_inv_def)
  moreover have "0 < tryout s" using inv by (simp add: rw_inv_def)
  ultimately show ?thesis
    using inv few unfolding advance_def if_not_P [OF False]
    by (cases "got = tryout s") (auto simp: Let_def rw_inv_def)
qed

lemma do_write_total:
  assumes "rw_inv a s"
  shows "\<exists>got s'. do_write env (tryout s) (block_size a) c s = Some (got, s') \<and> rw_inv a s' \<and>
    bb_count s' = bb_count s \<and> currently_testing s' = currently_testing s \<and> tryout s' = tryout s"
  using assms by (simp add: do_write_def rw_inv_def split: prod.splits)

lemma do_read_total:
  assumes inv: "rw_inv a s" and api: "read_bounded (env_api env)"
  shows "\<exists>got s'. do_read env (tryout s) (block_size a) c s = Some (got, s') \<and> rw_inv a s' \<and>
    bb_count s' = bb_count s \<and> currently_testing s' = currently_testing s \<and> tryout s' = tryout s"
proof -
  obtain got bytes io' where r: "read_sectors (env_api env) (block_size a) c (tryout s) (bb_io s) = (got, bytes, io')"
    by (metis prod_cases3)
  have "length bytes \<le> mul64 (tryout s) (block_size a)"
    using r api unfolding read_bounded_def
    by (auto simp: read_sectors_def Let_def split: if_splits option.splits prod.splits)
      (metis fst_conv snd_conv)
  also have "\<dots> \<le> tryout s * block_size a" by (simp add: mul64_def)
  also have "\<dots> \<le> length (read_buffer s)" using inv by (simp add: rw_inv_def)
  finally have "memcpy (read_buffer s) 0 bytes (length bytes) = Some (bytes @ drop (length bytes) (read_buffer s))"
    and "length (bytes @ drop (length bytes) (read_buffer s)) = length (read_buffer s)"
    by (simp_all add: array_simps)
  with r inv show ?thesis by (simp add: do_read_def rw_inv_def)
qed

lemma compare_loop_total:
  assumes "rw_inv a s" and "got \<le> blocks_at_once a" and "args_ok a"
    and "currently_testing s \<le> last_block a" and "first_block a + got \<le> currently_testing s"
    and "bb_count s + (got - i) < BB_BAD_BLOCKS_THRESHOLD + blocks_at_once a"
  shows "\<exists>go s'. compare_loop env a got i s = Some (go, s') \<and> rw_inv a s' \<and>
     currently_testing s' = currently_testing s \<and> tryout s' = tryout s \<and> bb_count s \<le> bb_count s'"
  using assms
proof (induction env a got i s rule: compare_loop.induct)
  case (1 env a got i s)
  let ?b = "of_nat (currently_testing s + i - got) :: u64"
  show ?case
  proof (cases "i < got")
    case False
    with "1.prems"(1) show ?thesis by (subst compare_loop.simps) auto
  next
    case True
    have "Suc i \<le> blocks_at_once a" using True "1.prems"(2) by simp
    then have "Suc i * block_size a \<le> blocks_at_once a * block_size a" by (rule mult_le_mono1)
    then have len: "\<not> (length (read_buffer s) < Suc i * block_size a \<or> length (buffer s) < Suc i * block_size a)"
      using "1.prems"(1) by (auto simp: rw_inv_def)
    have b: "unat ?b = currently_testing s + i - got"
      using True "1.prems" by (intro unat_of_nat_u64) (auto simp: args_ok_def)
    have acct: "bb_acct a s" using "1.prems"(1) by (simp add: rw_inv_def)
    have "bb_count s < 2 ^ 30"
      using "1.prems"(1,3) by (simp add: rw_inv_def args_ok_def BB_BAD_BLOCKS_THRESHOLD_def)
    then obtain n s1 where out: "bb_output env ?b CORRUPTION_ERROR s = Some (n, s1)"
      using bb_output_total [OF acct] by blast
    have acct1: "bb_acct a (s1\<lparr> bb_count := bb_count s1 + n \<rparr>)" and n: "n \<le> 1"
      using bb_output_acct [OF acct out] b True "1.prems"(4,5) by auto
    have same: "bb_same s s1" by (rule bb_output_frame [OF out])
    have inv1: "rw_inv a (s1\<lparr> bb_count := bb_count s1 + n \<rparr>)"
      using acct1 same n "1.prems"(1,6) True by (simp add: rw_inv_def bb_same_def)
    show ?thesis
    proof (cases "slice (i * block_size a) (block_size a) (read_buffer s) =
                  slice (i * block_size a) (block_size a) (buffer s)")
      case eq: True
      have "compare_loop env a got i s = compare_loop env a got (Suc i) s"
        using True len eq by (subst compare_loop.simps) simp
      with "1.IH"(2) [OF True len] eq "1.prems" show ?thesis by simp
    next
      case neq: False
      show ?thesis
      proof (cases "mul64 (currently_testing s) (block_size a) < PB")
        case False
        with True len neq "1.prems"(1) show ?thesis by (subst compare_loop.simps) auto
      next
        case pb: True
        have "compare_loop env a got i s = compare_loop env a got (Suc i) (s1\<lparr> bb_count := bb_count s1 + n \<rparr>)"
          using True len neq pb out by (subst compare_loop.simps) simp
        moreover have "bb_count s1 + n + (got - Suc i) < BB_BAD_BLOCKS_THRESHOLD + blocks_at_once a"
          using same n "1.prems"(6) True by (simp add: bb_same_def)
        ultimately show ?thesis
          using "1.IH"(1) [OF True len neq _ out refl] pb inv1 "1.prems"(2-5) same
          by (fastforce simp: bb_same_def)
      qed
    qed
  qed
qed

text \<open>One round of each loop: it returns, keeps the books, and makes progress.\<close>

definition progress :: "'d bb_state \<Rightarrow> 'd bb_state \<Rightarrow> bool" where
  "progress s s' \<longleftrightarrow> bb_count s \<le> bb_count s' \<and>
     (currently_testing s < currently_testing s' \<or>
      (currently_testing s' = currently_testing s \<and> tryout s' < tryout s))"

lemma progress_from:
  "currently_testing s0 = currently_testing s \<Longrightarrow> tryout s0 \<le> tryout s \<Longrightarrow>
   currently_testing s1 = currently_testing s0 \<Longrightarrow> tryout s1 = tryout s0 \<Longrightarrow>
   bb_count s0 = bb_count s \<Longrightarrow> bb_count s1 = bb_count s0 \<Longrightarrow> progress s1 s2 \<Longrightarrow> progress s s2"
  by (auto simp: progress_def)

lemma write_iter_total:
  assumes inv: "rw_inv a s" and cur: "currently_testing s < last_block a"
    and off: "stamped \<Longrightarrow> off + 8 \<le> block_size a"
  shows "\<exists>go s'. write_iter env a off stamped s = Some (go, s') \<and>
     (if go then rw_inv a s' \<and> progress s s' else rw_out a s' \<and> bb_count s \<le> bb_count s')"
proof -
  obtain h where h: "loop_head env a off stamped s = Some h"
    and hp: "case h of Inl s' \<Rightarrow> rw_out a s' \<and> cancel_ops s' \<and> bb_count s' = bb_count s
     | Inr s' \<Rightarrow> rw_inv a s' \<and> bb_count s' < BB_BAD_BLOCKS_THRESHOLD \<and> bb_count s' = bb_count s \<and>
         currently_testing s' = currently_testing s \<and>
         currently_testing s' + tryout s' \<le> last_block a \<and> tryout s' \<le> tryout s"
    using loop_head_total [OF inv cur off, where env = env] by blast
  show ?thesis
  proof (cases h)
    case (Inl s0)
    with h hp show ?thesis by (simp add: write_iter_def)
  next
    case (Inr s0)
    obtain got s1 where w: "do_write env (tryout s0) (block_size a) (currently_testing s0) s0 = Some (got, s1)"
      "rw_inv a s1" "bb_count s1 = bb_count s0" "currently_testing s1 = currently_testing s0"
      "tryout s1 = tryout s0"
      using do_write_total [of a s0 env "currently_testing s0"] hp Inr by auto
    obtain full s2 where adv: "advance env a WRITE_ERROR got s1 = Some (full, s2)" "rw_inv a s2" "progress s1 s2"
      using advance_total [of a s1 env WRITE_ERROR got] w hp Inr by (auto simp: progress_def)
    have "write_iter env a off stamped s = Some (True, s2)"
      using h w(1) adv(1) by (simp add: write_iter_def Inr)
    moreover have "progress s s2" using hp adv(3) w Inr by (intro progress_from [of s0 s s1 s2]) simp_all
    ultimately show ?thesis using adv(2) by simp
  qed
qed

lemma read_iter_total:
  assumes inv: "rw_inv a s" and cur: "currently_testing s < last_block a"
    and off: "stamped \<Longrightarrow> off + 8 \<le> block_size a"
    and ok: "args_ok a" and api: "read_bounded (env_api env)"
  shows "\<exists>go s'. read_iter env a off stamped s = Some (go, s') \<and>
     (if go then rw_inv a s' \<and> progress s s' else rw_out a s' \<and> bb_count s \<le> bb_count s')"
proof -
  obtain h where h: "loop_head env a off stamped s = Some h"
    and hp: "case h of Inl s' \<Rightarrow> rw_out a s' \<and> cancel_ops s' \<and> bb_count s' = bb_count s
     | Inr s' \<Rightarrow> rw_inv a s' \<and> bb_count s' < BB_BAD_BLOCKS_THRESHOLD \<and> bb_count s' = bb_count s \<and>
         currently_testing s' = currently_testing s \<and>
         currently_testing s' + tryout s' \<le> last_block a \<and> tryout s' \<le> tryout s"
    using loop_head_total [OF inv cur off, where env = env] by blast
  show ?thesis
  proof (cases h)
    case (Inl s0)
    with h hp show ?thesis by (simp add: read_iter_def)
  next
    case (Inr s0)
    obtain got s1 where r: "do_read env (tryout s0) (block_size a) (currently_testing s0) s0 = Some (got, s1)"
      "rw_inv a s1" "bb_count s1 = bb_count s0" "currently_testing s1 = currently_testing s0"
      "tryout s1 = tryout s0"
      using do_read_total [OF _ api, of a s0 "currently_testing s0"] hp Inr by auto
    obtain full s2 where adv: "advance env a READ_ERROR got s1 = Some (full, s2)" "rw_inv a s2" "progress s1 s2"
      "full \<longrightarrow> got = tryout s1 \<and> currently_testing s2 = currently_testing s1 + got \<and>
         bb_count s2 < BB_BAD_BLOCKS_THRESHOLD"
      using advance_total [of a s1 env READ_ERROR got] r hp Inr by (auto simp: progress_def)
    have prog: "progress s s2" using hp adv(3) r Inr by (intro progress_from [of s0 s s1 s2]) simp_all
    show ?thesis
    proof (cases full)
      case False
      then have "read_iter env a off stamped s = Some (True, s2)"
        using h r(1) adv(1) by (simp add: read_iter_def Inr)
      then show ?thesis using adv(2) prog by simp
    next
      case True
      have t: "got = tryout s0" "currently_testing s2 = currently_testing s0 + got"
        "bb_count s2 < BB_BAD_BLOCKS_THRESHOLD" "got \<le> blocks_at_once a"
        "first_block a \<le> currently_testing s0" "1 \<le> got"
        "currently_testing s0 + tryout s0 \<le> last_block a"
        using True adv(4) r hp Inr by (auto simp: rw_inv_def)
      obtain go s3 where c: "compare_loop env a got 0 s2 = Some (go, s3)" "rw_inv a s3"
        "currently_testing s3 = currently_testing s2" "tryout s3 = tryout s2" "bb_count s2 \<le> bb_count s3"
        using compare_loop_total [OF adv(2) t(4) ok, of 0 env] t by auto
      have "read_iter env a off stamped s = Some (go, s3)"
        using True h r(1) adv(1) c(1) by (simp add: read_iter_def Inr)
      moreover have "progress s s3" using prog c(3-5) by (auto simp: progress_def)
      moreover then have "bb_count s \<le> bb_count s3" by (simp add: progress_def)
      ultimately show ?thesis using c(2) rw_inv_out [OF c(2)] by simp
    qed
  qed
qed

section \<open>The common shape of the two loops\<close>

text \<open>
  A loop over the blocks of the drive whose body either asks to go on or leaves the test.
  If every round keeps an invariant and makes progress, the loop returns.
\<close>

locale block_loop =
  fixes body :: "rw_args \<Rightarrow> 'd bb_state \<Rightarrow> (bool \<times> 'd bb_state) option"
    and loop :: "rw_args \<Rightarrow> 'd bb_state \<Rightarrow> (bool \<times> 'd bb_state) option"
  assumes loop_unfold: "loop a s =
     (if currently_testing s < last_block a then do {
        (go, s') \<leftarrow> body a s;
        if go then loop a s' else Some (False, s')
      }
      else Some (True, s))"
begin

lemma loop_rule:
  assumes "I s"
    and step: "\<And>s. I s \<Longrightarrow> currently_testing s < last_block a \<Longrightarrow>
      \<exists>go s'. body a s = Some (go, s') \<and> (if go then I s' \<and> progress s s' else Q s')"
  shows "\<exists>go s'. loop a s = Some (go, s') \<and>
      (if go then I s' \<and> last_block a \<le> currently_testing s' else Q s')"
  using assms(1)
proof (induction s rule: wf_induct_rule
    [OF wf_measures [of "[\<lambda>s. last_block a - currently_testing s, \<lambda>s. tryout s]"]])
  case (1 s)
  show ?case
  proof (cases "currently_testing s < last_block a")
    case False
    then show ?thesis using "1.prems" by (subst loop_unfold) auto
  next
    case True
    obtain go s' where b: "body a s = Some (go, s')" "if go then I s' \<and> progress s s' else Q s'"
      using step [OF "1.prems" True] by blast
    show ?thesis
    proof (cases go)
      case False
      then show ?thesis using b True by (subst loop_unfold) auto
    next
      case go: True
      then have "(s', s) \<in> measures [\<lambda>s. last_block a - currently_testing s, \<lambda>s. tryout s]"
        using b(2) True by (auto simp: progress_def)
      from "1.IH" [OF this] b go True show ?thesis by (subst loop_unfold) simp
    qed
  qed
qed

end

interpretation wr: block_loop "\<lambda>a. write_iter env a off stamped" "\<lambda>a. write_loop env a off stamped"
    for env off stamped
  by unfold_locales (rule write_loop.simps)

interpretation rd: block_loop "\<lambda>a. read_iter env a off stamped" "\<lambda>a. read_loop env a off stamped"
    for env off stamped
  by unfold_locales (rule read_loop.simps)

section \<open>The whole test returns, with consistent counts\<close>

definition pass_inv :: "rw_args \<Rightarrow> 'd bb_state \<Rightarrow> bool" where
  "pass_inv a s \<longleftrightarrow> rw_out a s \<and> length (buffer s) = blocks_at_once a * block_size a \<and>
     length (read_buffer s) = blocks_at_once a * block_size a"

lemma length_fill_cycle [simp]: "length (fill_cycle bp nb i n) = n"
  by (induction n arbitrary: i) auto

lemma length_pattern_bytes [simp]: "length (pattern_bytes p n) = n"
  by (simp add: pattern_bytes_def Let_def)

lemma pattern_fill_total:
  assumes "pass_inv a s"
  shows "\<exists>s'. pattern_fill env p (blocks_at_once a * block_size a) s = Some s' \<and> pass_inv a s' \<and>
     bb_count s' = bb_count s"
  using assms by (simp add: pattern_fill_def pass_inv_def rw_out_def array_simps)

lemma id_offset_bound:
  assumes "r \<le> RAND_MAX" and "8 \<le> bsz"
  shows "r * (bsz - 8) div RAND_MAX + 8 \<le> bsz"
proof -
  have "r * (bsz - 8) div RAND_MAX \<le> RAND_MAX * (bsz - 8) div RAND_MAX"
    using assms(1) by (intro div_le_mono mult_le_mono1)
  also have "\<dots> = bsz - 8" by (simp add: RAND_MAX_def)
  finally show ?thesis using assms(2) by simp
qed

text \<open>The invariant of a loop together with a lower bound on the count.\<close>

lemma write_loop_total:
  assumes "rw_inv a s" and "n \<le> bb_count s" and "stamped \<Longrightarrow> off + 8 \<le> block_size a"
  shows "\<exists>go s'. write_loop env a off stamped s = Some (go, s') \<and> n \<le> bb_count s' \<and>
     (if go then rw_inv a s' else rw_out a s')"
proof -
  have "\<exists>go s'. write_loop env a off stamped s = Some (go, s') \<and>
     (if go then (rw_inv a s' \<and> n \<le> bb_count s') \<and> last_block a \<le> currently_testing s'
      else rw_out a s' \<and> n \<le> bb_count s')" (is "\<exists>go s'. ?R go s'")
  proof (rule wr.loop_rule)
    fix s :: "'a bb_state"
    assume I: "rw_inv a s \<and> n \<le> bb_count s" and c: "currently_testing s < last_block a"
    obtain go s' where b: "write_iter env a off stamped s = Some (go, s')"
      and "if go then rw_inv a s' \<and> progress s s' else rw_out a s' \<and> bb_count s \<le> bb_count s'"
      using write_iter_total [OF conjunct1 [OF I] c assms(3), where env = env] by blast
    then have "if go then (rw_inv a s' \<and> n \<le> bb_count s') \<and> progress s s' else rw_out a s' \<and> n \<le> bb_count s'"
      using I by (cases go) (auto simp: progress_def)
    with b show "\<exists>go s'. write_iter env a off stamped s = Some (go, s') \<and>
      (if go then (rw_inv a s' \<and> n \<le> bb_count s') \<and> progress s s' else rw_out a s' \<and> n \<le> bb_count s')"
      by blast
  qed (use assms in simp)
  then obtain go s' where "?R go s'" by blast
  then show ?thesis by (intro exI [of _ go] exI [of _ s']) (simp split: if_splits)
qed

lemma read_loop_total:
  assumes "rw_inv a s" and "n \<le> bb_count s" and "stamped \<Longrightarrow> off + 8 \<le> block_size a"
    and "args_ok a" and "read_bounded (env_api env)"
  shows "\<exists>go s'. read_loop env a off stamped s = Some (go, s') \<and> n \<le> bb_count s' \<and>
     (if go then rw_inv a s' else rw_out a s')"
proof -
  have "\<exists>go s'. read_loop env a off stamped s = Some (go, s') \<and>
     (if go then (rw_inv a s' \<and> n \<le> bb_count s') \<and> last_block a \<le> currently_testing s'
      else rw_out a s' \<and> n \<le> bb_count s')" (is "\<exists>go s'. ?R go s'")
  proof (rule rd.loop_rule)
    fix s :: "'a bb_state"
    assume I: "rw_inv a s \<and> n \<le> bb_count s" and c: "currently_testing s < last_block a"
    obtain go s' where b: "read_iter env a off stamped s = Some (go, s')"
      and "if go then rw_inv a s' \<and> progress s s' else rw_out a s' \<and> bb_count s \<le> bb_count s'"
      using read_iter_total [OF conjunct1 [OF I] c assms(3-5)] by blast
    then have "if go then (rw_inv a s' \<and> n \<le> bb_count s') \<and> progress s s' else rw_out a s' \<and> n \<le> bb_count s'"
      using I by (cases go) (auto simp: progress_def)
    with b show "\<exists>go s'. read_iter env a off stamped s = Some (go, s') \<and>
      (if go then (rw_inv a s' \<and> n \<le> bb_count s') \<and> progress s s' else rw_out a s' \<and> n \<le> bb_count s')"
      by blast
  qed (use assms in simp)
  then obtain go s' where "?R go s'" by blast
  then show ?thesis by (intro exI [of _ go] exI [of _ s']) (simp split: if_splits)
qed

text \<open>The states in which a pass starts its two loops.\<close>

definition write_start :: "rw_args \<Rightarrow> 'd bb_state \<Rightarrow> 'd bb_state" where
  "write_start a s = s\<lparr> num_blocks := (last_block a + 2 ^ 64 - 1) mod 2 ^ 64,
     currently_testing := first_block a, cur_op := OP_WRITE, tryout := blocks_at_once a \<rparr>"

definition read_start :: "rw_args \<Rightarrow> 'd bb_state \<Rightarrow> 'd bb_state" where
  "read_start a s = s\<lparr> cur_op := OP_READ, num_blocks := last_block a,
     currently_testing := first_block a, tryout := blocks_at_once a \<rparr>"

lemma rw_inv_start:
  "args_ok a \<Longrightarrow> pass_inv a s \<Longrightarrow> rw_inv a (write_start a s)"
  "args_ok a \<Longrightarrow> rw_inv a s \<Longrightarrow> rw_inv a (read_start a s)"
  by (simp_all add: rw_inv_def pass_inv_def rw_out_def args_ok_def write_start_def read_start_def)

lemma test_pass_total:
  assumes inv: "pass_inv a s" and ok: "args_ok a" and api: "read_bounded (env_api env)"
    and rnd: "env_rand_id env \<le> RAND_MAX"
  shows "\<exists>go s'. test_pass env a p k s = Some (go, s') \<and> bb_count s \<le> bb_count s' \<and>
     (if go then pass_inv a s' else rw_out a s')"
proof (cases "cancel_ops (alarm_intr env s)")
  case True
  then show ?thesis using inv by (simp add: test_pass_def Let_def pass_inv_def rw_out_def)
next
  case False
  let ?off = "env_rand_id env * (block_size a - 8) div RAND_MAX"
  let ?st = "env_detect_fakes env \<and> k = 0"
  have off: "?off + 8 \<le> block_size a" using id_offset_bound [OF rnd] ok by (simp add: args_ok_def)
  have "pass_inv a (alarm_intr env s)" using inv by (simp add: pass_inv_def rw_out_def)
  from pattern_fill_total [OF this, of env p] obtain s1 where
    s1: "pattern_fill env p (blocks_at_once a * block_size a) (alarm_intr env s) = Some s1"
      "pass_inv a s1" "bb_count s1 = bb_count s"
    by auto
  have cnt: "bb_count s \<le> bb_count (write_start a s1)" using s1(3) by (simp add: write_start_def)
  obtain go s2 where w: "write_loop env a ?off ?st (write_start a s1) = Some (go, s2)"
    "bb_count s \<le> bb_count s2" "if go then rw_inv a s2 else rw_out a s2"
    using write_loop_total [where env = env, OF rw_inv_start(1) [OF ok s1(2)] cnt off] by blast
  show ?thesis
  proof (cases go)
    case go: False
    then show ?thesis using False s1 w by (simp add: test_pass_def Let_def write_start_def)
  next
    case go: True
    then have inv2: "rw_inv a (read_start a s2)" using rw_inv_start(2) [OF ok] w(3) by simp
    have cnt: "bb_count s \<le> bb_count (read_start a s2)" using w(2) by (simp add: read_start_def)
    obtain go' s3 where r: "read_loop env a ?off ?st (read_start a s2) = Some (go', s3)"
      "bb_count s \<le> bb_count s3" "if go' then rw_inv a s3 else rw_out a s3"
      using read_loop_total [OF inv2 cnt off ok api] by blast
    then show ?thesis using False s1 w go
      by (cases go') (simp_all add: test_pass_def Let_def pass_inv_def rw_inv_def rw_out_def
          write_start_def read_start_def)
  qed
qed

lemma test_passes_total:
  assumes "pass_inv a s" and "args_ok a" and "read_bounded (env_api env)"
    and "env_rand_id env \<le> RAND_MAX"
  shows "\<exists>s'. test_passes env a ps k s = Some s' \<and> rw_out a s' \<and> bb_count s \<le> bb_count s'"
  using assms(1)
proof (induction ps arbitrary: k s)
  case Nil
  then show ?case by (simp add: pass_inv_def)
next
  case (Cons p ps)
  from test_pass_total [OF Cons.prems assms(2-4), of p k] obtain go s' where
    "test_pass env a p k s = Some (go, s')" "bb_count s \<le> bb_count s'"
    "if go then pass_inv a s' else rw_out a s'" by blast
  with Cons.IH [of s' "Suc k"] show ?case by (cases go) force+
qed

lemma test_rw_total:
  assumes lst: "bb_inv (bb_list s)" "bb_entries (bb_list s) = []" "bb_size (bb_list s) \<le> 110"
    and zero: "num_read_errors s = 0" "num_write_errors s = 0" "num_corruption_errors s = 0"
    and env: "args_ok a" "read_bounded (env_api env)" "env_rand_id env \<le> RAND_MAX"
  shows "\<exists>n s'. test_rw env a ptype nb s = Some (n, s') \<and>
     n = length (bb_entries (bb_list s')) \<and>
     n = num_read_errors s' + num_write_errors s' + num_corruption_errors s' \<and>
     n < BB_BAD_BLOCKS_THRESHOLD + blocks_at_once a \<and> sorted_wrt (<) (bb_entries (bb_list s')) \<and>
     (\<forall>b \<in> set (bb_entries (bb_list s')). first_block a \<le> unat b \<and> unat b < last_block a)"
proof -
  let ?s = "s\<lparr> nr_pattern := nat nb, cur_pattern := 0, bb_count := 0, recover_block := None,
              buffer := replicate (blocks_at_once a * block_size a) 0,
              read_buffer := replicate (blocks_at_once a * block_size a) 0 \<rparr>"
  have "bb_num (bb_list s) = 0" using bb_num_entries [OF lst(1)] lst(2) by simp
  then have "pass_inv a ?s" using lst zero env(1)
    by (simp add: pass_inv_def rw_out_def bb_acct_def args_ok_def BB_BAD_BLOCKS_THRESHOLD_def)
  from test_passes_total [OF this env] obtain s' where
    run: "test_passes env a (take (nat nb) (bb_patterns ! nat ptype)) 0 ?s = Some s'" and out: "rw_out a s'"
    by blast
  show ?thesis
  proof (cases "ptype < 0 \<or> ptype \<ge> BADLOCKS_PATTERN_TYPES \<or> nb < 1 \<or> nb > BADBLOCK_PATTERN_COUNT \<or>
      mul64 (first_block a) (block_size a) > PB \<or> mul64 (last_block a) (block_size a) > PB \<or>
      \<not> env_buffers_ok env")
    case True
    then have "test_rw env a ptype nb s = Some (0, s\<lparr> cancel_ops := True \<rparr>)"
      by (elim disjE) (simp_all add: test_rw_def)
    then show ?thesis using lst zero env(1) by (simp add: BB_BAD_BLOCKS_THRESHOLD_def)
  next
    case False
    then have "test_rw env a ptype nb s = Some (bb_count s', s')"
      using run by (simp add: test_rw_def)
    moreover have "bb_count s' = length (bb_entries (bb_list s'))"
      using out bb_num_entries [of "bb_list s'"] by (simp add: rw_out_def bb_acct_def)
    ultimately show ?thesis using out by (simp add: rw_out_def bb_acct_def bb_inv_def)
  qed
qed

end
