(* ===== verification/Bad_Block_Device.thy ===== *)
theory Bad_Block_Device
  imports Bad_Block_Test
begin

text \<open>
  The surface test of \<open>Bad_Block_Test\<close> run on devices that follow the documented
  behaviour of the Windows calls (\<^const>\<open>mapped_disk\<close>): what one pass leaves on the
  device, that a genuine drive passes, and that a drive which folds its addresses does not.
\<close>

section \<open>What a pass writes\<close>

text \<open>The byte a pass stores at address \<open>j\<close>: the pattern, or part of the block number.\<close>

definition test_byte :: "u8 list \<Rightarrow> bool \<Rightarrow> nat \<Rightarrow> rw_args \<Rightarrow> nat \<Rightarrow> u8" where
  "test_byte pat stamped off a j =
     (let b = j div block_size a; k = j mod block_size a in
      if stamped \<and> off \<le> k \<and> k < off + 8 then le64 (of_nat b) ! (k - off)
      else pat ! ((b mod blocks_at_once a) * block_size a + k))"

text \<open>The bytes of the buffer that hold block numbers.\<close>

definition id_byte :: "nat \<Rightarrow> nat \<Rightarrow> nat \<Rightarrow> bool" where
  "id_byte off bsz i \<longleftrightarrow> off \<le> i mod bsz \<and> i mod bsz < off + 8"

lemma id_region:
  assumes "off + 8 \<le> bsz"
  shows "off + n * bsz \<le> i \<and> i < off + n * bsz + 8 \<longleftrightarrow> i div bsz = n \<and> id_byte off bsz i"
proof
  assume r: "off + n * bsz \<le> i \<and> i < off + n * bsz + 8"
  then obtain k where k: "i = k + n * bsz" "off \<le> k" "k < off + 8"
    by (metis add.commute add_leD2 le_Suc_ex nat_add_left_cancel_less nat_add_left_cancel_le add.left_commute)
  then have "k < bsz" using assms by simp
  then show "i div bsz = n \<and> id_byte off bsz i" using k by (simp add: id_byte_def)
next
  assume "i div bsz = n \<and> id_byte off bsz i"
  then show "off + n * bsz \<le> i \<and> i < off + n * bsz + 8"
    using div_mult_mod_eq [of i bsz] by (auto simp: id_byte_def)
qed

lemma length_le64 [simp]: "length (le64 w) = 8"
  by (simp add: le64_def)

lemma stamp_ids_nth:
  assumes off: "off + 8 \<le> bsz" and "n * bsz \<le> length buf"
    and "stamp_ids buf off bsz cur n = Some b" and "i < length buf"
  shows "b ! i = (if i < n * bsz \<and> id_byte off bsz i
                  then le64 (of_nat (cur + i div bsz)) ! (i mod bsz - off) else buf ! i)"
  using assms(2-)
proof (induction n arbitrary: b)
  case (Suc n)
  have bsz: "0 < bsz" using off by simp
  obtain b1 where b1: "stamp_ids buf off bsz cur n = Some b1" "length b1 = length buf"
    using stamp_ids_total [OF off, of n buf cur] Suc.prems(1) by auto
  have b: "b = take (off + n * bsz) b1 @ le64 (of_nat (cur + n)) @ drop (off + n * bsz + 8) b1"
    using Suc.prems(1,2) b1 off by (simp add: array_simps)
  have IH: "b1 ! i = (if i < n * bsz \<and> id_byte off bsz i
                  then le64 (of_nat (cur + i div bsz)) ! (i mod bsz - off) else buf ! i)"
    using Suc.IH [OF _ b1(1) Suc.prems(3)] Suc.prems(1) by simp
  have lt: "i < Suc n * bsz \<longleftrightarrow> i < n * bsz \<or> i div bsz = n"
    using bsz by (metis less_Suc_eq less_mult_imp_div_less linorder_not_less
        div_less_iff_less_mult not_less_iff_gr_or_eq)
  show ?case
  proof (cases "i div bsz = n \<and> id_byte off bsz i")
    case True
    then have r: "off + n * bsz \<le> i" "i < off + n * bsz + 8" using id_region [OF off] by auto
    have "i - (off + n * bsz) = i mod bsz - off"
      using True div_mult_mod_eq [of i bsz] by simp
    moreover have "b ! i = le64 (of_nat (cur + n)) ! (i - (off + n * bsz))"
      using r b b1(2) Suc.prems(1,3) off by (auto simp: nth_append)
    ultimately show ?thesis using True lt by simp
  next
    case False
    then have r: "\<not> (off + n * bsz \<le> i \<and> i < off + n * bsz + 8)" using id_region [OF off] by auto
    have "b ! i = b1 ! i"
      using r b b1(2) Suc.prems(1,3) off by (auto simp: nth_append)
    then show ?thesis using False lt IH by auto
  qed
qed simp

section \<open>Stores\<close>

lemma store_other: "(\<And>i. i < length bs \<Longrightarrow> \<phi> (p + i) \<noteq> x) \<Longrightarrow> store \<phi> p bs c x = c x"
proof (induction bs arbitrary: p c)
  case (Cons b bs)
  have "store \<phi> (Suc p) bs (c(\<phi> p := b)) x = (c(\<phi> p := b)) x"
    using Cons.prems [of "Suc i" for i] by (intro Cons.IH) simp
  then show ?case using Cons.prems [of 0] by auto
qed simp

lemma store_last:
  assumes "i < length bs" and "\<And>k. i < k \<Longrightarrow> k < length bs \<Longrightarrow> \<phi> (p + k) \<noteq> \<phi> (p + i)"
  shows "store \<phi> p bs c (\<phi> (p + i)) = bs ! i"
proof -
  have bs: "bs = take i bs @ bs ! i # drop (Suc i) bs" using assms(1) by (rule id_take_nth_drop)
  have "store \<phi> p bs c = store \<phi> (Suc (p + i)) (drop (Suc i) bs) ((store \<phi> p (take i bs) c)(\<phi> (p + i) := bs ! i))"
    by (subst bs) (use assms(1) in \<open>simp add: store_append\<close>)
  moreover have "\<phi> (Suc (p + i) + k) \<noteq> \<phi> (p + i)" if "k < length (drop (Suc i) bs)" for k
    using assms(2) [of "Suc (i + k)"] that by (simp add: ac_simps)
  then have "store \<phi> (Suc (p + i)) (drop (Suc i) bs) c' (\<phi> (p + i)) = c' (\<phi> (p + i))" for c'
    by (rule store_other)
  ultimately show ?thesis by simp
qed

section \<open>One round on a working drive\<close>

definition books :: "'d bb_state \<Rightarrow> bb_struct_u64_list \<times> nat \<times> nat \<times> nat \<times> nat" where
  "books s = (bb_list s, bb_count s, num_read_errors s, num_write_errors s, num_corruption_errors s)"

definition working_drive ::
  "'d bb_env \<Rightarrow> rw_args \<Rightarrow> (nat \<Rightarrow> nat) \<Rightarrow> ('d \<Rightarrow> nat \<Rightarrow> u8) \<Rightarrow> ('d \<Rightarrow> nat) \<Rightarrow> nat \<Rightarrow> bool" where
  "working_drive env a \<phi> content pos cap \<longleftrightarrow>
     mapped_disk (env_api env) \<phi> cap content pos \<and> last_block a * block_size a \<le> cap \<and> cap < 2 ^ 64 \<and>
     blocks_at_once a * block_size a \<le> 0xFFFFFFFF \<and> args_ok a \<and> first_block a = 0 \<and>
     (\<forall>d. \<not> env_cancel env d)"

text \<open>The state between two rounds, and after the head of a round.\<close>

definition lap_inv :: "rw_args \<Rightarrow> u8 list \<Rightarrow> bool \<Rightarrow> nat \<Rightarrow> 'd bb_state \<Rightarrow> bool" where
  "lap_inv a pat stamped off s \<longleftrightarrow> \<not> cancel_ops s \<and> recover_block s = None \<and>
     bb_count s < BB_BAD_BLOCKS_THRESHOLD \<and> currently_testing s \<le> last_block a \<and>
     (currently_testing s < last_block a \<longrightarrow> tryout s = blocks_at_once a \<and> blocks_at_once a dvd currently_testing s) \<and>
     length (buffer s) = blocks_at_once a * block_size a \<and>
     length (read_buffer s) = blocks_at_once a * block_size a \<and>
     (\<forall>i < blocks_at_once a * block_size a.
        \<not> (stamped \<and> id_byte off (block_size a) i) \<longrightarrow> buffer s ! i = pat ! i)"

definition lap_mid :: "rw_args \<Rightarrow> u8 list \<Rightarrow> bool \<Rightarrow> nat \<Rightarrow> 'd bb_state \<Rightarrow> 'd bb_state \<Rightarrow> bool" where
  "lap_mid a pat stamped off s s' \<longleftrightarrow> books s' = books s \<and> bb_io s' = bb_io s \<and>
     \<not> cancel_ops s' \<and> recover_block s' = None \<and>
     currently_testing s' = currently_testing s \<and>
     tryout s' = min (blocks_at_once a) (last_block a - currently_testing s) \<and>
     length (buffer s') = blocks_at_once a * block_size a \<and>
     length (read_buffer s') = blocks_at_once a * block_size a \<and>
     (\<forall>i < blocks_at_once a * block_size a.
        buffer s' ! i = test_byte pat stamped off a (currently_testing s * block_size a + i))"

lemma test_byte_at:
  assumes "blocks_at_once a dvd cur" and "0 < block_size a" and "i < blocks_at_once a * block_size a"
  shows "test_byte pat stamped off a (cur * block_size a + i) =
    (if stamped \<and> id_byte off (block_size a) i
     then le64 (of_nat (cur + i div block_size a)) ! (i mod block_size a - off) else pat ! i)"
proof -
  have "i div block_size a < blocks_at_once a" using assms by (simp add: less_mult_imp_div_less)
  then have "(cur + i div block_size a) mod blocks_at_once a = i div block_size a"
    using assms(1) by (auto elim!: dvdE)
  then show ?thesis using assms(2) by (simp add: test_byte_def Let_def id_byte_def)
qed

lemma alarm_intr_id [simp]: "(\<And>d. \<not> env_cancel env d) \<Longrightarrow> alarm_intr env s = s"
  by (simp add: alarm_intr_def)

lemma loop_head_clean:
  assumes drv: "working_drive env a \<phi> content pos cap" and inv: "lap_inv a pat stamped off s"
    and cur: "currently_testing s < last_block a" and off: "stamped \<Longrightarrow> off + 8 \<le> block_size a"
  shows "\<exists>s'. loop_head env a off stamped s = Some (Inr s') \<and> lap_mid a pat stamped off s s'"
proof -
  let ?t = "min (blocks_at_once a) (last_block a - currently_testing s)"
  have t: "(if currently_testing s + tryout s > last_block a
            then s\<lparr> tryout := last_block a - currently_testing s \<rparr> else s) = s\<lparr> tryout := ?t \<rparr>"
    using inv cur by (cases s) (auto simp: lap_inv_def)
  have bsz: "0 < block_size a" and nc: "\<And>d. \<not> env_cancel env d"
    using drv by (auto simp: working_drive_def args_ok_def)
  have dv: "blocks_at_once a dvd currently_testing s" and lb: "length (buffer s) = blocks_at_once a * block_size a"
    using inv cur by (auto simp: lap_inv_def)
  note tb = test_byte_at [OF dv bsz]
  show ?thesis
  proof (cases stamped)
    case False
    have "loop_head env a off stamped s = Some (Inr (s\<lparr> tryout := ?t \<rparr>))"
      using inv nc False by (simp add: loop_head_def Let_def t) (simp add: lap_inv_def)
    moreover have "lap_mid a pat stamped off s (s\<lparr> tryout := ?t \<rparr>)"
      using inv False by (simp add: lap_mid_def lap_inv_def books_def tb)
    ultimately show ?thesis by blast
  next
    case True
    obtain b where b: "stamp_ids (buffer s) off (block_size a) (currently_testing s) (blocks_at_once a) = Some b"
      "length b = length (buffer s)"
      using stamp_ids_total [OF off [OF True], of "blocks_at_once a" "buffer s"] lb by auto
    have "loop_head env a off stamped s = Some (Inr (s\<lparr> tryout := ?t, buffer := b \<rparr>))"
      using inv nc True b(1) by (simp add: loop_head_def Let_def t) (simp add: lap_inv_def)
    moreover have "b ! i = test_byte pat stamped off a (currently_testing s * block_size a + i)"
      if "i < blocks_at_once a * block_size a" for i
      using stamp_ids_nth [OF off [OF True] _ b(1), of i] inv lb that True tb [OF that]
      by (simp add: lap_inv_def)
    then have "lap_mid a pat stamped off s (s\<lparr> tryout := ?t, buffer := b \<rparr>)"
      using inv lb b(2) by (simp add: lap_mid_def lap_inv_def books_def)
    ultimately show ?thesis by blast
  qed
qed

text \<open>What the device holds once the blocks before \<open>n\<close> have been written in order.\<close>

definition written :: "(nat \<Rightarrow> nat) \<Rightarrow> (nat \<Rightarrow> u8) \<Rightarrow> nat \<Rightarrow> (nat \<Rightarrow> u8) \<Rightarrow> nat \<Rightarrow> u8" where
  "written \<phi> tb n c = store \<phi> 0 (map tb [0..<n]) c"

lemma written_step: "written \<phi> tb (n + m) c = store \<phi> n (map (\<lambda>i. tb (n + i)) [0..<m]) (written \<phi> tb n c)"
proof -
  have "[0..<n + m] = [0..<n] @ map (\<lambda>i. n + i) [0..<m]"
    by (rule nth_equalityI) (auto simp: nth_append)
  then show ?thesis by (simp add: written_def store_append o_def)
qed

lemma written_last:
  assumes "j < n" and "\<And>k. j < k \<Longrightarrow> k < n \<Longrightarrow> \<phi> k \<noteq> \<phi> j"
  shows "written \<phi> tb n c (\<phi> j) = tb j"
  using store_last [of j "map tb [0..<n]" \<phi> 0 c] assms by (simp add: written_def)

lemma advance_clean:
  assumes "lap_mid a pat stamped off s s'" and "currently_testing s < last_block a" and "args_ok a"
    and "s2 = s'\<lparr> currently_testing := currently_testing s' + tryout s' \<rparr>"
  shows "advance env a et (tryout s') s' = Some (True, s2)"
  using assms by (auto simp: advance_def Let_def lap_mid_def args_ok_def)

lemma lap_next:
  assumes mid: "lap_mid a pat stamped off s s'" and inv: "lap_inv a pat stamped off s"
    and cur: "currently_testing s < last_block a" and bsz: "0 < block_size a"
    and lr: "length r = blocks_at_once a * block_size a"
    and s2: "s2 = s'\<lparr> read_buffer := r, bb_io := io, currently_testing := currently_testing s' + tryout s' \<rparr>"
  shows "lap_inv a pat stamped off s2" "books s2 = books s"
    "currently_testing s2 = currently_testing s + min (blocks_at_once a) (last_block a - currently_testing s)"
proof -
  have dv: "blocks_at_once a dvd currently_testing s" using inv cur by (auto simp: lap_inv_def)
  show "books s2 = books s" using mid by (simp add: s2 lap_mid_def books_def)
  show c: "currently_testing s2 = currently_testing s + min (blocks_at_once a) (last_block a - currently_testing s)"
    using mid by (simp add: s2 lap_mid_def)
  show "lap_inv a pat stamped off s2"
    using mid inv cur dv lr test_byte_at [OF dv bsz]
    by (auto simp: s2 lap_mid_def lap_inv_def books_def min_def)
qed

lemma write_iter_clean:
  assumes drv: "working_drive env a \<phi> content pos cap" and inv: "lap_inv a pat stamped off s"
    and cur: "currently_testing s < last_block a" and off: "stamped \<Longrightarrow> off + 8 \<le> block_size a"
    and wr: "content (dev (bb_io s)) =
      written \<phi> (test_byte pat stamped off a) (currently_testing s * block_size a) c"
  shows "\<exists>s'. write_iter env a off stamped s = Some (True, s') \<and> lap_inv a pat stamped off s' \<and>
     books s' = books s \<and> progress s s' \<and> content (dev (bb_io s')) =
      written \<phi> (test_byte pat stamped off a) (currently_testing s' * block_size a) c"
proof -
  let ?bsz = "block_size a" and ?cur = "currently_testing s" and ?tb = "test_byte pat stamped off a"
  let ?t = "min (blocks_at_once a) (last_block a - currently_testing s)"
  have bsz: "0 < ?bsz" and ok: "args_ok a" and disk: "mapped_disk (env_api env) \<phi> cap content pos"
    and cap: "cap < 2 ^ 64" "last_block a * ?bsz \<le> cap" "blocks_at_once a * ?bsz \<le> 0xFFFFFFFF"
    using drv by (auto simp: working_drive_def args_ok_def)
  obtain s1 where h: "loop_head env a off stamped s = Some (Inr s1)" and mid: "lap_mid a pat stamped off s s1"
    using loop_head_clean [OF drv inv cur off] by blast
  have t: "tryout s1 = ?t" "0 < ?t" "?t * ?bsz \<le> blocks_at_once a * ?bsz" "currently_testing s1 = ?cur"
    "bb_io s1 = bb_io s"
    using mid cur ok by (auto simp: lap_mid_def args_ok_def)
  have "?cur * ?bsz + ?t * ?bsz = (?cur + ?t) * ?bsz" by (simp add: algebra_simps)
  also have "\<dots> \<le> last_block a * ?bsz" using cur by (intro mult_le_mono1) auto
  finally have fit: "?cur * ?bsz + ?t * ?bsz \<le> cap" using cap(2) by simp
  have lb: "?t * ?bsz \<le> length (buffer s1)" using mid t(3) by (simp add: lap_mid_def)
  have tk: "take (?t * ?bsz) (buffer s1) = map (\<lambda>i. ?tb (?cur * ?bsz + i)) [0..<?t * ?bsz]"
  proof (rule nth_equalityI)
    fix i assume "i < length (take (?t * ?bsz) (buffer s1))"
    then have i: "i < ?t * ?bsz" by simp
    then show "take (?t * ?bsz) (buffer s1) ! i = map (\<lambda>i. ?tb (?cur * ?bsz + i)) [0..<?t * ?bsz] ! i"
      using mid less_le_trans [OF i t(3)] by (simp add: lap_mid_def)
  qed (use lb in simp)
  obtain io where io: "write_sectors (env_api env) (env_large_drive env) ?bsz ?cur ?t (buffer s1) (bb_io s1) =
      (int (?t * ?bsz), io)"
    and ci: "content (dev io) = store \<phi> (?cur * ?bsz) (take (?t * ?bsz) (buffer s1)) (content (dev (bb_io s1)))"
    using write_sectors_mapped [OF disk cap(1) fit _ lb, of "env_large_drive env" "bb_io s1"] t(3) cap(3)
    by auto
  have dw: "do_write env (tryout s1) ?bsz (currently_testing s1) s1 = Some (?t, s1\<lparr> bb_io := io \<rparr>)"
    using io lb bsz by (simp add: do_write_def t nat_mult_distrib del: of_nat_mult)
  define s2 where "s2 = s1\<lparr> bb_io := io, currently_testing := currently_testing s1 + tryout s1 \<rparr>"
  have "lap_mid a pat stamped off (s\<lparr> bb_io := io \<rparr>) (s1\<lparr> bb_io := io \<rparr>)"
    using mid by (simp add: lap_mid_def books_def)
  then have adv: "advance env a WRITE_ERROR ?t (s1\<lparr> bb_io := io \<rparr>) = Some (True, s2)"
    using advance_clean [of a pat stamped off "s\<lparr> bb_io := io \<rparr>" "s1\<lparr> bb_io := io \<rparr>" s2 env WRITE_ERROR] cur ok
    by (simp add: s2_def t)
  have s2': "s2 = s1\<lparr> read_buffer := read_buffer s1, bb_io := io,
      currently_testing := currently_testing s1 + tryout s1 \<rparr>"
    by (simp add: s2_def)
  have lr: "length (read_buffer s1) = blocks_at_once a * ?bsz" using mid by (simp add: lap_mid_def)
  note nx = lap_next [OF mid inv cur bsz lr s2']
  have "content (dev (bb_io s2)) = written \<phi> ?tb (currently_testing s2 * ?bsz) c"
    using wr ci tk t by (simp add: s2_def add_mult_distrib written_step)
  moreover have "progress s s2" using nx(2,3) t(2) by (simp add: progress_def books_def)
  moreover have "write_iter env a off stamped s = Some (True, s2)"
    using h dw adv by (simp add: write_iter_def)
  ultimately show ?thesis using nx(1,2) by blast
qed

lemma write_loop_clean:
  assumes drv: "working_drive env a \<phi> content pos cap" and inv: "lap_inv a pat stamped off s"
    and off: "stamped \<Longrightarrow> off + 8 \<le> block_size a" and start: "currently_testing s = 0"
  shows "\<exists>s'. write_loop env a off stamped s = Some (True, s') \<and> lap_inv a pat stamped off s' \<and>
     books s' = books s \<and> content (dev (bb_io s')) =
      written \<phi> (test_byte pat stamped off a) (last_block a * block_size a) (content (dev (bb_io s)))"
proof -
  define I where "I s' \<longleftrightarrow> lap_inv a pat stamped off s' \<and> books s' = books s \<and> content (dev (bb_io s')) =
      written \<phi> (test_byte pat stamped off a) (currently_testing s' * block_size a) (content (dev (bb_io s)))" for s'
  have "\<exists>go s'. write_loop env a off stamped s = Some (go, s') \<and>
      (if go then I s' \<and> last_block a \<le> currently_testing s' else False)" (is "\<exists>go s'. ?R go s'")
  proof (rule wr.loop_rule)
    show "I s" using inv start by (simp add: I_def written_def)
    fix t assume t: "I t" and cur: "currently_testing t < last_block a"
    obtain s' where s': "write_iter env a off stamped t = Some (True, s')" "lap_inv a pat stamped off s'"
      "books s' = books t" "progress t s'" "content (dev (bb_io s')) =
        written \<phi> (test_byte pat stamped off a) (currently_testing s' * block_size a) (content (dev (bb_io s)))"
      using write_iter_clean [OF drv _ cur off, of pat] t by (auto simp: I_def)
    then have "I s'" using t by (simp add: I_def)
    with s' show "\<exists>go s'. write_iter env a off stamped t = Some (go, s') \<and> (if go then I s' \<and> progress t s' else False)"
      by (intro exI [of _ True] exI [of _ s']) simp
  qed
  then obtain go s' where r: "?R go s'" by blast
  then have "currently_testing s' = last_block a" by (simp add: I_def lap_inv_def split: if_splits)
  with r show ?thesis by (intro exI [of _ s']) (simp add: I_def split: if_splits)
qed

lemma compare_loop_clean:
  assumes "i \<le> got" and "got * block_size a \<le> length (buffer s)" and "got * block_size a \<le> length (read_buffer s)"
    and "take (got * block_size a) (read_buffer s) = take (got * block_size a) (buffer s)"
  shows "compare_loop env a got i s = Some (True, s)"
  using assms
proof (induction env a got i s rule: compare_loop.induct)
  case (1 env a got i s)
  show ?case
  proof (cases "i < got")
    case False
    then show ?thesis by (subst compare_loop.simps) simp
  next
    case True
    then have le: "Suc i * block_size a \<le> got * block_size a" by (intro mult_le_mono1) simp
    then have len: "\<not> (length (read_buffer s) < Suc i * block_size a \<or> length (buffer s) < Suc i * block_size a)"
      using "1.prems" by linarith
    have "slice (i * block_size a) (block_size a) xs =
        drop (i * block_size a) (take (Suc i * block_size a) (take (got * block_size a) xs))" for xs :: "u8 list"
      using le by (simp add: slice_def take_drop min_absorb1 add.commute)
    then have eq: "slice (i * block_size a) (block_size a) (read_buffer s) =
        slice (i * block_size a) (block_size a) (buffer s)" using "1.prems"(4) by (metis (no_types))
    have "compare_loop env a got (Suc i) s = Some (True, s)"
      using "1.IH"(2) [OF True len] eq "1.prems" True by simp
    then show ?thesis using True len eq by (subst compare_loop.simps) simp
  qed
qed

text \<open>The head of a reading round, up to the comparison, on any working drive.\<close>

lemma read_iter_start:
  assumes drv: "working_drive env a \<phi> content pos cap" and inv: "lap_inv a pat stamped off s"
    and cur: "currently_testing s < last_block a" and off: "stamped \<Longrightarrow> off + 8 \<le> block_size a"
  obtains s2 t where "read_iter env a off stamped s = compare_loop env a t 0 s2"
    "lap_inv a pat stamped off s2" "books s2 = books s" "t = min (blocks_at_once a) (last_block a - currently_testing s)"
    "currently_testing s2 = currently_testing s + t" "content (dev (bb_io s2)) = content (dev (bb_io s))"
    "\<And>i. i < t * block_size a \<Longrightarrow>
       buffer s2 ! i = test_byte pat stamped off a (currently_testing s * block_size a + i)"
    "\<And>i. i < t * block_size a \<Longrightarrow>
       read_buffer s2 ! i = content (dev (bb_io s)) (\<phi> (currently_testing s * block_size a + i))"
proof -
  let ?bsz = "block_size a" and ?cur = "currently_testing s" and ?tb = "test_byte pat stamped off a"
  let ?t = "min (blocks_at_once a) (last_block a - currently_testing s)"
  let ?rd = "map (\<lambda>i. content (dev (bb_io s)) (\<phi> (?cur * ?bsz + i))) [0..<?t * ?bsz]"
  have bsz: "0 < ?bsz" and ok: "args_ok a" and disk: "mapped_disk (env_api env) \<phi> cap content pos"
    and cap: "cap < 2 ^ 64" "last_block a * ?bsz \<le> cap" "blocks_at_once a * ?bsz \<le> 0xFFFFFFFF"
    using drv by (auto simp: working_drive_def args_ok_def)
  obtain s1 where h: "loop_head env a off stamped s = Some (Inr s1)" and mid: "lap_mid a pat stamped off s s1"
    using loop_head_clean [OF drv inv cur off] by blast
  have t: "tryout s1 = ?t" "0 < ?t" "?t * ?bsz \<le> blocks_at_once a * ?bsz" "currently_testing s1 = ?cur"
    "bb_io s1 = bb_io s"
    using mid cur ok by (auto simp: lap_mid_def args_ok_def)
  have "?cur * ?bsz + ?t * ?bsz = (?cur + ?t) * ?bsz" by (simp add: algebra_simps)
  also have "\<dots> \<le> last_block a * ?bsz" using cur by (intro mult_le_mono1) auto
  finally have fit: "?cur * ?bsz + ?t * ?bsz \<le> cap" using cap(2) by simp
  obtain io where io: "read_sectors (env_api env) ?bsz ?cur ?t (bb_io s) = (int (?t * ?bsz), ?rd, io)"
    and ci: "content (dev io) = content (dev (bb_io s))"
    using read_sectors_mapped [OF disk cap(1) fit, of "bb_io s"] t(3) cap(3) by auto
  have lr: "length (read_buffer s1) = blocks_at_once a * ?bsz" using mid by (simp add: lap_mid_def)
  define r where "r = ?rd @ drop (?t * ?bsz) (read_buffer s1)"
  have lr': "length r = blocks_at_once a * ?bsz" using lr t(3) by (simp add: r_def)
  have "memcpy (read_buffer s1) 0 ?rd (length ?rd) = Some r"
    using lr t(3) by (subst memcpy_Some) (simp_all add: r_def)
  then have dr: "do_read env (tryout s1) ?bsz (currently_testing s1) s1 =
      Some (?t, s1\<lparr> read_buffer := r, bb_io := io \<rparr>)"
    using io bsz unfolding do_read_def t by (simp add: nat_mult_distrib del: of_nat_mult)
  define s2 where "s2 = s1\<lparr> read_buffer := r, bb_io := io, currently_testing := currently_testing s1 + tryout s1 \<rparr>"
  have mid': "lap_mid a pat stamped off (s\<lparr> bb_io := io \<rparr>) (s1\<lparr> read_buffer := r, bb_io := io \<rparr>)"
    using mid lr' by (simp add: lap_mid_def books_def)
  have adv: "advance env a READ_ERROR ?t (s1\<lparr> read_buffer := r, bb_io := io \<rparr>) = Some (True, s2)"
    using advance_clean [OF mid', of s2 env READ_ERROR] cur ok by (simp add: s2_def t)
  have ri: "read_iter env a off stamped s = compare_loop env a ?t 0 s2"
    using h dr adv by (simp add: read_iter_def)
  note nx = lap_next [OF mid inv cur bsz lr' s2_def]
  have b: "buffer s2 ! i = ?tb (?cur * ?bsz + i)" if "i < ?t * ?bsz" for i
    using mid less_le_trans [OF that t(3)] by (simp add: s2_def lap_mid_def)
  have rb: "read_buffer s2 ! i = content (dev (bb_io s)) (\<phi> (?cur * ?bsz + i))" if "i < ?t * ?bsz" for i
    using that by (simp add: s2_def r_def nth_append)
  have c: "content (dev (bb_io s2)) = content (dev (bb_io s))" by (simp add: s2_def ci)
  show thesis by (rule that [OF ri nx(1,2) refl nx(3) c b rb])
qed

section \<open>A genuine drive\<close>

text \<open>A drive that keeps every address in a cell of its own reads back what was written.\<close>

lemma written_genuine:
  assumes "inj_on \<phi> {..<n}" and "j < n"
  shows "written \<phi> tb n c (\<phi> j) = tb j"
proof (rule written_last [OF assms(2)])
  fix k assume "j < k" "k < n"
  then show "\<phi> k \<noteq> \<phi> j" using assms by (auto simp: inj_on_eq_iff)
qed

lemma read_iter_clean:
  assumes drv: "working_drive env a \<phi> content pos cap" and inv: "lap_inv a pat stamped off s"
    and cur: "currently_testing s < last_block a" and off: "stamped \<Longrightarrow> off + 8 \<le> block_size a"
    and same: "\<And>j. j < last_block a * block_size a \<Longrightarrow>
      content (dev (bb_io s)) (\<phi> j) = test_byte pat stamped off a j"
  shows "\<exists>s'. read_iter env a off stamped s = Some (True, s') \<and> lap_inv a pat stamped off s' \<and>
     books s' = books s \<and> progress s s' \<and> content (dev (bb_io s')) = content (dev (bb_io s))"
proof -
  let ?bsz = "block_size a"
  obtain s2 t where r: "read_iter env a off stamped s = compare_loop env a t 0 s2"
    "lap_inv a pat stamped off s2" "books s2 = books s"
    and t: "t = min (blocks_at_once a) (last_block a - currently_testing s)"
    and c: "currently_testing s2 = currently_testing s + t" "content (dev (bb_io s2)) = content (dev (bb_io s))"
    and b: "\<And>i. i < t * ?bsz \<Longrightarrow>
       buffer s2 ! i = test_byte pat stamped off a (currently_testing s * ?bsz + i)"
    and rb: "\<And>i. i < t * ?bsz \<Longrightarrow>
       read_buffer s2 ! i = content (dev (bb_io s)) (\<phi> (currently_testing s * ?bsz + i))"
    by (rule read_iter_start [OF drv inv cur off]) (assumption, rule that, assumption+)
  have len: "t * ?bsz \<le> length (buffer s2)" "t * ?bsz \<le> length (read_buffer s2)"
    using r(2) t by (auto simp: lap_inv_def)
  have "read_buffer s2 ! i = buffer s2 ! i" if i: "i < t * ?bsz" for i
  proof -
    have "currently_testing s * ?bsz + i < (currently_testing s + t) * ?bsz"
      using i by (simp add: add_mult_distrib)
    also have "\<dots> \<le> last_block a * ?bsz" using cur t by (intro mult_le_mono1) auto
    finally show ?thesis using b [OF i] rb [OF i] same by simp
  qed
  then have "take (t * ?bsz) (read_buffer s2) = take (t * ?bsz) (buffer s2)"
    using len by (intro nth_equalityI) simp_all
  then have "compare_loop env a t 0 s2 = Some (True, s2)"
    using len by (intro compare_loop_clean) simp_all
  moreover have "0 < t" using drv cur t by (auto simp: working_drive_def args_ok_def)
  then have "progress s s2" using r(3) c(1) by (simp add: progress_def books_def)
  ultimately show ?thesis using r c by (intro exI [of _ s2]) simp
qed

lemma read_loop_clean:
  assumes drv: "working_drive env a \<phi> content pos cap" and inv: "lap_inv a pat stamped off s"
    and off: "stamped \<Longrightarrow> off + 8 \<le> block_size a"
    and same: "\<And>j. j < last_block a * block_size a \<Longrightarrow>
      content (dev (bb_io s)) (\<phi> j) = test_byte pat stamped off a j"
  shows "\<exists>s'. read_loop env a off stamped s = Some (True, s') \<and> lap_inv a pat stamped off s' \<and>
     books s' = books s \<and> content (dev (bb_io s')) = content (dev (bb_io s))"
proof -
  define I where "I s' \<longleftrightarrow> lap_inv a pat stamped off s' \<and> books s' = books s \<and>
      content (dev (bb_io s')) = content (dev (bb_io s))" for s'
  have "\<exists>go s'. read_loop env a off stamped s = Some (go, s') \<and>
      (if go then I s' \<and> last_block a \<le> currently_testing s' else False)" (is "\<exists>go s'. ?R go s'")
  proof (rule rd.loop_rule)
    show "I s" using inv by (simp add: I_def)
    fix t assume t: "I t" and cur: "currently_testing t < last_block a"
    obtain s' where s': "read_iter env a off stamped t = Some (True, s')" "lap_inv a pat stamped off s'"
      "books s' = books t" "progress t s'" "content (dev (bb_io s')) = content (dev (bb_io t))"
      using read_iter_clean [OF drv _ cur off, of pat] t same by (auto simp: I_def)
    then have "I s'" using t by (simp add: I_def)
    with s' show "\<exists>go s'. read_iter env a off stamped t = Some (go, s') \<and> (if go then I s' \<and> progress t s' else False)"
      by (intro exI [of _ True] exI [of _ s']) simp
  qed
  then obtain go s' where r: "?R go s'" by blast
  then show ?thesis by (intro exI [of _ s']) (simp add: I_def split: if_splits)
qed

section \<open>A pass and a test\<close>

text \<open>The buffer a pass fills, and the pass's offset of the block numbers.\<close>

definition pass_pattern :: "'d bb_env \<Rightarrow> rw_args \<Rightarrow> u32 \<Rightarrow> u8 list" where
  "pass_pattern env a p =
     (if p = 0xFFFFFFFF then map (\<lambda>k. of_nat (env_rand env k mod 256)) [0..<blocks_at_once a * block_size a]
      else pattern_bytes p (blocks_at_once a * block_size a))"

definition id_offset :: "'d bb_env \<Rightarrow> rw_args \<Rightarrow> nat" where
  "id_offset env a = env_rand_id env * (block_size a - 8) div RAND_MAX"

definition pass_byte :: "'d bb_env \<Rightarrow> rw_args \<Rightarrow> u32 \<Rightarrow> nat \<Rightarrow> nat \<Rightarrow> u8" where
  "pass_byte env a p k = test_byte (pass_pattern env a p) (env_detect_fakes env \<and> k = 0) (id_offset env a) a"

text \<open>The state between two passes.\<close>

definition pass_ready :: "rw_args \<Rightarrow> 'd bb_state \<Rightarrow> bool" where
  "pass_ready a s \<longleftrightarrow> \<not> cancel_ops s \<and> recover_block s = None \<and> bb_count s < BB_BAD_BLOCKS_THRESHOLD \<and>
     length (buffer s) = blocks_at_once a * block_size a \<and>
     length (read_buffer s) = blocks_at_once a * block_size a"

lemma pattern_fill_clean:
  assumes "pass_ready a s"
  obtains s1 where "pattern_fill env p (blocks_at_once a * block_size a) s = Some s1"
    "buffer s1 = pass_pattern env a p" "books s1 = books s" "bb_io s1 = bb_io s" "pass_ready a s1"
  using assms that
  by (cases "p = 0xFFFFFFFF")
    (auto simp: pattern_fill_def pass_pattern_def array_simps pass_ready_def books_def)

lemma lap_start:
  assumes "pass_ready a s1" and "buffer s1 = pass_pattern env a p" and "first_block a = 0"
  shows "lap_inv a (pass_pattern env a p) st off (write_start a s1)"
  using assms by (simp add: lap_inv_def write_start_def pass_ready_def)

lemma lap_restart:
  "lap_inv a pat st off s \<Longrightarrow> first_block a = 0 \<Longrightarrow> lap_inv a pat st off (read_start a s)"
  by (simp add: lap_inv_def read_start_def)

lemma test_pass_unfold:
  assumes "\<And>d. \<not> env_cancel env d" and "\<not> cancel_ops s"
    and "pattern_fill env p (blocks_at_once a * block_size a) s = Some s1"
    and "write_loop env a (id_offset env a) (env_detect_fakes env \<and> k = 0) (write_start a s1) = Some (True, s2)"
  shows "test_pass env a p k s =
    (case read_loop env a (id_offset env a) (env_detect_fakes env \<and> k = 0) (read_start a s2) of
       None \<Rightarrow> None
     | Some (go, s3) \<Rightarrow> if go then Some (True, s3\<lparr> num_blocks := 0 \<rparr>) else Some (False, s3))"
  using assms by (auto simp: test_pass_def Let_def write_start_def read_start_def id_offset_def
      split: option.splits)

lemma id_offset_fits: "working_drive env a \<phi> content pos cap \<Longrightarrow> env_rand_id env \<le> RAND_MAX \<Longrightarrow>
   id_offset env a + 8 \<le> block_size a"
  unfolding id_offset_def by (rule id_offset_bound) (auto simp: working_drive_def args_ok_def)

text \<open>The writing half of a pass, on any working drive.\<close>

lemma pass_written:
  assumes drv: "working_drive env a \<phi> content pos cap" and rdy: "pass_ready a s"
    and rnd: "env_rand_id env \<le> RAND_MAX"
  obtains s1 s2 where "pattern_fill env p (blocks_at_once a * block_size a) s = Some s1"
    "write_loop env a (id_offset env a) (env_detect_fakes env \<and> k = 0) (write_start a s1) = Some (True, s2)"
    "lap_inv a (pass_pattern env a p) (env_detect_fakes env \<and> k = 0) (id_offset env a) (read_start a s2)"
    "books (read_start a s2) = books s"
    "content (dev (bb_io (read_start a s2))) =
       written \<phi> (pass_byte env a p k) (last_block a * block_size a) (content (dev (bb_io s)))"
proof -
  let ?st = "env_detect_fakes env \<and> k = 0" and ?off = "id_offset env a" and ?pat = "pass_pattern env a p"
  have fb: "first_block a = 0" using drv by (simp add: working_drive_def)
  obtain s1 where s1: "pattern_fill env p (blocks_at_once a * block_size a) s = Some s1"
    "buffer s1 = ?pat" "books s1 = books s" "bb_io s1 = bb_io s" "pass_ready a s1"
    by (rule pattern_fill_clean [OF rdy, of env p])
  have st: "currently_testing (write_start a s1) = 0" using fb by (simp add: write_start_def)
  obtain s2 where s2: "write_loop env a ?off ?st (write_start a s1) = Some (True, s2)"
    "lap_inv a ?pat ?st ?off s2" "books s2 = books (write_start a s1)"
    "content (dev (bb_io s2)) = written \<phi> (test_byte ?pat ?st ?off a) (last_block a * block_size a)
       (content (dev (bb_io (write_start a s1))))"
    using write_loop_clean [OF drv lap_start [OF s1(5,2) fb] id_offset_fits [OF drv rnd] st] by blast
  have "books (read_start a s2) = books s"
    using s2(3) s1(3) by (simp add: books_def read_start_def write_start_def)
  moreover have "content (dev (bb_io (read_start a s2))) =
       written \<phi> (pass_byte env a p k) (last_block a * block_size a) (content (dev (bb_io s)))"
    using s2(4) s1(4) by (simp add: read_start_def write_start_def pass_byte_def)
  ultimately show thesis using that [OF s1(1) s2(1) lap_restart [OF s2(2) fb]] by blast
qed

lemma test_pass_genuine:
  assumes drv: "working_drive env a \<phi> content pos cap" and rdy: "pass_ready a s"
    and rnd: "env_rand_id env \<le> RAND_MAX" and inj: "inj_on \<phi> {..<last_block a * block_size a}"
  shows "\<exists>s'. test_pass env a p k s = Some (True, s') \<and> pass_ready a s' \<and> books s' = books s \<and>
     content (dev (bb_io s')) =
       written \<phi> (pass_byte env a p k) (last_block a * block_size a) (content (dev (bb_io s)))"
proof -
  let ?st = "env_detect_fakes env \<and> k = 0" and ?off = "id_offset env a" and ?pat = "pass_pattern env a p"
  obtain s1 s2 where w: "pattern_fill env p (blocks_at_once a * block_size a) s = Some s1"
    "write_loop env a ?off ?st (write_start a s1) = Some (True, s2)"
    "lap_inv a ?pat ?st ?off (read_start a s2)" "books (read_start a s2) = books s"
    "content (dev (bb_io (read_start a s2))) =
       written \<phi> (pass_byte env a p k) (last_block a * block_size a) (content (dev (bb_io s)))"
    by (rule pass_written [OF drv rdy rnd])
  have "content (dev (bb_io (read_start a s2))) (\<phi> j) = test_byte ?pat ?st ?off a j"
    if "j < last_block a * block_size a" for j
    using written_genuine [OF inj that] w(5) by (simp add: pass_byte_def)
  from read_loop_clean [OF drv w(3) id_offset_fits [OF drv rnd] this]
  obtain s3 where s3: "read_loop env a ?off ?st (read_start a s2) = Some (True, s3)" "lap_inv a ?pat ?st ?off s3"
    "books s3 = books (read_start a s2)" "content (dev (bb_io s3)) = content (dev (bb_io (read_start a s2)))"
    by blast
  have "test_pass env a p k s = Some (True, s3\<lparr> num_blocks := 0 \<rparr>)"
    using test_pass_unfold [OF _ _ w(1,2)] s3(1) drv rdy by (simp add: working_drive_def pass_ready_def)
  moreover have "pass_ready a (s3\<lparr> num_blocks := 0 \<rparr>)" "books (s3\<lparr> num_blocks := 0 \<rparr>) = books s"
    using s3(2,3) w(4) by (simp_all add: pass_ready_def lap_inv_def books_def)
  ultimately show ?thesis using s3(4) w(5) by (intro exI [of _ "s3\<lparr> num_blocks := 0 \<rparr>"]) simp
qed

lemma test_passes_genuine:
  assumes drv: "working_drive env a \<phi> content pos cap" and rnd: "env_rand_id env \<le> RAND_MAX"
    and inj: "inj_on \<phi> {..<last_block a * block_size a}"
  shows "pass_ready a s \<Longrightarrow> ps \<noteq> [] \<Longrightarrow> \<exists>s'. test_passes env a ps k s = Some s' \<and>
     pass_ready a s' \<and> books s' = books s \<and>
     (\<forall>j < last_block a * block_size a.
        content (dev (bb_io s')) (\<phi> j) = pass_byte env a (last ps) (k + length ps - 1) j)"
proof (induction ps arbitrary: k s)
  case (Cons p ps)
  obtain s1 where s1: "test_pass env a p k s = Some (True, s1)" "pass_ready a s1" "books s1 = books s"
    "content (dev (bb_io s1)) =
       written \<phi> (pass_byte env a p k) (last_block a * block_size a) (content (dev (bb_io s)))"
    using test_pass_genuine [OF drv Cons.prems(1) rnd inj] by blast
  show ?case
  proof (cases "ps = []")
    case True
    then show ?thesis using s1 written_genuine [OF inj] by (intro exI [of _ s1]) simp
  next
    case False
    obtain s' where "test_passes env a ps (Suc k) s1 = Some s'" "pass_ready a s'" "books s' = books s1"
      "\<forall>j < last_block a * block_size a.
        content (dev (bb_io s')) (\<phi> j) = pass_byte env a (last ps) (Suc k + length ps - 1) j"
      using Cons.IH [OF s1(2) False] by blast
    then show ?thesis using s1 False by (intro exI [of _ s']) simp
  qed
qed simp

section \<open>A drive that folds its addresses\<close>










section \<open>The command\<close>

text \<open>The arguments \<open>BadBlocks\<close> passes on, and the call of \<open>test_rw\<close> it makes.\<close>

definition bb_args :: "nat \<Rightarrow> rw_args" where
  "bb_args disk_size = \<lparr> last_block = disk_size div BADBLOCK_BLOCK_SIZE, block_size = BADBLOCK_BLOCK_SIZE,
     first_block = 0, blocks_at_once = BB_BLOCKS_AT_ONCE \<rparr>"

lemma bb_args_fields [simp]:
  "last_block (bb_args n) = n div BADBLOCK_BLOCK_SIZE" "block_size (bb_args n) = BADBLOCK_BLOCK_SIZE"
  "first_block (bb_args n) = 0" "blocks_at_once (bb_args n) = BB_BLOCKS_AT_ONCE"
  by (simp_all add: bb_args_def)

lemma bb_args_ok: "n < 2 ^ 64 \<Longrightarrow> args_ok (bb_args n)"
  using div_le_dividend [of n BADBLOCK_BLOCK_SIZE]
  by (simp add: args_ok_def BB_BLOCKS_AT_ONCE_def BADBLOCK_BLOCK_SIZE_def)

definition start_state :: "bb_struct_u64_list \<Rightarrow> 'd bb_state \<Rightarrow> 'd bb_state" where
  "start_state l s = s\<lparr> num_read_errors := 0, num_write_errors := 0, num_corruption_errors := 0,
     bb_list := l, cancel_ops := False \<rparr>"

definition filled_report :: "nat \<Rightarrow> 'd bb_state \<Rightarrow> badblocks_report" where
  "filled_report n s = \<lparr> rep_bb_count = n, rep_read_errors = num_read_errors s,
     rep_write_errors = num_write_errors s, rep_corruption_errors = num_corruption_errors s \<rparr>"

lemma BadBlocks_run:
  obtains l where "bb_inv l" "bb_entries l = []" "bb_size l = 10" "bb_num l = 0"
    "\<And>n s'. test_rw env (bb_args disk_size) ft np (start_state l s) = Some (n, s') \<Longrightarrow>
       BadBlocks env True True disk_size np ft (Some rep) s =
         Some (\<not> (cancel_ops s' \<and> n = 0), Some (filled_report n s'), s')"
proof -
  obtain l where l: "bb_badblocks_list_create True True 0 = Some (BB_OK, Some l)"
    using bb_create_success by blast
  have "bb_inv l \<and> bb_entries l = [] \<and> bb_size l = 10" using bb_create_result [OF l] by simp
  moreover then have "bb_num l = 0" using bb_num_entries [of l] by simp
  moreover have "BadBlocks env True True disk_size np ft (Some rep) s =
       Some (\<not> (cancel_ops s' \<and> n = 0), Some (filled_report n s'), s')"
    if "test_rw env (bb_args disk_size) ft np (start_state l s) = Some (n, s')" for n s'
    using that l by (cases rep) (simp add: BadBlocks_def Let_def bb_args_def start_state_def filled_report_def)
  ultimately show thesis using that by blast
qed

text \<open>The state in which the first pass starts.\<close>

definition first_pass_state :: "rw_args \<Rightarrow> nat \<Rightarrow> bb_struct_u64_list \<Rightarrow> 'd bb_state \<Rightarrow> 'd bb_state" where
  "first_pass_state a np l s = (start_state l s)\<lparr> nr_pattern := np, cur_pattern := 0, bb_count := 0,
     recover_block := None, buffer := replicate (blocks_at_once a * block_size a) 0,
     read_buffer := replicate (blocks_at_once a * block_size a) 0 \<rparr>"

lemma first_pass_ready: "pass_ready a (first_pass_state a np l s)"
  by (simp add: pass_ready_def first_pass_state_def start_state_def BB_BAD_BLOCKS_THRESHOLD_def)


definition valid_request :: "nat \<Rightarrow> int \<Rightarrow> int \<Rightarrow> bool" where
  "valid_request disk_size np ft \<longleftrightarrow> 0 \<le> ft \<and> ft < BADLOCKS_PATTERN_TYPES \<and>
     1 \<le> np \<and> np \<le> BADBLOCK_PATTERN_COUNT \<and> disk_size < PB"

lemma valid_size: "disk_size < PB \<Longrightarrow> disk_size div BADBLOCK_BLOCK_SIZE * BADBLOCK_BLOCK_SIZE < PB"
  using div_times_less_eq_dividend [of disk_size BADBLOCK_BLOCK_SIZE] by linarith

lemma test_rw_valid:
  assumes "valid_request disk_size np ft" and "env_buffers_ok env"
  shows "test_rw env (bb_args disk_size) ft np (start_state l s) =
    (case test_passes env (bb_args disk_size) (take (nat np) (bb_patterns ! nat ft)) 0
            (first_pass_state (bb_args disk_size) (nat np) l s) of
       None \<Rightarrow> None | Some s' \<Rightarrow> Some (bb_count s', s'))"
proof -
  have "disk_size div BADBLOCK_BLOCK_SIZE * BADBLOCK_BLOCK_SIZE < PB"
    using assms(1) valid_size by (simp add: valid_request_def)
  moreover then have "disk_size div BADBLOCK_BLOCK_SIZE * BADBLOCK_BLOCK_SIZE < 2 ^ 64" by (simp add: PB_def)
  then have "mul64 (disk_size div BADBLOCK_BLOCK_SIZE) BADBLOCK_BLOCK_SIZE =
    disk_size div BADBLOCK_BLOCK_SIZE * BADBLOCK_BLOCK_SIZE" by (rule mul64_small)
  ultimately show ?thesis
    using assms by (auto simp: test_rw_def valid_request_def first_pass_state_def split: option.splits)
qed

lemma patterns_taken:
  assumes "valid_request disk_size np ft"
  shows "length (take (nat np) (bb_patterns ! nat ft)) = nat np"
    and "last (take (nat np) (bb_patterns ! nat ft)) = bb_patterns ! nat ft ! (nat np - 1)"
    and "0 < nat np"
proof -
  have "nat ft < 5" "nat np \<le> 4" and np: "0 < nat np"
    using assms by (auto simp: valid_request_def BADLOCKS_PATTERN_TYPES_def BADBLOCK_PATTERN_COUNT_def)
  then have "\<forall>r \<in> set bb_patterns. length r = 4" "nat ft < length bb_patterns" by (simp_all add: bb_patterns_def)
  then have "length (bb_patterns ! nat ft) = 4" by simp
  then show l: "length (take (nat np) (bb_patterns ! nat ft)) = nat np" using \<open>nat np \<le> 4\<close> by simp
  show "0 < nat np" by (rule np)
  then show "last (take (nat np) (bb_patterns ! nat ft)) = bb_patterns ! nat ft ! (nat np - 1)"
    using l by (subst last_conv_nth) auto
qed

lemma BadBlocks_no_run:
  "BadBlocks env c m disk_size np ft None s = Some (False, None, s)"
  "\<not> (c \<and> m) \<Longrightarrow> \<exists>s'. BadBlocks env c m disk_size np ft (Some rep) s =
     Some (False, Some (rep\<lparr> rep_bb_count := 0 \<rparr>), s') \<and> bb_io s' = bb_io s"
  by (auto simp: BadBlocks_def Let_def bb_badblocks_list_create_def make_u64_list_def)

section \<open>A device in memory\<close>

text \<open>A store with a file pointer, on which the hypotheses of the results below hold.\<close>

type_synonym mem_dev = "(nat \<Rightarrow> u8) \<times> nat"

definition mem_api :: "(nat \<Rightarrow> nat) \<Rightarrow> mem_dev disk_api" where
  "mem_api \<phi> = \<lparr> fp_seek = (\<lambda>d off. Some (fst d, off)), fp_tell = (\<lambda>d. Some (snd d)),
     os_write = (\<lambda>d buf. (True, length buf, (store \<phi> (snd d) buf (fst d), snd d + length buf))),
     os_read = (\<lambda>d n. (True, map (\<lambda>i. fst d (\<phi> (snd d + i))) [0..<n], (fst d, snd d + n))) \<rparr>"

lemma mem_api_mapped: "mapped_disk (mem_api \<phi>) \<phi> cap fst snd"
  by (simp add: mapped_disk_def mem_api_def)

lemma mem_api_bounded: "read_bounded (mem_api \<phi>)"
  by (simp add: read_bounded_def mem_api_def)

definition mem_env :: "(nat \<Rightarrow> nat) \<Rightarrow> mem_dev bb_env" where
  "mem_env \<phi> = \<lparr> env_api = mem_api \<phi>, env_large_drive = False, env_detect_fakes = True,
     env_realloc_ok = (\<lambda>_. True), env_buffers_ok = True, env_cancel = (\<lambda>_. False),
     env_rand = (\<lambda>k. k), env_rand_id = 17 \<rparr>"

definition mem_state :: "mem_dev bb_state" where
  "mem_state = \<lparr> cancel_ops = False, cur_pattern = 0, nr_pattern = 0, cur_op = OP_READ, currently_testing = 0,
     num_blocks = 0, num_read_errors = 0, num_write_errors = 0, num_corruption_errors = 0,
     bb_list = \<lparr> bb_magic = BB_OK, bb_num = 0, bb_size = 0, bb_array = [] \<rparr>, next_bad = 0, bb_iter = None,
     bb_log = [], bb_io = \<lparr> dev = (\<lambda>_. 0, 0), LastWriteError = NoWriteError \<rparr>, bb_count = 0, tryout = 0,
     recover_block = None, buffer = [], read_buffer = [] \<rparr>"

lemma mem_working: "n < PB \<Longrightarrow> working_drive (mem_env \<phi>) (bb_args n) \<phi> fst snd n"
  using bb_args_ok [of n] div_times_less_eq_dividend [of n BADBLOCK_BLOCK_SIZE]
  by (simp add: working_drive_def mem_env_def mem_api_mapped PB_def BB_BLOCKS_AT_ONCE_def) (simp add: BADBLOCK_BLOCK_SIZE_def)

section \<open>Results\<close>

text \<open>
C3. Wiping a genuine drive. If the drive keeps every address in a cell of its own and nobody
cancels, \<open>BadBlocks\<close> succeeds, reports no error of any kind, and leaves on every byte of the
tested area the byte that its last pass writes there: nothing of the old content survives.
\<close>

theorem BadBlocks_genuine_drive:
  assumes "working_drive env (bb_args disk_size) \<phi> content pos cap"
    and "inj_on \<phi> {..<disk_size div BADBLOCK_BLOCK_SIZE * BADBLOCK_BLOCK_SIZE}"
    and "env_rand_id env \<le> RAND_MAX" and "env_buffers_ok env" and "valid_request disk_size np ft"
  shows "\<exists>s'. BadBlocks env True True disk_size np ft (Some rep) s =
      Some (True, Some \<lparr> rep_bb_count = 0, rep_read_errors = 0, rep_write_errors = 0,
                        rep_corruption_errors = 0 \<rparr>, s') \<and>
    (\<forall>j < disk_size div BADBLOCK_BLOCK_SIZE * BADBLOCK_BLOCK_SIZE.
       content (dev (bb_io s')) (\<phi> j) =
       pass_byte env (bb_args disk_size) (bb_patterns ! nat ft ! (nat np - 1)) (nat np - 1) j)"
proof -
  let ?a = "bb_args disk_size" and ?ps = "take (nat np) (bb_patterns ! nat ft)"
  obtain l where l: "bb_inv l" "bb_entries l = []" "bb_size l = 10" "bb_num l = 0"
    and run: "\<And>n s'. test_rw env ?a ft np (start_state l s) = Some (n, s') \<Longrightarrow>
       BadBlocks env True True disk_size np ft (Some rep) s =
         Some (\<not> (cancel_ops s' \<and> n = 0), Some (filled_report n s'), s')"
    by (rule BadBlocks_run [of env disk_size ft np s rep]) (rule that, assumption+)
  note pt = patterns_taken [OF assms(5)]
  have ne: "?ps \<noteq> []" using pt(1,3) by force
  obtain s' where s': "test_passes env ?a ?ps 0 (first_pass_state ?a (nat np) l s) = Some s'"
    "pass_ready ?a s'" "books s' = books (first_pass_state ?a (nat np) l s)"
    "\<forall>j < last_block ?a * block_size ?a.
       content (dev (bb_io s')) (\<phi> j) = pass_byte env ?a (last ?ps) (0 + length ?ps - 1) j"
    using test_passes_genuine [OF assms(1,3) _ first_pass_ready ne] assms(2) by fastforce
  have "test_rw env ?a ft np (start_state l s) = Some (bb_count s', s')"
    using test_rw_valid [OF assms(5,4)] s'(1) by simp
  from run [OF this] show ?thesis using s' pt
    by (intro exI [of _ s']) (simp add: books_def first_pass_state_def start_state_def filled_report_def pass_ready_def)
qed

theorem BadBlocks_genuine_drive_witness:
  "\<exists>s'. BadBlocks (mem_env (\<lambda>j. j)) True True 1600000 2 2
      (Some \<lparr> rep_bb_count = 9, rep_read_errors = 9, rep_write_errors = 9, rep_corruption_errors = 9 \<rparr>) mem_state =
      Some (True, Some \<lparr> rep_bb_count = 0, rep_read_errors = 0, rep_write_errors = 0,
                        rep_corruption_errors = 0 \<rparr>, s') \<and>
    (\<forall>j < 1600000 div BADBLOCK_BLOCK_SIZE * BADBLOCK_BLOCK_SIZE.
       fst (dev (bb_io s')) j =
       pass_byte (mem_env (\<lambda>j. j)) (bb_args 1600000) (bb_patterns ! nat 2 ! (nat 2 - 1)) (nat 2 - 1) j)"
proof (rule BadBlocks_genuine_drive [where \<phi> = "\<lambda>j. j" and content = fst and pos = snd and cap = 1600000])
  show "working_drive (mem_env (\<lambda>j. j)) (bb_args 1600000) (\<lambda>j. j) fst snd 1600000"
    by (rule mem_working) (simp add: PB_def)
qed (simp_all add: mem_env_def RAND_MAX_def valid_request_def BADLOCKS_PATTERN_TYPES_def
    BADBLOCK_PATTERN_COUNT_def PB_def)



text \<open>
C5. The test always ends, whatever the drive does, and its books balance: the number of bad
blocks is the number of entries of the list and the sum of the read, write and corruption
errors, it stays below 256 + 64, and the entries are distinct, ascending blocks of the drive.
\<close>

theorem BadBlocks_accounting:
  assumes "disk_size < 2 ^ 64" and "read_bounded (env_api env)" and "env_rand_id env \<le> RAND_MAX"
  shows "\<exists>ret rep' s'. BadBlocks env True True disk_size np ft (Some rep) s = Some (ret, Some rep', s') \<and>
     rep_bb_count rep' = length (bb_entries (bb_list s')) \<and>
     rep_bb_count rep' = rep_read_errors rep' + rep_write_errors rep' + rep_corruption_errors rep' \<and>
     rep_bb_count rep' < BB_BAD_BLOCKS_THRESHOLD + BB_BLOCKS_AT_ONCE \<and>
     sorted_wrt (<) (bb_entries (bb_list s')) \<and>
     (\<forall>b \<in> set (bb_entries (bb_list s')). unat b < disk_size div BADBLOCK_BLOCK_SIZE) \<and>
     (ret \<longleftrightarrow> \<not> cancel_ops s' \<or> rep_bb_count rep' \<noteq> 0)"
proof -
  let ?a = "bb_args disk_size"
  obtain l where l: "bb_inv l" "bb_entries l = []" "bb_size l = 10" "bb_num l = 0"
    and run: "\<And>n s'. test_rw env ?a ft np (start_state l s) = Some (n, s') \<Longrightarrow>
       BadBlocks env True True disk_size np ft (Some rep) s =
         Some (\<not> (cancel_ops s' \<and> n = 0), Some (filled_report n s'), s')"
    by (rule BadBlocks_run [of env disk_size ft np s rep]) (rule that, assumption+)
  have "\<exists>n s'. test_rw env ?a ft np (start_state l s) = Some (n, s') \<and>
     n = length (bb_entries (bb_list s')) \<and>
     n = num_read_errors s' + num_write_errors s' + num_corruption_errors s' \<and>
     n < BB_BAD_BLOCKS_THRESHOLD + blocks_at_once ?a \<and> sorted_wrt (<) (bb_entries (bb_list s')) \<and>
     (\<forall>b \<in> set (bb_entries (bb_list s')). first_block ?a \<le> unat b \<and> unat b < last_block ?a)"
    (is "\<exists>n s'. ?R n s'")
    using l assms by (intro test_rw_total) (simp_all add: start_state_def bb_args_ok)
  then obtain n s' where r: "?R n s'" by blast
  then show ?thesis using run [of n s']
    by (intro exI [of _ "\<not> (cancel_ops s' \<and> n = 0)"] exI [of _ "filled_report n s'"] exI [of _ s'])
      (simp add: filled_report_def)
qed

theorem BadBlocks_accounting_witness:
  "\<exists>ret rep' s'. BadBlocks (mem_env (\<lambda>j. 7)) True True 4000000 3 4
      (Some \<lparr> rep_bb_count = 0, rep_read_errors = 0, rep_write_errors = 0, rep_corruption_errors = 0 \<rparr>) mem_state
      = Some (ret, Some rep', s') \<and>
     rep_bb_count rep' = length (bb_entries (bb_list s')) \<and>
     rep_bb_count rep' = rep_read_errors rep' + rep_write_errors rep' + rep_corruption_errors rep' \<and>
     rep_bb_count rep' < BB_BAD_BLOCKS_THRESHOLD + BB_BLOCKS_AT_ONCE \<and>
     sorted_wrt (<) (bb_entries (bb_list s')) \<and>
     (\<forall>b \<in> set (bb_entries (bb_list s')). unat b < 4000000 div BADBLOCK_BLOCK_SIZE) \<and>
     (ret \<longleftrightarrow> \<not> cancel_ops s' \<or> rep_bb_count rep' \<noteq> 0)"
  by (rule BadBlocks_accounting) (simp_all add: mem_env_def mem_api_bounded RAND_MAX_def)

end
