(* ===== verification/Hash_Core.thy ===== *)
theory Hash_Core
  imports Prelude
begin

text \<open>
  What the four hash functions of \<open>src/src/hash.c\<close> share: the context of
  \<open>src/src/rufus.h\<close>, the byte-order and rotation macros, the loops that feed whole blocks
  to a transform and that pad the last one, and the theory of a block hash as a locale: any way
  of cutting the message into pieces gives the same digest.
\<close>

section \<open>Context and macros\<close>

record HASH_CONTEXT =
  hbuf :: "u8 list"
  hstate :: "u64 list"
  bytecount :: u64

definition MAX_BLOCKSIZE :: nat where
  "MAX_BLOCKSIZE = 128"

text \<open>\<open>memset(ctx, 0, sizeof(*ctx))\<close>, after which each \<open>init\<close> stores its constants.\<close>

definition zero_context :: HASH_CONTEXT where
  "zero_context = \<lparr> hbuf = replicate MAX_BLOCKSIZE 0, hstate = replicate 8 0, bytecount = 0 \<rparr>"

definition init_context :: "u64 list \<Rightarrow> HASH_CONTEXT" where
  "init_context hs = zero_context\<lparr> hstate := hs @ replicate (8 - length hs) 0 \<rparr>"

definition ROL32 :: "u32 \<Rightarrow> nat \<Rightarrow> u32" where
  "ROL32 a b = (push_bit b a OR drop_bit (32 - b) a)"

definition ROR32 :: "u32 \<Rightarrow> nat \<Rightarrow> u32" where
  "ROR32 a b = (drop_bit b a OR push_bit (32 - b) a)"

definition ROR64 :: "u64 \<Rightarrow> nat \<Rightarrow> u64" where
  "ROR64 a b = (drop_bit b a OR push_bit (64 - b) a)"

definition Ch :: "'a::len word \<Rightarrow> 'a word \<Rightarrow> 'a word \<Rightarrow> 'a word" where
  "Ch x y z = (z XOR (x AND (y XOR z)))"

definition Ma :: "'a::len word \<Rightarrow> 'a word \<Rightarrow> 'a word \<Rightarrow> 'a word" where
  "Ma x y z = ((x AND y) OR (z AND (x OR y)))"

definition bswap_uint32 :: "u32 \<Rightarrow> u32" where
  "bswap_uint32 w = load_le (rev (store_le 4 w))"

definition bswap_uint64 :: "u64 \<Rightarrow> u64" where
  "bswap_uint64 w = load_le (rev (store_le 8 w))"

text \<open>\<open>read_swap32(p)\<close> where \<open>p\<close> points \<open>i\<close> bytes into \<open>data\<close>; likewise the others.\<close>

definition read_swap32 :: "u8 list \<Rightarrow> nat \<Rightarrow> u32" where
  "read_swap32 data i = bswap_uint32 (load_le (slice i 4 data))"

definition read_swap64 :: "u8 list \<Rightarrow> nat \<Rightarrow> u64" where
  "read_swap64 data i = bswap_uint64 (load_le (slice i 8 data))"

definition write_swap32 :: "u8 list \<Rightarrow> nat \<Rightarrow> u32 \<Rightarrow> u8 list option" where
  "write_swap32 buf p v = memcpy buf p (store_le 4 (bswap_uint32 v)) 4"

definition write_swap64 :: "u8 list \<Rightarrow> nat \<Rightarrow> u64 \<Rightarrow> u8 list option" where
  "write_swap64 buf p v = memcpy buf p (store_le 8 (bswap_uint64 v)) 8"

text \<open>
  The rounds of a transform are written out with the names of the working variables rotated
  by one place from each round to the next. In round \<open>i\<close> the variable in role \<open>r\<close> is
  number \<open>reg n r i\<close> of the \<open>n\<close> variables.
\<close>

definition reg :: "nat \<Rightarrow> nat \<Rightarrow> nat \<Rightarrow> nat" where
  "reg n r i = (r + (n - 1) * i) mod n"

section \<open>Loops over blocks\<close>

text \<open>
  The \<open>while (len >= BLOCKSIZE)\<close> loop of the \<open>write\<close> functions. It returns the pointer
  and the length it stops with.
\<close>

function hash_blocks ::
  "(HASH_CONTEXT \<Rightarrow> u8 list \<Rightarrow> HASH_CONTEXT option) \<Rightarrow> nat \<Rightarrow> HASH_CONTEXT \<Rightarrow> u8 list \<Rightarrow> nat \<Rightarrow>
   (HASH_CONTEXT \<times> u8 list \<times> nat) option" where
  "hash_blocks tr bs ctx buf len =
     (if 0 < bs \<and> bs \<le> len then do {
        ctx' \<leftarrow> tr ctx buf;
        hash_blocks tr bs ctx' (drop bs buf) (len - bs)
      } else Some (ctx, buf, len))"
  by pat_completeness auto
termination
  by (relation "measure (\<lambda>(tr, bs, ctx, buf, len). len)") auto

declare hash_blocks.simps [simp del]

text \<open>The padding loop of the \<open>final\<close> functions of the SHA family.\<close>

partial_function (option) pad_loop ::
  "(HASH_CONTEXT \<Rightarrow> u8 list \<Rightarrow> HASH_CONTEXT option) \<Rightarrow> nat \<Rightarrow> nat \<Rightarrow> HASH_CONTEXT \<Rightarrow> nat \<Rightarrow>
   HASH_CONTEXT option" where
  "pad_loop tr bs stop ctx pos =
     (if pos = stop then Some ctx
      else
        let pos' = pos mod bs in do {
          ctx1 \<leftarrow> (if pos' = 0 then tr ctx (hbuf ctx) else Some ctx);
          b \<leftarrow> aset (hbuf ctx1) pos' 0;
          pad_loop tr bs stop (ctx1\<lparr> hbuf := b \<rparr>) (Suc pos')
        })"

declare pad_loop.simps [code]

text \<open>The stores of a 64-bit count, most significant byte first, that end at offset \<open>off\<close>.\<close>

fun put_count :: "u8 list \<Rightarrow> nat \<Rightarrow> u64 \<Rightarrow> nat \<Rightarrow> u8 list option" where
  "put_count buf off v 0 = Some buf"
| "put_count buf off v (Suc k) = do {
     buf' \<leftarrow> put_count buf off v k;
     aset buf' (off - k) (ucast (drop_bit (8 * k) v))
   }"

section \<open>Rotating variables\<close>

text \<open>The working variables in the order of their roles.\<close>

definition view :: "nat \<Rightarrow> nat \<Rightarrow> 'a list \<Rightarrow> 'a list" where
  "view n i v = map (\<lambda>r. v ! reg n r i) [0..<n]"

lemma length_view [simp]: "length (view n i v) = n"
  by (simp add: view_def)

lemma reg_less [simp]: "0 < n \<Longrightarrow> reg n r i < n"
  by (simp add: reg_def)

lemma nth_view: "r < n \<Longrightarrow> view n i v ! r = v ! reg n r i"
  by (simp add: view_def)

lemma reg_inj: "r < n \<Longrightarrow> s < n \<Longrightarrow> reg n r i = reg n s i \<longleftrightarrow> r = s"
proof -
  have "r = s" if "r < n" "s < n" "reg n r i = reg n s i"
  proof -
    have "r mod n = s mod n" using that(3) unfolding reg_def by (simp add: nat_mod_eq_iff)
    then show ?thesis using that by simp
  qed
  then show "r < n \<Longrightarrow> s < n \<Longrightarrow> reg n r i = reg n s i \<longleftrightarrow> r = s" by auto
qed

lemma view_update: "length v = n \<Longrightarrow> r < n \<Longrightarrow> view n i (v[reg n r i := x]) = (view n i v)[r := x]"
  by (rule nth_equalityI) (auto simp: nth_view nth_list_update reg_inj)

lemma reg_Suc: "0 < n \<Longrightarrow> reg n 0 (Suc i) = reg n (n - 1) i" "r < n \<Longrightarrow> reg n (Suc r) (Suc i) = reg n r i"
proof -
  show "0 < n \<Longrightarrow> reg n 0 (Suc i) = reg n (n - 1) i" by (simp add: reg_def)
  assume "r < n"
  then have "Suc r + (n - 1) * Suc i = n + (r + (n - 1) * i)" by simp
  then show "reg n (Suc r) (Suc i) = reg n r i" unfolding reg_def by (metis mod_add_self1)
qed

lemma view_Suc: "0 < n \<Longrightarrow> view n (Suc i) v = last (view n i v) # butlast (view n i v)"
proof (rule nth_equalityI)
  fix r assume n: "0 < n" and "r < length (view n (Suc i) v)"
  then have r: "r < n" by simp
  have "last (view n i v) = view n i v ! (n - 1)" using n by (subst last_conv_nth) (auto simp: view_def)
  then show "view n (Suc i) v ! r = (last (view n i v) # butlast (view n i v)) ! r"
    using n r by (cases r) (simp_all add: nth_view reg_Suc nth_butlast last_conv_nth)
qed simp

lemma view_multiple: "n dvd i \<Longrightarrow> length v = n \<Longrightarrow> view n i v = v"
  by (rule nth_equalityI) (auto simp: nth_view reg_def mult.left_commute elim!: dvdE)

section \<open>Rotations and byte order\<close>

lemma ROL32_rot: "0 < b \<Longrightarrow> b < 32 \<Longrightarrow> ROL32 a b = word_rotl b a"
proof (rule bit_word_eqI)
  fix n assume b: "0 < b" "b < 32" and n: "n < LENGTH(32)"
  then obtain d where d: "b = 32 - d" "32 - b = d" "0 < d" "d < 32" by (metis diff_diff_cancel diff_less less_imp_le zero_less_diff zero_less_numeral)
  show "bit (ROL32 a b) n = bit (word_rotl b a) n"
  proof (cases "n < b")
    case True
    then have "(n + d) mod 32 = n + d" "\<not> b \<le> n" using d by simp_all
    then show ?thesis using b n d by (simp add: ROL32_def bit_simps add.commute)
  next
    case False
    then have "(n + d) mod 32 = n - b" using d n by (simp add: le_mod_geq)
    moreover have "\<not> bit a (d + n)" using bit_imp_le_length [of a "d + n"] False d by auto
    ultimately show ?thesis using b n False d by (simp add: ROL32_def bit_simps)
  qed
qed

lemma ROR32_rot: "0 < b \<Longrightarrow> b < 32 \<Longrightarrow> ROR32 a b = word_rotr b a"
proof (rule bit_word_eqI)
  fix n assume b: "0 < b" "b < 32" and n: "n < LENGTH(32)"
  show "bit (ROR32 a b) n = bit (word_rotr b a) n"
  proof (cases "n + b < 32")
    case True
    then show ?thesis using b n by (auto simp: ROR32_def bit_simps add.commute)
  next
    case False
    then have "(n + b) mod 32 = n - (32 - b)" "32 - b \<le> n" using b n by (simp_all add: le_mod_geq)
    moreover have "\<not> bit a (b + n)" using bit_imp_le_length [of a "b + n"] False by auto
    ultimately show ?thesis using b n False by (simp add: ROR32_def bit_simps)
  qed
qed

lemma ROR64_rot: "0 < b \<Longrightarrow> b < 64 \<Longrightarrow> ROR64 a b = word_rotr b a"
proof (rule bit_word_eqI)
  fix n assume b: "0 < b" "b < 64" and n: "n < LENGTH(64)"
  show "bit (ROR64 a b) n = bit (word_rotr b a) n"
  proof (cases "n + b < 64")
    case True
    then show ?thesis using b n by (auto simp: ROR64_def bit_simps add.commute)
  next
    case False
    then have "(n + b) mod 64 = n - (64 - b)" "64 - b \<le> n" using b n by (simp_all add: le_mod_geq)
    moreover have "\<not> bit a (b + n)" using bit_imp_le_length [of a "b + n"] False by auto
    ultimately show ?thesis using b n False by (simp add: ROR64_def bit_simps)
  qed
qed

text \<open>A word as bytes and back, most significant byte first, as the standards write it.\<close>

definition be_word :: "u8 list \<Rightarrow> 'a::len word" where
  "be_word bs = foldl (\<lambda>w b. push_bit 8 w OR ucast b) 0 bs"

definition be_bytes :: "nat \<Rightarrow> 'a::len word \<Rightarrow> u8 list" where
  "be_bytes n w = map (\<lambda>k. ucast (drop_bit (8 * (n - Suc k)) w)) [0..<n]"

lemma load_le_rev: "load_le (rev bs) = be_word bs"
  by (induction bs rule: rev_induct) (simp_all add: be_word_def or.commute)

lemma length_be_bytes [simp]: "length (be_bytes n w) = n"
  by (simp add: be_bytes_def)

lemma bit_be_bytes: "k < n \<Longrightarrow> m < 8 \<Longrightarrow> bit (be_bytes n w ! k) m \<longleftrightarrow> bit w (8 * (n - Suc k) + m)"
  by (simp add: be_bytes_def bit_simps)

lemma store_le_rev: "rev (store_le n w) = be_bytes n w"
  by (rule nth_equalityI) (simp_all add: store_le_def be_bytes_def rev_nth)

lemma read_swap32_be: "i + 4 \<le> length data \<Longrightarrow> read_swap32 data i = be_word (slice i 4 data)"
  using store_load_le [of "slice i 4 data", where 'a = 32]
  by (simp add: read_swap32_def bswap_uint32_def load_le_rev)

lemma read_swap64_be: "i + 8 \<le> length data \<Longrightarrow> read_swap64 data i = be_word (slice i 8 data)"
  using store_load_le [of "slice i 8 data", where 'a = 64]
  by (simp add: read_swap64_def bswap_uint64_def load_le_rev)

lemma bswap_bytes:
  "store_le 4 (bswap_uint32 v) = be_bytes 4 v" "store_le 8 (bswap_uint64 u) = be_bytes 8 u"
  using store_load_le [of "be_bytes 4 v", where 'a = 32] store_load_le [of "be_bytes 8 u", where 'a = 64]
  by (simp_all add: bswap_uint32_def bswap_uint64_def store_le_rev)

lemmas swap_be = read_swap32_be read_swap64_be bswap_bytes

section \<open>Absorbing a message\<close>

text \<open>The state after the whole blocks of a message have been compressed.\<close>

function run_blocks :: "('s \<Rightarrow> u8 list \<Rightarrow> 's) \<Rightarrow> nat \<Rightarrow> 's \<Rightarrow> u8 list \<Rightarrow> 's" where
  "run_blocks compress bs st msg =
     (if 0 < bs \<and> bs \<le> length msg then run_blocks compress bs (compress st (take bs msg)) (drop bs msg) else st)"
  by pat_completeness auto
termination
  by (relation "measure (\<lambda>(c, bs, st, msg). length msg)") auto

declare run_blocks.simps [simp del]

lemma run_blocks_short: "length msg < bs \<Longrightarrow> run_blocks c bs st msg = st"
  by (subst run_blocks.simps) simp

lemma run_blocks_append:
  "bs dvd length xs \<Longrightarrow> run_blocks c bs st (xs @ ys) = run_blocks c bs (run_blocks c bs st xs) ys"
proof (induction c bs st xs rule: run_blocks.induct)
  case (1 c bs st xs)
  show ?case
  proof (cases "0 < bs \<and> bs \<le> length xs")
    case True
    then have "bs dvd length (drop bs xs)" using "1.prems" by (simp add: dvd_diff_nat)
    then show ?thesis using "1.IH" True by (simp add: run_blocks.simps [of c bs st])
  next
    case False
    then have "bs = 0 \<or> xs = []" using "1.prems" by (auto dest: dvd_imp_le)
    then show ?thesis by (auto simp: run_blocks.simps [of c 0] run_blocks_short run_blocks.simps [of c bs st "[]"])
  qed
qed

lemma run_blocks_one: "0 < bs \<Longrightarrow> length b = bs \<Longrightarrow> run_blocks c bs st b = c st b"
  by (subst run_blocks.simps) (simp add: run_blocks_short)

lemma run_blocks_length:
  assumes "\<And>st blk. length st = n \<Longrightarrow> length (c st blk) = n"
  shows "length st = n \<Longrightarrow> length (run_blocks c bs st msg) = n"
  using assms
proof (induction c bs st msg rule: run_blocks.induct)
  case (1 c bs st msg)
  then show ?case by (subst run_blocks.simps) simp
qed

text \<open>A simulation between two compression functions carries over to messages.\<close>

lemma run_blocks_sim:
  assumes "\<And>st blk. P st \<Longrightarrow> length blk = bs \<Longrightarrow> P (c st blk) \<and> ab (c st blk) = c' (ab st) blk"
  shows "P st \<Longrightarrow> ab (run_blocks c bs st msg) = run_blocks c' bs (ab st) msg"
  using assms
proof (induction c bs st msg rule: run_blocks.induct)
  case (1 c bs st msg)
  show ?case
  proof (cases "0 < bs \<and> bs \<le> length msg")
    case True
    then have "P (c st (take bs msg)) \<and> ab (c st (take bs msg)) = c' (ab st) (take bs msg)"
      using "1.prems" by simp
    with "1.IH" [OF True] "1.prems"(2) True show ?thesis
      by (simp add: run_blocks.simps [of c bs st] run_blocks.simps [of c' bs "ab st"])
  next
    case False
    then show ?thesis by (auto simp: run_blocks.simps [of c bs st] run_blocks.simps [of c' bs "ab st"])
  qed
qed

text \<open>Rounds, one after the other.\<close>

lemma fold_rounds:
  assumes "I 0 s" and "\<And>i s. I i s \<Longrightarrow> i < n \<Longrightarrow> I (Suc i) (f i s)"
  shows "I n (fold f [0..<n] s)"
  using assms by (induction n) simp_all

text \<open>A message schedule kept in 16 words: before round \<open>t\<close> they are the last 16 of \<open>W\<close>.\<close>

definition rolling :: "(nat \<Rightarrow> 'a) \<Rightarrow> nat \<Rightarrow> 'a list \<Rightarrow> bool" where
  "rolling W t x \<longleftrightarrow> length x = 16 \<and>
     (\<forall>k. k < max t 16 \<and> max t 16 \<le> k + 16 \<longrightarrow> x ! (k mod 16) = W k)"

lemma rolling_get: "rolling W t x \<Longrightarrow> 16 \<le> t \<Longrightarrow> 0 < d \<Longrightarrow> d \<le> 16 \<Longrightarrow> x ! ((t - d) mod 16) = W (t - d)"
  by (simp add: rolling_def)

lemma rolling_first: "rolling W t x \<Longrightarrow> t < 16 \<Longrightarrow> rolling W (Suc t) x \<and> x ! t = W t"
proof -
  assume "rolling W t x" "t < 16"
  moreover then have "max (Suc t) 16 = max t 16" "t mod 16 = t" by simp_all
  ultimately show "rolling W (Suc t) x \<and> x ! t = W t" unfolding rolling_def by fastforce
qed

lemma rolling_step:
  assumes "rolling W t x" and "16 \<le> t"
  shows "rolling W (Suc t) (x[t mod 16 := W t])"
  unfolding rolling_def
proof (intro conjI allI impI)
  fix k assume k: "k < max (Suc t) 16 \<and> max (Suc t) 16 \<le> k + 16"
  show "x[t mod 16 := W t] ! (k mod 16) = W k"
  proof (cases "k = t")
    case True
    then show ?thesis using assms by (simp add: rolling_def)
  next
    case False
    then have "k < t" "t \<le> k + 16" "t - k < 16" using k assms(2) by auto
    moreover then have "k mod 16 \<noteq> t mod 16" using mod_eq_dvd_iff_nat [of k t 16] by (auto dest: dvd_imp_le)
    ultimately show ?thesis using assms by (simp add: rolling_def)
  qed
qed (use assms in \<open>simp add: rolling_def\<close>)

lemma rolling_start: "length M = 16 \<Longrightarrow> (\<And>k. k < 16 \<Longrightarrow> W k = M ! k) \<Longrightarrow> rolling W 0 M"
  by (simp add: rolling_def)

text \<open>The chaining variables hold 64 bits of which only 32 are ever read.\<close>

lemma ucast_add_low: "(ucast ((a :: u64) + ucast (b :: u32)) :: u32) = ucast a + b"
proof -
  have "(x mod 2 ^ 64 + y) mod 2 ^ 32 = (x + y) mod (2 ^ 32 :: int)" for x y
    using mod_add_left_eq [of "x mod 2 ^ 64" "2 ^ 32" y] mod_add_left_eq [of x "2 ^ 32" y]
    by (simp add: mod_mod_cancel)
  then show ?thesis by transfer (simp add: take_bit_eq_mod mod_simps mod_mod_cancel)
qed

text \<open>The position in the current block, from the count of bytes.\<close>

lemma count_mod_64: "unat ((of_nat n :: u64) AND 63) = n mod 64"
proof -
  have "(of_nat n :: u64) AND 63 = take_bit 6 (of_nat n)" by (simp add: take_bit_eq_mask mask_eq_exp_minus_1)
  also have "\<dots> = of_nat n mod 64" by (simp add: take_bit_eq_mod)
  finally show ?thesis by (simp add: unat_mod unat_of_nat mod_mod_cancel)
qed

lemma count_mod_128: "unat ((of_nat n :: u64) AND 127) = n mod 128"
proof -
  have "(of_nat n :: u64) AND 127 = take_bit 7 (of_nat n)" by (simp add: take_bit_eq_mask mask_eq_exp_minus_1)
  also have "\<dots> = of_nat n mod 128" by (simp add: take_bit_eq_mod)
  finally show ?thesis by (simp add: unat_mod unat_of_nat mod_mod_cancel)
qed

lemma put_count_bytes:
  "off < length buf \<Longrightarrow> k \<le> Suc off \<Longrightarrow>
   put_count buf off v k = memcpy buf (Suc off - k) (be_bytes k v) k"
proof (induction k)
  case (Suc k)
  have "be_bytes (Suc k) v = ucast (drop_bit (8 * k) v) # be_bytes k v"
    unfolding be_bytes_def map_upt_Suc by simp
  moreover have "take (Suc off - k) buf = take (off - k) buf @ [buf ! (off - k)]"
    using Suc.prems take_Suc_conv_app_nth [of "off - k" buf] by (simp add: Suc_diff_le)
  ultimately show ?case using Suc by (simp add: array_simps list_update_append)
qed (simp add: memcpy_def)

text \<open>
  A context that has absorbed \<open>msg\<close>: its state covers the whole blocks and its buffer
  starts with the rest.
\<close>

definition absorbed ::
  "(u64 list \<Rightarrow> u8 list \<Rightarrow> u64 list) \<Rightarrow> nat \<Rightarrow> u64 list \<Rightarrow> u8 list \<Rightarrow> HASH_CONTEXT \<Rightarrow> bool" where
  "absorbed compress bs h0 msg ctx \<longleftrightarrow> length (hbuf ctx) = MAX_BLOCKSIZE \<and>
     hstate ctx = run_blocks compress bs h0 msg \<and>
     take (length msg mod bs) (hbuf ctx) = drop (length msg div bs * bs) msg"

text \<open>
  The same between the stores of the padding: \<open>pos\<close> bytes of the buffer are in use, and a
  full buffer has not been compressed yet.
\<close>

definition pending ::
  "(u64 list \<Rightarrow> u8 list \<Rightarrow> u64 list) \<Rightarrow> nat \<Rightarrow> u64 list \<Rightarrow> u8 list \<Rightarrow> nat \<Rightarrow> HASH_CONTEXT \<Rightarrow> bool" where
  "pending compress bs h0 msg pos ctx \<longleftrightarrow> length (hbuf ctx) = MAX_BLOCKSIZE \<and> pos \<le> bs \<and>
     (\<exists>done0 rest. msg = done0 @ rest \<and> bs dvd length done0 \<and> length rest = pos \<and>
        take pos (hbuf ctx) = rest \<and> hstate ctx = run_blocks compress bs h0 done0)"

lemma pending_bytecount [simp]: "pending c bs h0 msg pos (ctx\<lparr> bytecount := n \<rparr>) = pending c bs h0 msg pos ctx"
  by (simp add: pending_def)

lemma absorbed_pending:
  assumes "absorbed c bs h0 msg ctx" and "0 < bs"
  shows "pending c bs h0 msg (length msg mod bs) ctx"
proof -
  let ?d = "take (length msg div bs * bs) msg" and ?r = "drop (length msg div bs * bs) msg"
  have ld: "length ?d = length msg div bs * bs" by (simp add: min_absorb2)
  have lr: "length ?r = length msg mod bs" by (simp add: minus_div_mult_eq_mod)
  have dv: "bs dvd length ?d" unfolding ld by simp
  have "run_blocks c bs h0 (?d @ ?r) = run_blocks c bs h0 ?d"
    using run_blocks_append [OF dv, of c h0 ?r] run_blocks_short [of ?r bs c] lr assms(2) by simp
  then have "hstate ctx = run_blocks c bs h0 ?d" using assms(1) by (simp add: absorbed_def)
  moreover have "length msg mod bs \<le> bs" using assms(2) by (simp add: less_imp_le)
  ultimately show ?thesis using assms(1) lr dv unfolding pending_def absorbed_def
    by (intro conjI exI [of _ ?d] exI [of _ ?r]) simp_all
qed

lemma pending_absorbed:
  assumes "pending c bs h0 msg pos ctx" and "pos < bs"
  shows "absorbed c bs h0 msg ctx" "length msg mod bs = pos"
proof -
  obtain d r where d: "msg = d @ r" "bs dvd length d" "length r = pos" "take pos (hbuf ctx) = r"
    "hstate ctx = run_blocks c bs h0 d" "length (hbuf ctx) = MAX_BLOCKSIZE"
    using assms(1) by (auto simp: pending_def)
  obtain k where k: "length d = bs * k" using d(2) by blast
  show m: "length msg mod bs = pos" using d k assms(2) by simp
  have "length msg div bs * bs = length d" using d k assms(2) by simp
  then show "absorbed c bs h0 msg ctx" unfolding absorbed_def m
    using d assms(2) by (simp add: run_blocks_append run_blocks_short)
qed

text \<open>
  The padding of FIPS 180-4 and RFC 1321: a one bit, zeros, and the length field \<open>cnt\<close>, up
  to a multiple of the block size.
\<close>

definition sha_pad :: "nat \<Rightarrow> u8 list \<Rightarrow> u8 list \<Rightarrow> u8 list" where
  "sha_pad bs cnt msg =
     msg @ [0x80] @ replicate ((bs - (length msg + 1 + length cnt) mod bs) mod bs) 0 @ cnt"

lemma pad_zeros:
  fixes pos n bs stop :: nat
  assumes "pos < bs" and "0 < n" and "n < bs" and "stop = bs - n"
  shows "(if Suc pos \<le> stop then stop - Suc pos else bs - Suc pos + stop) =
    (bs - (pos + 1 + n) mod bs) mod bs"
proof (cases "pos + 1 + n < bs")
  case False
  then have "(pos + 1 + n) mod bs = pos + 1 + n - bs" using assms by (simp add: le_mod_geq)
  then show ?thesis using False assms by (cases "pos + 1 + n = bs") auto
qed (use assms in auto)

text \<open>
  The common shape of the \<open>write\<close> functions, where \<open>num\<close> bytes of the current block are
  already in the buffer. The functions themselves are written out in the theories below.
\<close>

definition stream_write ::
  "(HASH_CONTEXT \<Rightarrow> u8 list \<Rightarrow> HASH_CONTEXT option) \<Rightarrow> nat \<Rightarrow> nat \<Rightarrow> HASH_CONTEXT \<Rightarrow> u8 list \<Rightarrow> nat \<Rightarrow>
   HASH_CONTEXT option" where
  "stream_write tr bs num ctx buf len =
     (let ctx0 = ctx\<lparr> bytecount := bytecount ctx + of_nat len \<rparr>; n = bs - num
      in if num \<noteq> 0 \<and> len < n then do {
           b \<leftarrow> memcpy (hbuf ctx0) num buf len;
           Some (ctx0\<lparr> hbuf := b \<rparr>)
         }
         else do {
           (ctx1, buf1, len1) \<leftarrow>
             (if num \<noteq> 0 then do {
                b \<leftarrow> memcpy (hbuf ctx0) num buf n;
                c \<leftarrow> tr (ctx0\<lparr> hbuf := b \<rparr>) b;
                Some (c, drop n buf, len - n)
              } else Some (ctx0, buf, len));
           (ctx2, buf2, len2) \<leftarrow> hash_blocks tr bs ctx1 buf1 len1;
           b \<leftarrow> memcpy (hbuf ctx2) 0 buf2 len2;
           Some (ctx2\<lparr> hbuf := b \<rparr>)
         })"

text \<open>
  The interface between the streaming code and a transform: the transform compresses one
  block into the state and touches nothing else.
\<close>

locale block_hash =
  fixes tr :: "HASH_CONTEXT \<Rightarrow> u8 list \<Rightarrow> HASH_CONTEXT option"
    and compress :: "u64 list \<Rightarrow> u8 list \<Rightarrow> u64 list"
    and bs :: nat
    and h0 :: "u64 list"
  assumes bs: "16 < bs" "bs \<le> MAX_BLOCKSIZE"
    and tr_compress: "length (hstate ctx) = 8 \<Longrightarrow> bs \<le> length data \<Longrightarrow>
      tr ctx data = Some (ctx\<lparr> hstate := compress (hstate ctx) (take bs data) \<rparr>)"
    and compress_length: "length st = 8 \<Longrightarrow> length (compress st blk) = 8"
    and h0_length: "length h0 = 8"
begin

lemma run_length [simp]: "length (run_blocks compress bs h0 msg) = 8"
  by (rule run_blocks_length) (simp_all add: compress_length h0_length)

text \<open>The three things a \<open>write\<close> does with the bytes it is given.\<close>

lemma write_short:
  assumes "pending compress bs h0 msg num ctx" and "num + len < bs" and "len \<le> n" "n \<le> length buf" "num + n \<le> bs"
  shows "\<exists>b. memcpy (hbuf ctx) num buf n = Some b \<and>
     pending compress bs h0 (msg @ take len buf) (num + len) (ctx\<lparr> hbuf := b \<rparr>)"
proof -
  obtain d r where d: "msg = d @ r" "bs dvd length d" "length r = num" "take num (hbuf ctx) = r"
    "hstate ctx = run_blocks compress bs h0 d" "length (hbuf ctx) = MAX_BLOCKSIZE"
    using assms(1) by (auto simp: pending_def)
  let ?b = "take num (hbuf ctx) @ take n buf @ drop (num + n) (hbuf ctx)"
  have "memcpy (hbuf ctx) num buf n = Some ?b"
    using assms bs d by (intro memcpy_Some) simp_all
  moreover have "pending compress bs h0 (msg @ take len buf) (num + len) (ctx\<lparr> hbuf := ?b \<rparr>)"
    unfolding pending_def using d assms bs
    by (intro conjI exI [of _ d] exI [of _ "r @ take len buf"]) (simp_all add: min_def)
  ultimately show ?thesis by blast
qed

lemma write_fill:
  assumes "pending compress bs h0 msg num ctx" and "n = bs - num" "n \<le> length buf"
  shows "\<exists>b ctx'. memcpy (hbuf ctx) num buf n = Some b \<and> tr (ctx\<lparr> hbuf := b \<rparr>) b = Some ctx' \<and>
     pending compress bs h0 (msg @ take n buf) 0 ctx' \<and> bytecount ctx' = bytecount ctx"
proof -
  obtain d r where d: "msg = d @ r" "bs dvd length d" "length r = num" "take num (hbuf ctx) = r"
    "hstate ctx = run_blocks compress bs h0 d" "length (hbuf ctx) = MAX_BLOCKSIZE" "num \<le> bs"
    using assms(1) by (auto simp: pending_def)
  let ?b = "take num (hbuf ctx) @ take n buf @ drop (num + n) (hbuf ctx)"
  let ?c = "ctx\<lparr> hbuf := ?b, hstate := compress (hstate ctx) (take bs ?b) \<rparr>"
  have m: "memcpy (hbuf ctx) num buf n = Some ?b" using assms bs d by (intro memcpy_Some) simp_all
  have tb: "take bs ?b = r @ take n buf" using d assms bs by simp
  have lb: "length ?b = MAX_BLOCKSIZE" using d assms bs by simp
  have t: "tr (ctx\<lparr> hbuf := ?b \<rparr>) ?b = Some ?c" using bs lb by (subst tr_compress) (simp_all add: d(5))
  have lr: "length (r @ take n buf) = bs" using d assms by simp
  have "run_blocks compress bs h0 (d @ r @ take n buf) = compress (hstate ctx) (r @ take n buf)"
    using run_blocks_append [OF d(2), of compress h0] run_blocks_one [OF _ lr, of compress] bs d(5) by simp
  moreover have "bs dvd length (d @ r @ take n buf)" using d(2) lr by (metis dvd_add dvd_refl length_append)
  ultimately have "pending compress bs h0 (msg @ take n buf) 0 ?c"
    unfolding pending_def using lb tb d(1) by (intro conjI exI [of _ "msg @ take n buf"] exI [of _ "[]"]) simp_all
  then show ?thesis using m t by (intro exI [of _ ?b] exI [of _ ?c]) simp
qed

lemma hash_blocks_run:
  "length (hstate ctx) = 8 \<Longrightarrow> len \<le> length buf \<Longrightarrow>
   hash_blocks tr bs ctx buf len =
     Some (ctx\<lparr> hstate := run_blocks compress bs (hstate ctx) (take len buf) \<rparr>, drop (len div bs * bs) buf, len mod bs)"
proof (induction len arbitrary: ctx buf rule: less_induct)
  case (less len)
  show ?case
  proof (cases "bs \<le> len")
    case False
    then show ?thesis by (simp add: hash_blocks.simps run_blocks_short)
  next
    case True
    let ?c = "ctx\<lparr> hstate := compress (hstate ctx) (take bs buf) \<rparr>"
    have t: "tr ctx buf = Some ?c" using less.prems True by (intro tr_compress) simp_all
    have IH: "hash_blocks tr bs ?c (drop bs buf) (len - bs) =
       Some (?c\<lparr> hstate := run_blocks compress bs (hstate ?c) (take (len - bs) (drop bs buf)) \<rparr>,
             drop ((len - bs) div bs * bs) (drop bs buf), (len - bs) mod bs)"
      using less.prems True bs by (intro less.IH) (simp_all add: compress_length)
    have "run_blocks compress bs (hstate ctx) (take len buf) =
        run_blocks compress bs (hstate ?c) (take (len - bs) (drop bs buf))"
      using True bs less.prems by (subst run_blocks.simps) (simp add: min_def drop_take)
    moreover have "(len - bs) div bs * bs + bs = len div bs * bs" "(len - bs) mod bs = len mod bs"
      using True bs by (simp_all add: le_div_geq le_mod_geq)
    ultimately show ?thesis using t IH True bs by (subst hash_blocks.simps) (simp add: add.commute)
  qed
qed

lemma write_rest:
  assumes "pending compress bs h0 msg 0 ctx" and "len \<le> length buf"
  shows "\<exists>c p l b. hash_blocks tr bs ctx buf len = Some (c, p, l) \<and> memcpy (hbuf c) 0 p l = Some b \<and>
     absorbed compress bs h0 (msg @ take len buf) (c\<lparr> hbuf := b \<rparr>) \<and> bytecount c = bytecount ctx"
proof -
  have p: "bs dvd length msg" "hstate ctx = run_blocks compress bs h0 msg" "length (hbuf ctx) = MAX_BLOCKSIZE"
    using assms(1) by (auto simp: pending_def)
  let ?c = "ctx\<lparr> hstate := run_blocks compress bs (hstate ctx) (take len buf) \<rparr>"
  let ?q = "len div bs * bs" and ?r = "len mod bs"
  define b where "b = take ?r (drop ?q buf) @ drop ?r (hbuf ctx)"
  have q: "?q + ?r = len" "?r < bs" using bs by simp_all
  then have lq: "?r \<le> length (drop ?q buf)" "?r \<le> MAX_BLOCKSIZE"
    unfolding length_drop using assms(2) bs by linarith+
  have "memcpy (hbuf ?c) 0 (drop ?q buf) ?r = Some b" using lq p(3) by (simp add: memcpy_Some b_def)
  moreover have "absorbed compress bs h0 (msg @ take len buf) (?c\<lparr> hbuf := b \<rparr>)"
  proof -
    obtain k where k: "length msg = bs * k" using p(1) by blast
    have l: "length (msg @ take len buf) = bs * k + len" using k assms(2) by simp
    have m: "(bs * k + len) mod bs = ?r" "(bs * k + len) div bs * bs = length msg + ?q"
      using bs k by (simp_all add: algebra_simps)
    have lb: "length b = MAX_BLOCKSIZE" using lq p(3) by (simp add: b_def)
    have "take ?r b = take ?r (drop ?q buf)" using lq by (simp add: b_def)
    also have "\<dots> = drop ?q (take len buf)" using q by (simp add: take_drop)
    finally show ?thesis unfolding absorbed_def l m
      using p lb by (simp add: run_blocks_append)
  qed
  moreover have "hash_blocks tr bs ctx buf len = Some (?c, drop ?q buf, ?r)"
    using hash_blocks_run [OF _ assms(2)] p(2) by simp
  ultimately show ?thesis by (intro exI [of _ ?c] exI [of _ "drop ?q buf"] exI [of _ ?r] exI [of _ b]) simp
qed

text \<open>The padding.\<close>

lemma pending_push:
  assumes "pending compress bs h0 msg pos ctx" and "pos < bs"
  shows "aset (hbuf ctx) pos x = Some ((hbuf ctx)[pos := x])"
    and "pending compress bs h0 (msg @ [x]) (Suc pos) (ctx\<lparr> hbuf := (hbuf ctx)[pos := x] \<rparr>)"
proof -
  obtain d r where d: "msg = d @ r" "bs dvd length d" "length r = pos" "take pos (hbuf ctx) = r"
    "hstate ctx = run_blocks compress bs h0 d" "length (hbuf ctx) = MAX_BLOCKSIZE"
    using assms(1) by (auto simp: pending_def)
  have lt: "pos < length (hbuf ctx)" using d assms bs by simp
  then show "aset (hbuf ctx) pos x = Some ((hbuf ctx)[pos := x])" by (rule aset_Some)
  show "pending compress bs h0 (msg @ [x]) (Suc pos) (ctx\<lparr> hbuf := (hbuf ctx)[pos := x] \<rparr>)"
    unfolding pending_def using d assms lt
    by (intro conjI exI [of _ d] exI [of _ "r @ [x]"]) (simp_all add: take_Suc_conv_app_nth)
qed

lemma pending_flush:
  assumes "pending compress bs h0 msg bs ctx"
  shows "\<exists>ctx'. tr ctx (hbuf ctx) = Some ctx' \<and> pending compress bs h0 msg 0 ctx' \<and> hbuf ctx' = hbuf ctx"
proof -
  obtain d r where d: "msg = d @ r" "bs dvd length d" "length r = bs" "take bs (hbuf ctx) = r"
    "hstate ctx = run_blocks compress bs h0 d" "length (hbuf ctx) = MAX_BLOCKSIZE"
    using assms(1) by (auto simp: pending_def)
  let ?c = "ctx\<lparr> hstate := compress (hstate ctx) r \<rparr>"
  have "tr ctx (hbuf ctx) = Some ?c" using tr_compress [of ctx "hbuf ctx"] d bs by simp
  moreover have "run_blocks compress bs h0 msg = hstate ?c"
    using d bs by (simp add: run_blocks_append run_blocks_one)
  then have "pending compress bs h0 msg 0 ?c" unfolding pending_def
    using d by (intro conjI exI [of _ msg] exI [of _ "[]"]) simp_all
  ultimately show ?thesis by (intro exI [of _ ?c]) simp
qed

lemma pad_loop_run:
  assumes "0 < stop" and "stop < bs"
  shows "pending compress bs h0 msg pos ctx \<Longrightarrow> 0 < pos \<Longrightarrow>
    z = (if pos \<le> stop then stop - pos else bs - pos + stop) \<Longrightarrow>
    \<exists>ctx'. pad_loop tr bs stop ctx pos = Some ctx' \<and> pending compress bs h0 (msg @ replicate z 0) stop ctx'"
proof (induction z arbitrary: msg pos ctx)
  case 0
  then have "pos = stop" using assms by (auto split: if_splits)
  then show ?case using "0.prems" by (subst pad_loop.simps) simp
next
  case (Suc z)
  have le: "pos \<le> bs" using Suc.prems(1) by (simp add: pending_def)
  have ne: "pos \<noteq> stop" using Suc.prems(3) by auto
  obtain c1 where c1: "(if pos mod bs = 0 then tr ctx (hbuf ctx) else Some ctx) = Some c1"
    "pending compress bs h0 msg (pos mod bs) c1"
  proof (cases "pos = bs")
    case True
    then show thesis using pending_flush [of msg ctx] Suc.prems(1) that by auto
  next
    case False
    then have "pos mod bs = pos" using le by simp
    then show thesis using that [of ctx] Suc.prems(1,2) by simp
  qed
  have lt: "pos mod bs < bs" using bs by simp
  let ?c = "c1\<lparr> hbuf := (hbuf c1)[pos mod bs := 0] \<rparr>"
  have p: "pending compress bs h0 (msg @ [0]) (Suc (pos mod bs)) ?c" by (rule pending_push(2) [OF c1(2) lt])
  have z: "z = (if Suc (pos mod bs) \<le> stop then stop - Suc (pos mod bs) else bs - Suc (pos mod bs) + stop)"
    using Suc.prems(2,3) le ne assms by (cases "pos = bs") (auto split: if_splits)
  obtain c' where "pad_loop tr bs stop ?c (Suc (pos mod bs)) = Some c'"
    "pending compress bs h0 ((msg @ [0]) @ replicate z 0) stop c'"
    using Suc.IH [OF p _ z] by auto
  then show ?case using c1(1) ne pending_push(1) [OF c1(2) lt]
    by (subst pad_loop.simps) simp
qed

lemma sha_final_state:
  assumes abs: "absorbed compress bs h0 msg ctx" and cnt: "length cnt \<le> 16" "0 < length cnt"
    and stop: "stop = bs - length cnt"
  obtains c1 b2 c2 where
    "aset (hbuf ctx) (length msg mod bs) 0x80 = Some ((hbuf ctx)[length msg mod bs := 0x80])"
    "pad_loop tr bs stop (ctx\<lparr> hbuf := (hbuf ctx)[length msg mod bs := 0x80] \<rparr>) (Suc (length msg mod bs)) = Some c1"
    "memcpy (hbuf c1) stop cnt (length cnt) = Some b2" "tr (c1\<lparr> hbuf := b2 \<rparr>) b2 = Some c2"
    "hstate c2 = run_blocks compress bs h0 (sha_pad bs cnt msg)" "length (hbuf c2) = MAX_BLOCKSIZE"
    "length (hbuf c1) = MAX_BLOCKSIZE"
proof -
  let ?pos = "length msg mod bs"
  have lt: "?pos < bs" and st: "0 < stop" "stop < bs" using bs cnt stop by simp_all
  note p0 = absorbed_pending [OF abs, OF less_trans [OF _ bs(1)], simplified]
  note push = pending_push [OF p0 lt, of "0x80"]
  let ?z = "if Suc ?pos \<le> stop then stop - Suc ?pos else bs - Suc ?pos + stop"
  obtain c1 where c1: "pad_loop tr bs stop (ctx\<lparr> hbuf := (hbuf ctx)[?pos := 0x80] \<rparr>) (Suc ?pos) = Some c1"
    "pending compress bs h0 ((msg @ [0x80]) @ replicate ?z 0) stop c1"
    using pad_loop_run [OF st push(2) _ refl] by auto
  obtain b2 c2 where c2: "memcpy (hbuf c1) stop cnt (length cnt) = Some b2" "tr (c1\<lparr> hbuf := b2 \<rparr>) b2 = Some c2"
    "pending compress bs h0 (((msg @ [0x80]) @ replicate ?z 0) @ take (length cnt) cnt) 0 c2"
    using write_fill [OF c1(2), of "length cnt" cnt] stop cnt bs by auto
  have "?z = (bs - (?pos + 1 + length cnt) mod bs) mod bs"
    using pad_zeros [OF lt cnt(2) _ stop] cnt(1) bs(1) by simp
  also have "(?pos + 1 + length cnt) mod bs = (length msg + 1 + length cnt) mod bs"
    by (metis mod_add_left_eq)
  finally have "((msg @ [0x80]) @ replicate ?z 0) @ take (length cnt) cnt = sha_pad bs cnt msg"
    by (simp add: sha_pad_def)
  then have "hstate c2 = run_blocks compress bs h0 (sha_pad bs cnt msg)" "length (hbuf c2) = MAX_BLOCKSIZE"
    using c2(3) by (auto simp: pending_def)
  moreover have "length (hbuf c1) = MAX_BLOCKSIZE" using c1(2) by (simp add: pending_def)
  ultimately show thesis using that push(1) c1(1) c2(1,2) by blast
qed

text \<open>A whole \<open>write\<close>.\<close>

lemma stream_write_absorbs:
  assumes abs: "absorbed compress bs h0 msg ctx" and len: "len \<le> length buf" and num: "num = length msg mod bs"
  shows "\<exists>ctx'. stream_write tr bs num ctx buf len = Some ctx' \<and>
     absorbed compress bs h0 (msg @ take len buf) ctx' \<and> bytecount ctx' = bytecount ctx + of_nat len"
proof -
  let ?c0 = "ctx\<lparr> bytecount := bytecount ctx + of_nat len \<rparr>" and ?n = "bs - num"
  have lt: "num < bs" using num bs by simp
  have p0: "pending compress bs h0 msg num ?c0"
    using absorbed_pending [OF abs, OF less_trans [OF _ bs(1)]] num by simp
  show ?thesis
  proof (cases "num \<noteq> 0 \<and> len < ?n")
    case True
    then have fits: "num + len < bs" by linarith
    obtain b where b: "memcpy (hbuf ?c0) num buf len = Some b"
      "pending compress bs h0 (msg @ take len buf) (num + len) (?c0\<lparr> hbuf := b \<rparr>)"
      using write_short [OF p0 fits _ len] fits by auto
    from pending_absorbed(1) [OF b(2) fits] show ?thesis using b(1) True by (simp add: stream_write_def Let_def)
  next
    case False
    obtain c1 buf1 len1 where c1: "(if num \<noteq> 0 then do {
           b \<leftarrow> memcpy (hbuf ?c0) num buf ?n;
           c \<leftarrow> tr (?c0\<lparr> hbuf := b \<rparr>) b;
           Some (c, drop ?n buf, len - ?n)
         } else Some (?c0, buf, len)) = Some (c1, buf1, len1)"
      "pending compress bs h0 (msg @ take (len - len1) buf) 0 c1" "buf1 = drop (len - len1) buf" "len1 \<le> len"
      "bytecount c1 = bytecount ctx + of_nat len"
    proof (cases "num = 0")
      case True
      then show thesis using that [of ?c0 buf len] p0 by simp
    next
      case num0: False
      then have nl: "?n \<le> len" using False by simp
      then have nb: "?n \<le> length buf" using len by (rule le_trans)
      obtain b c where b: "memcpy (hbuf ?c0) num buf ?n = Some b" "tr (?c0\<lparr> hbuf := b \<rparr>) b = Some c"
        "pending compress bs h0 (msg @ take ?n buf) 0 c" "bytecount c = bytecount ?c0"
        using write_fill [OF p0 refl nb] by blast
      have e: "len - (len - ?n) = ?n" using nl by simp
      show thesis
      proof (rule that [of c "drop ?n buf" "len - ?n"], unfold e)
        show "(if num \<noteq> 0 then do {
           b \<leftarrow> memcpy (hbuf ?c0) num buf ?n;
           c \<leftarrow> tr (?c0\<lparr> hbuf := b \<rparr>) b;
           Some (c, drop ?n buf, len - ?n)
         } else Some (?c0, buf, len)) = Some (c, drop ?n buf, len - ?n)" using num0 b(1,2) by simp
      qed (use b in simp_all)
    qed
    have "len1 \<le> length buf1" using c1(3,4) len by simp
    from write_rest [OF c1(2) this] obtain c p l b where w: "hash_blocks tr bs c1 buf1 len1 = Some (c, p, l)"
      "memcpy (hbuf c) 0 p l = Some b"
      "absorbed compress bs h0 ((msg @ take (len - len1) buf) @ take len1 buf1) (c\<lparr> hbuf := b \<rparr>)"
      "bytecount c = bytecount c1"
      by blast
    have "take (len - len1) buf @ take len1 buf1 = take len buf"
      using c1(3,4) take_add [of "len - len1" len1 buf] by simp
    then show ?thesis using c1(5) w unfolding stream_write_def Let_def if_not_P [OF False] c1(1)
      by (intro exI [of _ "c\<lparr> hbuf := b \<rparr>"]) simp
  qed
qed

end

text \<open>
  A streaming hash: what clients rely on is that \<open>write\<close> absorbs the bytes it is given and
  that \<open>final\<close> leaves the digest of what was absorbed. \<open>readable msg buf len\<close> says that the
  bytes \<open>write\<close> reads of \<open>buf\<close> exist.
\<close>

fun write_all :: "(HASH_CONTEXT \<Rightarrow> u8 list \<Rightarrow> nat \<Rightarrow> HASH_CONTEXT option) \<Rightarrow> HASH_CONTEXT \<Rightarrow> u8 list list \<Rightarrow>
    HASH_CONTEXT option" where
  "write_all write ctx [] = Some ctx"
| "write_all write ctx (c # cs) = do {
     ctx' \<leftarrow> write ctx c (length c);
     write_all write ctx' cs
   }"

fun all_readable :: "(u8 list \<Rightarrow> u8 list \<Rightarrow> nat \<Rightarrow> bool) \<Rightarrow> u8 list \<Rightarrow> u8 list list \<Rightarrow> bool" where
  "all_readable readable msg [] \<longleftrightarrow> True"
| "all_readable readable msg (c # cs) \<longleftrightarrow> readable msg c (length c) \<and> all_readable readable (msg @ c) cs"

locale hash_stream = block_hash tr compress bs h0
  for tr compress bs h0 +
  fixes init :: HASH_CONTEXT
    and upd :: "HASH_CONTEXT \<Rightarrow> u8 list \<Rightarrow> nat \<Rightarrow> HASH_CONTEXT option"
    and final :: "HASH_CONTEXT \<Rightarrow> HASH_CONTEXT option"
    and readable :: "u8 list \<Rightarrow> u8 list \<Rightarrow> nat \<Rightarrow> bool"
    and digest :: "u8 list \<Rightarrow> u8 list"
  assumes init_state: "init = \<lparr> hbuf = replicate MAX_BLOCKSIZE 0, hstate = h0, bytecount = 0 \<rparr>"
    and write_absorbs: "absorbed compress bs h0 msg ctx \<Longrightarrow> bytecount ctx = of_nat (length msg) \<Longrightarrow>
      readable msg buf len \<Longrightarrow> \<exists>ctx'. upd ctx buf len = Some ctx' \<and>
        absorbed compress bs h0 (msg @ take len buf) ctx' \<and> bytecount ctx' = bytecount ctx + of_nat len"
    and readable_len: "readable msg buf len \<Longrightarrow> len \<le> length buf"
    and final_digest: "absorbed compress bs h0 msg ctx \<Longrightarrow> bytecount ctx = of_nat (length msg) \<Longrightarrow>
      length msg < 2 ^ 64 \<Longrightarrow>
      \<exists>ctx'. final ctx = Some ctx' \<and> take (length (digest msg)) (hbuf ctx') = digest msg \<and>
        length (hbuf ctx') = MAX_BLOCKSIZE"
begin

lemma init_absorbed: "absorbed compress bs h0 [] init" "bytecount init = of_nat (length [])"
  using bs by (simp_all add: init_state absorbed_def run_blocks_short)

lemma write_all_absorbs:
  "absorbed compress bs h0 msg ctx \<Longrightarrow> bytecount ctx = of_nat (length msg) \<Longrightarrow> all_readable readable msg cs \<Longrightarrow>
   \<exists>ctx'. write_all upd ctx cs = Some ctx' \<and> absorbed compress bs h0 (msg @ concat cs) ctx' \<and>
     bytecount ctx' = of_nat (length (msg @ concat cs))"
proof (induction cs arbitrary: msg ctx)
  case (Cons c cs)
  obtain ctx1 where c1: "upd ctx c (length c) = Some ctx1" "absorbed compress bs h0 (msg @ take (length c) c) ctx1"
    "bytecount ctx1 = bytecount ctx + of_nat (length c)"
    using write_absorbs [OF Cons.prems(1,2), of c "length c"] Cons.prems(3) by auto
  have "bytecount ctx1 = of_nat (length (msg @ c))" using c1(3) Cons.prems(2) by simp
  with Cons.IH [of "msg @ c" ctx1] c1 Cons.prems(3) show ?case by simp
qed simp

lemma stream_digest:
  assumes "all_readable readable [] cs" and "length (concat cs) < 2 ^ 64"
  shows "\<exists>ctx ctx'. write_all upd init cs = Some ctx \<and> final ctx = Some ctx' \<and>
     take (length (digest (concat cs))) (hbuf ctx') = digest (concat cs)"
proof -
  obtain ctx where "write_all upd init cs = Some ctx" "absorbed compress bs h0 ([] @ concat cs) ctx"
    "bytecount ctx = of_nat (length ([] @ concat cs))"
    using write_all_absorbs [OF init_absorbed assms(1)] by blast
  then show ?thesis using final_digest [of "concat cs" ctx] assms(2) by auto
qed

lemma buffer_digest:
  assumes "readable [] buf len" and "len < 2 ^ 64"
  shows "\<exists>ctx ctx'. upd init buf len = Some ctx \<and> final ctx = Some ctx' \<and>
     take (length (digest (take len buf))) (hbuf ctx') = digest (take len buf) \<and> length (hbuf ctx') = MAX_BLOCKSIZE"
proof -
  obtain ctx where c: "upd init buf len = Some ctx" "absorbed compress bs h0 ([] @ take len buf) ctx"
    "bytecount ctx = bytecount init + of_nat len"
    using write_absorbs [OF init_absorbed assms(1)] by blast
  have "bytecount ctx = of_nat (length (take len buf))"
    using c(3) readable_len [OF assms(1)] by (simp add: init_state min_def)
  with c final_digest [of "take len buf" ctx] assms(2) show ?thesis by simp
qed

end

end
