(* ===== verification/Hash_SHA1.thy ===== *)
theory Hash_SHA1
  imports Hash_Core
begin

text \<open>
  SHA-1 as in \<open>src/src/hash.c\<close> (\<open>sha1_init\<close>, \<open>sha1_transform_cc\<close>,
  \<open>sha1_transform\<close>, \<open>sha1_write\<close>, \<open>sha1_final\<close>), and its equality with the
  algorithm of FIPS 180-4.
\<close>

section \<open>The code\<close>

definition SHA1_BLOCKSIZE :: nat where
  "SHA1_BLOCKSIZE = 64"

definition SHA1_HASHSIZE :: nat where
  "SHA1_HASHSIZE = 20"

definition sha1_init :: HASH_CONTEXT where
  "sha1_init = init_context [0x67452301, 0xefcdab89, 0x98badcfe, 0x10325476, 0xc3d2e1f0]"

definition F1 :: "u32 \<Rightarrow> u32 \<Rightarrow> u32 \<Rightarrow> u32" where
  "F1 x y z = (z XOR (x AND (y XOR z)))"

definition F2 :: "u32 \<Rightarrow> u32 \<Rightarrow> u32 \<Rightarrow> u32" where
  "F2 x y z = (x XOR y XOR z)"

definition F3 :: "u32 \<Rightarrow> u32 \<Rightarrow> u32 \<Rightarrow> u32" where
  "F3 x y z = ((x AND y) OR (z AND (x OR y)))"

text \<open>The function and the constant of round \<open>i\<close>, as the 80 lines of the code have them.\<close>

definition sha1_f :: "nat \<Rightarrow> u32 \<Rightarrow> u32 \<Rightarrow> u32 \<Rightarrow> u32" where
  "sha1_f i = (if i < 20 then F1 else if i < 40 then F2 else if i < 60 then F3 else F2)"

definition sha1_k :: "nat \<Rightarrow> u32" where
  "sha1_k i = (if i < 20 then 0x5a827999 else if i < 40 then 0x6ed9eba1
               else if i < 60 then 0x8f1bbcdc else 0xca62c1d6)"

text \<open>The macro \<open>M(i)\<close>: the next word of the schedule, stored over the oldest one.\<close>

definition sha1_M :: "nat \<Rightarrow> u32 list \<Rightarrow> u32 list" where
  "sha1_M i x =
     (let tm = x ! (i mod 16) XOR x ! ((i - 14) mod 16) XOR x ! ((i - 8) mod 16) XOR x ! ((i - 3) mod 16)
      in x[i mod 16 := ROL32 tm 1])"

text \<open>The macro \<open>SHA1STEP\<close> on the variables \<open>v\<close> with the names of round \<open>i\<close>.\<close>

definition SHA1STEP :: "nat \<Rightarrow> (u32 \<Rightarrow> u32 \<Rightarrow> u32 \<Rightarrow> u32) \<Rightarrow> u32 \<Rightarrow> u32 \<Rightarrow> u32 list \<Rightarrow> u32 list" where
  "SHA1STEP i f k m v =
     (let a = reg 5 0 i; b = reg 5 1 i; c = reg 5 2 i; d = reg 5 3 i; e = reg 5 4 i;
          v1 = v[e := v ! e + (ROL32 (v ! a) 5 + f (v ! b) (v ! c) (v ! d) + k + m)]
      in v1[b := ROL32 (v1 ! b) 30])"

definition sha1_round :: "nat \<Rightarrow> u32 list \<times> u32 list \<Rightarrow> u32 list \<times> u32 list" where
  "sha1_round i vx =
     (case vx of (v, x) \<Rightarrow>
        let x' = (if i < 16 then x else sha1_M i x)
        in (SHA1STEP i (sha1_f i) (sha1_k i) (x' ! (i mod 16)) v, x'))"

definition sha1_transform_cc :: "HASH_CONTEXT \<Rightarrow> u8 list \<Rightarrow> HASH_CONTEXT option" where
  "sha1_transform_cc ctx data =
     (if length data < 64 \<or> length (hstate ctx) < 5 then None
      else
        let st = hstate ctx;
            v0 = map (\<lambda>k. ucast (st ! k)) [0..<5];
            x0 = map (\<lambda>k. read_swap32 data (4 * k)) [0..<16];
            v = fst (fold sha1_round [0..<80] (v0, x0))
        in Some (ctx\<lparr> hstate := map (\<lambda>k. st ! k + ucast (v ! k)) [0..<5] @ drop 5 st \<rparr>))"

text \<open>
  \<open>x86\<close> is the accelerated transform where \<open>cpu_has_sha1_accel\<close> is set, and
  \<^term>\<open>None\<close> where it is not.
\<close>

type_synonym x86_transform = "u64 list \<Rightarrow> u8 list \<Rightarrow> nat \<Rightarrow> u64 list option"

definition sha1_transform :: "x86_transform option \<Rightarrow> HASH_CONTEXT \<Rightarrow> u8 list \<Rightarrow> HASH_CONTEXT option" where
  "sha1_transform x86 ctx data =
     (case x86 of
        Some f \<Rightarrow> do {
          st \<leftarrow> f (hstate ctx) data SHA1_BLOCKSIZE;
          Some (ctx\<lparr> hstate := st \<rparr>)
        }
      | None \<Rightarrow> sha1_transform_cc ctx data)"

definition sha1_write ::
  "x86_transform option \<Rightarrow> HASH_CONTEXT \<Rightarrow> u8 list \<Rightarrow> nat \<Rightarrow> HASH_CONTEXT option" where
  "sha1_write x86 ctx buf len =
     (let num = unat (bytecount ctx AND 63);
          ctx0 = ctx\<lparr> bytecount := bytecount ctx + of_nat len \<rparr>;
          n = SHA1_BLOCKSIZE - num
      in if num \<noteq> 0 \<and> len < n then do {
           b \<leftarrow> memcpy (hbuf ctx0) num buf len;
           Some (ctx0\<lparr> hbuf := b \<rparr>)
         }
         else do {
           (ctx1, buf1, len1) \<leftarrow>
             (if num \<noteq> 0 then do {
                b \<leftarrow> memcpy (hbuf ctx0) num buf n;
                c \<leftarrow> sha1_transform x86 (ctx0\<lparr> hbuf := b \<rparr>) b;
                Some (c, drop n buf, len - n)
              } else Some (ctx0, buf, len));
           (ctx2, buf2, len2) \<leftarrow>
             (case x86 of
                Some f \<Rightarrow>
                  if len1 \<ge> SHA1_BLOCKSIZE then do {
                    let n1 = len1 div SHA1_BLOCKSIZE * SHA1_BLOCKSIZE;
                    st \<leftarrow> f (hstate ctx1) buf1 n1;
                    Some (ctx1\<lparr> hstate := st \<rparr>, drop n1 buf1, len1 - n1)
                  } else Some (ctx1, buf1, len1)
              | None \<Rightarrow> hash_blocks (sha1_transform x86) SHA1_BLOCKSIZE ctx1 buf1 len1);
           b \<leftarrow> memcpy (hbuf ctx2) 0 buf2 len2;
           Some (ctx2\<lparr> hbuf := b \<rparr>)
         })"

text \<open>The stores \<open>X(0)\<close>, \<open>X(1)\<close>, ... of \<open>n\<close> 32-bit words of the state.\<close>

fun put_state32 :: "HASH_CONTEXT \<Rightarrow> nat \<Rightarrow> u8 list option" where
  "put_state32 ctx 0 = Some (hbuf ctx)"
| "put_state32 ctx (Suc k) = do {
     b \<leftarrow> put_state32 ctx k;
     s \<leftarrow> aget (hstate ctx) k;
     write_swap32 b (4 * k) (ucast s)
   }"

definition sha1_final :: "x86_transform option \<Rightarrow> HASH_CONTEXT \<Rightarrow> HASH_CONTEXT option" where
  "sha1_final x86 ctx =
     (let pos = unat (bytecount ctx AND 63); bitcount = push_bit 3 (bytecount ctx)
      in do {
        b \<leftarrow> aset (hbuf ctx) pos 0x80;
        c1 \<leftarrow> pad_loop (sha1_transform x86) SHA1_BLOCKSIZE (SHA1_BLOCKSIZE - 8) (ctx\<lparr> hbuf := b \<rparr>) (Suc pos);
        b1 \<leftarrow> put_count (hbuf c1) (SHA1_BLOCKSIZE - 1) bitcount 8;
        c2 \<leftarrow> sha1_transform x86 (c1\<lparr> hbuf := b1 \<rparr>) b1;
        b2 \<leftarrow> put_state32 c2 5;
        Some (c2\<lparr> hbuf := b2 \<rparr>)
      })"

section \<open>FIPS 180-4\<close>

definition fips_Ch :: "'a::len word \<Rightarrow> 'a word \<Rightarrow> 'a word \<Rightarrow> 'a word" where
  "fips_Ch x y z = ((x AND y) XOR (NOT x AND z))"

definition fips_Maj :: "'a::len word \<Rightarrow> 'a word \<Rightarrow> 'a word \<Rightarrow> 'a word" where
  "fips_Maj x y z = ((x AND y) XOR (x AND z) XOR (y AND z))"

definition fips_Parity :: "'a::len word \<Rightarrow> 'a word \<Rightarrow> 'a word \<Rightarrow> 'a word" where
  "fips_Parity x y z = (x XOR y XOR z)"

definition fips_sha1_f :: "nat \<Rightarrow> u32 \<Rightarrow> u32 \<Rightarrow> u32 \<Rightarrow> u32" where
  "fips_sha1_f t = (if t < 20 then fips_Ch else if t < 40 then fips_Parity
                    else if t < 60 then fips_Maj else fips_Parity)"

fun fips_sha1_W :: "u32 list \<Rightarrow> nat \<Rightarrow> u32" where
  "fips_sha1_W M t =
     (if t < 16 then M ! t
      else word_rotl 1 (fips_sha1_W M (t - 3) XOR fips_sha1_W M (t - 8) XOR fips_sha1_W M (t - 14) XOR
                        fips_sha1_W M (t - 16)))"

declare fips_sha1_W.simps [simp del]

definition fips_sha1_step :: "u32 list \<Rightarrow> nat \<Rightarrow> u32 list \<Rightarrow> u32 list" where
  "fips_sha1_step M t v =
     (case v of [a, b, c, d, e] \<Rightarrow>
        let T = word_rotl 5 a + fips_sha1_f t b c d + e + sha1_k t + fips_sha1_W M t
        in [T, a, word_rotl 30 b, c, d]
      | _ \<Rightarrow> v)"

definition fips_words32 :: "u8 list \<Rightarrow> u32 list" where
  "fips_words32 blk = map (\<lambda>k. be_word (slice (4 * k) 4 blk)) [0..<16]"

definition fips_sha1_block :: "u32 list \<Rightarrow> u8 list \<Rightarrow> u32 list" where
  "fips_sha1_block H blk = map2 (+) H (fold (fips_sha1_step (fips_words32 blk)) [0..<80] H)"

text \<open>The digest of a message of less than \<open>2 ^ 61\<close> bytes.\<close>

definition fips_sha1 :: "u8 list \<Rightarrow> u8 list" where
  "fips_sha1 msg = concat (map (be_bytes 4)
     (run_blocks fips_sha1_block 64 [0x67452301, 0xefcdab89, 0x98badcfe, 0x10325476, 0xc3d2e1f0]
        (sha_pad 64 (be_bytes 8 (of_nat (8 * length msg) :: u64)) msg)))"

section \<open>The transform is the compression function of the standard\<close>

lemma Ch_fips: "z XOR (x AND (y XOR z)) = fips_Ch x y z"
  unfolding fips_Ch_def by (rule bit_word_eqI) (auto simp: bit_simps)

lemma Ma_fips: "(x AND y) OR (z AND (x OR y)) = fips_Maj x y z"
  unfolding fips_Maj_def by (rule bit_word_eqI) (auto simp: bit_simps)

lemma sha1_f_fips: "sha1_f = fips_sha1_f"
  by (intro ext) (simp add: sha1_f_def fips_sha1_f_def F1_def F2_def F3_def Ch_fips Ma_fips fips_Parity_def)

lemma list5: "length v = 5 \<Longrightarrow> \<exists>a b c d e. v = [a, b, c, d, e]"
  by (auto simp: length_Suc_conv numeral_eq_Suc)

text \<open>One step, seen through the rotating names, is one step of the standard.\<close>

lemma SHA1STEP_view:
  assumes "length v = 5"
  shows "view 5 (Suc i) (SHA1STEP i (sha1_f i) (sha1_k i) (fips_sha1_W M i) v) = fips_sha1_step M i (view 5 i v)"
proof -
  obtain a b c d e where v: "view 5 i v = [a, b, c, d, e]" using list5 [of "view 5 i v"] by auto
  have n: "v ! reg 5 0 i = a" "v ! reg 5 1 i = b" "v ! reg 5 2 i = c" "v ! reg 5 3 i = d" "v ! reg 5 4 i = e"
    using v nth_view [of 0 5 i v] nth_view [of 1 5 i v] nth_view [of 2 5 i v] nth_view [of 3 5 i v]
      nth_view [of 4 5 i v] by simp_all
  let ?T = "e + (word_rotl 5 a + fips_sha1_f i b c d + sha1_k i + fips_sha1_W M i)"
  have "SHA1STEP i (sha1_f i) (sha1_k i) (fips_sha1_W M i) v = v[reg 5 4 i := ?T, reg 5 1 i := word_rotl 30 b]"
    using n reg_inj [of 4 5 1 i] by (simp add: SHA1STEP_def Let_def ROL32_rot sha1_f_fips)
  then have "view 5 i (SHA1STEP i (sha1_f i) (sha1_k i) (fips_sha1_W M i) v) = [a, word_rotl 30 b, c, d, ?T]"
    using assms v by (simp add: view_update)
  then show ?thesis using v by (simp add: view_Suc fips_sha1_step_def Let_def ac_simps)
qed

lemma length_SHA1STEP [simp]: "length (SHA1STEP i f k m v) = length v"
  by (simp add: SHA1STEP_def Let_def)

lemma sha1_M_sched:
  assumes "rolling (fips_sha1_W M) i x" and "16 \<le> i"
  shows "sha1_M i x = x[i mod 16 := fips_sha1_W M i]"
proof -
  note x = rolling_get [OF assms]
  have "x ! (i mod 16) = fips_sha1_W M (i - 16)"
    using x [of 16] assms(2) by (simp add: le_mod_geq)
  then have "ROL32 (x ! (i mod 16) XOR x ! ((i - 14) mod 16) XOR x ! ((i - 8) mod 16) XOR x ! ((i - 3) mod 16)) 1
      = fips_sha1_W M i"
    using x [of 14] x [of 8] x [of 3] assms(2)
    by (subst fips_sha1_W.simps) (simp add: ROL32_rot xor.commute xor.left_commute)
  then show ?thesis by (simp add: sha1_M_def Let_def)
qed

lemma sha1_rounds:
  assumes "length v0 = 5" and "length M = 16"
  shows "fst (fold sha1_round [0..<80] (v0, M)) = fold (fips_sha1_step M) [0..<80] v0"
proof -
  define I where "I i vx \<longleftrightarrow> length (fst vx) = 5 \<and> rolling (fips_sha1_W M) i (snd vx) \<and>
    view 5 i (fst vx) = fold (fips_sha1_step M) [0..<i] v0" for i and vx :: "u32 list \<times> u32 list"
  have "I 80 (fold sha1_round [0..<80] (v0, M))"
  proof (rule fold_rounds)
    show "I 0 (v0, M)" using assms rolling_start [of M "fips_sha1_W M"]
      by (simp add: I_def view_multiple fips_sha1_W.simps)
    fix i vx assume I: "I i vx" and "i < 80"
    obtain v x where vx: "vx = (v, x)" by (cases vx)
    define x' where "x' = (if i < 16 then x else sha1_M i x)"
    have ro: "rolling (fips_sha1_W M) i x" using I by (simp add: I_def vx)
    have s: "rolling (fips_sha1_W M) (Suc i) x' \<and> x' ! (i mod 16) = fips_sha1_W M i"
    proof (cases "i < 16")
      case True
      then show ?thesis using rolling_first [OF ro] by (simp add: x'_def)
    next
      case False
      then have "x' = x[i mod 16 := fips_sha1_W M i]" using sha1_M_sched [OF ro] by (simp add: x'_def)
      then show ?thesis using False rolling_step [OF ro] ro by (simp add: rolling_def)
    qed
    have "sha1_round i vx = (SHA1STEP i (sha1_f i) (sha1_k i) (fips_sha1_W M i) v, x')"
      using s by (simp add: sha1_round_def vx Let_def x'_def)
    then show "I (Suc i) (sha1_round i vx)" using I s SHA1STEP_view [of v i M] by (simp add: I_def vx)
  qed
  moreover have "view 5 80 v = v" if "length v = 5" for v :: "u32 list"
    using that by (intro view_multiple) simp_all
  ultimately show ?thesis unfolding I_def by metis
qed

text \<open>The chaining variables as the code reads them.\<close>

definition low32 :: "nat \<Rightarrow> u64 list \<Rightarrow> u32 list" where
  "low32 n st = map (\<lambda>k. ucast (st ! k)) [0..<n]"

lemma length_low32 [simp]: "length (low32 n st) = n"
  by (simp add: low32_def)

lemma nth_low32: "k < n \<Longrightarrow> low32 n st ! k = ucast (st ! k)"
  by (simp add: low32_def)

definition sha1_compress :: "u64 list \<Rightarrow> u8 list \<Rightarrow> u64 list" where
  "sha1_compress st blk =
     (let v = fold (fips_sha1_step (fips_words32 blk)) [0..<80] (low32 5 st)
      in map (\<lambda>k. st ! k + ucast (v ! k)) [0..<5] @ drop 5 st)"

lemma words_read: "64 \<le> length data \<Longrightarrow> map (\<lambda>k. read_swap32 data (4 * k)) [0..<16] = fips_words32 (take 64 data)"
  by (auto simp: fips_words32_def read_swap32_be slice_def drop_take min_def)

lemma sha1_transform_compress:
  assumes "length (hstate ctx) = 8" and "SHA1_BLOCKSIZE \<le> length data"
  shows "sha1_transform None ctx data =
    Some (ctx\<lparr> hstate := sha1_compress (hstate ctx) (take SHA1_BLOCKSIZE data) \<rparr>)"
proof -
  have "length (fips_words32 (take 64 data)) = 16" by (simp add: fips_words32_def)
  from sha1_rounds [OF _ this, of "low32 5 (hstate ctx)"] words_read [of data] assms show ?thesis
    by (simp add: sha1_transform_def sha1_transform_cc_def sha1_compress_def Let_def SHA1_BLOCKSIZE_def low32_def)
qed

lemma fips_sha1_step_length: "length v = 5 \<Longrightarrow> length (fips_sha1_step M t v) = 5"
  by (auto simp: fips_sha1_step_def Let_def dest!: list5)

lemma sha1_compress_length: "length st = 8 \<Longrightarrow> length (sha1_compress st blk) = 8"
  by (simp add: sha1_compress_def Let_def)

lemma fold_step_length:
  assumes "\<And>i v. length v = n \<Longrightarrow> length (f i v) = n"
  shows "length v = n \<Longrightarrow> length (fold f is v) = n"
  using assms by (induction "is" arbitrary: v) simp_all

lemma sha1_compress_fips:
  assumes "length st = 8"
  shows "low32 5 (sha1_compress st blk) = fips_sha1_block (low32 5 st) blk"
proof (rule nth_equalityI)
  define v where "v = fold (fips_sha1_step (fips_words32 blk)) [0..<80] (low32 5 st)"
  have lv: "length v = 5" unfolding v_def by (rule fold_step_length) (simp_all add: fips_sha1_step_length)
  then show "length (low32 5 (sha1_compress st blk)) = length (fips_sha1_block (low32 5 st) blk)"
    by (simp add: fips_sha1_block_def v_def)
  fix k assume "k < length (low32 5 (sha1_compress st blk))"
  then have k: "k < 5" by simp
  have "sha1_compress st blk ! k = st ! k + ucast (v ! k)"
    using k by (simp add: sha1_compress_def v_def [symmetric] nth_append)
  then show "low32 5 (sha1_compress st blk) ! k = fips_sha1_block (low32 5 st) blk ! k"
    using k lv by (simp add: nth_low32 fips_sha1_block_def v_def [symmetric] ucast_add_low)
qed

section \<open>Streaming\<close>

definition sha1_h0 :: "u64 list" where
  "sha1_h0 = hstate sha1_init"

lemma sha1_block_hash: "block_hash (sha1_transform None) sha1_compress SHA1_BLOCKSIZE sha1_h0"
  by unfold_locales
    (simp_all add: sha1_transform_compress sha1_compress_length sha1_h0_def sha1_init_def init_context_def
      zero_context_def SHA1_BLOCKSIZE_def MAX_BLOCKSIZE_def)

interpretation sha1: block_hash "sha1_transform None" sha1_compress SHA1_BLOCKSIZE sha1_h0
  by (rule sha1_block_hash)

lemma sha1_write_stream:
  "sha1_write None ctx buf len = stream_write (sha1_transform None) SHA1_BLOCKSIZE (unat (bytecount ctx AND 63)) ctx buf len"
  by (simp add: sha1_write_def stream_write_def Let_def)

lemma sha1_write_absorbs:
  assumes "absorbed sha1_compress SHA1_BLOCKSIZE sha1_h0 msg ctx" and "bytecount ctx = of_nat (length msg)"
    and "len \<le> length buf"
  shows "\<exists>ctx'. sha1_write None ctx buf len = Some ctx' \<and>
     absorbed sha1_compress SHA1_BLOCKSIZE sha1_h0 (msg @ take len buf) ctx' \<and>
     bytecount ctx' = bytecount ctx + of_nat len"
  unfolding sha1_write_stream
  by (rule sha1.stream_write_absorbs [OF assms(1,3)]) (simp add: assms(2) count_mod_64 SHA1_BLOCKSIZE_def)

lemma put_state32_bytes:
  "length (hbuf ctx) = MAX_BLOCKSIZE \<Longrightarrow> n \<le> length (hstate ctx) \<Longrightarrow> n \<le> 8 \<Longrightarrow>
   put_state32 ctx n = Some (concat (map (be_bytes 4) (low32 n (hstate ctx))) @ drop (4 * n) (hbuf ctx))"
proof (induction n)
  case (Suc n)
  have l: "length (concat (map (be_bytes 4) (low32 n (hstate ctx)))) = 4 * n"
    by (simp add: length_concat o_def sum_list_triv)
  have "low32 (Suc n) (hstate ctx) = low32 n (hstate ctx) @ [ucast (hstate ctx ! n)]" by (simp add: low32_def)
  then show ?case using Suc l
    by (simp add: array_simps write_swap32_def bswap_bytes MAX_BLOCKSIZE_def)
qed (simp add: low32_def)

lemma fips_sha1_block_length: "length H = 5 \<Longrightarrow> length (fips_sha1_block H blk) = 5"
  using fold_step_length [of 5 "fips_sha1_step (fips_words32 blk)" H "[0..<80]"]
  by (simp add: fips_sha1_block_def fips_sha1_step_length)

lemma length_be4: "length (concat (map (be_bytes 4) ws)) = 4 * length ws"
  by (simp add: length_concat o_def sum_list_triv)

lemma sha1_run_fips:
  "low32 5 (run_blocks sha1_compress 64 sha1_h0 msg) = run_blocks fips_sha1_block 64 (low32 5 sha1_h0) msg"
  using run_blocks_sim [where P = "\<lambda>st. length st = 8" and c = sha1_compress and ab = "low32 5"
      and c' = fips_sha1_block, of 64 sha1_h0 msg]
  by (simp add: sha1_compress_length sha1_compress_fips sha1.h0_length)

lemma sha1_h0_low: "low32 5 sha1_h0 = [0x67452301, 0xefcdab89, 0x98badcfe, 0x10325476, 0xc3d2e1f0]"
  by (simp add: sha1_h0_def sha1_init_def init_context_def low32_def upt_rec nth_Cons')

lemma length_fips_sha1 [simp]: "length (fips_sha1 msg) = SHA1_HASHSIZE"
  unfolding fips_sha1_def length_be4
  by (subst run_blocks_length [where n = 5]) (simp_all add: fips_sha1_block_length SHA1_HASHSIZE_def)

lemma sha1_final_any:
  assumes h: "block_hash (sha1_transform x86) c SHA1_BLOCKSIZE sha1_h0"
    and run: "\<And>m. low32 5 (run_blocks c 64 sha1_h0 m) = run_blocks fips_sha1_block 64 (low32 5 sha1_h0) m"
    and abs: "absorbed c SHA1_BLOCKSIZE sha1_h0 msg ctx"
    and n: "bytecount ctx = of_nat (length msg)"
  shows "\<exists>ctx'. sha1_final x86 ctx = Some ctx' \<and>
     take (length (fips_sha1 msg)) (hbuf ctx') = fips_sha1 msg \<and> length (hbuf ctx') = MAX_BLOCKSIZE"
proof -
  define cnt where "cnt = be_bytes 8 (push_bit 3 (bytecount ctx))"
  have cnt: "length cnt = 8" by (simp add: cnt_def)
  obtain c1 b2 c2 where f:
    "aset (hbuf ctx) (length msg mod SHA1_BLOCKSIZE) 0x80 = Some ((hbuf ctx)[length msg mod SHA1_BLOCKSIZE := 0x80])"
    "pad_loop (sha1_transform x86) SHA1_BLOCKSIZE (SHA1_BLOCKSIZE - 8)
       (ctx\<lparr> hbuf := (hbuf ctx)[length msg mod SHA1_BLOCKSIZE := 0x80] \<rparr>) (Suc (length msg mod SHA1_BLOCKSIZE)) = Some c1"
    "memcpy (hbuf c1) (SHA1_BLOCKSIZE - 8) cnt (length cnt) = Some b2" "sha1_transform x86 (c1\<lparr> hbuf := b2 \<rparr>) b2 = Some c2"
    "hstate c2 = run_blocks c SHA1_BLOCKSIZE sha1_h0 (sha_pad SHA1_BLOCKSIZE cnt msg)"
    "length (hbuf c2) = MAX_BLOCKSIZE" "length (hbuf c1) = MAX_BLOCKSIZE"
    by (rule block_hash.sha_final_state [OF h abs, of cnt "SHA1_BLOCKSIZE - 8"]) (simp_all add: cnt)
  have pc: "put_count (hbuf c1) (SHA1_BLOCKSIZE - 1) (push_bit 3 (bytecount ctx)) 8 = Some b2"
    using f(3,7) by (simp add: put_count_bytes SHA1_BLOCKSIZE_def MAX_BLOCKSIZE_def cnt_def)
  have "push_bit 3 (bytecount ctx) = of_nat (8 * length msg)" by (simp add: n push_bit_eq_mult mult.commute)
  then have "concat (map (be_bytes 4) (low32 5 (hstate c2))) = fips_sha1 msg"
    using f(5) by (simp add: fips_sha1_def run SHA1_BLOCKSIZE_def cnt_def sha1_h0_low [symmetric] del: of_nat_mult)
  moreover have "put_state32 c2 5 = Some (concat (map (be_bytes 4) (low32 5 (hstate c2))) @ drop (4 * 5) (hbuf c2))"
    using f(5,6) block_hash.run_length [OF h] by (intro put_state32_bytes) simp_all
  ultimately show ?thesis
    using f pc unfolding sha1_final_def n count_mod_64 
    by (simp add: Let_def SHA1_BLOCKSIZE_def SHA1_HASHSIZE_def MAX_BLOCKSIZE_def)
qed

lemma sha1_final_digest:
  assumes "absorbed sha1_compress SHA1_BLOCKSIZE sha1_h0 msg ctx" and "bytecount ctx = of_nat (length msg)"
  shows "\<exists>ctx'. sha1_final None ctx = Some ctx' \<and>
     take (length (fips_sha1 msg)) (hbuf ctx') = fips_sha1 msg \<and> length (hbuf ctx') = MAX_BLOCKSIZE"
  by (rule sha1_final_any [OF sha1.block_hash_axioms sha1_run_fips assms])

text \<open>The portable SHA-1 code is a streaming hash whose digest is the one of the standard.\<close>

interpretation sha1_stream: hash_stream "sha1_transform None" sha1_compress SHA1_BLOCKSIZE sha1_h0 sha1_init
    "sha1_write None" "sha1_final None" "\<lambda>msg buf len. len \<le> length buf" fips_sha1
proof unfold_locales
  show "sha1_init = \<lparr> hbuf = replicate MAX_BLOCKSIZE 0, hstate = sha1_h0, bytecount = 0 \<rparr>"
    by (simp add: sha1_h0_def sha1_init_def init_context_def zero_context_def)
qed (assumption | rule sha1_write_absorbs sha1_final_digest)+

end
