(* ===== verification/Hash_SHA2.thy ===== *)
theory Hash_SHA2
  imports Hash_SHA1
begin

text \<open>
  SHA-256 and SHA-512 as in \<open>src/src/hash.c\<close>, and their equality with FIPS 180-4. The code
  nests the rotations of the sigma functions and, for SHA-256, keeps the message schedule in 16
  words; the standard does neither.
\<close>

section \<open>SHA-256: the code\<close>

definition SHA256_BLOCKSIZE :: nat where
  "SHA256_BLOCKSIZE = 64"

definition SHA256_HASHSIZE :: nat where
  "SHA256_HASHSIZE = 32"

definition K256 :: "u32 list" where
  "K256 =
     [0x428a2f98, 0x71374491, 0xb5c0fbcf, 0xe9b5dba5, 0x3956c25b, 0x59f111f1, 0x923f82a4, 0xab1c5ed5,
      0xd807aa98, 0x12835b01, 0x243185be, 0x550c7dc3, 0x72be5d74, 0x80deb1fe, 0x9bdc06a7, 0xc19bf174,
      0xe49b69c1, 0xefbe4786, 0x0fc19dc6, 0x240ca1cc, 0x2de92c6f, 0x4a7484aa, 0x5cb0a9dc, 0x76f988da,
      0x983e5152, 0xa831c66d, 0xb00327c8, 0xbf597fc7, 0xc6e00bf3, 0xd5a79147, 0x06ca6351, 0x14292967,
      0x27b70a85, 0x2e1b2138, 0x4d2c6dfc, 0x53380d13, 0x650a7354, 0x766a0abb, 0x81c2c92e, 0x92722c85,
      0xa2bfe8a1, 0xa81a664b, 0xc24b8b70, 0xc76c51a3, 0xd192e819, 0xd6990624, 0xf40e3585, 0x106aa070,
      0x19a4c116, 0x1e376c08, 0x2748774c, 0x34b0bcb5, 0x391c0cb3, 0x4ed8aa4a, 0x5b9cca4f, 0x682e6ff3,
      0x748f82ee, 0x78a5636f, 0x84c87814, 0x8cc70208, 0x90befffa, 0xa4506ceb, 0xbef9a3f7, 0xc67178f2]"

definition sha256_init :: HASH_CONTEXT where
  "sha256_init = init_context [0x6a09e667, 0xbb67ae85, 0x3c6ef372, 0xa54ff53a, 0x510e527f, 0x9b05688c,
     0x1f83d9ab, 0x5be0cd19]"

definition S0_256 :: "u32 \<Rightarrow> u32" where
  "S0_256 x = ROR32 (ROR32 (ROR32 x 9 XOR x) 11 XOR x) 2"

definition S1_256 :: "u32 \<Rightarrow> u32" where
  "S1_256 x = ROR32 (ROR32 (ROR32 x 14 XOR x) 5 XOR x) 6"

definition s0_256 :: "u32 \<Rightarrow> u32" where
  "s0_256 x = (ROR32 (ROR32 x 11 XOR x) 7 XOR drop_bit 3 x)"

definition s1_256 :: "u32 \<Rightarrow> u32" where
  "s1_256 x = (ROR32 (ROR32 x 2 XOR x) 17 XOR drop_bit 10 x)"

text \<open>\<open>BLK2(i)\<close>: \<open>(i - 2) & 15\<close> and the like are written with the 16 added first.\<close>

definition BLK2 :: "nat \<Rightarrow> u32 list \<Rightarrow> u32 list" where
  "BLK2 i x = x[i := x ! i + (s1_256 (x ! ((i + 14) mod 16)) + x ! ((i + 9) mod 16) + s0_256 (x ! ((i + 1) mod 16)))]"

text \<open>The macro \<open>R\<close> with the names of round \<open>i\<close>; \<open>k\<close> and \<open>w\<close> are the constant and the word.\<close>

definition R_256 :: "nat \<Rightarrow> u32 \<Rightarrow> u32 \<Rightarrow> u32 list \<Rightarrow> u32 list" where
  "R_256 i k w v =
     (let a = reg 8 0 i; b = reg 8 1 i; c = reg 8 2 i; d = reg 8 3 i;
          e = reg 8 4 i; f = reg 8 5 i; g = reg 8 6 i; h = reg 8 7 i;
          v1 = v[h := v ! h + (S1_256 (v ! e) + Ch (v ! e) (v ! f) (v ! g) + k + w)];
          v2 = v1[d := v1 ! d + v1 ! h]
      in v2[h := v2 ! h + (S0_256 (v2 ! a) + Ma (v2 ! a) (v2 ! b) (v2 ! c))])"

text \<open>Round \<open>i\<close> of the block of 16 rounds that starts at \<open>j\<close>.\<close>

definition sha256_round :: "nat \<Rightarrow> nat \<Rightarrow> u32 list \<times> u32 list \<Rightarrow> u32 list \<times> u32 list" where
  "sha256_round j i vx =
     (case vx of (v, x) \<Rightarrow>
        let x' = (if j \<noteq> 0 then BLK2 i x else x)
        in (R_256 i (K256 ! (i + j)) (x' ! i) v, x'))"

definition sha256_transform_cc :: "HASH_CONTEXT \<Rightarrow> u8 list \<Rightarrow> HASH_CONTEXT option" where
  "sha256_transform_cc ctx data =
     (if length data < 64 \<or> length (hstate ctx) < 8 then None
      else
        let st = hstate ctx;
            v0 = map (\<lambda>k. ucast (st ! k)) [0..<8];
            x0 = map (\<lambda>k. read_swap32 data (4 * k)) [0..<16];
            v = fst (fold (\<lambda>j. fold (sha256_round j) [0..<16]) [0, 16, 32, 48] (v0, x0))
        in Some (ctx\<lparr> hstate := map (\<lambda>k. st ! k + ucast (v ! k)) [0..<8] @ drop 8 st \<rparr>))"

definition sha256_transform :: "x86_transform option \<Rightarrow> HASH_CONTEXT \<Rightarrow> u8 list \<Rightarrow> HASH_CONTEXT option" where
  "sha256_transform x86 ctx data =
     (case x86 of
        Some f \<Rightarrow> do {
          st \<leftarrow> f (hstate ctx) data SHA256_BLOCKSIZE;
          Some (ctx\<lparr> hstate := st \<rparr>)
        }
      | None \<Rightarrow> sha256_transform_cc ctx data)"

definition sha256_write ::
  "x86_transform option \<Rightarrow> HASH_CONTEXT \<Rightarrow> u8 list \<Rightarrow> nat \<Rightarrow> HASH_CONTEXT option" where
  "sha256_write x86 ctx buf len =
     (let num = unat (bytecount ctx AND 63);
          ctx0 = ctx\<lparr> bytecount := bytecount ctx + of_nat len \<rparr>;
          n = SHA256_BLOCKSIZE - num
      in if num \<noteq> 0 \<and> len < n then do {
           b \<leftarrow> memcpy (hbuf ctx0) num buf len;
           Some (ctx0\<lparr> hbuf := b \<rparr>)
         }
         else do {
           (ctx1, buf1, len1) \<leftarrow>
             (if num \<noteq> 0 then do {
                b \<leftarrow> memcpy (hbuf ctx0) num buf n;
                c \<leftarrow> sha256_transform x86 (ctx0\<lparr> hbuf := b \<rparr>) b;
                Some (c, drop n buf, len - n)
              } else Some (ctx0, buf, len));
           (ctx2, buf2, len2) \<leftarrow>
             (case x86 of
                Some f \<Rightarrow>
                  if len1 \<ge> SHA256_BLOCKSIZE then do {
                    let n1 = len1 div SHA256_BLOCKSIZE * SHA256_BLOCKSIZE;
                    st \<leftarrow> f (hstate ctx1) buf1 n1;
                    Some (ctx1\<lparr> hstate := st \<rparr>, drop n1 buf1, len1 - n1)
                  } else Some (ctx1, buf1, len1)
              | None \<Rightarrow> hash_blocks (sha256_transform x86) SHA256_BLOCKSIZE ctx1 buf1 len1);
           b \<leftarrow> memcpy (hbuf ctx2) 0 buf2 len2;
           Some (ctx2\<lparr> hbuf := b \<rparr>)
         })"

definition sha256_final :: "x86_transform option \<Rightarrow> HASH_CONTEXT \<Rightarrow> HASH_CONTEXT option" where
  "sha256_final x86 ctx =
     (let pos = unat (bytecount ctx AND 63); bitcount = push_bit 3 (bytecount ctx)
      in do {
        b \<leftarrow> aset (hbuf ctx) pos 0x80;
        c1 \<leftarrow> pad_loop (sha256_transform x86) SHA256_BLOCKSIZE (SHA256_BLOCKSIZE - 8) (ctx\<lparr> hbuf := b \<rparr>) (Suc pos);
        b1 \<leftarrow> put_count (hbuf c1) (SHA256_BLOCKSIZE - 1) bitcount 8;
        c2 \<leftarrow> sha256_transform x86 (c1\<lparr> hbuf := b1 \<rparr>) b1;
        b2 \<leftarrow> put_state32 c2 8;
        Some (c2\<lparr> hbuf := b2 \<rparr>)
      })"

section \<open>SHA-512: the code\<close>

definition SHA512_BLOCKSIZE :: nat where
  "SHA512_BLOCKSIZE = 128"

definition SHA512_HASHSIZE :: nat where
  "SHA512_HASHSIZE = 64"

definition K512 :: "u64 list" where
  "K512 =
     [0x428a2f98d728ae22, 0x7137449123ef65cd, 0xb5c0fbcfec4d3b2f, 0xe9b5dba58189dbbc,
      0x3956c25bf348b538, 0x59f111f1b605d019, 0x923f82a4af194f9b, 0xab1c5ed5da6d8118,
      0xd807aa98a3030242, 0x12835b0145706fbe, 0x243185be4ee4b28c, 0x550c7dc3d5ffb4e2,
      0x72be5d74f27b896f, 0x80deb1fe3b1696b1, 0x9bdc06a725c71235, 0xc19bf174cf692694,
      0xe49b69c19ef14ad2, 0xefbe4786384f25e3, 0x0fc19dc68b8cd5b5, 0x240ca1cc77ac9c65,
      0x2de92c6f592b0275, 0x4a7484aa6ea6e483, 0x5cb0a9dcbd41fbd4, 0x76f988da831153b5,
      0x983e5152ee66dfab, 0xa831c66d2db43210, 0xb00327c898fb213f, 0xbf597fc7beef0ee4,
      0xc6e00bf33da88fc2, 0xd5a79147930aa725, 0x06ca6351e003826f, 0x142929670a0e6e70,
      0x27b70a8546d22ffc, 0x2e1b21385c26c926, 0x4d2c6dfc5ac42aed, 0x53380d139d95b3df,
      0x650a73548baf63de, 0x766a0abb3c77b2a8, 0x81c2c92e47edaee6, 0x92722c851482353b,
      0xa2bfe8a14cf10364, 0xa81a664bbc423001, 0xc24b8b70d0f89791, 0xc76c51a30654be30,
      0xd192e819d6ef5218, 0xd69906245565a910, 0xf40e35855771202a, 0x106aa07032bbd1b8,
      0x19a4c116b8d2d0c8, 0x1e376c085141ab53, 0x2748774cdf8eeb99, 0x34b0bcb5e19b48a8,
      0x391c0cb3c5c95a63, 0x4ed8aa4ae3418acb, 0x5b9cca4f7763e373, 0x682e6ff3d6b2b8a3,
      0x748f82ee5defb2fc, 0x78a5636f43172f60, 0x84c87814a1f0ab72, 0x8cc702081a6439ec,
      0x90befffa23631e28, 0xa4506cebde82bde9, 0xbef9a3f7b2c67915, 0xc67178f2e372532b,
      0xca273eceea26619c, 0xd186b8c721c0c207, 0xeada7dd6cde0eb1e, 0xf57d4f7fee6ed178,
      0x06f067aa72176fba, 0x0a637dc5a2c898a6, 0x113f9804bef90dae, 0x1b710b35131c471b,
      0x28db77f523047d84, 0x32caab7b40c72493, 0x3c9ebe0a15c9bebc, 0x431d67c49c100d4c,
      0x4cc5d4becb3e42b6, 0x597f299cfc657e2a, 0x5fcb6fab3ad6faec, 0x6c44198c4a475817]"

definition sha512_init :: HASH_CONTEXT where
  "sha512_init = init_context [0x6a09e667f3bcc908, 0xbb67ae8584caa73b, 0x3c6ef372fe94f82b, 0xa54ff53a5f1d36f1,
     0x510e527fade682d1, 0x9b05688c2b3e6c1f, 0x1f83d9abfb41bd6b, 0x5be0cd19137e2179]"

definition S0_512 :: "u64 \<Rightarrow> u64" where
  "S0_512 x = ROR64 (ROR64 (ROR64 x 5 XOR x) 6 XOR x) 28"

definition S1_512 :: "u64 \<Rightarrow> u64" where
  "S1_512 x = ROR64 (ROR64 (ROR64 x 23 XOR x) 4 XOR x) 14"

definition s0_512 :: "u64 \<Rightarrow> u64" where
  "s0_512 x = (ROR64 (ROR64 x 7 XOR x) 1 XOR drop_bit 7 x)"

definition s1_512 :: "u64 \<Rightarrow> u64" where
  "s1_512 x = (ROR64 (ROR64 x 42 XOR x) 19 XOR drop_bit 6 x)"

definition R_512 :: "nat \<Rightarrow> u64 \<Rightarrow> u64 \<Rightarrow> u64 list \<Rightarrow> u64 list" where
  "R_512 i k w v =
     (let a = reg 8 0 i; b = reg 8 1 i; c = reg 8 2 i; d = reg 8 3 i;
          e = reg 8 4 i; f = reg 8 5 i; g = reg 8 6 i; h = reg 8 7 i;
          v1 = v[h := v ! h + (S1_512 (v ! e) + Ch (v ! e) (v ! f) (v ! g) + k + w)];
          v2 = v1[d := v1 ! d + v1 ! h]
      in v2[h := v2 ! h + (S0_512 (v2 ! a) + Ma (v2 ! a) (v2 ! b) (v2 ! c))])"

text \<open>One turn of the loop that fills \<open>W\<close>.\<close>

definition sha512_W :: "u8 list \<Rightarrow> nat \<Rightarrow> u64 list \<Rightarrow> u64 list" where
  "sha512_W data i W =
     W[i := (if i < 16 then read_swap64 data (8 * i)
             else s1_512 (W ! (i - 2)) + W ! (i - 7) + s0_512 (W ! (i - 15)) + W ! (i - 16))]"

definition sha512_transform :: "HASH_CONTEXT \<Rightarrow> u8 list \<Rightarrow> HASH_CONTEXT option" where
  "sha512_transform ctx data =
     (if length data < 128 \<or> length (hstate ctx) < 8 then None
      else
        let st = hstate ctx;
            W = fold (sha512_W data) [0..<80] (replicate 80 0);
            v = fold (\<lambda>i. R_512 i (K512 ! i) (W ! i)) [0..<80] (take 8 st)
        in Some (ctx\<lparr> hstate := map (\<lambda>k. st ! k + v ! k) [0..<8] @ drop 8 st \<rparr>))"

definition sha512_write :: "HASH_CONTEXT \<Rightarrow> u8 list \<Rightarrow> nat \<Rightarrow> HASH_CONTEXT option" where
  "sha512_write ctx buf len =
     (let num = unat (bytecount ctx AND 127);
          ctx0 = ctx\<lparr> bytecount := bytecount ctx + of_nat len \<rparr>;
          n = SHA512_BLOCKSIZE - num
      in if num \<noteq> 0 \<and> len < n then do {
           b \<leftarrow> memcpy (hbuf ctx0) num buf len;
           Some (ctx0\<lparr> hbuf := b \<rparr>)
         }
         else do {
           (ctx1, buf1, len1) \<leftarrow>
             (if num \<noteq> 0 then do {
                b \<leftarrow> memcpy (hbuf ctx0) num buf n;
                c \<leftarrow> sha512_transform (ctx0\<lparr> hbuf := b \<rparr>) b;
                Some (c, drop n buf, len - n)
              } else Some (ctx0, buf, len));
           (ctx2, buf2, len2) \<leftarrow> hash_blocks sha512_transform SHA512_BLOCKSIZE ctx1 buf1 len1;
           b \<leftarrow> memcpy (hbuf ctx2) 0 buf2 len2;
           Some (ctx2\<lparr> hbuf := b \<rparr>)
         })"

fun put_state64 :: "HASH_CONTEXT \<Rightarrow> nat \<Rightarrow> u8 list option" where
  "put_state64 ctx 0 = Some (hbuf ctx)"
| "put_state64 ctx (Suc k) = do {
     b \<leftarrow> put_state64 ctx k;
     s \<leftarrow> aget (hstate ctx) k;
     write_swap64 b (8 * k) s
   }"

definition sha512_final :: "HASH_CONTEXT \<Rightarrow> HASH_CONTEXT option" where
  "sha512_final ctx =
     (let pos = unat (bytecount ctx AND 127);
          bitcount_lo = push_bit 3 (bytecount ctx);
          bitcount_hi = drop_bit 61 (bytecount ctx)
      in do {
        b \<leftarrow> aset (hbuf ctx) pos 0x80;
        c1 \<leftarrow> pad_loop sha512_transform SHA512_BLOCKSIZE (SHA512_BLOCKSIZE - 16) (ctx\<lparr> hbuf := b \<rparr>) (Suc pos);
        b1 \<leftarrow> put_count (hbuf c1) (SHA512_BLOCKSIZE - 1) bitcount_lo 8;
        b2 \<leftarrow> put_count b1 (SHA512_BLOCKSIZE - 9) bitcount_hi 8;
        c2 \<leftarrow> sha512_transform (c1\<lparr> hbuf := b2 \<rparr>) b2;
        b3 \<leftarrow> put_state64 c2 8;
        Some (c2\<lparr> hbuf := b3 \<rparr>)
      })"

section \<open>FIPS 180-4\<close>

fun fips_sha2_W :: "('a::len word \<Rightarrow> 'a word) \<Rightarrow> ('a word \<Rightarrow> 'a word) \<Rightarrow> 'a word list \<Rightarrow> nat \<Rightarrow> 'a word" where
  "fips_sha2_W sigma0 sigma1 M t =
     (if t < 16 then M ! t
      else sigma1 (fips_sha2_W sigma0 sigma1 M (t - 2)) + fips_sha2_W sigma0 sigma1 M (t - 7) +
           sigma0 (fips_sha2_W sigma0 sigma1 M (t - 15)) + fips_sha2_W sigma0 sigma1 M (t - 16))"

declare fips_sha2_W.simps [simp del]

definition fips_sha2_step ::
  "('a::len word \<Rightarrow> 'a word) \<Rightarrow> ('a word \<Rightarrow> 'a word) \<Rightarrow> 'a word \<Rightarrow> 'a word \<Rightarrow> 'a word list \<Rightarrow> 'a word list" where
  "fips_sha2_step Sigma0 Sigma1 k w v =
     (case v of [a, b, c, d, e, f, g, h] \<Rightarrow>
        let T1 = h + Sigma1 e + fips_Ch e f g + k + w;
            T2 = Sigma0 a + fips_Maj a b c
        in [T1 + T2, a, b, c, d + T1, e, f, g]
      | _ \<Rightarrow> v)"

definition Sigma0_256 :: "u32 \<Rightarrow> u32" where
  "Sigma0_256 x = (word_rotr 2 x XOR word_rotr 13 x XOR word_rotr 22 x)"

definition Sigma1_256 :: "u32 \<Rightarrow> u32" where
  "Sigma1_256 x = (word_rotr 6 x XOR word_rotr 11 x XOR word_rotr 25 x)"

definition sigma0_256 :: "u32 \<Rightarrow> u32" where
  "sigma0_256 x = (word_rotr 7 x XOR word_rotr 18 x XOR drop_bit 3 x)"

definition sigma1_256 :: "u32 \<Rightarrow> u32" where
  "sigma1_256 x = (word_rotr 17 x XOR word_rotr 19 x XOR drop_bit 10 x)"

definition Sigma0_512 :: "u64 \<Rightarrow> u64" where
  "Sigma0_512 x = (word_rotr 28 x XOR word_rotr 34 x XOR word_rotr 39 x)"

definition Sigma1_512 :: "u64 \<Rightarrow> u64" where
  "Sigma1_512 x = (word_rotr 14 x XOR word_rotr 18 x XOR word_rotr 41 x)"

definition sigma0_512 :: "u64 \<Rightarrow> u64" where
  "sigma0_512 x = (word_rotr 1 x XOR word_rotr 8 x XOR drop_bit 7 x)"

definition sigma1_512 :: "u64 \<Rightarrow> u64" where
  "sigma1_512 x = (word_rotr 19 x XOR word_rotr 61 x XOR drop_bit 6 x)"

definition fips_sha256_block :: "u32 list \<Rightarrow> u8 list \<Rightarrow> u32 list" where
  "fips_sha256_block H blk = map2 (+) H
     (fold (\<lambda>t. fips_sha2_step Sigma0_256 Sigma1_256 (K256 ! t)
               (fips_sha2_W sigma0_256 sigma1_256 (fips_words32 blk) t)) [0..<64] H)"

definition fips_sha256 :: "u8 list \<Rightarrow> u8 list" where
  "fips_sha256 msg = concat (map (be_bytes 4)
     (run_blocks fips_sha256_block 64 [0x6a09e667, 0xbb67ae85, 0x3c6ef372, 0xa54ff53a, 0x510e527f, 0x9b05688c,
          0x1f83d9ab, 0x5be0cd19]
        (sha_pad 64 (be_bytes 8 (of_nat (8 * length msg) :: u64)) msg)))"

definition fips_words64 :: "u8 list \<Rightarrow> u64 list" where
  "fips_words64 blk = map (\<lambda>k. be_word (slice (8 * k) 8 blk)) [0..<16]"

definition fips_sha512_block :: "u64 list \<Rightarrow> u8 list \<Rightarrow> u64 list" where
  "fips_sha512_block H blk = map2 (+) H
     (fold (\<lambda>t. fips_sha2_step Sigma0_512 Sigma1_512 (K512 ! t)
               (fips_sha2_W sigma0_512 sigma1_512 (fips_words64 blk) t)) [0..<80] H)"

definition fips_sha512 :: "u8 list \<Rightarrow> u8 list" where
  "fips_sha512 msg = concat (map (be_bytes 8)
     (run_blocks fips_sha512_block 128 [0x6a09e667f3bcc908, 0xbb67ae8584caa73b, 0x3c6ef372fe94f82b,
          0xa54ff53a5f1d36f1, 0x510e527fade682d1, 0x9b05688c2b3e6c1f, 0x1f83d9abfb41bd6b, 0x5be0cd19137e2179]
        (sha_pad 128 (be_bytes 16 (of_nat (8 * length msg) :: 128 word)) msg)))"

section \<open>Nested rotations\<close>

lemma sigma_fips:
  "S0_256 = Sigma0_256" "S1_256 = Sigma1_256" "s0_256 = sigma0_256" "s1_256 = sigma1_256"
  "S0_512 = Sigma0_512" "S1_512 = Sigma1_512" "s0_512 = sigma0_512" "s1_512 = sigma1_512"
  by (simp_all add: fun_eq_iff S0_256_def S1_256_def s0_256_def s1_256_def S0_512_def S1_512_def s0_512_def
      s1_512_def Sigma0_256_def Sigma1_256_def sigma0_256_def sigma1_256_def Sigma0_512_def Sigma1_512_def
      sigma0_512_def sigma1_512_def ROR32_rot ROR64_rot word_rot_logs word_rotr_word_rotr_eq xor.commute
      xor.left_commute)

section \<open>Rounds\<close>

text \<open>The macro \<open>R\<close>, for either word size.\<close>

definition R_sha2 ::
  "('a::len word \<Rightarrow> 'a word) \<Rightarrow> ('a word \<Rightarrow> 'a word) \<Rightarrow> nat \<Rightarrow> 'a word \<Rightarrow> 'a word \<Rightarrow> 'a word list \<Rightarrow> 'a word list" where
  "R_sha2 S0 S1 i k w v =
     (let a = reg 8 0 i; b = reg 8 1 i; c = reg 8 2 i; d = reg 8 3 i;
          e = reg 8 4 i; f = reg 8 5 i; g = reg 8 6 i; h = reg 8 7 i;
          v1 = v[h := v ! h + (S1 (v ! e) + Ch (v ! e) (v ! f) (v ! g) + k + w)];
          v2 = v1[d := v1 ! d + v1 ! h]
      in v2[h := v2 ! h + (S0 (v2 ! a) + Ma (v2 ! a) (v2 ! b) (v2 ! c))])"

lemma R_both: "R_256 = R_sha2 Sigma0_256 Sigma1_256" "R_512 = R_sha2 Sigma0_512 Sigma1_512"
  by (simp_all add: fun_eq_iff R_256_def R_512_def R_sha2_def sigma_fips)

lemma length_R_sha2 [simp]: "length (R_sha2 S0 S1 i k w v) = length v"
  by (simp add: R_sha2_def Let_def)

lemma list8: "length v = 8 \<Longrightarrow> \<exists>a b c d e f g h. v = [a, b, c, d, e, f, g, h]"
  by (auto simp: length_Suc_conv numeral_eq_Suc)

lemma R_view:
  fixes v :: "'a::len word list"
  assumes "length v = 8"
  shows "view 8 (Suc i) (R_sha2 S0 S1 i k w v) = fips_sha2_step S0 S1 k w (view 8 i v)"
proof -
  obtain a b c d e f g h where v: "view 8 i v = [a, b, c, d, e, f, g, h]" using list8 [of "view 8 i v"] by auto
  have n: "v ! reg 8 0 i = a" "v ! reg 8 1 i = b" "v ! reg 8 2 i = c" "v ! reg 8 3 i = d"
    "v ! reg 8 4 i = e" "v ! reg 8 5 i = f" "v ! reg 8 6 i = g" "v ! reg 8 7 i = h"
    using v nth_view [of 0 8 i v] nth_view [of 1 8 i v] nth_view [of 2 8 i v] nth_view [of 3 8 i v]
      nth_view [of 4 8 i v] nth_view [of 5 8 i v] nth_view [of 6 8 i v] nth_view [of 7 8 i v] by simp_all
  let ?T1 = "h + (S1 e + fips_Ch e f g + k + w)" and ?T2 = "S0 a + fips_Maj a b c"
  have d: "reg 8 7 i \<noteq> reg 8 0 i" "reg 8 7 i \<noteq> reg 8 1 i" "reg 8 7 i \<noteq> reg 8 2 i" "reg 8 7 i \<noteq> reg 8 3 i"
    "reg 8 3 i \<noteq> reg 8 0 i" "reg 8 3 i \<noteq> reg 8 1 i" "reg 8 3 i \<noteq> reg 8 2 i"
    by (simp_all add: reg_inj)
  have "R_sha2 S0 S1 i k w v = v[reg 8 7 i := ?T1, reg 8 3 i := d + ?T1, reg 8 7 i := ?T1 + ?T2]"
    using n d d [symmetric] assms
    by (simp add: R_sha2_def Let_def Ch_def Ma_def Ch_fips Ma_fips)
  then have "view 8 i (R_sha2 S0 S1 i k w v) = [a, b, c, d + ?T1, e, f, g, ?T1 + ?T2]"
    using assms v by (simp add: view_update)
  then show ?thesis using v by (simp add: view_Suc fips_sha2_step_def Let_def ac_simps)
qed

lemma fips_sha2_step_length: "length v = 8 \<Longrightarrow> length (fips_sha2_step S0 S1 k w v) = 8"
  by (auto simp: fips_sha2_step_def Let_def dest!: list8)

lemma reg_mod16:
  assumes "16 dvd j"
  shows "reg 8 r (i + j) = reg 8 r i"
proof -
  obtain q where "j = 16 * q" using assms by (rule dvdE)
  then have "r + (8 - 1) * (i + j) = r + (8 - 1) * i + 8 * (14 * q)" by simp
  then show ?thesis unfolding reg_def by (simp only: mod_mult_self2)
qed

lemma R_sha2_mod16: "16 dvd j \<Longrightarrow> R_sha2 S0 S1 i k w v = R_sha2 S0 S1 (i + j) k w v"
  by (simp add: R_sha2_def reg_mod16)

lemma BLK2_sched:
  assumes "rolling (fips_sha2_W sigma0_256 sigma1_256 M) (i + j) x" and "16 dvd j" "j \<noteq> 0" "i < 16"
  shows "BLK2 i x = x[(i + j) mod 16 := fips_sha2_W sigma0_256 sigma1_256 M (i + j)]"
proof -
  let ?t = "i + j"
  obtain q where q: "j = 16 * q" "1 \<le> q" using assms(2,3) by (auto elim!: dvdE)
  have t: "16 \<le> ?t" using q by simp
  note x = rolling_get [OF assms(1) t]
  have m: "?t mod 16 = i" "(?t - 16) mod 16 = i" "(?t - 2) mod 16 = (i + 14) mod 16"
    "(?t - 7) mod 16 = (i + 9) mod 16" "(?t - 15) mod 16 = (i + 1) mod 16"
  proof -
    obtain p where p: "q = Suc p" using q(2) by (cases q) simp_all
    show "?t mod 16 = i" using q(1) assms(4) by simp
    have "?t - 16 = i + 16 * p" using q p by simp
    then show "(?t - 16) mod 16 = i" using assms(4) by simp
    have "?t - 2 = i + 14 + 16 * p" "?t - 7 = i + 9 + 16 * p" "?t - 15 = i + 1 + 16 * p" using q p by simp_all
    then show "(?t - 2) mod 16 = (i + 14) mod 16" "(?t - 7) mod 16 = (i + 9) mod 16"
      "(?t - 15) mod 16 = (i + 1) mod 16" by (simp_all only: mod_mult_self2)
  qed
  have "fips_sha2_W sigma0_256 sigma1_256 M ?t = x ! i + (sigma1_256 (x ! ((i + 14) mod 16)) +
      x ! ((i + 9) mod 16) + sigma0_256 (x ! ((i + 1) mod 16)))"
    using x [of 16] x [of 2] x [of 7] x [of 15] t m
    by (subst fips_sha2_W.simps) (simp add: ac_simps)
  then show ?thesis by (simp add: BLK2_def m sigma_fips)
qed

lemma sha256_rounds:
  assumes "length v0 = 8" and "length M = 16"
  shows "fst (fold (\<lambda>j. fold (sha256_round j) [0..<16]) [0, 16, 32, 48] (v0, M)) =
    fold (\<lambda>t. fips_sha2_step Sigma0_256 Sigma1_256 (K256 ! t) (fips_sha2_W sigma0_256 sigma1_256 M t)) [0..<64] v0"
proof -
  let ?W = "fips_sha2_W sigma0_256 sigma1_256 M"
  let ?step = "\<lambda>t. fips_sha2_step Sigma0_256 Sigma1_256 (K256 ! t) (?W t)"
  define I where "I t vx \<longleftrightarrow> length (fst vx) = 8 \<and> rolling ?W t (snd vx) \<and>
    view 8 t (fst vx) = fold ?step [0..<t] v0" for t and vx :: "u32 list \<times> u32 list"
  have round: "I (Suc i + j) (sha256_round j i vx)" if I: "I (i + j) vx" and ij: "i < 16" "16 dvd j" for i j vx
  proof -
    obtain v x where vx: "vx = (v, x)" by (cases vx)
    define x' where "x' = (if j \<noteq> 0 then BLK2 i x else x)"
    have ro: "rolling ?W (i + j) x" using I by (simp add: I_def vx)
    have s: "rolling ?W (Suc (i + j)) x' \<and> x' ! i = ?W (i + j)"
    proof (cases "j = 0")
      case True
      then show ?thesis using rolling_first [OF ro] ij by (simp add: x'_def)
    next
      case False
      then have t: "16 \<le> i + j" "(i + j) mod 16 = i" using ij by (auto elim!: dvdE)
      have "x' = x[(i + j) mod 16 := ?W (i + j)]" using BLK2_sched [OF ro] False ij by (simp add: x'_def)
      then show ?thesis using rolling_step [OF ro t(1)] ro ij t(2) by (simp add: rolling_def)
    qed
    have "sha256_round j i vx = (R_sha2 Sigma0_256 Sigma1_256 (i + j) (K256 ! (i + j)) (?W (i + j)) v, x')"
      using s R_sha2_mod16 [OF ij(2)] by (simp add: sha256_round_def vx Let_def x'_def R_both)
    then show ?thesis using I s R_view [of v "i + j"] by (simp add: I_def vx)
  qed
  define F where "F = (\<lambda>j. fold (sha256_round j) [0..<16])"
  have block: "I (16 + j) (F j vx)" if "I j vx" "16 dvd j" for j vx
  proof -
    have "(\<lambda>i. I (i + j)) 16 (fold (sha256_round j) [0..<16] vx)"
      by (rule fold_rounds) (use that round in simp_all)
    then show ?thesis by (simp only: F_def)
  qed
  have "I 0 (v0, M)" using assms rolling_start [of M ?W] by (simp add: I_def view_multiple fips_sha2_W.simps)
  from block [OF this] have "I 16 (F 0 (v0, M))" by simp
  from block [OF this] have "I 32 (F 16 (F 0 (v0, M)))" by simp
  from block [OF this] have "I 48 (F 32 (F 16 (F 0 (v0, M))))" by simp
  from block [OF this] have fin: "I 64 (fold F [0, 16, 32, 48] (v0, M))" by simp
  then have "length (fst (fold F [0, 16, 32, 48] (v0, M))) = 8" by (simp only: I_def)
  then have "view 8 64 (fst (fold F [0, 16, 32, 48] (v0, M))) = fst (fold F [0, 16, 32, 48] (v0, M))"
    by (intro view_multiple) simp_all
  with fin show ?thesis unfolding F_def [symmetric] by (simp only: I_def)
qed

lemma sha512_rounds:
  assumes "length v0 = 8" and W: "\<And>t. t < 80 \<Longrightarrow> w ! t = W t"
  shows "fold (\<lambda>i. R_512 i (K512 ! i) (w ! i)) [0..<80] v0 =
    fold (\<lambda>t. fips_sha2_step Sigma0_512 Sigma1_512 (K512 ! t) (W t)) [0..<80] v0"
proof -
  define I where "I t v \<longleftrightarrow> length v = 8 \<and>
    view 8 t v = fold (\<lambda>t. fips_sha2_step Sigma0_512 Sigma1_512 (K512 ! t) (W t)) [0..<t] v0" for t v
  define r where "r = fold (\<lambda>i. R_512 i (K512 ! i) (w ! i)) [0..<80] v0"
  have fin: "I 80 r" unfolding r_def
    by (rule fold_rounds) (use assms in \<open>simp_all add: I_def view_multiple R_both R_view\<close>)
  then have "length r = 8" by (simp only: I_def)
  then have "view 8 80 r = r" by (intro view_multiple) simp_all
  with fin show ?thesis unfolding r_def [symmetric] by (simp only: I_def)
qed

lemma sha512_schedule:
  assumes "128 \<le> length data" and "t < 80"
  shows "fold (sha512_W data) [0..<80] (replicate 80 0) ! t =
    fips_sha2_W sigma0_512 sigma1_512 (fips_words64 (take 128 data)) t"
proof -
  let ?W = "fips_sha2_W sigma0_512 sigma1_512 (fips_words64 (take 128 data))"
  define I where "I i x \<longleftrightarrow> length x = 80 \<and> (\<forall>k < i. x ! k = ?W k)" for i and x :: "u64 list"
  have "I 80 (fold (sha512_W data) [0..<80] (replicate 80 0))"
  proof (rule fold_rounds)
    fix i x assume I: "I i x" and i: "i < 80"
    have "(if i < 16 then read_swap64 data (8 * i)
       else s1_512 (x ! (i - 2)) + x ! (i - 7) + s0_512 (x ! (i - 15)) + x ! (i - 16)) = ?W i"
      using I assms(1)
      by (subst fips_sha2_W.simps)
        (simp add: I_def fips_words64_def read_swap64_be slice_def drop_take min_def sigma_fips)
    then show "I (Suc i) (sha512_W data i x)" using I i
      by (auto simp: I_def sha512_W_def nth_list_update less_Suc_eq)
  qed (simp add: I_def)
  then show ?thesis using assms(2) by (simp only: I_def)
qed

section \<open>SHA-256 as a stream\<close>

definition sha256_compress :: "u64 list \<Rightarrow> u8 list \<Rightarrow> u64 list" where
  "sha256_compress st blk =
     (let v = fold (\<lambda>t. fips_sha2_step Sigma0_256 Sigma1_256 (K256 ! t)
                   (fips_sha2_W sigma0_256 sigma1_256 (fips_words32 blk) t)) [0..<64] (low32 8 st)
      in map (\<lambda>k. st ! k + ucast (v ! k)) [0..<8] @ drop 8 st)"

lemma sha256_transform_compress:
  assumes "length (hstate ctx) = 8" and "SHA256_BLOCKSIZE \<le> length data"
  shows "sha256_transform None ctx data =
    Some (ctx\<lparr> hstate := sha256_compress (hstate ctx) (take SHA256_BLOCKSIZE data) \<rparr>)"
proof -
  have M: "length (fips_words32 (take 64 data)) = 16" by (simp add: fips_words32_def)
  note r = sha256_rounds [OF length_low32 [of 8 "hstate ctx"] M]
  have w: "map (\<lambda>k. read_swap32 data (4 * k)) [0..<16] = fips_words32 (take 64 data)"
    using words_read assms(2) by (simp only: SHA256_BLOCKSIZE_def)
  show ?thesis
    using assms by (simp only: sha256_transform_def sha256_transform_cc_def option.case Let_def w
        low32_def [symmetric] r sha256_compress_def SHA256_BLOCKSIZE_def) simp
qed

lemma sha256_compress_length: "length st = 8 \<Longrightarrow> length (sha256_compress st blk) = 8"
  by (simp add: sha256_compress_def Let_def)

lemma sha256_compress_fips:
  assumes "length st = 8"
  shows "low32 8 (sha256_compress st blk) = fips_sha256_block (low32 8 st) blk"
proof (rule nth_equalityI)
  define v where "v = fold (\<lambda>t. fips_sha2_step Sigma0_256 Sigma1_256 (K256 ! t)
      (fips_sha2_W sigma0_256 sigma1_256 (fips_words32 blk) t)) [0..<64] (low32 8 st)"
  have lv: "length v = 8" unfolding v_def by (rule fold_step_length) (simp_all add: fips_sha2_step_length)
  then show "length (low32 8 (sha256_compress st blk)) = length (fips_sha256_block (low32 8 st) blk)"
    by (simp add: fips_sha256_block_def v_def [symmetric])
  fix k assume "k < length (low32 8 (sha256_compress st blk))"
  then have k: "k < 8" by simp
  have "sha256_compress st blk ! k = st ! k + ucast (v ! k)"
    using k by (simp add: sha256_compress_def v_def [symmetric] nth_append)
  then show "low32 8 (sha256_compress st blk) ! k = fips_sha256_block (low32 8 st) blk ! k"
    using k lv by (simp add: nth_low32 fips_sha256_block_def v_def [symmetric] ucast_add_low)
qed

definition sha256_h0 :: "u64 list" where
  "sha256_h0 = hstate sha256_init"

interpretation sha256: block_hash "sha256_transform None" sha256_compress SHA256_BLOCKSIZE sha256_h0
  by unfold_locales
    (simp_all add: sha256_transform_compress sha256_compress_length sha256_h0_def sha256_init_def init_context_def
      zero_context_def SHA256_BLOCKSIZE_def MAX_BLOCKSIZE_def)

lemma sha256_write_stream:
  "sha256_write None ctx buf len =
   stream_write (sha256_transform None) SHA256_BLOCKSIZE (unat (bytecount ctx AND 63)) ctx buf len"
  by (simp add: sha256_write_def stream_write_def Let_def)

lemma sha256_write_absorbs:
  assumes "absorbed sha256_compress SHA256_BLOCKSIZE sha256_h0 msg ctx" and "bytecount ctx = of_nat (length msg)"
    and "len \<le> length buf"
  shows "\<exists>ctx'. sha256_write None ctx buf len = Some ctx' \<and>
     absorbed sha256_compress SHA256_BLOCKSIZE sha256_h0 (msg @ take len buf) ctx' \<and>
     bytecount ctx' = bytecount ctx + of_nat len"
  unfolding sha256_write_stream
  by (rule sha256.stream_write_absorbs [OF assms(1,3)]) (simp add: assms(2) count_mod_64 SHA256_BLOCKSIZE_def)

lemma fips_sha256_block_length: "length H = 8 \<Longrightarrow> length (fips_sha256_block H blk) = 8"
  using fold_step_length [of 8 "\<lambda>t. fips_sha2_step Sigma0_256 Sigma1_256 (K256 ! t)
      (fips_sha2_W sigma0_256 sigma1_256 (fips_words32 blk) t)" H "[0..<64]"]
  by (simp only: fips_sha256_block_def fips_sha2_step_length length_map length_zip min.idem)

lemma sha256_run_fips:
  "low32 8 (run_blocks sha256_compress 64 sha256_h0 msg) = run_blocks fips_sha256_block 64 (low32 8 sha256_h0) msg"
  using run_blocks_sim [where P = "\<lambda>st. length st = 8" and c = sha256_compress and ab = "low32 8"
      and c' = fips_sha256_block, of 64 sha256_h0 msg]
  by (simp add: sha256_compress_length sha256_compress_fips sha256.h0_length)

lemma sha256_h0_low: "low32 8 sha256_h0 = [0x6a09e667, 0xbb67ae85, 0x3c6ef372, 0xa54ff53a, 0x510e527f, 0x9b05688c,
     0x1f83d9ab, 0x5be0cd19]"
  by (simp add: sha256_h0_def sha256_init_def init_context_def low32_def upt_rec nth_Cons')

lemma length_fips_sha256 [simp]: "length (fips_sha256 msg) = SHA256_HASHSIZE"
  unfolding fips_sha256_def length_be4
  by (subst run_blocks_length [where n = 8]) (simp_all add: fips_sha256_block_length SHA256_HASHSIZE_def)

lemma sha256_final_any:
  assumes h: "block_hash (sha256_transform x86) c SHA256_BLOCKSIZE sha256_h0"
    and run: "\<And>m. low32 8 (run_blocks c 64 sha256_h0 m) = run_blocks fips_sha256_block 64 (low32 8 sha256_h0) m"
    and abs: "absorbed c SHA256_BLOCKSIZE sha256_h0 msg ctx"
    and n: "bytecount ctx = of_nat (length msg)"
  shows "\<exists>ctx'. sha256_final x86 ctx = Some ctx' \<and>
     take (length (fips_sha256 msg)) (hbuf ctx') = fips_sha256 msg \<and> length (hbuf ctx') = MAX_BLOCKSIZE"
proof -
  define cnt where "cnt = be_bytes 8 (push_bit 3 (bytecount ctx))"
  have cnt: "length cnt = 8" by (simp add: cnt_def)
  obtain c1 b2 c2 where f:
    "aset (hbuf ctx) (length msg mod SHA256_BLOCKSIZE) 0x80 = Some ((hbuf ctx)[length msg mod SHA256_BLOCKSIZE := 0x80])"
    "pad_loop (sha256_transform x86) SHA256_BLOCKSIZE (SHA256_BLOCKSIZE - 8)
       (ctx\<lparr> hbuf := (hbuf ctx)[length msg mod SHA256_BLOCKSIZE := 0x80] \<rparr>) (Suc (length msg mod SHA256_BLOCKSIZE)) = Some c1"
    "memcpy (hbuf c1) (SHA256_BLOCKSIZE - 8) cnt (length cnt) = Some b2"
    "sha256_transform x86 (c1\<lparr> hbuf := b2 \<rparr>) b2 = Some c2"
    "hstate c2 = run_blocks c SHA256_BLOCKSIZE sha256_h0 (sha_pad SHA256_BLOCKSIZE cnt msg)"
    "length (hbuf c2) = MAX_BLOCKSIZE" "length (hbuf c1) = MAX_BLOCKSIZE"
    by (rule block_hash.sha_final_state [OF h abs, of cnt "SHA256_BLOCKSIZE - 8"]) (simp_all add: cnt)
  have pc: "put_count (hbuf c1) (SHA256_BLOCKSIZE - 1) (push_bit 3 (bytecount ctx)) 8 = Some b2"
    using f(3,7) by (simp add: put_count_bytes SHA256_BLOCKSIZE_def MAX_BLOCKSIZE_def cnt_def)
  have "push_bit 3 (bytecount ctx) = of_nat (8 * length msg)" by (simp add: n push_bit_eq_mult mult.commute)
  then have "concat (map (be_bytes 4) (low32 8 (hstate c2))) = fips_sha256 msg"
    using f(5) by (simp add: fips_sha256_def run SHA256_BLOCKSIZE_def cnt_def sha256_h0_low [symmetric] del: of_nat_mult)
  moreover have "put_state32 c2 8 = Some (concat (map (be_bytes 4) (low32 8 (hstate c2))) @ drop (4 * 8) (hbuf c2))"
    using f(5,6) block_hash.run_length [OF h] by (intro put_state32_bytes) simp_all
  ultimately show ?thesis
    using f pc unfolding sha256_final_def n count_mod_64
    by (simp add: Let_def SHA256_BLOCKSIZE_def SHA256_HASHSIZE_def MAX_BLOCKSIZE_def)
qed

lemma sha256_final_digest:
  assumes "absorbed sha256_compress SHA256_BLOCKSIZE sha256_h0 msg ctx" and "bytecount ctx = of_nat (length msg)"
  shows "\<exists>ctx'. sha256_final None ctx = Some ctx' \<and>
     take (length (fips_sha256 msg)) (hbuf ctx') = fips_sha256 msg \<and> length (hbuf ctx') = MAX_BLOCKSIZE"
  by (rule sha256_final_any [OF sha256.block_hash_axioms sha256_run_fips assms])

interpretation sha256_stream: hash_stream "sha256_transform None" sha256_compress SHA256_BLOCKSIZE sha256_h0 sha256_init
    "sha256_write None" "sha256_final None" "\<lambda>msg buf len. len \<le> length buf" fips_sha256
proof unfold_locales
  show "sha256_init = \<lparr> hbuf = replicate MAX_BLOCKSIZE 0, hstate = sha256_h0, bytecount = 0 \<rparr>"
    by (simp add: sha256_h0_def sha256_init_def init_context_def zero_context_def)
qed (assumption | rule sha256_write_absorbs sha256_final_digest)+

section \<open>SHA-512 as a stream\<close>

definition sha512_compress :: "u64 list \<Rightarrow> u8 list \<Rightarrow> u64 list" where
  "sha512_compress st blk = fips_sha512_block (take 8 st) blk @ drop 8 st"

lemma fips_sha512_block_length: "length H = 8 \<Longrightarrow> length (fips_sha512_block H blk) = 8"
  using fold_step_length [of 8 "\<lambda>t. fips_sha2_step Sigma0_512 Sigma1_512 (K512 ! t)
      (fips_sha2_W sigma0_512 sigma1_512 (fips_words64 blk) t)" H "[0..<80]"]
  by (simp only: fips_sha512_block_def fips_sha2_step_length length_map length_zip min.idem)

lemma sha512_transform_compress:
  assumes "length (hstate ctx) = 8" and "SHA512_BLOCKSIZE \<le> length data"
  shows "sha512_transform ctx data =
    Some (ctx\<lparr> hstate := sha512_compress (hstate ctx) (take SHA512_BLOCKSIZE data) \<rparr>)"
proof -
  define w where "w = fold (sha512_W data) [0..<80] (replicate 80 0)"
  define v where "v = fold (\<lambda>i. R_512 i (K512 ! i) (w ! i)) [0..<80] (hstate ctx)"
  have "128 \<le> length data" using assms(2) by (simp add: SHA512_BLOCKSIZE_def)
  then have W: "w ! t = fips_sha2_W sigma0_512 sigma1_512 (fips_words64 (take 128 data)) t" if "t < 80" for t
    unfolding w_def using that by (rule sha512_schedule)
  have v: "v = fold (\<lambda>t. fips_sha2_step Sigma0_512 Sigma1_512 (K512 ! t)
      (fips_sha2_W sigma0_512 sigma1_512 (fips_words64 (take 128 data)) t)) [0..<80] (hstate ctx)"
    unfolding v_def using sha512_rounds [OF assms(1) W] .
  have "length v = 8" unfolding v by (rule fold_step_length) (simp_all add: fips_sha2_step_length assms)
  then have "map (\<lambda>k. hstate ctx ! k + v ! k) [0..<8] = map2 (+) (hstate ctx) v"
    using assms(1) by (intro nth_equalityI) simp_all
  also have "\<dots> = fips_sha512_block (hstate ctx) (take 128 data)" unfolding fips_sha512_block_def v ..
  finally have m: "map (\<lambda>k. hstate ctx ! k + v ! k) [0..<8] = fips_sha512_block (hstate ctx) (take 128 data)" .
  have "sha512_transform ctx data = Some (ctx\<lparr> hstate := map (\<lambda>k. hstate ctx ! k + v ! k) [0..<8] @ drop 8 (hstate ctx) \<rparr>)"
    using assms by (simp only: sha512_transform_def Let_def w_def [symmetric] v_def [symmetric] SHA512_BLOCKSIZE_def
        take_all_iff [THEN iffD2]) (simp add: v_def [symmetric])
  then show ?thesis unfolding m using assms(1) by (simp add: sha512_compress_def SHA512_BLOCKSIZE_def)
qed

definition sha512_h0 :: "u64 list" where
  "sha512_h0 = hstate sha512_init"

interpretation sha512: block_hash sha512_transform sha512_compress SHA512_BLOCKSIZE sha512_h0
  by unfold_locales
    (simp_all add: sha512_transform_compress sha512_compress_def fips_sha512_block_length sha512_h0_def sha512_init_def
      init_context_def zero_context_def SHA512_BLOCKSIZE_def MAX_BLOCKSIZE_def)

lemma sha512_write_absorbs:
  assumes "absorbed sha512_compress SHA512_BLOCKSIZE sha512_h0 msg ctx" and "bytecount ctx = of_nat (length msg)"
    and "len \<le> length buf"
  shows "\<exists>ctx'. sha512_write ctx buf len = Some ctx' \<and>
     absorbed sha512_compress SHA512_BLOCKSIZE sha512_h0 (msg @ take len buf) ctx' \<and>
     bytecount ctx' = bytecount ctx + of_nat len"
proof -
  have "sha512_write ctx buf len =
      stream_write sha512_transform SHA512_BLOCKSIZE (unat (bytecount ctx AND 127)) ctx buf len"
    by (simp add: sha512_write_def stream_write_def Let_def)
  then show ?thesis
    using sha512.stream_write_absorbs [OF assms(1,3), of "unat (bytecount ctx AND 127)"]
    by (simp add: assms(2) count_mod_128 SHA512_BLOCKSIZE_def)
qed

lemma sha512_run_fips: "run_blocks sha512_compress 128 sha512_h0 msg = run_blocks fips_sha512_block 128 sha512_h0 msg"
  using run_blocks_sim [where P = "\<lambda>st. length st = 8" and c = sha512_compress and ab = "\<lambda>st. st"
      and c' = fips_sha512_block, of 128 sha512_h0 msg]
  by (simp add: sha512_compress_def fips_sha512_block_length sha512.h0_length)

lemma length_be8: "length (concat (map (be_bytes 8) ws)) = 8 * length ws"
  by (simp add: length_concat o_def sum_list_triv)

lemma length_fips_sha512 [simp]: "length (fips_sha512 msg) = SHA512_HASHSIZE"
  unfolding fips_sha512_def length_be8
  by (subst run_blocks_length [where n = 8]) (simp_all add: fips_sha512_block_length SHA512_HASHSIZE_def)

lemma put_state64_bytes:
  "length (hbuf ctx) = MAX_BLOCKSIZE \<Longrightarrow> n \<le> length (hstate ctx) \<Longrightarrow> n \<le> 8 \<Longrightarrow>
   put_state64 ctx n = Some (concat (map (be_bytes 8) (take n (hstate ctx))) @ drop (8 * n) (hbuf ctx))"
proof (induction n)
  case (Suc n)
  have "length (concat (map (be_bytes 8) (take n (hstate ctx)))) = 8 * n"
    using Suc.prems by (simp add: length_be8)
  then show ?case using Suc
    by (simp add: array_simps write_swap64_def bswap_bytes MAX_BLOCKSIZE_def take_Suc_conv_app_nth)
qed simp

text \<open>The 128-bit length field from its two halves.\<close>

lemma be_bytes_16:
  assumes "n < 2 ^ 64"
  shows "be_bytes 8 (drop_bit 61 (of_nat n :: u64)) @ be_bytes 8 (push_bit 3 (of_nat n :: u64)) =
    be_bytes 16 (of_nat (8 * n) :: 128 word)"
proof (rule nth_equalityI)
  fix k assume k: "k < length (be_bytes 8 (drop_bit 61 (of_nat n :: u64)) @ be_bytes 8 (push_bit 3 (of_nat n :: u64)))"
  have hi: "\<not> bit n m" if "64 \<le> m" for m
  proof -
    have "(2 :: nat) ^ 64 \<le> 2 ^ m" using that by (intro power_increasing) simp_all
    then have "n div 2 ^ m = 0" using assms by (intro div_less) linarith
    then show ?thesis by (simp add: bit_iff_odd)
  qed
  have p3: "8 * n = push_bit 3 n" by (simp add: push_bit_eq_mult)
  show "(be_bytes 8 (drop_bit 61 (of_nat n :: u64)) @ be_bytes 8 (push_bit 3 (of_nat n :: u64))) ! k =
    be_bytes 16 (of_nat (8 * n) :: 128 word) ! k"
  proof (rule bit_word_eqI)
    fix m assume m: "m < LENGTH(8)"
    let ?j = "8 * (15 - k) + m"
    have "?j < 128" using m by simp
    then have r: "bit (be_bytes 16 (of_nat (8 * n) :: 128 word) ! k) m \<longleftrightarrow> 3 \<le> ?j \<and> bit n (?j - 3)"
      unfolding p3 using k m by (simp add: be_bytes_def bit_simps)
    show "bit ((be_bytes 8 (drop_bit 61 (of_nat n :: u64)) @ be_bytes 8 (push_bit 3 (of_nat n :: u64))) ! k) m =
      bit (be_bytes 16 (of_nat (8 * n) :: 128 word) ! k) m"
    proof (cases "k < 8")
      case True
      have j: "?j - 3 = 61 + (8 * (7 - k) + m)" "3 \<le> ?j" using True by simp_all
      have "bit (be_bytes 8 (drop_bit 61 (of_nat n :: u64)) ! k) m \<longleftrightarrow>
          61 + (8 * (7 - k) + m) < 64 \<and> bit n (61 + (8 * (7 - k) + m))"
        using True m by (simp add: be_bytes_def bit_simps ac_simps)
      then show ?thesis unfolding r j(1) using True j(2) hi [of "61 + (8 * (7 - k) + m)"]
        by (auto simp: nth_append not_le)
    next
      case False
      have j: "8 * (8 - Suc (k - 8)) + m = ?j" "?j < 64" "?j - 3 < 64" using False k m by auto
      have "bit (be_bytes 8 (push_bit 3 (of_nat n :: u64)) ! (k - 8)) m = bit (push_bit 3 (of_nat n :: u64)) ?j"
        using k m False bit_be_bytes [of "k - 8" 8 m "push_bit 3 (of_nat n :: u64)"] unfolding j(1) by simp
      then show ?thesis unfolding r using False j(2,3) by (simp add: nth_append bit_simps)
    qed
  qed
qed simp

lemma sha512_final_digest:
  assumes abs: "absorbed sha512_compress SHA512_BLOCKSIZE sha512_h0 msg ctx" and n: "bytecount ctx = of_nat (length msg)"
    and len: "length msg < 2 ^ 64"
  shows "\<exists>ctx'. sha512_final ctx = Some ctx' \<and>
     take (length (fips_sha512 msg)) (hbuf ctx') = fips_sha512 msg \<and> length (hbuf ctx') = MAX_BLOCKSIZE"
proof -
  let ?lo = "push_bit 3 (bytecount ctx)" and ?hi = "drop_bit 61 (bytecount ctx)"
  define cnt where "cnt = be_bytes 8 ?hi @ be_bytes 8 ?lo"
  have cnt: "length cnt = 16" by (simp add: cnt_def)
  obtain c1 b2 c2 where f:
    "aset (hbuf ctx) (length msg mod SHA512_BLOCKSIZE) 0x80 = Some ((hbuf ctx)[length msg mod SHA512_BLOCKSIZE := 0x80])"
    "pad_loop sha512_transform SHA512_BLOCKSIZE (SHA512_BLOCKSIZE - 16)
       (ctx\<lparr> hbuf := (hbuf ctx)[length msg mod SHA512_BLOCKSIZE := 0x80] \<rparr>) (Suc (length msg mod SHA512_BLOCKSIZE)) = Some c1"
    "memcpy (hbuf c1) (SHA512_BLOCKSIZE - 16) cnt (length cnt) = Some b2"
    "sha512_transform (c1\<lparr> hbuf := b2 \<rparr>) b2 = Some c2"
    "hstate c2 = run_blocks sha512_compress SHA512_BLOCKSIZE sha512_h0 (sha_pad SHA512_BLOCKSIZE cnt msg)"
    "length (hbuf c2) = MAX_BLOCKSIZE" "length (hbuf c1) = MAX_BLOCKSIZE"
    by (rule sha512.sha_final_state [OF abs, of cnt "SHA512_BLOCKSIZE - 16"]) (simp_all add: cnt)
  have b2: "b2 = take 112 (hbuf c1) @ be_bytes 8 ?hi @ be_bytes 8 ?lo @ drop 128 (hbuf c1)"
    using f(3,7) by (simp add: memcpy_Some cnt SHA512_BLOCKSIZE_def MAX_BLOCKSIZE_def) (simp add: cnt_def)
  have p1: "put_count (hbuf c1) (SHA512_BLOCKSIZE - 1) ?lo 8 =
      Some (take 120 (hbuf c1) @ be_bytes 8 ?lo @ drop 128 (hbuf c1))"
    using f(7) by (simp add: put_count_bytes memcpy_Some SHA512_BLOCKSIZE_def MAX_BLOCKSIZE_def)
  have p2: "put_count (take 120 (hbuf c1) @ be_bytes 8 ?lo @ drop 128 (hbuf c1)) (SHA512_BLOCKSIZE - 9) ?hi 8 = Some b2"
    using f(7) by (simp add: put_count_bytes memcpy_Some SHA512_BLOCKSIZE_def MAX_BLOCKSIZE_def b2)
  have "cnt = be_bytes 16 (of_nat (8 * length msg) :: 128 word)"
    unfolding cnt_def n using be_bytes_16 [OF len] .
  then have "concat (map (be_bytes 8) (hstate c2)) = fips_sha512 msg"
    using f(5) unfolding fips_sha512_def SHA512_BLOCKSIZE_def sha512_run_fips
    by (simp add: sha512_h0_def sha512_init_def init_context_def del: of_nat_mult)
  moreover have "put_state64 c2 8 = Some (concat (map (be_bytes 8) (take 8 (hstate c2))) @ drop (8 * 8) (hbuf c2))"
    using f(5,6) by (intro put_state64_bytes) simp_all
  moreover have "take 8 (hstate c2) = hstate c2" using f(5) by simp
  ultimately have "put_state64 c2 8 = Some (fips_sha512 msg @ drop 64 (hbuf c2))" by simp
  with f p1 p2 show ?thesis
    unfolding sha512_final_def n count_mod_128
    by (simp add: Let_def SHA512_BLOCKSIZE_def SHA512_HASHSIZE_def MAX_BLOCKSIZE_def)
qed

interpretation sha512_stream: hash_stream sha512_transform sha512_compress SHA512_BLOCKSIZE sha512_h0 sha512_init
    sha512_write sha512_final "\<lambda>msg buf len. len \<le> length buf" fips_sha512
proof unfold_locales
  show "sha512_init = \<lparr> hbuf = replicate MAX_BLOCKSIZE 0, hstate = sha512_h0, bytecount = 0 \<rparr>"
    by (simp add: sha512_h0_def sha512_init_def init_context_def zero_context_def)
qed (assumption | rule sha512_write_absorbs sha512_final_digest)+

end
