(* ===== verification/Hash_MD5.thy ===== *)
theory Hash_MD5
  imports Hash_SHA2
begin

text \<open>
  MD5 as in \<open>src/src/hash.c\<close> and its equality with RFC 1321.
\<close>

section \<open>MD5: the code\<close>

definition MD5_BLOCKSIZE :: nat where
  "MD5_BLOCKSIZE = 64"

definition MD5_HASHSIZE :: nat where
  "MD5_HASHSIZE = 16"

definition md5_init :: HASH_CONTEXT where
  "md5_init = init_context [0x67452301, 0xefcdab89, 0x98badcfe, 0x10325476]"

definition md5_F1 :: "u32 \<Rightarrow> u32 \<Rightarrow> u32 \<Rightarrow> u32" where
  "md5_F1 x y z = (z XOR (x AND (y XOR z)))"

definition md5_F2 :: "u32 \<Rightarrow> u32 \<Rightarrow> u32 \<Rightarrow> u32" where
  "md5_F2 x y z = md5_F1 z x y"

definition md5_F3 :: "u32 \<Rightarrow> u32 \<Rightarrow> u32 \<Rightarrow> u32" where
  "md5_F3 x y z = (x XOR y XOR z)"

definition md5_F4 :: "u32 \<Rightarrow> u32 \<Rightarrow> u32 \<Rightarrow> u32" where
  "md5_F4 x y z = (y XOR (x OR NOT z))"

text \<open>The 64 steps: the index into \<open>x\<close>, the constant added to it, the rotation.\<close>

definition md5_steps :: "(nat \<times> u32 \<times> nat) list" where
  "md5_steps =
     [(0, 0xd76aa478, 7), (1, 0xe8c7b756, 12), (2, 0x242070db, 17), (3, 0xc1bdceee, 22),
      (4, 0xf57c0faf, 7), (5, 0x4787c62a, 12), (6, 0xa8304613, 17), (7, 0xfd469501, 22),
      (8, 0x698098d8, 7), (9, 0x8b44f7af, 12), (10, 0xffff5bb1, 17), (11, 0x895cd7be, 22),
      (12, 0x6b901122, 7), (13, 0xfd987193, 12), (14, 0xa679438e, 17), (15, 0x49b40821, 22),
      (1, 0xf61e2562, 5), (6, 0xc040b340, 9), (11, 0x265e5a51, 14), (0, 0xe9b6c7aa, 20),
      (5, 0xd62f105d, 5), (10, 0x02441453, 9), (15, 0xd8a1e681, 14), (4, 0xe7d3fbc8, 20),
      (9, 0x21e1cde6, 5), (14, 0xc33707d6, 9), (3, 0xf4d50d87, 14), (8, 0x455a14ed, 20),
      (13, 0xa9e3e905, 5), (2, 0xfcefa3f8, 9), (7, 0x676f02d9, 14), (12, 0x8d2a4c8a, 20),
      (5, 0xfffa3942, 4), (8, 0x8771f681, 11), (11, 0x6d9d6122, 16), (14, 0xfde5380c, 23),
      (1, 0xa4beea44, 4), (4, 0x4bdecfa9, 11), (7, 0xf6bb4b60, 16), (10, 0xbebfbc70, 23),
      (13, 0x289b7ec6, 4), (0, 0xeaa127fa, 11), (3, 0xd4ef3085, 16), (6, 0x04881d05, 23),
      (9, 0xd9d4d039, 4), (12, 0xe6db99e5, 11), (15, 0x1fa27cf8, 16), (2, 0xc4ac5665, 23),
      (0, 0xf4292244, 6), (7, 0x432aff97, 10), (14, 0xab9423a7, 15), (5, 0xfc93a039, 21),
      (12, 0x655b59c3, 6), (3, 0x8f0ccc92, 10), (10, 0xffeff47d, 15), (1, 0x85845dd1, 21),
      (8, 0x6fa87e4f, 6), (15, 0xfe2ce6e0, 10), (6, 0xa3014314, 15), (13, 0x4e0811a1, 21),
      (4, 0xf7537e82, 6), (11, 0xbd3af235, 10), (2, 0x2ad7d2bb, 15), (9, 0xeb86d391, 21)]"

definition md5_f :: "nat \<Rightarrow> u32 \<Rightarrow> u32 \<Rightarrow> u32 \<Rightarrow> u32" where
  "md5_f i = (if i < 16 then md5_F1 else if i < 32 then md5_F2 else if i < 48 then md5_F3 else md5_F4)"

text \<open>The macro \<open>MD5STEP\<close> on the variables \<open>v\<close> with the names of step \<open>i\<close>.\<close>

definition MD5STEP :: "nat \<Rightarrow> (u32 \<Rightarrow> u32 \<Rightarrow> u32 \<Rightarrow> u32) \<Rightarrow> u32 \<Rightarrow> nat \<Rightarrow> u32 list \<Rightarrow> u32 list" where
  "MD5STEP i f data s v =
     (let w = reg 4 0 i; x = reg 4 1 i; y = reg 4 2 i; z = reg 4 3 i;
          v1 = v[w := v ! w + (f (v ! x) (v ! y) (v ! z) + data)];
          v2 = v1[w := (push_bit s (v1 ! w) OR drop_bit (32 - s) (v1 ! w))]
      in v2[w := v2 ! w + v2 ! x])"

definition md5_round :: "u32 list \<Rightarrow> nat \<Rightarrow> u32 list \<Rightarrow> u32 list" where
  "md5_round x i v = (case md5_steps ! i of (k, c, s) \<Rightarrow> MD5STEP i (md5_f i) (x ! k + c) s v)"

definition md5_transform :: "HASH_CONTEXT \<Rightarrow> u8 list \<Rightarrow> HASH_CONTEXT option" where
  "md5_transform ctx data =
     (if length data < 64 \<or> length (hstate ctx) < 4 then None
      else
        let st = hstate ctx;
            v0 = map (\<lambda>k. ucast (st ! k)) [0..<4];
            x = map (\<lambda>k. load_le (slice (4 * k) 4 data)) [0..<16];
            v = fold (md5_round x) [0..<64] v0
        in Some (ctx\<lparr> hstate := map (\<lambda>k. st ! k + ucast (v ! k)) [0..<4] @ drop 4 st \<rparr>))"

text \<open>In the first branch the code copies \<open>num\<close> bytes, not \<open>len\<close>.\<close>

definition md5_write :: "HASH_CONTEXT \<Rightarrow> u8 list \<Rightarrow> nat \<Rightarrow> HASH_CONTEXT option" where
  "md5_write ctx buf len =
     (let num = unat (bytecount ctx AND 63);
          ctx0 = ctx\<lparr> bytecount := bytecount ctx + of_nat len \<rparr>;
          n = MD5_BLOCKSIZE - num
      in if num \<noteq> 0 \<and> len < n then do {
           b \<leftarrow> memcpy (hbuf ctx0) num buf n;
           Some (ctx0\<lparr> hbuf := b \<rparr>)
         }
         else do {
           (ctx1, buf1, len1) \<leftarrow>
             (if num \<noteq> 0 then do {
                b \<leftarrow> memcpy (hbuf ctx0) num buf n;
                c \<leftarrow> md5_transform (ctx0\<lparr> hbuf := b \<rparr>) b;
                Some (c, drop n buf, len - n)
              } else Some (ctx0, buf, len));
           (ctx2, buf2, len2) \<leftarrow> hash_blocks md5_transform MD5_BLOCKSIZE ctx1 buf1 len1;
           b \<leftarrow> memcpy (hbuf ctx2) 0 buf2 len2;
           Some (ctx2\<lparr> hbuf := b \<rparr>)
         })"

text \<open>The stores of a 64-bit count, least significant byte first, from offset \<open>off\<close> on.\<close>

fun put_count_le :: "u8 list \<Rightarrow> nat \<Rightarrow> u64 \<Rightarrow> nat \<Rightarrow> u8 list option" where
  "put_count_le buf off v 0 = Some buf"
| "put_count_le buf off v (Suc k) = do {
     buf' \<leftarrow> put_count_le buf off v k;
     aset buf' (off + k) (ucast (drop_bit (8 * k) v))
   }"

fun put_state_le :: "HASH_CONTEXT \<Rightarrow> nat \<Rightarrow> u8 list option" where
  "put_state_le ctx 0 = Some (hbuf ctx)"
| "put_state_le ctx (Suc k) = do {
     b \<leftarrow> put_state_le ctx k;
     s \<leftarrow> aget (hstate ctx) k;
     memcpy b (4 * k) (store_le 4 (ucast s :: u32)) 4
   }"

definition md5_final :: "HASH_CONTEXT \<Rightarrow> HASH_CONTEXT option" where
  "md5_final ctx =
     (let count = unat (bytecount ctx AND 63);
          bitcount = push_bit 3 (bytecount ctx);
          count1 = (MD5_BLOCKSIZE - 1) - count
      in do {
        b \<leftarrow> aset (hbuf ctx) count 0x80;
        c1 \<leftarrow> (if count1 < 8 then do {
                 b1 \<leftarrow> memset b (Suc count) 0 count1;
                 c \<leftarrow> md5_transform (ctx\<lparr> hbuf := b1 \<rparr>) b1;
                 b2 \<leftarrow> memset (hbuf c) 0 0 (MD5_BLOCKSIZE - 8);
                 Some (c\<lparr> hbuf := b2 \<rparr>)
               }
               else do {
                 b1 \<leftarrow> memset b (Suc count) 0 (count1 - 8);
                 Some (ctx\<lparr> hbuf := b1 \<rparr>)
               });
        b3 \<leftarrow> put_count_le (hbuf c1) (MD5_BLOCKSIZE - 8) bitcount 8;
        c2 \<leftarrow> md5_transform (c1\<lparr> hbuf := b3 \<rparr>) b3;
        b4 \<leftarrow> put_state_le c2 4;
        Some (c2\<lparr> hbuf := b4 \<rparr>)
      })"

section \<open>RFC 1321\<close>

definition rfc_F :: "u32 \<Rightarrow> u32 \<Rightarrow> u32 \<Rightarrow> u32" where
  "rfc_F x y z = ((x AND y) OR (NOT x AND z))"

definition rfc_G :: "u32 \<Rightarrow> u32 \<Rightarrow> u32 \<Rightarrow> u32" where
  "rfc_G x y z = ((x AND z) OR (y AND NOT z))"

definition rfc_H :: "u32 \<Rightarrow> u32 \<Rightarrow> u32 \<Rightarrow> u32" where
  "rfc_H x y z = (x XOR y XOR z)"

definition rfc_I :: "u32 \<Rightarrow> u32 \<Rightarrow> u32 \<Rightarrow> u32" where
  "rfc_I x y z = (y XOR (x OR NOT z))"

definition rfc_fun :: "nat \<Rightarrow> u32 \<Rightarrow> u32 \<Rightarrow> u32 \<Rightarrow> u32" where
  "rfc_fun i = [rfc_F, rfc_G, rfc_H, rfc_I] ! (i div 16)"

definition rfc_index :: "nat \<Rightarrow> nat" where
  "rfc_index i = [i, 5 * i + 1, 3 * i + 5, 7 * i] ! (i div 16) mod 16"

definition rfc_shift :: "nat \<Rightarrow> nat" where
  "rfc_shift i = [[7, 12, 17, 22], [5, 9, 14, 20], [4, 11, 16, 23], [6, 10, 15, 21]] ! (i div 16) ! (i mod 4)"

text \<open>The table \<open>T\<close> of the RFC (the sine constants), which the code has in its 64 lines.\<close>

definition rfc_T :: "nat \<Rightarrow> u32" where
  "rfc_T i = fst (snd (md5_steps ! i))"

definition rfc_step :: "u32 list \<Rightarrow> nat \<Rightarrow> u32 list \<Rightarrow> u32 list" where
  "rfc_step X i v =
     (case v of [a, b, c, d] \<Rightarrow>
        [d, b + word_rotl (rfc_shift i) (a + rfc_fun i b c d + X ! rfc_index i + rfc_T i), b, c]
      | _ \<Rightarrow> v)"

definition rfc_words :: "u8 list \<Rightarrow> u32 list" where
  "rfc_words blk = map (\<lambda>k. load_le (slice (4 * k) 4 blk)) [0..<16]"

definition rfc_md5_block :: "u32 list \<Rightarrow> u8 list \<Rightarrow> u32 list" where
  "rfc_md5_block H blk = map2 (+) H (fold (rfc_step (rfc_words blk)) [0..<64] H)"

definition rfc_md5 :: "u8 list \<Rightarrow> u8 list" where
  "rfc_md5 msg = concat (map (store_le 4)
     (run_blocks rfc_md5_block 64 [0x67452301, 0xefcdab89, 0x98badcfe, 0x10325476]
        (sha_pad 64 (store_le 8 (of_nat (8 * length msg) :: u64)) msg)))"

section \<open>The transform is the one of the RFC\<close>

lemma md5_steps_rfc: "i < 64 \<Longrightarrow> md5_steps ! i = (rfc_index i, rfc_T i, rfc_shift i) \<and> 0 < rfc_shift i \<and> rfc_shift i < 32"
proof -
  have "\<forall>i \<in> set [0..<64]. md5_steps ! i = (rfc_index i, rfc_T i, rfc_shift i) \<and> 0 < rfc_shift i \<and> rfc_shift i < 32"
    by code_simp
  then show "i < 64 \<Longrightarrow> md5_steps ! i = (rfc_index i, rfc_T i, rfc_shift i) \<and> 0 < rfc_shift i \<and> rfc_shift i < 32"
    by auto
qed

lemma md5_F_rfc: "md5_F1 = rfc_F" "md5_F2 = rfc_G" "md5_F3 = rfc_H" "md5_F4 = rfc_I"
proof -
  show "md5_F1 = rfc_F" by (intro ext, rule bit_word_eqI) (auto simp: md5_F1_def rfc_F_def bit_simps)
  show "md5_F2 = rfc_G" by (intro ext, rule bit_word_eqI) (auto simp: md5_F1_def md5_F2_def rfc_G_def bit_simps)
qed (simp_all add: fun_eq_iff md5_F3_def md5_F4_def rfc_H_def rfc_I_def)

lemma md5_f_rfc:
  assumes "i < 64"
  shows "md5_f i = rfc_fun i"
proof -
  consider "i div 16 = 0" "i < 16" | "i div 16 = 1" "16 \<le> i" "i < 32" | "i div 16 = 2" "32 \<le> i" "i < 48"
    | "i div 16 = 3" "48 \<le> i"
    using assms by linarith
  then show ?thesis by cases (simp_all add: md5_f_def rfc_fun_def md5_F_rfc)
qed

lemma list4: "length v = 4 \<Longrightarrow> \<exists>a b c d. v = [a, b, c, d]"
  by (auto simp: length_Suc_conv numeral_eq_Suc)

lemma md5_round_view:
  assumes "length v = 4" and "i < 64"
  shows "view 4 (Suc i) (md5_round X i v) = rfc_step X i (view 4 i v)"
proof -
  obtain a b c d where v: "view 4 i v = [a, b, c, d]" using list4 [of "view 4 i v"] by auto
  have n: "v ! reg 4 0 i = a" "v ! reg 4 1 i = b" "v ! reg 4 2 i = c" "v ! reg 4 3 i = d"
    using v nth_view [of 0 4 i v] nth_view [of 1 4 i v] nth_view [of 2 4 i v] nth_view [of 3 4 i v] by simp_all
  note st = md5_steps_rfc [OF assms(2)]
  let ?w = "a + (rfc_fun i b c d + (X ! rfc_index i + rfc_T i))"
  have "reg 4 0 i \<noteq> reg 4 1 i" by (simp add: reg_inj)
  moreover have "push_bit (rfc_shift i) ?w OR drop_bit (32 - rfc_shift i) ?w = word_rotl (rfc_shift i) ?w"
    using ROL32_rot [of "rfc_shift i" ?w] st by (simp add: ROL32_def)
  ultimately have "md5_round X i v = v[reg 4 0 i := word_rotl (rfc_shift i) ?w + b]"
    using n st assms by (simp add: md5_round_def MD5STEP_def Let_def md5_f_rfc)
  then have "view 4 i (md5_round X i v) = [word_rotl (rfc_shift i) ?w + b, b, c, d]"
    using assms v by (simp add: view_update)
  then show ?thesis using v by (simp add: view_Suc rfc_step_def ac_simps)
qed

lemma md5_round_length [simp]: "length (md5_round X i v) = length v"
  by (simp add: md5_round_def MD5STEP_def Let_def split: prod.split)

lemma rfc_step_length: "length v = 4 \<Longrightarrow> length (rfc_step X i v) = 4"
  by (auto simp: rfc_step_def dest!: list4)

lemma md5_rounds:
  assumes "length v0 = 4"
  shows "fold (md5_round X) [0..<64] v0 = fold (rfc_step X) [0..<64] v0"
proof -
  define I where "I i v \<longleftrightarrow> length v = 4 \<and> view 4 i v = fold (rfc_step X) [0..<i] v0" for i v
  define r where "r = fold (md5_round X) [0..<64] v0"
  have fin: "I 64 r" unfolding r_def
    by (rule fold_rounds) (use assms in \<open>simp_all add: I_def view_multiple md5_round_view\<close>)
  then have "length r = 4" by (simp only: I_def)
  then have "view 4 64 r = r" by (intro view_multiple) simp_all
  with fin show ?thesis unfolding r_def [symmetric] by (simp only: I_def)
qed

definition md5_compress :: "u64 list \<Rightarrow> u8 list \<Rightarrow> u64 list" where
  "md5_compress st blk =
     (let v = fold (rfc_step (rfc_words blk)) [0..<64] (low32 4 st)
      in map (\<lambda>k. st ! k + ucast (v ! k)) [0..<4] @ drop 4 st)"

lemma md5_transform_compress:
  assumes "length (hstate ctx) = 8" and "MD5_BLOCKSIZE \<le> length data"
  shows "md5_transform ctx data =
    Some (ctx\<lparr> hstate := md5_compress (hstate ctx) (take MD5_BLOCKSIZE data) \<rparr>)"
proof -
  have "map (\<lambda>k. load_le (slice (4 * k) 4 data)) [0..<16] = rfc_words (take 64 data)"
    by (auto simp: rfc_words_def slice_def drop_take min_def)
  with md5_rounds [of "low32 4 (hstate ctx)" "rfc_words (take 64 data)"] assms show ?thesis
    by (simp add: md5_transform_def md5_compress_def Let_def MD5_BLOCKSIZE_def low32_def)
qed

lemma md5_compress_length: "length st = 8 \<Longrightarrow> length (md5_compress st blk) = 8"
  by (simp add: md5_compress_def Let_def)

lemma md5_compress_rfc:
  assumes "length st = 8"
  shows "low32 4 (md5_compress st blk) = rfc_md5_block (low32 4 st) blk"
proof (rule nth_equalityI)
  define v where "v = fold (rfc_step (rfc_words blk)) [0..<64] (low32 4 st)"
  have lv: "length v = 4" unfolding v_def by (rule fold_step_length) (simp_all add: rfc_step_length)
  then show "length (low32 4 (md5_compress st blk)) = length (rfc_md5_block (low32 4 st) blk)"
    by (simp add: rfc_md5_block_def v_def [symmetric])
  fix k assume "k < length (low32 4 (md5_compress st blk))"
  then have k: "k < 4" by simp
  have "md5_compress st blk ! k = st ! k + ucast (v ! k)"
    using k by (simp add: md5_compress_def v_def [symmetric] nth_append)
  then show "low32 4 (md5_compress st blk) ! k = rfc_md5_block (low32 4 st) blk ! k"
    using k lv by (simp add: nth_low32 rfc_md5_block_def v_def [symmetric] ucast_add_low)
qed

section \<open>MD5 as a stream\<close>

definition md5_h0 :: "u64 list" where
  "md5_h0 = hstate md5_init"

interpretation md5: block_hash md5_transform md5_compress MD5_BLOCKSIZE md5_h0
  by unfold_locales
    (simp_all add: md5_transform_compress md5_compress_length md5_h0_def md5_init_def init_context_def
      zero_context_def MD5_BLOCKSIZE_def MAX_BLOCKSIZE_def)

text \<open>
  The bytes \<open>md5_write\<close> reads: when the new data does not complete the current block, it
  still reads as many bytes as would complete it.
\<close>

definition md5_readable :: "u8 list \<Rightarrow> u8 list \<Rightarrow> nat \<Rightarrow> bool" where
  "md5_readable msg buf len \<longleftrightarrow> len \<le> length buf \<and>
     (let num = length msg mod 64 in num \<noteq> 0 \<and> len < 64 - num \<longrightarrow> 64 - num \<le> length buf)"

lemma md5_write_absorbs:
  assumes abs: "absorbed md5_compress MD5_BLOCKSIZE md5_h0 msg ctx" and n: "bytecount ctx = of_nat (length msg)"
    and rd: "md5_readable msg buf len"
  shows "\<exists>ctx'. md5_write ctx buf len = Some ctx' \<and>
     absorbed md5_compress MD5_BLOCKSIZE md5_h0 (msg @ take len buf) ctx' \<and>
     bytecount ctx' = bytecount ctx + of_nat len"
proof -
  let ?num = "length msg mod 64"
  have num: "unat (bytecount ctx AND 63) = ?num" by (simp add: n count_mod_64)
  show ?thesis
  proof (cases "?num \<noteq> 0 \<and> len < MD5_BLOCKSIZE - ?num")
    case True
    let ?c0 = "ctx\<lparr> bytecount := bytecount ctx + of_nat len \<rparr>"
    have p0: "pending md5_compress MD5_BLOCKSIZE md5_h0 msg ?num ?c0"
      using absorbed_pending [OF abs] by (simp add: MD5_BLOCKSIZE_def)
    have fits: "?num + len < MD5_BLOCKSIZE" using True by linarith
    obtain b where b: "memcpy (hbuf ?c0) ?num buf (MD5_BLOCKSIZE - ?num) = Some b"
      "pending md5_compress MD5_BLOCKSIZE md5_h0 (msg @ take len buf) (?num + len) (?c0\<lparr> hbuf := b \<rparr>)"
      using md5.write_short [OF p0 fits, of "MD5_BLOCKSIZE - ?num" buf] True rd
      by (auto simp: md5_readable_def MD5_BLOCKSIZE_def Let_def)
    have "md5_write ctx buf len = Some (?c0\<lparr> hbuf := b \<rparr>)"
      using True b(1) unfolding md5_write_def num Let_def by simp
    then show ?thesis using pending_absorbed(1) [OF b(2) fits] by simp
  next
    case False
    have "md5_write ctx buf len = stream_write md5_transform MD5_BLOCKSIZE ?num ctx buf len"
      unfolding md5_write_def stream_write_def num Let_def if_not_P [OF False] by simp
    then show ?thesis
      using md5.stream_write_absorbs [OF abs, of len buf ?num] rd by (simp add: md5_readable_def MD5_BLOCKSIZE_def)
  qed
qed

lemma put_count_le_bytes:
  "off + k \<le> length buf \<Longrightarrow> put_count_le buf off v k = memcpy buf off (store_le k v) k"
proof (induction k)
  case (Suc k)
  have "store_le (Suc k) v = store_le k v @ [ucast (drop_bit (8 * k) v)]" by (simp add: store_le_def)
  moreover have "drop (off + k) buf = buf ! (off + k) # drop (Suc (off + k)) buf"
    using Suc.prems by (intro Cons_nth_drop_Suc [symmetric]) simp
  ultimately show ?case using Suc by (simp add: array_simps list_update_append)
qed (simp add: memcpy_def)

lemma put_state_le_bytes:
  "length (hbuf ctx) = MAX_BLOCKSIZE \<Longrightarrow> n \<le> length (hstate ctx) \<Longrightarrow> n \<le> 8 \<Longrightarrow>
   put_state_le ctx n = Some (concat (map (store_le 4) (low32 n (hstate ctx))) @ drop (4 * n) (hbuf ctx))"
proof (induction n)
  case (Suc n)
  have "length (concat (map (store_le 4) (low32 n (hstate ctx)))) = 4 * n"
    by (simp add: length_concat o_def sum_list_triv)
  moreover have "low32 (Suc n) (hstate ctx) = low32 n (hstate ctx) @ [ucast (hstate ctx ! n)]"
    by (simp add: low32_def)
  ultimately show ?case using Suc by (simp add: array_simps MAX_BLOCKSIZE_def)
qed (simp add: low32_def)

text \<open>The padding of \<open>md5_final\<close>, up to the length field.\<close>

lemma md5_pad:
  assumes p: "pending md5_compress MD5_BLOCKSIZE md5_h0 msg (Suc count) ctx" and c: "count < 64"
    and z: "z = (if Suc count \<le> 56 then 56 - Suc count else 64 - Suc count + 56)"
  shows "\<exists>c1. (if 63 - count < 8 then do {
             b1 \<leftarrow> memset (hbuf ctx) (Suc count) 0 (63 - count);
             c \<leftarrow> md5_transform (ctx\<lparr> hbuf := b1 \<rparr>) b1;
             b2 \<leftarrow> memset (hbuf c) 0 0 (MD5_BLOCKSIZE - 8);
             Some (c\<lparr> hbuf := b2 \<rparr>)
           }
           else do {
             b1 \<leftarrow> memset (hbuf ctx) (Suc count) 0 (63 - count - 8);
             Some (ctx\<lparr> hbuf := b1 \<rparr>)
           }) = Some c1 \<and>
     pending md5_compress MD5_BLOCKSIZE md5_h0 (msg @ replicate z 0) 56 c1"
proof (cases "63 - count < 8")
  case True
  let ?n = "63 - count"
  obtain b c where f: "memset (hbuf ctx) (Suc count) 0 ?n = Some b" "md5_transform (ctx\<lparr> hbuf := b \<rparr>) b = Some c"
    "pending md5_compress MD5_BLOCKSIZE md5_h0 (msg @ replicate ?n 0) 0 c"
    using md5.write_fill [OF p, of ?n "replicate ?n 0"] c by (auto simp: MD5_BLOCKSIZE_def memset_def)
  have "0 + 56 < MD5_BLOCKSIZE" by (simp add: MD5_BLOCKSIZE_def)
  from md5.write_short [OF f(3) this, of 56 "replicate 56 0"]
  obtain b2 where g: "memset (hbuf c) 0 0 56 = Some b2"
    "pending md5_compress MD5_BLOCKSIZE md5_h0 ((msg @ replicate ?n 0) @ replicate 56 0) 56 (c\<lparr> hbuf := b2 \<rparr>)"
    by (auto simp: MD5_BLOCKSIZE_def memset_def)
  have "z = ?n + 56" using True c z by simp
  then show ?thesis using f(1,2) g True
    by (intro exI [of _ "c\<lparr> hbuf := b2 \<rparr>"]) (simp add: MD5_BLOCKSIZE_def replicate_add)
next
  case False
  let ?n = "63 - count - 8"
  have "Suc count + ?n < MD5_BLOCKSIZE" using False by (simp add: MD5_BLOCKSIZE_def)
  from md5.write_short [OF p this, of ?n "replicate ?n 0"] False
  obtain b where f: "memset (hbuf ctx) (Suc count) 0 ?n = Some b"
    "pending md5_compress MD5_BLOCKSIZE md5_h0 (msg @ replicate ?n 0) (Suc count + ?n) (ctx\<lparr> hbuf := b \<rparr>)"
    by (auto simp: MD5_BLOCKSIZE_def memset_def)
  have "z = ?n" "Suc count + ?n = 56" using False c z by simp_all
  then show ?thesis using f False by (intro exI [of _ "ctx\<lparr> hbuf := b \<rparr>"]) simp
qed

lemma rfc_md5_block_length: "length H = 4 \<Longrightarrow> length (rfc_md5_block H blk) = 4"
  using fold_step_length [of 4 "rfc_step (rfc_words blk)" H "[0..<64]"]
  by (simp only: rfc_md5_block_def rfc_step_length length_map length_zip min.idem)

lemma md5_run_rfc:
  "low32 4 (run_blocks md5_compress 64 md5_h0 msg) = run_blocks rfc_md5_block 64 (low32 4 md5_h0) msg"
  using run_blocks_sim [where P = "\<lambda>st. length st = 8" and c = md5_compress and ab = "low32 4"
      and c' = rfc_md5_block, of 64 md5_h0 msg]
  by (simp add: md5_compress_length md5_compress_rfc md5.h0_length)

lemma md5_h0_low: "low32 4 md5_h0 = [0x67452301, 0xefcdab89, 0x98badcfe, 0x10325476]"
  by (simp add: md5_h0_def md5_init_def init_context_def low32_def upt_rec nth_Cons')

lemma length_le4: "length (concat (map (store_le 4) ws)) = 4 * length ws"
  by (simp add: length_concat o_def sum_list_triv)

lemma length_rfc_md5 [simp]: "length (rfc_md5 msg) = MD5_HASHSIZE"
  unfolding rfc_md5_def length_le4
  by (subst run_blocks_length [where n = 4]) (simp_all add: rfc_md5_block_length MD5_HASHSIZE_def)

lemma md5_final_digest:
  assumes abs: "absorbed md5_compress MD5_BLOCKSIZE md5_h0 msg ctx" and n: "bytecount ctx = of_nat (length msg)"
  shows "\<exists>ctx'. md5_final ctx = Some ctx' \<and>
     take (length (rfc_md5 msg)) (hbuf ctx') = rfc_md5 msg \<and> length (hbuf ctx') = MAX_BLOCKSIZE"
proof -
  let ?pos = "length msg mod 64" and ?bits = "push_bit 3 (bytecount ctx)"
  let ?z = "if Suc ?pos \<le> 56 then 56 - Suc ?pos else 64 - Suc ?pos + 56"
  have lt: "?pos < MD5_BLOCKSIZE" by (simp add: MD5_BLOCKSIZE_def)
  have p0: "pending md5_compress MD5_BLOCKSIZE md5_h0 msg ?pos ctx"
    using absorbed_pending [OF abs] by (simp add: MD5_BLOCKSIZE_def)
  note push = md5.pending_push [OF p0 lt, of "0x80"]
  let ?c = "ctx\<lparr> hbuf := (hbuf ctx)[?pos := 0x80] \<rparr>"
  have c64: "?pos < 64" by simp
  obtain c1 where c1: "(if 63 - ?pos < 8 then do {
             b1 \<leftarrow> memset (hbuf ?c) (Suc ?pos) 0 (63 - ?pos);
             c \<leftarrow> md5_transform (?c\<lparr> hbuf := b1 \<rparr>) b1;
             b2 \<leftarrow> memset (hbuf c) 0 0 (MD5_BLOCKSIZE - 8);
             Some (c\<lparr> hbuf := b2 \<rparr>)
           }
           else do {
             b1 \<leftarrow> memset (hbuf ?c) (Suc ?pos) 0 (63 - ?pos - 8);
             Some (?c\<lparr> hbuf := b1 \<rparr>)
           }) = Some c1"
    "pending md5_compress MD5_BLOCKSIZE md5_h0 ((msg @ [0x80]) @ replicate ?z 0) 56 c1"
    using md5_pad [OF push(2) c64 refl] by blast
  obtain b3 c2 where c2: "memcpy (hbuf c1) 56 (store_le 8 ?bits) 8 = Some b3" "md5_transform (c1\<lparr> hbuf := b3 \<rparr>) b3 = Some c2"
    "pending md5_compress MD5_BLOCKSIZE md5_h0 (((msg @ [0x80]) @ replicate ?z 0) @ take 8 (store_le 8 ?bits)) 0 c2"
    using md5.write_fill [OF c1(2), of 8 "store_le 8 ?bits"] by (auto simp: MD5_BLOCKSIZE_def)
  have "length (hbuf c1) = MAX_BLOCKSIZE" using c1(2) by (simp add: pending_def)
  then have pc: "put_count_le (hbuf c1) (MD5_BLOCKSIZE - 8) ?bits 8 = Some b3"
    using c2(1) by (simp add: put_count_le_bytes MD5_BLOCKSIZE_def MAX_BLOCKSIZE_def)
  have "?z = (64 - (?pos + 1 + 8) mod 64) mod 64" by (rule pad_zeros) simp_all
  also have "(?pos + 1 + 8) mod 64 = (length msg + 1 + 8) mod 64" by (metis mod_add_left_eq)
  finally have "((msg @ [0x80]) @ replicate ?z 0) @ take 8 (store_le 8 ?bits) = sha_pad 64 (store_le 8 ?bits) msg"
    by (simp add: sha_pad_def)
  then have st: "hstate c2 = run_blocks md5_compress 64 md5_h0 (sha_pad 64 (store_le 8 ?bits) msg)"
    and lb: "length (hbuf c2) = MAX_BLOCKSIZE"
    using c2(3) by (auto simp: pending_def MD5_BLOCKSIZE_def)
  have "?bits = of_nat (8 * length msg)" by (simp add: n push_bit_eq_mult mult.commute)
  then have "concat (map (store_le 4) (low32 4 (hstate c2))) = rfc_md5 msg"
    by (simp add: st rfc_md5_def md5_run_rfc md5_h0_low [symmetric] del: of_nat_mult)
  moreover have "length (hstate c2) = 8" using st md5.run_length by (simp add: MD5_BLOCKSIZE_def)
  ultimately have "put_state_le c2 4 = Some (rfc_md5 msg @ drop 16 (hbuf c2))"
    using put_state_le_bytes [OF lb, of 4] by simp
  then have "md5_final ctx = Some (c2\<lparr> hbuf := rfc_md5 msg @ drop 16 (hbuf c2) \<rparr>)"
    using push(1) c1(1) c2(2) pc unfolding md5_final_def n count_mod_64
    by (cases "63 - ?pos < 8") (auto simp: Let_def bind_eq_Some_conv MD5_BLOCKSIZE_def)
  then show ?thesis using lb by (simp add: MD5_HASHSIZE_def MAX_BLOCKSIZE_def)
qed

interpretation md5_stream: hash_stream md5_transform md5_compress MD5_BLOCKSIZE md5_h0 md5_init
    md5_write md5_final md5_readable rfc_md5
proof unfold_locales
  show "md5_init = \<lparr> hbuf = replicate MAX_BLOCKSIZE 0, hstate = md5_h0, bytecount = 0 \<rparr>"
    by (simp add: md5_h0_def md5_init_def init_context_def zero_context_def)
  show "md5_readable msg buf len \<Longrightarrow> len \<le> length buf" for msg buf len
    by (simp add: md5_readable_def)
qed (assumption | rule md5_write_absorbs md5_final_digest)+

end
