(* ===== verification/X86_Vectors.thy ===== *)
theory X86_Vectors
  imports Hash_SHA2
begin

text \<open>
  The vector intrinsics that the accelerated transforms of \<open>src/src/hash.c\<close> use, with the
  operation the processor manual gives for each instruction. A vector is four 32-bit lanes, the
  lowest first; in memory it is 16 bytes, the lowest first.
\<close>

datatype m128i = V u32 u32 u32 u32

fun lanes :: "m128i \<Rightarrow> u32 list" where
  "lanes (V a b c d) = [a, b, c, d]"

definition of_lanes :: "u32 list \<Rightarrow> m128i" where
  "of_lanes xs = V (xs ! 0) (xs ! 1) (xs ! 2) (xs ! 3)"

definition m_bytes :: "m128i \<Rightarrow> u8 list" where
  "m_bytes v = concat (map (store_le 4) (lanes v))"

definition of_bytes :: "u8 list \<Rightarrow> m128i" where
  "of_bytes bs = V (load_le (slice 0 4 bs)) (load_le (slice 4 4 bs)) (load_le (slice 8 4 bs)) (load_le (slice 12 4 bs))"

section \<open>Loads, moves and arithmetic\<close>

text \<open>A load from an array of bytes and one from an array of 32-bit words.\<close>

definition mm_loadu_si128 :: "u8 list \<Rightarrow> nat \<Rightarrow> m128i" where
  "mm_loadu_si128 mem off = of_bytes (slice off 16 mem)"

definition mm_loadu_words :: "u32 list \<Rightarrow> nat \<Rightarrow> m128i" where
  "mm_loadu_words ws off = of_lanes (drop off ws)"

definition mm_set_epi32 :: "u32 \<Rightarrow> u32 \<Rightarrow> u32 \<Rightarrow> u32 \<Rightarrow> m128i" where
  "mm_set_epi32 e3 e2 e1 e0 = V e0 e1 e2 e3"

definition mm_set_epi64x :: "u64 \<Rightarrow> u64 \<Rightarrow> m128i" where
  "mm_set_epi64x e1 e0 = V (ucast e0) (ucast (drop_bit 32 e0)) (ucast e1) (ucast (drop_bit 32 e1))"

definition mm_extract_epi32 :: "m128i \<Rightarrow> nat \<Rightarrow> u32" where
  "mm_extract_epi32 a imm = lanes a ! (imm mod 4)"

definition mm_shuffle_epi32 :: "m128i \<Rightarrow> nat \<Rightarrow> m128i" where
  "mm_shuffle_epi32 a imm = of_lanes (map (\<lambda>i. lanes a ! (imm div 4 ^ i mod 4)) [0..<4])"

definition mm_shuffle_epi8 :: "m128i \<Rightarrow> m128i \<Rightarrow> m128i" where
  "mm_shuffle_epi8 a b = of_bytes (map (\<lambda>m. if bit m 7 then 0 else m_bytes a ! unat (m AND 15)) (m_bytes b))"

definition mm_alignr_epi8 :: "m128i \<Rightarrow> m128i \<Rightarrow> nat \<Rightarrow> m128i" where
  "mm_alignr_epi8 a b imm = of_bytes (take 16 (drop imm (m_bytes b @ m_bytes a @ replicate imm 0)))"

definition mm_blend_epi16 :: "m128i \<Rightarrow> m128i \<Rightarrow> nat \<Rightarrow> m128i" where
  "mm_blend_epi16 a b imm =
     of_bytes (map (\<lambda>j. if odd (imm div 2 ^ (j div 2)) then m_bytes b ! j else m_bytes a ! j) [0..<16])"

fun mm_add_epi32 :: "m128i \<Rightarrow> m128i \<Rightarrow> m128i" where
  "mm_add_epi32 (V a0 a1 a2 a3) (V b0 b1 b2 b3) = V (a0 + b0) (a1 + b1) (a2 + b2) (a3 + b3)"

fun mm_xor_si128 :: "m128i \<Rightarrow> m128i \<Rightarrow> m128i" where
  "mm_xor_si128 (V a0 a1 a2 a3) (V b0 b1 b2 b3) = V (a0 XOR b0) (a1 XOR b1) (a2 XOR b2) (a3 XOR b3)"

section \<open>SHA-1 instructions\<close>

definition sha1_ni_f :: "nat \<Rightarrow> u32 \<Rightarrow> u32 \<Rightarrow> u32 \<Rightarrow> u32" where
  "sha1_ni_f i b c d =
     (if i = 0 then (b AND c) XOR (NOT b AND d)
      else if i = 2 then (b AND c) XOR (b AND d) XOR (c AND d)
      else b XOR c XOR d)"

definition sha1_ni_k :: "nat \<Rightarrow> u32" where
  "sha1_ni_k i = [0x5A827999, 0x6ED9EBA1, 0x8F1BBCDC, 0xCA62C1D6] ! (i mod 4)"

text \<open>One round; \<open>w\<close> is the word of the schedule with \<open>E\<close> added to it.\<close>

definition sha1_ni_round :: "nat \<Rightarrow> u32 \<Rightarrow> u32 \<times> u32 \<times> u32 \<times> u32 \<Rightarrow> u32 \<times> u32 \<times> u32 \<times> u32" where
  "sha1_ni_round i w s =
     (case s of (a, b, c, d) \<Rightarrow> (sha1_ni_f i b c d + word_rotl 5 a + w + sha1_ni_k i, a, word_rotl 30 b, c))"

fun mm_sha1rnds4_epu32 :: "m128i \<Rightarrow> m128i \<Rightarrow> nat \<Rightarrow> m128i" where
  "mm_sha1rnds4_epu32 (V d c b a) (V w3 w2 w1 w0e) i =
     (let s1 = sha1_ni_round i w0e (a, b, c, d);
          s2 = sha1_ni_round i (w1 + d) s1;
          s3 = sha1_ni_round i (w2 + snd (snd (snd s1))) s2;
          (a4, b4, c4, d4) = sha1_ni_round i (w3 + snd (snd (snd s2))) s3
      in V d4 c4 b4 a4)"

fun mm_sha1nexte_epu32 :: "m128i \<Rightarrow> m128i \<Rightarrow> m128i" where
  "mm_sha1nexte_epu32 (V _ _ _ a) (V b0 b1 b2 b3) = V b0 b1 b2 (b3 + word_rotl 30 a)"

fun mm_sha1msg1_epu32 :: "m128i \<Rightarrow> m128i \<Rightarrow> m128i" where
  "mm_sha1msg1_epu32 (V w3 w2 w1 w0) (V _ _ w5 w4) = V (w5 XOR w3) (w4 XOR w2) (w3 XOR w1) (w2 XOR w0)"

fun mm_sha1msg2_epu32 :: "m128i \<Rightarrow> m128i \<Rightarrow> m128i" where
  "mm_sha1msg2_epu32 (V a0 a1 a2 a3) (V w15 w14 w13 _) =
     (let w16 = word_rotl 1 (a3 XOR w13);
          w17 = word_rotl 1 (a2 XOR w14);
          w18 = word_rotl 1 (a1 XOR w15);
          w19 = word_rotl 1 (a0 XOR w16)
      in V w19 w18 w17 w16)"

section \<open>SHA-256 instructions\<close>

definition ni_Sigma0 :: "u32 \<Rightarrow> u32" where
  "ni_Sigma0 x = (word_rotr 2 x XOR word_rotr 13 x XOR word_rotr 22 x)"

definition ni_Sigma1 :: "u32 \<Rightarrow> u32" where
  "ni_Sigma1 x = (word_rotr 6 x XOR word_rotr 11 x XOR word_rotr 25 x)"

definition ni_sigma0 :: "u32 \<Rightarrow> u32" where
  "ni_sigma0 x = (word_rotr 7 x XOR word_rotr 18 x XOR drop_bit 3 x)"

definition ni_sigma1 :: "u32 \<Rightarrow> u32" where
  "ni_sigma1 x = (word_rotr 17 x XOR word_rotr 19 x XOR drop_bit 10 x)"

text \<open>One round on the eight working variables; \<open>wk\<close> is the word with the constant added.\<close>

definition sha256_ni_round :: "u32 \<Rightarrow> u32 list \<Rightarrow> u32 list" where
  "sha256_ni_round wk v =
     (case v of [a, b, c, d, e, f, g, h] \<Rightarrow>
        let t = ((e AND f) XOR (NOT e AND g)) + ni_Sigma1 e + wk + h
        in [t + ((a AND b) XOR (a AND c) XOR (b AND c)) + ni_Sigma0 a, a, b, c, t + d, e, f, g]
      | _ \<Rightarrow> v)"

fun mm_sha256rnds2_epu32 :: "m128i \<Rightarrow> m128i \<Rightarrow> m128i \<Rightarrow> m128i" where
  "mm_sha256rnds2_epu32 (V h g d c) (V f e b a) (V wk0 wk1 _ _) =
     (let v = sha256_ni_round wk1 (sha256_ni_round wk0 [a, b, c, d, e, f, g, h])
      in V (v ! 5) (v ! 4) (v ! 1) (v ! 0))"

fun mm_sha256msg1_epu32 :: "m128i \<Rightarrow> m128i \<Rightarrow> m128i" where
  "mm_sha256msg1_epu32 (V w0 w1 w2 w3) (V w4 _ _ _) =
     V (w0 + ni_sigma0 w1) (w1 + ni_sigma0 w2) (w2 + ni_sigma0 w3) (w3 + ni_sigma0 w4)"

fun mm_sha256msg2_epu32 :: "m128i \<Rightarrow> m128i \<Rightarrow> m128i" where
  "mm_sha256msg2_epu32 (V a0 a1 a2 a3) (V _ _ w14 w15) =
     (let w16 = a0 + ni_sigma1 w14;
          w17 = a1 + ni_sigma1 w15;
          w18 = a2 + ni_sigma1 w16;
          w19 = a3 + ni_sigma1 w17
      in V w16 w17 w18 w19)"

section \<open>Bytes and lanes\<close>

declare load_le.simps [simp del]

lemma load_store_le: "load_le (store_le 4 w) = (w :: u32)"
proof (rule bit_word_eqI)
  fix n assume "n < LENGTH(32)"
  then have n: "n < 32" "n div 8 < 4" by auto
  then have "[0..<4] ! (n div 8) = n div 8" by (simp del: upt_Suc)
  moreover have "8 * (n div 8) + n mod 8 = n" by simp
  ultimately show "bit (load_le (store_le 4 w) :: u32) n = bit w n" using n by (simp add: bit_load_le store_le_def bit_simps del: upt_Suc)
qed

lemma store_le_4: "store_le 4 w = [ucast w, ucast (drop_bit 8 w), ucast (drop_bit 16 w), ucast (drop_bit 24 w)]"
  by (simp add: store_le_def upt_rec)

lemma load_le_4 [simp]: "load_le [ucast w, ucast (drop_bit 8 w), ucast (drop_bit 16 w), ucast (drop_bit 24 w)] = (w :: u32)"
  using load_store_le [of w] by (simp add: store_le_4)

lemma m_bytes_V:
  "m_bytes (V a b c d) =
    [ucast a, ucast (drop_bit 8 a), ucast (drop_bit 16 a), ucast (drop_bit 24 a),
     ucast b, ucast (drop_bit 8 b), ucast (drop_bit 16 b), ucast (drop_bit 24 b),
     ucast c, ucast (drop_bit 8 c), ucast (drop_bit 16 c), ucast (drop_bit 24 c),
     ucast d, ucast (drop_bit 8 d), ucast (drop_bit 16 d), ucast (drop_bit 24 d)]"
  by (simp add: m_bytes_def store_le_4)

lemma of_bytes_list:
  "of_bytes [b0, b1, b2, b3, b4, b5, b6, b7, b8, b9, b10, b11, b12, b13, b14, b15] =
    V (load_le [b0, b1, b2, b3]) (load_le [b4, b5, b6, b7]) (load_le [b8, b9, b10, b11]) (load_le [b12, b13, b14, b15])"
  by (simp add: of_bytes_def slice_def)

lemma alignr_lanes:
  "mm_alignr_epi8 (V a0 a1 a2 a3) (V b0 b1 b2 b3) 4 = V b1 b2 b3 a0"
  "mm_alignr_epi8 (V a0 a1 a2 a3) (V b0 b1 b2 b3) 8 = V b2 b3 a0 a1"
  by (simp_all add: mm_alignr_epi8_def m_bytes_V of_bytes_list)

lemma blend_lanes: "mm_blend_epi16 (V a0 a1 a2 a3) (V b0 b1 b2 b3) 0xF0 = V a0 a1 b2 b3"
  by (simp add: mm_blend_epi16_def m_bytes_V upt_rec of_bytes_list)

lemma shuffle_lanes:
  "mm_shuffle_epi32 (V a b c d) 0x1B = V d c b a"
  "mm_shuffle_epi32 (V a b c d) 0xB1 = V b a d c"
  "mm_shuffle_epi32 (V a b c d) 0x0E = V c d a a"
  by (simp_all add: mm_shuffle_epi32_def of_lanes_def upt_rec)

lemma store_le_4_load: "store_le 4 (load_le [b0, b1, b2, b3] :: u32) = [b0, b1, b2, b3]"
  using store_load_le [of "[b0, b1, b2, b3]", where 'a = 32] by (simp add: numeral_eq_Suc)

lemma m_bytes_of_bytes:
  assumes "length bs = 16"
  shows "m_bytes (of_bytes bs) = bs"
proof -
  obtain b0 b1 b2 b3 b4 b5 b6 b7 b8 b9 b10 b11 b12 b13 b14 b15 where
    "bs = [b0, b1, b2, b3, b4, b5, b6, b7, b8, b9, b10, b11, b12, b13, b14, b15]"
    using assms by (auto simp: length_Suc_conv numeral_eq_Suc)
  then show ?thesis by (simp add: of_bytes_list m_bytes_def store_le_4_load)
qed

end
