(* ===== verification/Hash_SHA_NI.thy ===== *)
theory Hash_SHA_NI
  imports X86_Vectors
begin

text \<open>
  The accelerated transforms of \<open>src/src/hash.c\<close>, \<open>sha1_transform_x86\<close> and
  \<open>sha256_transform_x86\<close>, line by line over the intrinsics, and their equality with the
  compression functions of the standard.
\<close>

section \<open>SHA-1: the code\<close>

type_synonym sha1_regs = "m128i \<times> m128i \<times> m128i \<times> m128i \<times> m128i \<times> m128i \<times> m128i"

definition sha1_MASK :: m128i where
  "sha1_MASK = mm_set_epi64x 0x0001020304050607 0x08090a0b0c0d0e0f"

definition sha1_x86_rounds_0_15 :: "m128i \<Rightarrow> m128i \<Rightarrow> u8 list \<Rightarrow> sha1_regs" where
  "sha1_x86_rounds_0_15 ABCD E0 data =
     (let MSG0 = mm_loadu_si128 data 0;
          MSG0 = mm_shuffle_epi8 MSG0 sha1_MASK;
          E0 = mm_add_epi32 E0 MSG0;
          E1 = ABCD;
          ABCD = mm_sha1rnds4_epu32 ABCD E0 0;
          MSG1 = mm_loadu_si128 data 16;
          MSG1 = mm_shuffle_epi8 MSG1 sha1_MASK;
          E1 = mm_sha1nexte_epu32 E1 MSG1;
          E0 = ABCD;
          ABCD = mm_sha1rnds4_epu32 ABCD E1 0;
          MSG0 = mm_sha1msg1_epu32 MSG0 MSG1;
          MSG2 = mm_loadu_si128 data 32;
          MSG2 = mm_shuffle_epi8 MSG2 sha1_MASK;
          E0 = mm_sha1nexte_epu32 E0 MSG2;
          E1 = ABCD;
          ABCD = mm_sha1rnds4_epu32 ABCD E0 0;
          MSG1 = mm_sha1msg1_epu32 MSG1 MSG2;
          MSG0 = mm_xor_si128 MSG0 MSG2;
          MSG3 = mm_loadu_si128 data 48;
          MSG3 = mm_shuffle_epi8 MSG3 sha1_MASK;
          E1 = mm_sha1nexte_epu32 E1 MSG3;
          E0 = ABCD;
          MSG0 = mm_sha1msg2_epu32 MSG0 MSG3;
          ABCD = mm_sha1rnds4_epu32 ABCD E1 0;
          MSG2 = mm_sha1msg1_epu32 MSG2 MSG3;
          MSG1 = mm_xor_si128 MSG1 MSG3
      in (ABCD, E0, E1, MSG0, MSG1, MSG2, MSG3))"

definition sha1_x86_rounds_16_39 :: "sha1_regs \<Rightarrow> sha1_regs" where
  "sha1_x86_rounds_16_39 regs =
     (case regs of (ABCD, E0, E1, MSG0, MSG1, MSG2, MSG3) \<Rightarrow>
      let E0 = mm_sha1nexte_epu32 E0 MSG0;
          E1 = ABCD;
          MSG1 = mm_sha1msg2_epu32 MSG1 MSG0;
          ABCD = mm_sha1rnds4_epu32 ABCD E0 0;
          MSG3 = mm_sha1msg1_epu32 MSG3 MSG0;
          MSG2 = mm_xor_si128 MSG2 MSG0;
          E1 = mm_sha1nexte_epu32 E1 MSG1;
          E0 = ABCD;
          MSG2 = mm_sha1msg2_epu32 MSG2 MSG1;
          ABCD = mm_sha1rnds4_epu32 ABCD E1 1;
          MSG0 = mm_sha1msg1_epu32 MSG0 MSG1;
          MSG3 = mm_xor_si128 MSG3 MSG1;
          E0 = mm_sha1nexte_epu32 E0 MSG2;
          E1 = ABCD;
          MSG3 = mm_sha1msg2_epu32 MSG3 MSG2;
          ABCD = mm_sha1rnds4_epu32 ABCD E0 1;
          MSG1 = mm_sha1msg1_epu32 MSG1 MSG2;
          MSG0 = mm_xor_si128 MSG0 MSG2;
          E1 = mm_sha1nexte_epu32 E1 MSG3;
          E0 = ABCD;
          MSG0 = mm_sha1msg2_epu32 MSG0 MSG3;
          ABCD = mm_sha1rnds4_epu32 ABCD E1 1;
          MSG2 = mm_sha1msg1_epu32 MSG2 MSG3;
          MSG1 = mm_xor_si128 MSG1 MSG3;
          E0 = mm_sha1nexte_epu32 E0 MSG0;
          E1 = ABCD;
          MSG1 = mm_sha1msg2_epu32 MSG1 MSG0;
          ABCD = mm_sha1rnds4_epu32 ABCD E0 1;
          MSG3 = mm_sha1msg1_epu32 MSG3 MSG0;
          MSG2 = mm_xor_si128 MSG2 MSG0;
          E1 = mm_sha1nexte_epu32 E1 MSG1;
          E0 = ABCD;
          MSG2 = mm_sha1msg2_epu32 MSG2 MSG1;
          ABCD = mm_sha1rnds4_epu32 ABCD E1 1;
          MSG0 = mm_sha1msg1_epu32 MSG0 MSG1;
          MSG3 = mm_xor_si128 MSG3 MSG1
      in (ABCD, E0, E1, MSG0, MSG1, MSG2, MSG3))"

definition sha1_x86_rounds_40_63 :: "sha1_regs \<Rightarrow> sha1_regs" where
  "sha1_x86_rounds_40_63 regs =
     (case regs of (ABCD, E0, E1, MSG0, MSG1, MSG2, MSG3) \<Rightarrow>
      let E0 = mm_sha1nexte_epu32 E0 MSG2;
          E1 = ABCD;
          MSG3 = mm_sha1msg2_epu32 MSG3 MSG2;
          ABCD = mm_sha1rnds4_epu32 ABCD E0 2;
          MSG1 = mm_sha1msg1_epu32 MSG1 MSG2;
          MSG0 = mm_xor_si128 MSG0 MSG2;
          E1 = mm_sha1nexte_epu32 E1 MSG3;
          E0 = ABCD;
          MSG0 = mm_sha1msg2_epu32 MSG0 MSG3;
          ABCD = mm_sha1rnds4_epu32 ABCD E1 2;
          MSG2 = mm_sha1msg1_epu32 MSG2 MSG3;
          MSG1 = mm_xor_si128 MSG1 MSG3;
          E0 = mm_sha1nexte_epu32 E0 MSG0;
          E1 = ABCD;
          MSG1 = mm_sha1msg2_epu32 MSG1 MSG0;
          ABCD = mm_sha1rnds4_epu32 ABCD E0 2;
          MSG3 = mm_sha1msg1_epu32 MSG3 MSG0;
          MSG2 = mm_xor_si128 MSG2 MSG0;
          E1 = mm_sha1nexte_epu32 E1 MSG1;
          E0 = ABCD;
          MSG2 = mm_sha1msg2_epu32 MSG2 MSG1;
          ABCD = mm_sha1rnds4_epu32 ABCD E1 2;
          MSG0 = mm_sha1msg1_epu32 MSG0 MSG1;
          MSG3 = mm_xor_si128 MSG3 MSG1;
          E0 = mm_sha1nexte_epu32 E0 MSG2;
          E1 = ABCD;
          MSG3 = mm_sha1msg2_epu32 MSG3 MSG2;
          ABCD = mm_sha1rnds4_epu32 ABCD E0 2;
          MSG1 = mm_sha1msg1_epu32 MSG1 MSG2;
          MSG0 = mm_xor_si128 MSG0 MSG2;
          E1 = mm_sha1nexte_epu32 E1 MSG3;
          E0 = ABCD;
          MSG0 = mm_sha1msg2_epu32 MSG0 MSG3;
          ABCD = mm_sha1rnds4_epu32 ABCD E1 3;
          MSG2 = mm_sha1msg1_epu32 MSG2 MSG3;
          MSG1 = mm_xor_si128 MSG1 MSG3
      in (ABCD, E0, E1, MSG0, MSG1, MSG2, MSG3))"

definition sha1_x86_rounds_64_79 :: "sha1_regs \<Rightarrow> sha1_regs" where
  "sha1_x86_rounds_64_79 regs =
     (case regs of (ABCD, E0, E1, MSG0, MSG1, MSG2, MSG3) \<Rightarrow>
      let E0 = mm_sha1nexte_epu32 E0 MSG0;
          E1 = ABCD;
          MSG1 = mm_sha1msg2_epu32 MSG1 MSG0;
          ABCD = mm_sha1rnds4_epu32 ABCD E0 3;
          MSG3 = mm_sha1msg1_epu32 MSG3 MSG0;
          MSG2 = mm_xor_si128 MSG2 MSG0;
          E1 = mm_sha1nexte_epu32 E1 MSG1;
          E0 = ABCD;
          MSG2 = mm_sha1msg2_epu32 MSG2 MSG1;
          ABCD = mm_sha1rnds4_epu32 ABCD E1 3;
          MSG3 = mm_xor_si128 MSG3 MSG1;
          E0 = mm_sha1nexte_epu32 E0 MSG2;
          E1 = ABCD;
          MSG3 = mm_sha1msg2_epu32 MSG3 MSG2;
          ABCD = mm_sha1rnds4_epu32 ABCD E0 3;
          E1 = mm_sha1nexte_epu32 E1 MSG3;
          E0 = ABCD;
          ABCD = mm_sha1rnds4_epu32 ABCD E1 3
      in (ABCD, E0, E1, MSG0, MSG1, MSG2, MSG3))"

definition sha1_x86_block :: "m128i \<Rightarrow> m128i \<Rightarrow> u8 list \<Rightarrow> m128i \<times> m128i" where
  "sha1_x86_block ABCD E0 data =
     (let ABCD_SAVE = ABCD; E0_SAVE = E0;
          (ABCD, E0, _) =
            sha1_x86_rounds_64_79 (sha1_x86_rounds_40_63 (sha1_x86_rounds_16_39 (sha1_x86_rounds_0_15 ABCD E0 data)));
          E0 = mm_sha1nexte_epu32 E0 E0_SAVE;
          ABCD = mm_add_epi32 ABCD ABCD_SAVE
      in (ABCD, E0))"

function sha1_x86_loop :: "m128i \<Rightarrow> m128i \<Rightarrow> u8 list \<Rightarrow> nat \<Rightarrow> (m128i \<times> m128i) option" where
  "sha1_x86_loop ABCD E0 data len =
     (if len \<ge> SHA1_BLOCKSIZE then
        (if length data < 64 then None
         else case sha1_x86_block ABCD E0 data of (ABCD', E0') \<Rightarrow> sha1_x86_loop ABCD' E0' (drop 64 data) (len - 64))
      else Some (ABCD, E0))"
  by pat_completeness auto
termination
  by (relation "measure (\<lambda>(ABCD, E0, data, len). len)") (auto simp: SHA1_BLOCKSIZE_def)

declare sha1_x86_loop.simps [simp del]

definition sha1_transform_x86 :: x86_transform where
  "sha1_transform_x86 state64 data len =
     (if length state64 < 5 then None
      else do {
        let state = map (\<lambda>k. ucast (state64 ! k)) [0..<5];
        let ABCD = mm_loadu_words state 0;
        let E0 = mm_set_epi32 (state ! 4) 0 0 0;
        let ABCD = mm_shuffle_epi32 ABCD 0x1B;
        (ABCD, E0) \<leftarrow> sha1_x86_loop ABCD E0 data len;
        let ABCD = mm_shuffle_epi32 ABCD 0x1B;
        let state = lanes ABCD @ [mm_extract_epi32 E0 3];
        Some (map ucast state @ drop 5 state64)
      })"

section \<open>SHA-256: the code\<close>

type_synonym sha256_regs = "m128i \<times> m128i \<times> m128i \<times> m128i \<times> m128i \<times> m128i"

definition sha256_MASK :: m128i where
  "sha256_MASK = mm_set_epi64x 0x0c0d0e0f08090a0b 0x0405060700010203"

definition sha256_x86_rounds_0_15 :: "m128i \<Rightarrow> m128i \<Rightarrow> u8 list \<Rightarrow> sha256_regs" where
  "sha256_x86_rounds_0_15 STATE0 STATE1 data =
     (let MSG = mm_loadu_si128 data 0;
          MSG0 = mm_shuffle_epi8 MSG sha256_MASK;
          MSG = mm_add_epi32 MSG0 (mm_set_epi64x 0xE9B5DBA5B5C0FBCF 0x71374491428A2F98);
          STATE1 = mm_sha256rnds2_epu32 STATE1 STATE0 MSG;
          MSG = mm_shuffle_epi32 MSG 0x0E;
          STATE0 = mm_sha256rnds2_epu32 STATE0 STATE1 MSG;
          MSG1 = mm_loadu_si128 data 16;
          MSG1 = mm_shuffle_epi8 MSG1 sha256_MASK;
          MSG = mm_add_epi32 MSG1 (mm_set_epi64x 0xAB1C5ED5923F82A4 0x59F111F13956C25B);
          STATE1 = mm_sha256rnds2_epu32 STATE1 STATE0 MSG;
          MSG = mm_shuffle_epi32 MSG 0x0E;
          STATE0 = mm_sha256rnds2_epu32 STATE0 STATE1 MSG;
          MSG0 = mm_sha256msg1_epu32 MSG0 MSG1;
          MSG2 = mm_loadu_si128 data 32;
          MSG2 = mm_shuffle_epi8 MSG2 sha256_MASK;
          MSG = mm_add_epi32 MSG2 (mm_set_epi64x 0x550C7DC3243185BE 0x12835B01D807AA98);
          STATE1 = mm_sha256rnds2_epu32 STATE1 STATE0 MSG;
          MSG = mm_shuffle_epi32 MSG 0x0E;
          STATE0 = mm_sha256rnds2_epu32 STATE0 STATE1 MSG;
          MSG1 = mm_sha256msg1_epu32 MSG1 MSG2;
          MSG3 = mm_loadu_si128 data 48;
          MSG3 = mm_shuffle_epi8 MSG3 sha256_MASK;
          MSG = mm_add_epi32 MSG3 (mm_set_epi64x 0xC19BF1749BDC06A7 0x80DEB1FE72BE5D74);
          STATE1 = mm_sha256rnds2_epu32 STATE1 STATE0 MSG;
          TMP = mm_alignr_epi8 MSG3 MSG2 4;
          MSG0 = mm_add_epi32 MSG0 TMP;
          MSG0 = mm_sha256msg2_epu32 MSG0 MSG3;
          MSG = mm_shuffle_epi32 MSG 0x0E;
          STATE0 = mm_sha256rnds2_epu32 STATE0 STATE1 MSG;
          MSG2 = mm_sha256msg1_epu32 MSG2 MSG3
      in (STATE0, STATE1, MSG0, MSG1, MSG2, MSG3))"

definition sha256_x86_rounds_16_31 :: "sha256_regs \<Rightarrow> sha256_regs" where
  "sha256_x86_rounds_16_31 regs =
     (case regs of (STATE0, STATE1, MSG0, MSG1, MSG2, MSG3) \<Rightarrow>
      let MSG = mm_add_epi32 MSG0 (mm_set_epi64x 0x240CA1CC0FC19DC6 0xEFBE4786E49B69C1);
          STATE1 = mm_sha256rnds2_epu32 STATE1 STATE0 MSG;
          TMP = mm_alignr_epi8 MSG0 MSG3 4;
          MSG1 = mm_add_epi32 MSG1 TMP;
          MSG1 = mm_sha256msg2_epu32 MSG1 MSG0;
          MSG = mm_shuffle_epi32 MSG 0x0E;
          STATE0 = mm_sha256rnds2_epu32 STATE0 STATE1 MSG;
          MSG3 = mm_sha256msg1_epu32 MSG3 MSG0;
          MSG = mm_add_epi32 MSG1 (mm_set_epi64x 0x76F988DA5CB0A9DC 0x4A7484AA2DE92C6F);
          STATE1 = mm_sha256rnds2_epu32 STATE1 STATE0 MSG;
          TMP = mm_alignr_epi8 MSG1 MSG0 4;
          MSG2 = mm_add_epi32 MSG2 TMP;
          MSG2 = mm_sha256msg2_epu32 MSG2 MSG1;
          MSG = mm_shuffle_epi32 MSG 0x0E;
          STATE0 = mm_sha256rnds2_epu32 STATE0 STATE1 MSG;
          MSG0 = mm_sha256msg1_epu32 MSG0 MSG1;
          MSG = mm_add_epi32 MSG2 (mm_set_epi64x 0xBF597FC7B00327C8 0xA831C66D983E5152);
          STATE1 = mm_sha256rnds2_epu32 STATE1 STATE0 MSG;
          TMP = mm_alignr_epi8 MSG2 MSG1 4;
          MSG3 = mm_add_epi32 MSG3 TMP;
          MSG3 = mm_sha256msg2_epu32 MSG3 MSG2;
          MSG = mm_shuffle_epi32 MSG 0x0E;
          STATE0 = mm_sha256rnds2_epu32 STATE0 STATE1 MSG;
          MSG1 = mm_sha256msg1_epu32 MSG1 MSG2;
          MSG = mm_add_epi32 MSG3 (mm_set_epi64x 0x1429296706CA6351 0xD5A79147C6E00BF3);
          STATE1 = mm_sha256rnds2_epu32 STATE1 STATE0 MSG;
          TMP = mm_alignr_epi8 MSG3 MSG2 4;
          MSG0 = mm_add_epi32 MSG0 TMP;
          MSG0 = mm_sha256msg2_epu32 MSG0 MSG3;
          MSG = mm_shuffle_epi32 MSG 0x0E;
          STATE0 = mm_sha256rnds2_epu32 STATE0 STATE1 MSG;
          MSG2 = mm_sha256msg1_epu32 MSG2 MSG3
      in (STATE0, STATE1, MSG0, MSG1, MSG2, MSG3))"

definition sha256_x86_rounds_32_47 :: "sha256_regs \<Rightarrow> sha256_regs" where
  "sha256_x86_rounds_32_47 regs =
     (case regs of (STATE0, STATE1, MSG0, MSG1, MSG2, MSG3) \<Rightarrow>
      let MSG = mm_add_epi32 MSG0 (mm_set_epi64x 0x53380D134D2C6DFC 0x2E1B213827B70A85);
          STATE1 = mm_sha256rnds2_epu32 STATE1 STATE0 MSG;
          TMP = mm_alignr_epi8 MSG0 MSG3 4;
          MSG1 = mm_add_epi32 MSG1 TMP;
          MSG1 = mm_sha256msg2_epu32 MSG1 MSG0;
          MSG = mm_shuffle_epi32 MSG 0x0E;
          STATE0 = mm_sha256rnds2_epu32 STATE0 STATE1 MSG;
          MSG3 = mm_sha256msg1_epu32 MSG3 MSG0;
          MSG = mm_add_epi32 MSG1 (mm_set_epi64x 0x92722C8581C2C92E 0x766A0ABB650A7354);
          STATE1 = mm_sha256rnds2_epu32 STATE1 STATE0 MSG;
          TMP = mm_alignr_epi8 MSG1 MSG0 4;
          MSG2 = mm_add_epi32 MSG2 TMP;
          MSG2 = mm_sha256msg2_epu32 MSG2 MSG1;
          MSG = mm_shuffle_epi32 MSG 0x0E;
          STATE0 = mm_sha256rnds2_epu32 STATE0 STATE1 MSG;
          MSG0 = mm_sha256msg1_epu32 MSG0 MSG1;
          MSG = mm_add_epi32 MSG2 (mm_set_epi64x 0xC76C51A3C24B8B70 0xA81A664BA2BFE8A1);
          STATE1 = mm_sha256rnds2_epu32 STATE1 STATE0 MSG;
          TMP = mm_alignr_epi8 MSG2 MSG1 4;
          MSG3 = mm_add_epi32 MSG3 TMP;
          MSG3 = mm_sha256msg2_epu32 MSG3 MSG2;
          MSG = mm_shuffle_epi32 MSG 0x0E;
          STATE0 = mm_sha256rnds2_epu32 STATE0 STATE1 MSG;
          MSG1 = mm_sha256msg1_epu32 MSG1 MSG2;
          MSG = mm_add_epi32 MSG3 (mm_set_epi64x 0x106AA070F40E3585 0xD6990624D192E819);
          STATE1 = mm_sha256rnds2_epu32 STATE1 STATE0 MSG;
          TMP = mm_alignr_epi8 MSG3 MSG2 4;
          MSG0 = mm_add_epi32 MSG0 TMP;
          MSG0 = mm_sha256msg2_epu32 MSG0 MSG3;
          MSG = mm_shuffle_epi32 MSG 0x0E;
          STATE0 = mm_sha256rnds2_epu32 STATE0 STATE1 MSG;
          MSG2 = mm_sha256msg1_epu32 MSG2 MSG3
      in (STATE0, STATE1, MSG0, MSG1, MSG2, MSG3))"

definition sha256_x86_rounds_48_63 :: "sha256_regs \<Rightarrow> sha256_regs" where
  "sha256_x86_rounds_48_63 regs =
     (case regs of (STATE0, STATE1, MSG0, MSG1, MSG2, MSG3) \<Rightarrow>
      let MSG = mm_add_epi32 MSG0 (mm_set_epi64x 0x34B0BCB52748774C 0x1E376C0819A4C116);
          STATE1 = mm_sha256rnds2_epu32 STATE1 STATE0 MSG;
          TMP = mm_alignr_epi8 MSG0 MSG3 4;
          MSG1 = mm_add_epi32 MSG1 TMP;
          MSG1 = mm_sha256msg2_epu32 MSG1 MSG0;
          MSG = mm_shuffle_epi32 MSG 0x0E;
          STATE0 = mm_sha256rnds2_epu32 STATE0 STATE1 MSG;
          MSG3 = mm_sha256msg1_epu32 MSG3 MSG0;
          MSG = mm_add_epi32 MSG1 (mm_set_epi64x 0x682E6FF35B9CCA4F 0x4ED8AA4A391C0CB3);
          STATE1 = mm_sha256rnds2_epu32 STATE1 STATE0 MSG;
          TMP = mm_alignr_epi8 MSG1 MSG0 4;
          MSG2 = mm_add_epi32 MSG2 TMP;
          MSG2 = mm_sha256msg2_epu32 MSG2 MSG1;
          MSG = mm_shuffle_epi32 MSG 0x0E;
          STATE0 = mm_sha256rnds2_epu32 STATE0 STATE1 MSG;
          MSG = mm_add_epi32 MSG2 (mm_set_epi64x 0x8CC7020884C87814 0x78A5636F748F82EE);
          STATE1 = mm_sha256rnds2_epu32 STATE1 STATE0 MSG;
          TMP = mm_alignr_epi8 MSG2 MSG1 4;
          MSG3 = mm_add_epi32 MSG3 TMP;
          MSG3 = mm_sha256msg2_epu32 MSG3 MSG2;
          MSG = mm_shuffle_epi32 MSG 0x0E;
          STATE0 = mm_sha256rnds2_epu32 STATE0 STATE1 MSG;
          MSG = mm_add_epi32 MSG3 (mm_set_epi64x 0xC67178F2BEF9A3F7 0xA4506CEB90BEFFFA);
          STATE1 = mm_sha256rnds2_epu32 STATE1 STATE0 MSG;
          MSG = mm_shuffle_epi32 MSG 0x0E;
          STATE0 = mm_sha256rnds2_epu32 STATE0 STATE1 MSG
      in (STATE0, STATE1, MSG0, MSG1, MSG2, MSG3))"

definition sha256_x86_block :: "m128i \<Rightarrow> m128i \<Rightarrow> u8 list \<Rightarrow> m128i \<times> m128i" where
  "sha256_x86_block STATE0 STATE1 data =
     (let ABEF_SAVE = STATE0; CDGH_SAVE = STATE1;
          (STATE0, STATE1, _) =
            sha256_x86_rounds_48_63 (sha256_x86_rounds_32_47 (sha256_x86_rounds_16_31 (sha256_x86_rounds_0_15 STATE0 STATE1 data)));
          STATE0 = mm_add_epi32 STATE0 ABEF_SAVE;
          STATE1 = mm_add_epi32 STATE1 CDGH_SAVE
      in (STATE0, STATE1))"

function sha256_x86_loop :: "m128i \<Rightarrow> m128i \<Rightarrow> u8 list \<Rightarrow> nat \<Rightarrow> (m128i \<times> m128i) option" where
  "sha256_x86_loop STATE0 STATE1 data len =
     (if len \<ge> SHA256_BLOCKSIZE then
        (if length data < 64 then None
         else case sha256_x86_block STATE0 STATE1 data of (S0, S1) \<Rightarrow> sha256_x86_loop S0 S1 (drop 64 data) (len - 64))
      else Some (STATE0, STATE1))"
  by pat_completeness auto
termination
  by (relation "measure (\<lambda>(STATE0, STATE1, data, len). len)") (auto simp: SHA256_BLOCKSIZE_def)

declare sha256_x86_loop.simps [simp del]

definition sha256_transform_x86 :: x86_transform where
  "sha256_transform_x86 state64 data len =
     (if length state64 < 8 then None
      else do {
        let state = map (\<lambda>k. ucast (state64 ! k)) [0..<8];
        let TMP = mm_loadu_words state 0;
        let STATE1 = mm_loadu_words state 4;
        let TMP = mm_shuffle_epi32 TMP 0xB1;
        let STATE1 = mm_shuffle_epi32 STATE1 0x1B;
        let STATE0 = mm_alignr_epi8 TMP STATE1 8;
        let STATE1 = mm_blend_epi16 STATE1 TMP 0xF0;
        (STATE0, STATE1) \<leftarrow> sha256_x86_loop STATE0 STATE1 data len;
        let TMP = mm_shuffle_epi32 STATE0 0x1B;
        let STATE1 = mm_shuffle_epi32 STATE1 0xB1;
        let STATE0 = mm_blend_epi16 TMP STATE1 0xF0;
        let STATE1 = mm_alignr_epi8 STATE1 TMP 8;
        Some (map ucast (lanes STATE0 @ lanes STATE1) @ drop 8 state64)
      })"

section \<open>SHA-1: the rounds\<close>

text \<open>The working variables after \<open>t\<close> rounds, and the vectors the code keeps.\<close>

definition S1 :: "u32 list \<Rightarrow> u32 list \<Rightarrow> nat \<Rightarrow> u32 list" where
  "S1 M H t = fold (fips_sha1_step M) [0..<t] H"

definition AB :: "u32 list \<Rightarrow> u32 list \<Rightarrow> nat \<Rightarrow> m128i" where
  "AB M H t = V (S1 M H t ! 3) (S1 M H t ! 2) (S1 M H t ! 1) (S1 M H t ! 0)"

definition WV :: "u32 list \<Rightarrow> nat \<Rightarrow> m128i" where
  "WV M t = V (fips_sha1_W M (t + 3)) (fips_sha1_W M (t + 2)) (fips_sha1_W M (t + 1)) (fips_sha1_W M t)"

definition EV :: "u32 list \<Rightarrow> u32 list \<Rightarrow> nat \<Rightarrow> m128i" where
  "EV M H t = V (fips_sha1_W M (t + 3)) (fips_sha1_W M (t + 2)) (fips_sha1_W M (t + 1)) (fips_sha1_W M t + S1 M H t ! 4)"

definition PV :: "u32 list \<Rightarrow> nat \<Rightarrow> m128i" where
  "PV M t = mm_sha1msg1_epu32 (WV M t) (WV M (t + 4))"

definition QV :: "u32 list \<Rightarrow> nat \<Rightarrow> m128i" where
  "QV M t = mm_xor_si128 (PV M t) (WV M (t + 8))"

lemma length_S1: "length H = 5 \<Longrightarrow> length (S1 M H t) = 5"
  unfolding S1_def by (rule fold_step_length) (simp_all add: fips_sha1_step_length)

lemma S1_Suc:
  assumes "length H = 5"
  shows "S1 M H (Suc t) ! 0 = word_rotl 5 (S1 M H t ! 0) + fips_sha1_f t (S1 M H t ! 1) (S1 M H t ! 2) (S1 M H t ! 3) +
      S1 M H t ! 4 + sha1_k t + fips_sha1_W M t"
    "S1 M H (Suc t) ! 1 = S1 M H t ! 0" "S1 M H (Suc t) ! 2 = word_rotl 30 (S1 M H t ! 1)"
    "S1 M H (Suc t) ! 3 = S1 M H t ! 2" "S1 M H (Suc t) ! 4 = S1 M H t ! 3"
proof -
  obtain a b c d e where v: "S1 M H t = [a, b, c, d, e]" using list5 [OF length_S1 [OF assms]] by blast
  have "S1 M H (Suc t) = fips_sha1_step M t (S1 M H t)" by (simp add: S1_def)
  then show "S1 M H (Suc t) ! 0 = word_rotl 5 (S1 M H t ! 0) + fips_sha1_f t (S1 M H t ! 1) (S1 M H t ! 2) (S1 M H t ! 3) +
      S1 M H t ! 4 + sha1_k t + fips_sha1_W M t"
    "S1 M H (Suc t) ! 1 = S1 M H t ! 0" "S1 M H (Suc t) ! 2 = word_rotl 30 (S1 M H t ! 1)"
    "S1 M H (Suc t) ! 3 = S1 M H t ! 2" "S1 M H (Suc t) ! 4 = S1 M H t ! 3"
    by (simp_all add: v fips_sha1_step_def Let_def)
qed

lemmas S1_simps = S1_Suc S1_Suc [simplified]

lemma plus_Suc: "(t :: nat) + 3 = Suc (Suc (Suc t))" "t + 4 = Suc (Suc (Suc (Suc t)))"
  by simp_all

lemma S1_e: "length H = 5 \<Longrightarrow> S1 M H (t + 4) ! 4 = word_rotl 30 (S1 M H t ! 0)"
  by (simp add: S1_simps plus_Suc)

lemma nexte_EV: "length H = 5 \<Longrightarrow> u = t + 4 \<Longrightarrow> mm_sha1nexte_epu32 (AB M H t) (WV M u) = EV M H u"
  by (simp add: AB_def WV_def EV_def S1_simps plus_Suc)

lemma ni_f_k:
  assumes "20 * i \<le> t" "t < 20 * i + 20" "i < 4"
  shows "sha1_ni_f i = fips_sha1_f t" "sha1_ni_k i = sha1_k t"
proof -
  consider "i = 0" | "i = 1" | "i = 2" | "i = 3" using assms(3) by linarith
  then have "sha1_ni_f i = fips_sha1_f t \<and> sha1_ni_k i = sha1_k t"
    by cases (use assms in \<open>simp_all add: fun_eq_iff sha1_ni_f_def sha1_ni_k_def fips_sha1_f_def sha1_k_def fips_Ch_def
        fips_Parity_def fips_Maj_def\<close>)
  then show "sha1_ni_f i = fips_sha1_f t" "sha1_ni_k i = sha1_k t" by auto
qed

lemma rnds4_AB:
  assumes H: "length H = 5" and t: "4 dvd t" "20 * i \<le> t" "t < 20 * i + 20" "i < 4" and u: "u = t + 4"
  shows "mm_sha1rnds4_epu32 (AB M H t) (EV M H t) i = AB M H u"
proof -
  have d: "20 * i \<le> t + j \<and> t + j < 20 * i + 20" if "j < 4" for j
  proof -
    obtain q where q: "t = 4 * q" using t(1) by (elim dvdE)
    then have "q < 5 * i + 5" using t(3) by simp
    then show ?thesis using q t(2) that by simp
  qed
  note fk = ni_f_k [of i t] ni_f_k [of i "t + 1"] ni_f_k [of i "t + 2"] ni_f_k [of i "t + 3"]
  have fk': "sha1_ni_f i = fips_sha1_f t" "sha1_ni_k i = sha1_k t"
    "fips_sha1_f (Suc t) = fips_sha1_f t" "sha1_k (Suc t) = sha1_k t"
    "fips_sha1_f (Suc (Suc t)) = fips_sha1_f t" "sha1_k (Suc (Suc t)) = sha1_k t"
    "fips_sha1_f (Suc (Suc (Suc t))) = fips_sha1_f t" "sha1_k (Suc (Suc (Suc t))) = sha1_k t"
    using fk d [of 0] d [of 1] d [of 2] d [of 3] t(4) by (simp_all add: plus_Suc)
  show ?thesis
    by (simp add: u AB_def EV_def plus_Suc S1_simps [OF H] fk' sha1_ni_round_def Let_def add_ac)
qed

lemma PV_eq: "u = t + 4 \<Longrightarrow> mm_sha1msg1_epu32 (WV M t) (WV M u) = PV M t"
  by (simp add: PV_def)

lemma QV_eq: "u = t + 8 \<Longrightarrow> mm_xor_si128 (PV M t) (WV M u) = QV M t"
  by (simp add: QV_def)

lemma WV_next:
  assumes u: "u = t + 12" and v: "v = t + 16"
  shows "mm_sha1msg2_epu32 (QV M t) (WV M u) = WV M v"
proof -
  have w: "fips_sha1_W M (t + 16 + j) = word_rotl 1 (fips_sha1_W M (t + j) XOR fips_sha1_W M (t + j + 2) XOR
      fips_sha1_W M (t + j + 8) XOR fips_sha1_W M (t + j + 13))" for j
    by (subst fips_sha1_W.simps) (simp add: ac_simps numeral_eq_Suc)
  show ?thesis
    using w [of 0] w [of 1] w [of 2] w [of 3]
    by (simp add: u v QV_def PV_def WV_def Let_def ac_simps plus_Suc)
qed

lemma word_bytes:
  assumes "length (bs :: u8 list) = 16"
  shows "\<exists>b0 b1 b2 b3 b4 b5 b6 b7 b8 b9 b10 b11 b12 b13 b14 b15.
    bs = [b0, b1, b2, b3, b4, b5, b6, b7, b8, b9, b10, b11, b12, b13, b14, b15]"
  using assms by (auto simp: length_Suc_conv numeral_eq_Suc)

lemma MASK_bytes:
  "m_bytes sha1_MASK = [15, 14, 13, 12, 11, 10, 9, 8, 7, 6, 5, 4, 3, 2, 1, 0]"
  "m_bytes sha256_MASK = [3, 2, 1, 0, 7, 6, 5, 4, 11, 10, 9, 8, 15, 14, 13, 12]"
  by (code_simp, code_simp)

lemma be_word_4: "be_word [b0, b1, b2, b3] = load_le [b3, b2, b1, b0]"
  using load_le_rev [of "[b0, b1, b2, b3]", symmetric] by simp

text \<open>Four words of a block, read through the byte masks.\<close>

lemma masked_loads:
  assumes "length (bs :: u8 list) = 16"
  shows "mm_shuffle_epi8 (of_bytes bs) sha1_MASK =
      V (be_word (slice 12 4 bs)) (be_word (slice 8 4 bs)) (be_word (slice 4 4 bs)) (be_word (slice 0 4 bs))"
    "mm_shuffle_epi8 (of_bytes bs) sha256_MASK =
      V (be_word (slice 0 4 bs)) (be_word (slice 4 4 bs)) (be_word (slice 8 4 bs)) (be_word (slice 12 4 bs))"
proof -
  obtain b0 b1 b2 b3 b4 b5 b6 b7 b8 b9 b10 b11 b12 b13 b14 b15 where
    b: "bs = [b0, b1, b2, b3, b4, b5, b6, b7, b8, b9, b10, b11, b12, b13, b14, b15]" using word_bytes [OF assms] by blast
  show "mm_shuffle_epi8 (of_bytes bs) sha1_MASK =
      V (be_word (slice 12 4 bs)) (be_word (slice 8 4 bs)) (be_word (slice 4 4 bs)) (be_word (slice 0 4 bs))"
    "mm_shuffle_epi8 (of_bytes bs) sha256_MASK =
      V (be_word (slice 0 4 bs)) (be_word (slice 4 4 bs)) (be_word (slice 8 4 bs)) (be_word (slice 12 4 bs))"
    unfolding mm_shuffle_epi8_def m_bytes_of_bytes [OF assms] MASK_bytes
    by (simp_all add: b of_bytes_list be_word_4 slice_def)
qed

lemma slice_slice: "j + m \<le> n \<Longrightarrow> slice j m (slice i n xs) = slice (i + j) m xs"
  unfolding slice_def by (simp add: drop_take min_def add.commute)

lemma fips_words32_nth: "t < 16 \<Longrightarrow> fips_words32 blk ! t = be_word (slice (4 * t) 4 blk)"
  by (simp add: fips_words32_def)

lemma slice_take: "off + n \<le> m \<Longrightarrow> slice off n (take m xs) = slice off n xs"
  by (simp add: slice_def drop_take min_def)

lemma load_WV:
  assumes "64 \<le> length data" "t \<le> 12" "off = 4 * t"
  shows "mm_shuffle_epi8 (mm_loadu_si128 data off) sha1_MASK = WV (fips_words32 (take 64 data)) t"
proof -
  have l: "length (slice off 16 data) = 16" using assms by simp
  have w: "fips_sha1_W (fips_words32 (take 64 data)) (t + j) = be_word (slice (off + 4 * j) 4 data)" if "j < 4" for j
    using that assms by (subst fips_sha1_W.simps) (simp add: fips_words32_nth slice_take)
  show ?thesis
    using w [of 0] w [of 1] w [of 2] w [of 3] masked_loads(1) [OF l]
    by (simp add: mm_loadu_si128_def slice_slice WV_def)
qed

lemma EV_start: "mm_add_epi32 (V 0 0 0 (H ! 4)) (WV M 0) = EV M H 0"
  by (simp add: WV_def EV_def S1_def add.commute)

lemmas sha1_ni_rules = nexte_EV rnds4_AB [OF _ _ _ _ _ refl] PV_eq QV_eq WV_next [OF _ refl] EV_start

lemma sha1_rounds_0_15:
  assumes "length H = 5" "64 \<le> length data" "M = fips_words32 (take 64 data)"
  shows "sha1_x86_rounds_0_15 (AB M H 0) (V 0 0 0 (H ! 4)) data =
    (AB M H 16, AB M H 12, EV M H 12, WV M 16, QV M 4, PV M 8, WV M 12)"
proof -
  note ld = load_WV [OF assms(2), folded assms(3)]
  have "mm_shuffle_epi8 (mm_loadu_si128 data 0) sha1_MASK = WV M 0" "mm_shuffle_epi8 (mm_loadu_si128 data 16) sha1_MASK = WV M 4"
    "mm_shuffle_epi8 (mm_loadu_si128 data 32) sha1_MASK = WV M 8" "mm_shuffle_epi8 (mm_loadu_si128 data 48) sha1_MASK = WV M 12"
    by (rule ld; simp)+
  then show ?thesis using assms(1) by (simp add: sha1_x86_rounds_0_15_def Let_def sha1_ni_rules cong: let_weak_cong)
qed

lemma sha1_rounds_16_39:
  assumes "length H = 5"
  shows "sha1_x86_rounds_16_39 (AB M H 16, AB M H 12, E, WV M 16, QV M 4, PV M 8, WV M 12) =
    (AB M H 40, AB M H 36, EV M H 36, PV M 32, WV M 36, WV M 40, QV M 28)"
  using assms by (simp add: sha1_x86_rounds_16_39_def Let_def sha1_ni_rules cong: let_weak_cong)

lemma sha1_rounds_40_63:
  assumes "length H = 5"
  shows "sha1_x86_rounds_40_63 (AB M H 40, AB M H 36, E, PV M 32, WV M 36, WV M 40, QV M 28) =
    (AB M H 64, AB M H 60, EV M H 60, WV M 64, QV M 52, PV M 56, WV M 60)"
  using assms by (simp add: sha1_x86_rounds_40_63_def Let_def sha1_ni_rules cong: let_weak_cong)

lemma sha1_rounds_64_79:
  assumes "length H = 5"
  shows "\<exists>r. sha1_x86_rounds_64_79 (AB M H 64, AB M H 60, E, WV M 64, QV M 52, PV M 56, WV M 60) = (AB M H 80, AB M H 76, r)"
  using assms by (simp add: sha1_x86_rounds_64_79_def Let_def sha1_ni_rules cong: let_weak_cong)

text \<open>The vectors that stand for a state of the standard.\<close>

definition sha1_vecs :: "u32 list \<Rightarrow> m128i \<times> m128i" where
  "sha1_vecs H = (V (H ! 3) (H ! 2) (H ! 1) (H ! 0), V 0 0 0 (H ! 4))"

lemma sha1_x86_block_fips:
  assumes H: "length H = 5" and d: "64 \<le> length data" and v: "sha1_vecs H = (ABCD, E0)"
  shows "sha1_x86_block ABCD E0 data = sha1_vecs (fips_sha1_block H (take 64 data))"
proof -
  let ?M = "fips_words32 (take 64 data)"
  have start: "ABCD = AB ?M H 0" "E0 = V 0 0 0 (H ! 4)" using v by (auto simp: sha1_vecs_def AB_def S1_def)
  obtain r where r: "sha1_x86_rounds_64_79 (sha1_x86_rounds_40_63 (sha1_x86_rounds_16_39 (sha1_x86_rounds_0_15 ABCD E0 data))) =
      (AB ?M H 80, AB ?M H 76, r)"
    unfolding start sha1_rounds_0_15 [OF H d refl] sha1_rounds_16_39 [OF H] sha1_rounds_40_63 [OF H]
    using sha1_rounds_64_79 [OF H, of ?M "EV ?M H 60"] by blast
  have l: "length (S1 ?M H 80) = 5" by (rule length_S1 [OF H])
  have e: "S1 ?M H 80 ! 4 = word_rotl 30 (S1 ?M H 76 ! 0)"
    using S1_e [OF H, of ?M 76] by simp
  have blk: "fips_sha1_block H (take 64 data) = map2 (+) H (S1 ?M H 80)" by (simp add: fips_sha1_block_def S1_def)
  show ?thesis
    unfolding sha1_x86_block_def Let_def r using H l e by (simp add: start AB_def S1_def [of _ _ 0] sha1_vecs_def blk add.commute)
qed

lemma sha1_x86_loop_fips:
  "length H = 5 \<Longrightarrow> len \<le> length data \<Longrightarrow> sha1_vecs H = (ABCD, E0) \<Longrightarrow>
   sha1_x86_loop ABCD E0 data len = Some (sha1_vecs (run_blocks fips_sha1_block 64 H (take len data)))"
proof (induction ABCD E0 data len arbitrary: H rule: sha1_x86_loop.induct)
  case (1 ABCD E0 data len)
  show ?case
  proof (cases "64 \<le> len")
    case False
    then show ?thesis using 1(4) by (subst sha1_x86_loop.simps) (simp add: SHA1_BLOCKSIZE_def run_blocks_short)
  next
    case True
    let ?H = "fips_sha1_block H (take 64 data)"
    obtain A E where v: "sha1_vecs ?H = (A, E)" by fastforce
    have b: "sha1_x86_block ABCD E0 data = (A, E)" using sha1_x86_block_fips [OF 1(2) _ 1(4)] 1(3) True v by simp
    have "run_blocks fips_sha1_block 64 H (take len data) = run_blocks fips_sha1_block 64 ?H (take (len - 64) (drop 64 data))"
      using True 1(3) by (subst run_blocks.simps) (simp add: drop_take min_def)
    moreover have "sha1_x86_loop A E (drop 64 data) (len - 64) =
        Some (sha1_vecs (run_blocks fips_sha1_block 64 ?H (take (len - 64) (drop 64 data))))"
      by (rule "1.IH") (use True 1(2,3) b v in \<open>auto simp: SHA1_BLOCKSIZE_def fips_sha1_block_length\<close>)
    ultimately show ?thesis using True 1(3) b by (subst sha1_x86_loop.simps) (simp add: SHA1_BLOCKSIZE_def)
  qed
qed

lemma sha1_x86_fips:
  assumes "length st = 8" "len \<le> length data"
  shows "sha1_transform_x86 st data len = Some (map ucast (run_blocks fips_sha1_block 64 (low32 5 st) (take len data)) @ drop 5 st)"
proof -
  let ?H = "low32 5 st" let ?R = "run_blocks fips_sha1_block 64 ?H (take len data)"
  have lR: "length ?R = 5" by (rule run_blocks_length) (simp_all add: fips_sha1_block_length)
  then obtain a b c d e where R: "?R = [a, b, c, d, e]" using list5 by blast
  have "sha1_vecs ?H = (mm_shuffle_epi32 (mm_loadu_words ?H 0) 0x1B, mm_set_epi32 (?H ! 4) 0 0 0)"
    by (simp add: sha1_vecs_def mm_loadu_words_def of_lanes_def shuffle_lanes mm_set_epi32_def)
  from sha1_x86_loop_fips [OF _ assms(2) this] R assms(1) show ?thesis
    by (simp add: sha1_transform_x86_def low32_def [symmetric] Let_def sha1_vecs_def shuffle_lanes mm_extract_epi32_def)
qed

section \<open>SHA-256: the rounds\<close>

abbreviation W256 :: "u32 list \<Rightarrow> nat \<Rightarrow> u32" where
  "W256 \<equiv> fips_sha2_W sigma0_256 sigma1_256"

definition S2 :: "u32 list \<Rightarrow> u32 list \<Rightarrow> nat \<Rightarrow> u32 list" where
  "S2 M H t = fold (\<lambda>t. fips_sha2_step Sigma0_256 Sigma1_256 (K256 ! t) (W256 M t)) [0..<t] H"

definition ABEF :: "u32 list \<Rightarrow> u32 list \<Rightarrow> nat \<Rightarrow> m128i" where
  "ABEF M H t = V (S2 M H t ! 5) (S2 M H t ! 4) (S2 M H t ! 1) (S2 M H t ! 0)"

definition CDGH :: "u32 list \<Rightarrow> u32 list \<Rightarrow> nat \<Rightarrow> m128i" where
  "CDGH M H t = V (S2 M H t ! 7) (S2 M H t ! 6) (S2 M H t ! 3) (S2 M H t ! 2)"

definition W2 :: "u32 list \<Rightarrow> nat \<Rightarrow> m128i" where
  "W2 M t = V (W256 M t) (W256 M (t + 1)) (W256 M (t + 2)) (W256 M (t + 3))"

definition KV :: "nat \<Rightarrow> m128i" where
  "KV t = V (K256 ! t) (K256 ! (t + 1)) (K256 ! (t + 2)) (K256 ! (t + 3))"

definition WK :: "u32 list \<Rightarrow> nat \<Rightarrow> m128i" where
  "WK M t = mm_add_epi32 (W2 M t) (KV t)"

definition WKs :: "u32 list \<Rightarrow> nat \<Rightarrow> m128i" where
  "WKs M t = mm_shuffle_epi32 (WK M t) 0x0E"

definition A2 :: "u32 list \<Rightarrow> nat \<Rightarrow> m128i" where
  "A2 M t = mm_alignr_epi8 (W2 M (t + 4)) (W2 M t) 4"

definition P2 :: "u32 list \<Rightarrow> nat \<Rightarrow> m128i" where
  "P2 M t = mm_sha256msg1_epu32 (W2 M t) (W2 M (t + 4))"

definition Q2 :: "u32 list \<Rightarrow> nat \<Rightarrow> m128i" where
  "Q2 M t = mm_add_epi32 (P2 M t) (A2 M (t + 8))"

lemma KV_const:
  "mm_set_epi64x 0xE9B5DBA5B5C0FBCF 0x71374491428A2F98 = KV 0"
  "mm_set_epi64x 0xAB1C5ED5923F82A4 0x59F111F13956C25B = KV 4"
  "mm_set_epi64x 0x550C7DC3243185BE 0x12835B01D807AA98 = KV 8"
  "mm_set_epi64x 0xC19BF1749BDC06A7 0x80DEB1FE72BE5D74 = KV 12"
  "mm_set_epi64x 0x240CA1CC0FC19DC6 0xEFBE4786E49B69C1 = KV 16"
  "mm_set_epi64x 0x76F988DA5CB0A9DC 0x4A7484AA2DE92C6F = KV 20"
  "mm_set_epi64x 0xBF597FC7B00327C8 0xA831C66D983E5152 = KV 24"
  "mm_set_epi64x 0x1429296706CA6351 0xD5A79147C6E00BF3 = KV 28"
  "mm_set_epi64x 0x53380D134D2C6DFC 0x2E1B213827B70A85 = KV 32"
  "mm_set_epi64x 0x92722C8581C2C92E 0x766A0ABB650A7354 = KV 36"
  "mm_set_epi64x 0xC76C51A3C24B8B70 0xA81A664BA2BFE8A1 = KV 40"
  "mm_set_epi64x 0x106AA070F40E3585 0xD6990624D192E819 = KV 44"
  "mm_set_epi64x 0x34B0BCB52748774C 0x1E376C0819A4C116 = KV 48"
  "mm_set_epi64x 0x682E6FF35B9CCA4F 0x4ED8AA4A391C0CB3 = KV 52"
  "mm_set_epi64x 0x8CC7020884C87814 0x78A5636F748F82EE = KV 56"
  "mm_set_epi64x 0xC67178F2BEF9A3F7 0xA4506CEB90BEFFFA = KV 60"
  subgoal by code_simp
  subgoal by code_simp
  subgoal by code_simp
  subgoal by code_simp
  subgoal by code_simp
  subgoal by code_simp
  subgoal by code_simp
  subgoal by code_simp
  subgoal by code_simp
  subgoal by code_simp
  subgoal by code_simp
  subgoal by code_simp
  subgoal by code_simp
  subgoal by code_simp
  subgoal by code_simp
  subgoal by code_simp
  done

lemma ni_sigmas: "ni_Sigma0 = Sigma0_256" "ni_Sigma1 = Sigma1_256" "ni_sigma0 = sigma0_256" "ni_sigma1 = sigma1_256"
  by (simp_all add: fun_eq_iff ni_Sigma0_def ni_Sigma1_def ni_sigma0_def ni_sigma1_def Sigma0_256_def Sigma1_256_def
      sigma0_256_def sigma1_256_def)

lemma ni_round_fips: "sha256_ni_round (w + k) v = fips_sha2_step Sigma0_256 Sigma1_256 k w v"
  unfolding sha256_ni_round_def fips_sha2_step_def ni_sigmas fips_Ch_def [symmetric] fips_Maj_def [symmetric] Let_def
  by (simp add: add_ac split: list.split)

lemma length_S2: "length H = 8 \<Longrightarrow> length (S2 M H t) = 8"
  unfolding S2_def by (rule fold_step_length) (simp_all add: fips_sha2_step_length)

lemma S2_Suc: "S2 M H (Suc t) = sha256_ni_round (W256 M t + K256 ! t) (S2 M H t)"
  by (simp add: S2_def ni_round_fips)

lemma rnds2_ABEF:
  assumes "length H = 8"
  shows "mm_sha256rnds2_epu32 (CDGH M H t) (ABEF M H t) (V (W256 M t + K256 ! t) (W256 M (Suc t) + K256 ! Suc t) x y) =
    ABEF M H (Suc (Suc t))"
proof -
  obtain a b c d e f g h where "S2 M H t = [a, b, c, d, e, f, g, h]" using list8 [OF length_S2 [OF assms]] by blast
  then show ?thesis by (simp add: CDGH_def ABEF_def S2_Suc Let_def)
qed

lemma ABEF_CDGH:
  assumes "length H = 8"
  shows "CDGH M H (Suc (Suc t)) = ABEF M H t"
proof -
  obtain a b c d e f g h where "S2 M H t = [a, b, c, d, e, f, g, h]" using list8 [OF length_S2 [OF assms]] by blast
  then show ?thesis by (simp add: CDGH_def ABEF_def S2_Suc sha256_ni_round_def Let_def)
qed

lemma rnds2_rules:
  assumes "length H = 8"
  shows "mm_sha256rnds2_epu32 (CDGH M H 0) (ABEF M H 0) (WK M 0) = ABEF M H 2"
    "u = t + 2 \<Longrightarrow> mm_sha256rnds2_epu32 (ABEF M H t) (ABEF M H u) (WK M u) = ABEF M H (t + 4)"
    "u = t + 2 \<Longrightarrow> mm_sha256rnds2_epu32 (ABEF M H t) (ABEF M H u) (WKs M t) = ABEF M H (t + 4)"
proof -
  show "mm_sha256rnds2_epu32 (CDGH M H 0) (ABEF M H 0) (WK M 0) = ABEF M H 2"
    using rnds2_ABEF [OF assms, of M 0] by (simp add: WK_def W2_def KV_def numeral_2_eq_2)
  show "mm_sha256rnds2_epu32 (ABEF M H t) (ABEF M H u) (WK M u) = ABEF M H (t + 4)"
    "mm_sha256rnds2_epu32 (ABEF M H t) (ABEF M H u) (WKs M t) = ABEF M H (t + 4)" if "u = t + 2"
    using rnds2_ABEF [OF assms, of M "Suc (Suc t)"]
    by (simp_all add: that WKs_def WK_def W2_def KV_def shuffle_lanes ABEF_CDGH [OF assms] plus_Suc)
qed

lemma W2_next:
  assumes u: "u = t + 12"
  shows "mm_sha256msg2_epu32 (Q2 M t) (W2 M u) = W2 M (t + 16)"
proof -
  have w: "W256 M (t + 16 + j) = sigma1_256 (W256 M (t + j + 14)) + W256 M (t + j + 9) + sigma0_256 (W256 M (t + j + 1)) +
      W256 M (t + j)" for j
    by (subst fips_sha2_W.simps) (simp add: ac_simps numeral_eq_Suc)
  show ?thesis
    using w [of 0] w [of 1] w [of 2] w [of 3]
    by (simp add: u Q2_def P2_def A2_def W2_def alignr_lanes ni_sigmas Let_def ac_simps plus_Suc)
qed

lemma load_W2:
  assumes "64 \<le> length data" "t \<le> 12" "off = 4 * t"
  shows "mm_shuffle_epi8 (mm_loadu_si128 data off) sha256_MASK = W2 (fips_words32 (take 64 data)) t"
proof -
  have l: "length (slice off 16 data) = 16" using assms by simp
  have w: "W256 (fips_words32 (take 64 data)) (t + j) = be_word (slice (off + 4 * j) 4 data)" if "j < 4" for j
    using that assms by (subst fips_sha2_W.simps) (simp add: fips_words32_nth slice_take)
  show ?thesis
    using w [of 0] w [of 1] w [of 2] w [of 3] masked_loads(2) [OF l]
    by (simp add: mm_loadu_si128_def slice_slice W2_def)
qed

lemma vec2_rules:
  "mm_add_epi32 (W2 M t) (KV t) = WK M t" "mm_shuffle_epi32 (WK M t) 0x0E = WKs M t"
  "u = t + 4 \<Longrightarrow> mm_alignr_epi8 (W2 M u) (W2 M t) 4 = A2 M t" "u = t + 4 \<Longrightarrow> mm_sha256msg1_epu32 (W2 M t) (W2 M u) = P2 M t"
  "u = t + 8 \<Longrightarrow> mm_add_epi32 (P2 M t) (A2 M u) = Q2 M t"
  by (simp_all add: WK_def WKs_def A2_def P2_def Q2_def)

lemmas sha256_ni_rules = vec2_rules rnds2_rules W2_next KV_const

lemma sha256_rounds_0_15:
  assumes "length H = 8" "64 \<le> length data" "M = fips_words32 (take 64 data)"
  shows "sha256_x86_rounds_0_15 (ABEF M H 0) (CDGH M H 0) data = (ABEF M H 16, ABEF M H 14, W2 M 16, P2 M 4, P2 M 8, W2 M 12)"
proof -
  note ld = load_W2 [OF assms(2), folded assms(3)]
  have "mm_shuffle_epi8 (mm_loadu_si128 data 0) sha256_MASK = W2 M 0" "mm_shuffle_epi8 (mm_loadu_si128 data 16) sha256_MASK = W2 M 4"
    "mm_shuffle_epi8 (mm_loadu_si128 data 32) sha256_MASK = W2 M 8" "mm_shuffle_epi8 (mm_loadu_si128 data 48) sha256_MASK = W2 M 12"
    by (rule ld; simp)+
  then show ?thesis using assms(1) by (simp add: sha256_x86_rounds_0_15_def Let_def sha256_ni_rules cong: let_weak_cong)
qed

lemma sha256_rounds_16_31:
  assumes "length H = 8"
  shows "sha256_x86_rounds_16_31 (ABEF M H 16, ABEF M H 14, W2 M 16, P2 M 4, P2 M 8, W2 M 12) =
    (ABEF M H 32, ABEF M H 30, W2 M 32, P2 M 20, P2 M 24, W2 M 28)"
  using assms by (simp add: sha256_x86_rounds_16_31_def Let_def sha256_ni_rules cong: let_weak_cong)

lemma sha256_rounds_32_47:
  assumes "length H = 8"
  shows "sha256_x86_rounds_32_47 (ABEF M H 32, ABEF M H 30, W2 M 32, P2 M 20, P2 M 24, W2 M 28) =
    (ABEF M H 48, ABEF M H 46, W2 M 48, P2 M 36, P2 M 40, W2 M 44)"
  using assms by (simp add: sha256_x86_rounds_32_47_def Let_def sha256_ni_rules cong: let_weak_cong)

lemma sha256_rounds_48_63:
  assumes "length H = 8"
  shows "\<exists>r. sha256_x86_rounds_48_63 (ABEF M H 48, ABEF M H 46, W2 M 48, P2 M 36, P2 M 40, W2 M 44) = (ABEF M H 64, ABEF M H 62, r)"
  using assms by (simp add: sha256_x86_rounds_48_63_def Let_def sha256_ni_rules cong: let_weak_cong)

definition sha256_vecs :: "u32 list \<Rightarrow> m128i \<times> m128i" where
  "sha256_vecs H = (V (H ! 5) (H ! 4) (H ! 1) (H ! 0), V (H ! 7) (H ! 6) (H ! 3) (H ! 2))"

lemma sha256_x86_block_fips:
  assumes H: "length H = 8" and d: "64 \<le> length data" and v: "sha256_vecs H = (X, Y)"
  shows "sha256_x86_block X Y data = sha256_vecs (fips_sha256_block H (take 64 data))"
proof -
  let ?M = "fips_words32 (take 64 data)"
  have start: "X = ABEF ?M H 0" "Y = CDGH ?M H 0" using v by (auto simp: sha256_vecs_def ABEF_def CDGH_def S2_def)
  obtain r where r: "sha256_x86_rounds_48_63 (sha256_x86_rounds_32_47 (sha256_x86_rounds_16_31 (sha256_x86_rounds_0_15 X Y data))) =
      (ABEF ?M H 64, ABEF ?M H 62, r)"
    unfolding start sha256_rounds_0_15 [OF H d refl] sha256_rounds_16_31 [OF H] sha256_rounds_32_47 [OF H]
    using sha256_rounds_48_63 [OF H, of ?M] by blast
  have l: "length (S2 ?M H 64) = 8" by (rule length_S2 [OF H])
  have c: "ABEF ?M H 62 = CDGH ?M H 64" using ABEF_CDGH [OF H, of ?M 62] by simp
  have blk: "fips_sha256_block H (take 64 data) = map2 (+) H (S2 ?M H 64)" by (simp add: fips_sha256_block_def S2_def)
  show ?thesis
    unfolding sha256_x86_block_def Let_def r c using H l
    by (simp add: start ABEF_def CDGH_def S2_def [of _ _ 0] sha256_vecs_def blk add.commute)
qed

lemma sha256_x86_loop_fips:
  "length H = 8 \<Longrightarrow> len \<le> length data \<Longrightarrow> sha256_vecs H = (X, Y) \<Longrightarrow>
   sha256_x86_loop X Y data len = Some (sha256_vecs (run_blocks fips_sha256_block 64 H (take len data)))"
proof (induction X Y data len arbitrary: H rule: sha256_x86_loop.induct)
  case (1 X Y data len)
  show ?case
  proof (cases "64 \<le> len")
    case False
    then show ?thesis using 1(4) by (subst sha256_x86_loop.simps) (simp add: SHA256_BLOCKSIZE_def run_blocks_short)
  next
    case True
    let ?H = "fips_sha256_block H (take 64 data)"
    obtain A E where v: "sha256_vecs ?H = (A, E)" by fastforce
    have b: "sha256_x86_block X Y data = (A, E)" using sha256_x86_block_fips [OF 1(2) _ 1(4)] 1(3) True v by simp
    have "run_blocks fips_sha256_block 64 H (take len data) = run_blocks fips_sha256_block 64 ?H (take (len - 64) (drop 64 data))"
      using True 1(3) by (subst run_blocks.simps) (simp add: drop_take min_def)
    moreover have "sha256_x86_loop A E (drop 64 data) (len - 64) =
        Some (sha256_vecs (run_blocks fips_sha256_block 64 ?H (take (len - 64) (drop 64 data))))"
      by (rule "1.IH") (use True 1(2,3) b v in \<open>auto simp: SHA256_BLOCKSIZE_def fips_sha256_block_length\<close>)
    ultimately show ?thesis using True 1(3) b by (subst sha256_x86_loop.simps) (simp add: SHA256_BLOCKSIZE_def)
  qed
qed

lemma sha256_x86_fips:
  assumes "length st = 8" "len \<le> length data"
  shows "sha256_transform_x86 st data len = Some (map ucast (run_blocks fips_sha256_block 64 (low32 8 st) (take len data)) @ drop 8 st)"
proof -
  let ?H = "low32 8 st" let ?R = "run_blocks fips_sha256_block 64 ?H (take len data)"
  have lR: "length ?R = 8" by (rule run_blocks_length) (simp_all add: fips_sha256_block_length)
  then obtain a b c d e f g h where R: "?R = [a, b, c, d, e, f, g, h]" using list8 by blast
  have "sha256_vecs ?H =
      (mm_alignr_epi8 (mm_shuffle_epi32 (mm_loadu_words ?H 0) 0xB1) (mm_shuffle_epi32 (mm_loadu_words ?H 4) 0x1B) 8,
       mm_blend_epi16 (mm_shuffle_epi32 (mm_loadu_words ?H 4) 0x1B) (mm_shuffle_epi32 (mm_loadu_words ?H 0) 0xB1) 0xF0)"
    by (simp add: sha256_vecs_def mm_loadu_words_def of_lanes_def shuffle_lanes alignr_lanes blend_lanes)
  from sha256_x86_loop_fips [OF _ assms(2) this] R assms(1) show ?thesis
    by (simp add: sha256_transform_x86_def low32_def [symmetric] Let_def sha256_vecs_def shuffle_lanes alignr_lanes blend_lanes)
qed

section \<open>Streaming with the accelerated transforms\<close>

text \<open>
  Compression as the accelerated code does it: the words of the state come back cut to 32 bits,
  where the portable code lets their upper halves grow.
\<close>

definition ni_compress :: "(u32 list \<Rightarrow> u8 list \<Rightarrow> u32 list) \<Rightarrow> nat \<Rightarrow> u64 list \<Rightarrow> u8 list \<Rightarrow> u64 list" where
  "ni_compress blk n st b = map ucast (blk (low32 n st) b) @ drop n st"

text \<open>The whole blocks of a \<open>write\<close> with one call of the transform.\<close>

definition accel_write ::
  "(HASH_CONTEXT \<Rightarrow> u8 list \<Rightarrow> HASH_CONTEXT option) \<Rightarrow> x86_transform \<Rightarrow> nat \<Rightarrow> HASH_CONTEXT \<Rightarrow> u8 list \<Rightarrow> nat \<Rightarrow>
   HASH_CONTEXT option" where
  "accel_write tr f num ctx buf len =
     (let ctx0 = ctx\<lparr> bytecount := bytecount ctx + of_nat len \<rparr>; n = 64 - num
      in if num \<noteq> 0 \<and> len < n then do {
           b \<leftarrow> memcpy (hbuf ctx0) num buf len;
           Some (ctx0\<lparr> hbuf := b \<rparr>)
         }
         else do {
           (ctx1, buf1, len1) \<leftarrow>
             (if num \<noteq> 0 then do {
                b \<leftarrow> memcpy (hbuf ctx0) num buf n;
                c \<leftarrow> tr (ctx0\<lparr> hbuf := b \<rparr>) b;
                Some (c, drop n buf, len - n)
              } else Some (ctx0, buf, len));
           (ctx2, buf2, len2) \<leftarrow>
             (if len1 \<ge> 64 then do {
                let n1 = len1 div 64 * 64;
                st \<leftarrow> f (hstate ctx1) buf1 n1;
                Some (ctx1\<lparr> hstate := st \<rparr>, drop n1 buf1, len1 - n1)
              } else Some (ctx1, buf1, len1));
           b \<leftarrow> memcpy (hbuf ctx2) 0 buf2 len2;
           Some (ctx2\<lparr> hbuf := b \<rparr>)
         })"

text \<open>
  What the streaming code relies on: the accelerated transform compresses all the blocks it is
  given, and the transform of one block is a call of it.
\<close>

locale accelerated =
  fixes f :: x86_transform and blk :: "u32 list \<Rightarrow> u8 list \<Rightarrow> u32 list" and n :: nat
    and tr :: "HASH_CONTEXT \<Rightarrow> u8 list \<Rightarrow> HASH_CONTEXT option" and h0 :: "u64 list"
  assumes n: "n \<le> 8"
    and blk_length: "length H = n \<Longrightarrow> length (blk H b) = n"
    and f_run: "length st = 8 \<Longrightarrow> len \<le> length data \<Longrightarrow>
      f st data len = Some (map ucast (run_blocks blk 64 (low32 n st) (take len data)) @ drop n st)"
    and tr_f: "tr ctx data = do {st \<leftarrow> f (hstate ctx) data 64; Some (ctx\<lparr> hstate := st \<rparr>)}"
    and h0_len: "length h0 = 8"
begin

lemma compress_len: "length st = 8 \<Longrightarrow> length (ni_compress blk n st b) = 8"
  using n by (simp add: ni_compress_def blk_length)

lemma low_compress:
  assumes "length st = 8"
  shows "low32 n (ni_compress blk n st b) = blk (low32 n st) b"
proof (rule nth_equalityI)
  show "length (low32 n (ni_compress blk n st b)) = length (blk (low32 n st) b)" by (simp add: blk_length)
  show "low32 n (ni_compress blk n st b) ! i = blk (low32 n st) b ! i" if "i < length (low32 n (ni_compress blk n st b))" for i
    using that by (simp add: nth_low32 ni_compress_def nth_append blk_length ucast_up_ucast_id is_up)
qed

lemma run_low: "length st = 8 \<Longrightarrow> low32 n (run_blocks (ni_compress blk n) 64 st msg) = run_blocks blk 64 (low32 n st) msg"
  using run_blocks_sim [where P = "\<lambda>st. length st = 8" and c = "ni_compress blk n" and ab = "low32 n" and c' = blk, of 64 st msg]
  by (simp add: compress_len low_compress)

lemma run_compress:
  assumes "length st = 8" "64 \<le> length msg"
  shows "run_blocks (ni_compress blk n) 64 st msg = map ucast (run_blocks blk 64 (low32 n st) msg) @ drop n st"
  using assms
proof (induction "length msg" arbitrary: st msg rule: less_induct)
  case less
  let ?st = "ni_compress blk n st (take 64 msg)" and ?m = "drop 64 msg"
  have l: "length ?st = 8" by (rule compress_len [OF less.prems(1)])
  have step: "run_blocks (ni_compress blk n) 64 st msg = run_blocks (ni_compress blk n) 64 ?st ?m"
    "run_blocks blk 64 (low32 n st) msg = run_blocks blk 64 (low32 n ?st) ?m"
    using less.prems by (subst run_blocks.simps; simp add: low_compress)+
  have d: "drop n ?st = drop n st" using less.prems(1) by (simp add: ni_compress_def blk_length)
  show ?case
  proof (cases "64 \<le> length ?m")
    case True
    then show ?thesis using less.hyps [OF _ l True] less.prems(2) step d by simp
  next
    case False
    then show ?thesis using step low_compress [OF less.prems(1)] by (simp add: run_blocks_short ni_compress_def)
  qed
qed

lemma transform: "length (hstate ctx) = 8 \<Longrightarrow> 64 \<le> length data \<Longrightarrow>
    tr ctx data = Some (ctx\<lparr> hstate := ni_compress blk n (hstate ctx) (take 64 data) \<rparr>)"
  by (simp add: tr_f f_run run_blocks_one ni_compress_def)

lemma block_hash: "block_hash tr (ni_compress blk n) 64 h0"
  by unfold_locales (simp_all add: transform compress_len h0_len MAX_BLOCKSIZE_def)

lemma bulk:
  assumes "length (hstate ctx) = 8" "len \<le> length buf"
  shows "(if len \<ge> 64 then do {
       let n1 = len div 64 * 64; st \<leftarrow> f (hstate ctx) buf n1; Some (ctx\<lparr> hstate := st \<rparr>, drop n1 buf, len - n1)
     } else Some (ctx, buf, len)) = hash_blocks tr 64 ctx buf len"
proof (cases "64 \<le> len")
  case True
  let ?n1 = "len div 64 * 64"
  have n1: "64 \<le> ?n1" "?n1 \<le> len" "len - ?n1 = len mod 64"
    using True by (auto simp: minus_div_mult_eq_mod)
  have "f (hstate ctx) buf ?n1 = Some (run_blocks (ni_compress blk n) 64 (hstate ctx) (take ?n1 buf))"
    using f_run [OF assms(1), of ?n1 buf] run_compress [OF assms(1), of "take ?n1 buf"] n1 assms(2) by simp
  moreover have "run_blocks (ni_compress blk n) 64 (hstate ctx) (take ?n1 buf) = run_blocks (ni_compress blk n) 64 (hstate ctx) (take len buf)"
  proof -
    have "take len buf = take ?n1 buf @ take (len mod 64) (drop ?n1 buf)" using take_add [of ?n1 "len mod 64" buf] by simp
    moreover have "64 dvd length (take ?n1 buf)" using n1(2) assms(2) by simp
    ultimately show ?thesis
      using run_blocks_append [of 64 "take ?n1 buf" "ni_compress blk n" "hstate ctx" "take (len mod 64) (drop ?n1 buf)"]
      by (simp add: run_blocks_short)
  qed
  ultimately show ?thesis using True n1(3) block_hash.hash_blocks_run [OF block_hash assms] by simp
next
  case False
  then show ?thesis by (simp add: hash_blocks.simps)
qed

lemma f_length:
  assumes "length st = 8" "len \<le> length data" "f st data len = Some st'"
  shows "length st' = 8"
proof -
  have "length (run_blocks blk 64 (low32 n st) (take len data)) = n" by (rule run_blocks_length) (simp_all add: blk_length)
  then show ?thesis using f_run [OF assms(1,2)] assms(1,3) n by auto
qed

lemma accel_write_stream:
  assumes st: "length (hstate ctx) = 8" "64 \<le> length (hbuf ctx)" and len: "len \<le> length buf" and num: "num < 64"
  shows "accel_write tr f num ctx buf len = stream_write tr 64 num ctx buf len"
proof -
  let ?c0 = "ctx\<lparr> bytecount := bytecount ctx + of_nat len \<rparr>"
  let ?fill = "if num \<noteq> 0 then do {b \<leftarrow> memcpy (hbuf ?c0) num buf (64 - num); c \<leftarrow> tr (?c0\<lparr> hbuf := b \<rparr>) b;
            Some (c, drop (64 - num) buf, len - (64 - num))} else Some (?c0, buf, len)"
  have first: "length (hstate c1) = 8 \<and> l1 \<le> length b1" if r: "?fill = Some (c1, b1, l1)" for c1 b1 l1
  proof (cases "num = 0")
    case True
    then show ?thesis using r st(1) len by auto
  next
    case False
    then obtain b st' where b: "memcpy (hbuf ctx) num buf (64 - num) = Some b" "f (hstate ctx) b 64 = Some st'"
      "c1 = ctx\<lparr> bytecount := bytecount ctx + of_nat len, hbuf := b, hstate := st' \<rparr>" "b1 = drop (64 - num) buf" "l1 = len - (64 - num)"
      using r by (auto simp: tr_f split: bind_splits)
    then show ?thesis using f_length [OF st(1) _ b(2)] memcpy_length [OF b(1)] st(2) len by auto
  qed
  show ?thesis
    unfolding accel_write_def stream_write_def Let_def
    by (rule if_cong [OF refl refl], rule Option.bind_cong [OF refl])
      (use first bulk [unfolded Let_def] in \<open>auto split: prod.splits\<close>)
qed

lemma write_absorbs:
  assumes "absorbed (ni_compress blk n) 64 h0 msg ctx" and "bytecount ctx = of_nat (length msg)" and "len \<le> length buf"
  shows "\<exists>ctx'. accel_write tr f (unat (bytecount ctx AND 63)) ctx buf len = Some ctx' \<and>
     absorbed (ni_compress blk n) 64 h0 (msg @ take len buf) ctx' \<and> bytecount ctx' = bytecount ctx + of_nat len"
proof -
  have st: "length (hstate ctx) = 8" "64 \<le> length (hbuf ctx)"
    using assms(1) block_hash.run_length [OF block_hash] by (simp_all add: absorbed_def MAX_BLOCKSIZE_def)
  have num: "unat (bytecount ctx AND 63) = length msg mod 64" by (simp add: assms(2) count_mod_64)
  show ?thesis
    unfolding num by (subst accel_write_stream [OF st assms(3)])
      (simp_all add: block_hash.stream_write_absorbs [OF block_hash assms(1,3)])
qed

end

interpretation sha1_ni: accelerated sha1_transform_x86 fips_sha1_block 5 "sha1_transform (Some sha1_transform_x86)" sha1_h0
  by unfold_locales (simp_all add: fips_sha1_block_length sha1_x86_fips sha1_transform_def SHA1_BLOCKSIZE_def sha1.h0_length)

interpretation sha256_ni: accelerated sha256_transform_x86 fips_sha256_block 8 "sha256_transform (Some sha256_transform_x86)" sha256_h0
  by unfold_locales (simp_all add: fips_sha256_block_length sha256_x86_fips sha256_transform_def SHA256_BLOCKSIZE_def sha256.h0_length)

lemma accel_writes:
  "sha1_write (Some f) ctx buf len = accel_write (sha1_transform (Some f)) f (unat (bytecount ctx AND 63)) ctx buf len"
  "sha256_write (Some f) ctx buf len = accel_write (sha256_transform (Some f)) f (unat (bytecount ctx AND 63)) ctx buf len"
  by (simp_all only: sha1_write_def sha256_write_def accel_write_def SHA1_BLOCKSIZE_def SHA256_BLOCKSIZE_def Let_def option.case)

text \<open>The code on a processor with the instructions is a streaming hash with the same digests.\<close>

interpretation sha1_ni_stream: hash_stream "sha1_transform (Some sha1_transform_x86)" "ni_compress fips_sha1_block 5" 64 sha1_h0
    sha1_init "sha1_write (Some sha1_transform_x86)" "sha1_final (Some sha1_transform_x86)" "\<lambda>msg buf len. len \<le> length buf" fips_sha1
proof (intro hash_stream.intro sha1_ni.block_hash hash_stream_axioms.intro)
  show "sha1_init = \<lparr> hbuf = replicate MAX_BLOCKSIZE 0, hstate = sha1_h0, bytecount = 0 \<rparr>" by (rule sha1_stream.init_state)
  show "\<exists>ctx'. sha1_write (Some sha1_transform_x86) ctx buf len = Some ctx' \<and>
      absorbed (ni_compress fips_sha1_block 5) 64 sha1_h0 (msg @ take len buf) ctx' \<and> bytecount ctx' = bytecount ctx + of_nat len"
    if "absorbed (ni_compress fips_sha1_block 5) 64 sha1_h0 msg ctx" "bytecount ctx = of_nat (length msg)" "len \<le> length buf"
    for msg ctx buf len using sha1_ni.write_absorbs [OF that] by (simp only: accel_writes)
  show "\<exists>ctx'. sha1_final (Some sha1_transform_x86) ctx = Some ctx' \<and> take (length (fips_sha1 msg)) (hbuf ctx') = fips_sha1 msg \<and>
      length (hbuf ctx') = MAX_BLOCKSIZE"
    if "absorbed (ni_compress fips_sha1_block 5) 64 sha1_h0 msg ctx" "bytecount ctx = of_nat (length msg)" for msg ctx
    by (rule sha1_final_any [OF _ _ _ that(2)])
      (use that sha1_ni.block_hash sha1_ni.run_low [OF sha1.h0_length] in \<open>simp_all add: SHA1_BLOCKSIZE_def\<close>)
qed

interpretation sha256_ni_stream: hash_stream "sha256_transform (Some sha256_transform_x86)" "ni_compress fips_sha256_block 8" 64 sha256_h0
    sha256_init "sha256_write (Some sha256_transform_x86)" "sha256_final (Some sha256_transform_x86)" "\<lambda>msg buf len. len \<le> length buf" fips_sha256
proof (intro hash_stream.intro sha256_ni.block_hash hash_stream_axioms.intro)
  show "sha256_init = \<lparr> hbuf = replicate MAX_BLOCKSIZE 0, hstate = sha256_h0, bytecount = 0 \<rparr>" by (rule sha256_stream.init_state)
  show "\<exists>ctx'. sha256_write (Some sha256_transform_x86) ctx buf len = Some ctx' \<and>
      absorbed (ni_compress fips_sha256_block 8) 64 sha256_h0 (msg @ take len buf) ctx' \<and> bytecount ctx' = bytecount ctx + of_nat len"
    if "absorbed (ni_compress fips_sha256_block 8) 64 sha256_h0 msg ctx" "bytecount ctx = of_nat (length msg)" "len \<le> length buf"
    for msg ctx buf len using sha256_ni.write_absorbs [OF that] by (simp only: accel_writes)
  show "\<exists>ctx'. sha256_final (Some sha256_transform_x86) ctx = Some ctx' \<and> take (length (fips_sha256 msg)) (hbuf ctx') = fips_sha256 msg \<and>
      length (hbuf ctx') = MAX_BLOCKSIZE"
    if "absorbed (ni_compress fips_sha256_block 8) 64 sha256_h0 msg ctx" "bytecount ctx = of_nat (length msg)" for msg ctx
    by (rule sha256_final_any [OF _ _ _ that(2)])
      (use that sha256_ni.block_hash sha256_ni.run_low [OF sha256.h0_length] in \<open>simp_all add: SHA256_BLOCKSIZE_def\<close>)
qed

text \<open>
  C24. The accelerated SHA-1 transform is the compression function of FIPS 180-4: on any number of
  whole blocks \<open>sha1_transform_x86\<close> leaves in the state, as 32-bit words, what the standard
  computes from the 32-bit words it found there, and so agrees with the portable
  \<open>sha1_transform_cc\<close> on the bits of the digest.
\<close>

theorem sha1_transform_x86_correct:
  assumes "length (hstate ctx) = 8" "64 \<le> length data"
  shows "sha1_transform_x86 (hstate ctx) data 64 = Some (map ucast (fips_sha1_block (low32 5 (hstate ctx)) (take 64 data)) @ drop 5 (hstate ctx)) \<and>
    (\<exists>ctx'. sha1_transform_cc ctx data = Some ctx' \<and>
       low32 5 (hstate ctx') = low32 5 (the (sha1_transform_x86 (hstate ctx) data 64)))"
proof -
  have x: "sha1_transform_x86 (hstate ctx) data 64 = Some (ni_compress fips_sha1_block 5 (hstate ctx) (take 64 data))"
    using sha1_x86_fips [OF assms] assms(2) by (simp add: run_blocks_one ni_compress_def)
  have "sha1_transform_cc ctx data = Some (ctx\<lparr> hstate := sha1_compress (hstate ctx) (take 64 data) \<rparr>)"
    using sha1_transform_compress [OF assms(1), of data] assms(2) by (simp add: sha1_transform_def SHA1_BLOCKSIZE_def)
  then show ?thesis
    using x sha1_ni.low_compress [OF assms(1)] sha1_compress_fips [OF assms(1)] by (auto simp: ni_compress_def)
qed

theorem sha1_transform_x86_correct_witness:
  "sha1_transform_x86 (hstate sha1_init) (replicate 64 1) 64 =
     Some (map ucast (fips_sha1_block (low32 5 (hstate sha1_init)) (take 64 (replicate 64 1))) @ drop 5 (hstate sha1_init))"
  using sha1_transform_x86_correct [of sha1_init "replicate 64 1"] sha1.h0_length by (simp add: sha1_h0_def)

text \<open>
  C25. The same for SHA-256: \<open>sha256_transform_x86\<close> and \<open>sha256_transform_cc\<close> both
  compute the compression function of FIPS 180-4.
\<close>

theorem sha256_transform_x86_correct:
  assumes "length (hstate ctx) = 8" "64 \<le> length data"
  shows "sha256_transform_x86 (hstate ctx) data 64 = Some (map ucast (fips_sha256_block (low32 8 (hstate ctx)) (take 64 data))) \<and>
    (\<exists>ctx'. sha256_transform_cc ctx data = Some ctx' \<and>
       low32 8 (hstate ctx') = low32 8 (the (sha256_transform_x86 (hstate ctx) data 64)))"
proof -
  have x: "sha256_transform_x86 (hstate ctx) data 64 = Some (ni_compress fips_sha256_block 8 (hstate ctx) (take 64 data))"
    using sha256_x86_fips [OF assms] assms(2) by (simp add: run_blocks_one ni_compress_def)
  have "sha256_transform_cc ctx data = Some (ctx\<lparr> hstate := sha256_compress (hstate ctx) (take 64 data) \<rparr>)"
    using sha256_transform_compress [OF assms(1), of data] assms(2) by (simp add: sha256_transform_def SHA256_BLOCKSIZE_def)
  then show ?thesis
    using x sha256_ni.low_compress [OF assms(1)] sha256_compress_fips [OF assms(1)] assms(1) by (auto simp: ni_compress_def)
qed

theorem sha256_transform_x86_correct_witness:
  "sha256_transform_x86 (hstate sha256_init) (replicate 64 1) 64 =
     Some (map ucast (fips_sha256_block (low32 8 (hstate sha256_init)) (take 64 (replicate 64 1))))"
  using sha256_transform_x86_correct [of sha256_init "replicate 64 1"] sha256.h0_length by (simp add: sha256_h0_def)

end
