(* ===== verification/Hash_Buffer.thy ===== *)
theory Hash_Buffer
  imports Hash_MD5 Hash_SHA_NI
begin

text \<open>
  The clients of the hash functions in \<open>src/src/hash.c\<close> that need no thread: the tables
  indexed by the type of hash, \<open>HashBuffer\<close>, \<open>HashFile\<close> and the lookup in a database
  of SHA-256 digests. Each is proved correct for all four types through the interface
  \<open>hash_stream\<close>.
\<close>

section \<open>The tables and \<open>HashBuffer\<close>\<close>

definition HASH_MAX :: nat where
  "HASH_MAX = 4"

definition hash_count :: "nat list" where
  "hash_count = [MD5_HASHSIZE, SHA1_HASHSIZE, SHA256_HASHSIZE, SHA512_HASHSIZE]"

text \<open>\<open>a1\<close> and \<open>a256\<close> stand for the accelerated SHA-1 and SHA-256 transforms.\<close>

definition hash_init :: "HASH_CONTEXT list" where
  "hash_init = [md5_init, sha1_init, sha256_init, sha512_init]"

definition hash_write ::
  "x86_transform option \<Rightarrow> x86_transform option \<Rightarrow> (HASH_CONTEXT \<Rightarrow> u8 list \<Rightarrow> nat \<Rightarrow> HASH_CONTEXT option) list" where
  "hash_write a1 a256 = [md5_write, sha1_write a1, sha256_write a256, sha512_write]"

definition hash_final ::
  "x86_transform option \<Rightarrow> x86_transform option \<Rightarrow> (HASH_CONTEXT \<Rightarrow> HASH_CONTEXT option) list" where
  "hash_final a1 a256 = [md5_final, sha1_final a1, sha256_final a256, sha512_final]"

text \<open>The result is the return value and the contents of the caller's \<open>hash\<close> buffer.\<close>

definition HashBuffer ::
  "x86_transform option \<Rightarrow> x86_transform option \<Rightarrow> nat \<Rightarrow> u8 list \<Rightarrow> nat \<Rightarrow> u8 list option \<Rightarrow>
   (bool \<times> u8 list option) option" where
  "HashBuffer a1 a256 type buf len hash =
     (case hash of
        None \<Rightarrow> Some (False, None)
      | Some out \<Rightarrow>
          if type \<ge> HASH_MAX then Some (False, Some out)
          else do {
            c1 \<leftarrow> (hash_write a1 a256 ! type) (hash_init ! type) buf len;
            c2 \<leftarrow> (hash_final a1 a256 ! type) c1;
            out' \<leftarrow> memcpy out 0 (hbuf c2) (hash_count ! type);
            Some (True, Some out')
          })"

text \<open>
  \<open>IsBufferInDB\<close>, over the table \<open>sha256db\<close>: the \<open>for\<close> loop from byte \<open>i\<close> on.
\<close>

function db_scan :: "u8 list \<Rightarrow> u8 list \<Rightarrow> nat \<Rightarrow> bool option" where
  "db_scan db hash i =
     (if i < length db then
        (if length db < i + SHA256_HASHSIZE then None
         else if take SHA256_HASHSIZE hash = slice i SHA256_HASHSIZE db then Some True
         else db_scan db hash (i + SHA256_HASHSIZE))
      else Some False)"
  by pat_completeness auto
termination
  by (relation "measure (\<lambda>(db, hash, i). length db - i)") (auto simp: SHA256_HASHSIZE_def)

declare db_scan.simps [simp del]

definition IsBufferInDB :: "x86_transform option \<Rightarrow> x86_transform option \<Rightarrow> u8 list \<Rightarrow> u8 list \<Rightarrow> nat \<Rightarrow> bool option" where
  "IsBufferInDB a1 a256 sha256db buf len = do {
     (r, hash) \<leftarrow> HashBuffer a1 a256 2 buf len (Some (replicate SHA256_HASHSIZE 0));
     if \<not> r then Some False else db_scan sha256db (the hash) 0
   }"

section \<open>Files\<close>

datatype hash_status = HashDone | OpenFailed | ReadFault | Cancelled | BadArgument

text \<open>
  The file as the operating system shows it: \<open>f_open\<close> is the state after opening,
  \<open>f_read f n\<close> the success flag, the bytes that reach the buffer and the next state,
  \<open>f_cancel f\<close> whether the user has asked to stop by then.
\<close>

record 'f file_api =
  f_open :: "'f option"
  f_read :: "'f \<Rightarrow> nat \<Rightarrow> bool \<times> u8 list \<times> 'f"
  f_cancel :: "'f \<Rightarrow> bool"

partial_function (option) hash_file_loop ::
  "'f file_api \<Rightarrow> (HASH_CONTEXT \<Rightarrow> u8 list \<Rightarrow> nat \<Rightarrow> HASH_CONTEXT option) \<Rightarrow> HASH_CONTEXT \<Rightarrow> u8 list \<Rightarrow> 'f \<Rightarrow>
   (hash_status + HASH_CONTEXT) option" where
  "hash_file_loop api wr ctx buf f =
     (if f_cancel api f then Some (Inl Cancelled)
      else
        case f_read api f (length buf) of (ok, bytes, f') \<Rightarrow> do {
          buf' \<leftarrow> memcpy buf 0 bytes (length bytes);
          if \<not> ok then Some (Inl ReadFault)
          else if length bytes = 0 then Some (Inr ctx)
          else do {
            ctx' \<leftarrow> wr ctx buf' (length bytes);
            hash_file_loop api wr ctx' buf' f'
          }
        })"

declare hash_file_loop.simps [code]

definition HashFile ::
  "x86_transform option \<Rightarrow> x86_transform option \<Rightarrow> 'f file_api \<Rightarrow> nat \<Rightarrow> u8 list option \<Rightarrow>
   (hash_status \<times> u8 list option) option" where
  "HashFile a1 a256 api type hash =
     (case hash of
        None \<Rightarrow> Some (BadArgument, None)
      | Some out \<Rightarrow>
          if type \<ge> HASH_MAX then Some (BadArgument, hash)
          else
            (case f_open api of
               None \<Rightarrow> Some (OpenFailed, hash)
             | Some f \<Rightarrow> do {
                 r \<leftarrow> hash_file_loop api (hash_write a1 a256 ! type) (hash_init ! type) (replicate 4096 0) f;
                 case r of
                   Inl e \<Rightarrow> Some (e, hash)
                 | Inr ctx \<Rightarrow> do {
                     ctx' \<leftarrow> (hash_final a1 a256 ! type) ctx;
                     out' \<leftarrow> memcpy out 0 (hbuf ctx') (hash_count ! type);
                     Some (HashDone, Some out')
                   }
               }))"

section \<open>All types at once\<close>

definition digest_of :: "nat \<Rightarrow> u8 list \<Rightarrow> u8 list" where
  "digest_of type = [rfc_md5, fips_sha1, fips_sha256, fips_sha512] ! type"

text \<open>
  The variables \<open>cpu_has_sha1_accel\<close> and \<open>cpu_has_sha256_accel\<close> choose the transforms,
  and with them how a block is compressed into the state.
\<close>

definition sha1_accel :: "bool \<Rightarrow> x86_transform option" where
  "sha1_accel cpu = (if cpu then Some sha1_transform_x86 else None)"

definition sha256_accel :: "bool \<Rightarrow> x86_transform option" where
  "sha256_accel cpu = (if cpu then Some sha256_transform_x86 else None)"

definition sha1_comp :: "bool \<Rightarrow> u64 list \<Rightarrow> u8 list \<Rightarrow> u64 list" where
  "sha1_comp cpu = (if cpu then ni_compress fips_sha1_block 5 else sha1_compress)"

definition sha256_comp :: "bool \<Rightarrow> u64 list \<Rightarrow> u8 list \<Rightarrow> u64 list" where
  "sha256_comp cpu = (if cpu then ni_compress fips_sha256_block 8 else sha256_compress)"

interpretation sha1_any: hash_stream "sha1_transform (sha1_accel cpu)" "sha1_comp cpu" SHA1_BLOCKSIZE sha1_h0 sha1_init
    "sha1_write (sha1_accel cpu)" "sha1_final (sha1_accel cpu)" "\<lambda>msg buf len. len \<le> length buf" fips_sha1 for cpu
  using sha1_stream.hash_stream_axioms sha1_ni_stream.hash_stream_axioms
  by (cases cpu) (simp_all add: sha1_accel_def sha1_comp_def SHA1_BLOCKSIZE_def)

interpretation sha256_any: hash_stream "sha256_transform (sha256_accel cpu)" "sha256_comp cpu" SHA256_BLOCKSIZE sha256_h0 sha256_init
    "sha256_write (sha256_accel cpu)" "sha256_final (sha256_accel cpu)" "\<lambda>msg buf len. len \<le> length buf" fips_sha256 for cpu
  using sha256_stream.hash_stream_axioms sha256_ni_stream.hash_stream_axioms
  by (cases cpu) (simp_all add: sha256_accel_def sha256_comp_def SHA256_BLOCKSIZE_def)

abbreviation writer :: "bool \<Rightarrow> bool \<Rightarrow> nat \<Rightarrow> HASH_CONTEXT \<Rightarrow> u8 list \<Rightarrow> nat \<Rightarrow> HASH_CONTEXT option" where
  "writer c1 c2 type \<equiv> hash_write (sha1_accel c1) (sha256_accel c2) ! type"

abbreviation finisher :: "bool \<Rightarrow> bool \<Rightarrow> nat \<Rightarrow> HASH_CONTEXT \<Rightarrow> HASH_CONTEXT option" where
  "finisher c1 c2 type \<equiv> hash_final (sha1_accel c1) (sha256_accel c2) ! type"

text \<open>The context of a hash of the given type has absorbed \<open>msg\<close>.\<close>

definition holds_msg :: "bool \<Rightarrow> bool \<Rightarrow> nat \<Rightarrow> u8 list \<Rightarrow> HASH_CONTEXT \<Rightarrow> bool" where
  "holds_msg c1 c2 type msg ctx \<longleftrightarrow> bytecount ctx = of_nat (length msg) \<and>
     [absorbed md5_compress MD5_BLOCKSIZE md5_h0 msg ctx,
      absorbed (sha1_comp c1) SHA1_BLOCKSIZE sha1_h0 msg ctx,
      absorbed (sha256_comp c2) SHA256_BLOCKSIZE sha256_h0 msg ctx,
      absorbed sha512_compress SHA512_BLOCKSIZE sha512_h0 msg ctx] ! type"

lemma type_cases:
  assumes "type < HASH_MAX"
  obtains "type = 0" | "type = 1" | "type = 2" | "type = 3"
  using assms by (auto simp: HASH_MAX_def less_Suc_eq numeral_eq_Suc)

lemma hash_init_holds: "type < HASH_MAX \<Longrightarrow> holds_msg a1 a2 type [] (hash_init ! type)"
  using md5_stream.init_absorbed sha1_any.init_absorbed sha256_any.init_absorbed sha512_stream.init_absorbed
  by (elim type_cases) (simp_all add: holds_msg_def hash_init_def)

lemma hash_write_holds:
  assumes "type < HASH_MAX" and "holds_msg a1 a2 type msg ctx" and "len \<le> length buf"
    and "msg = [] \<or> MD5_BLOCKSIZE \<le> length buf"
  shows "\<exists>ctx'. (writer a1 a2 type) ctx buf len = Some ctx' \<and> holds_msg a1 a2 type (msg @ take len buf) ctx'"
proof -
  have rd: "md5_readable msg buf len" using assms(3,4) by (auto simp: md5_readable_def MD5_BLOCKSIZE_def Let_def)
  from assms(1) show ?thesis
    by (cases rule: type_cases)
      (use assms(2,3) rd md5_stream.write_absorbs [of msg ctx buf len] sha1_any.write_absorbs [of a1 msg ctx len buf]
        sha256_any.write_absorbs [of a2 msg ctx len buf] sha512_stream.write_absorbs [of msg ctx len buf]
        in \<open>auto simp: holds_msg_def hash_write_def min_def\<close>)
qed

lemma hash_final_digest:
  assumes "type < HASH_MAX" and "holds_msg a1 a2 type msg ctx" and "length msg < 2 ^ 64"
  shows "\<exists>ctx'. (finisher a1 a2 type) ctx = Some ctx' \<and> length (hbuf ctx') = MAX_BLOCKSIZE \<and>
     take (hash_count ! type) (hbuf ctx') = digest_of type msg"
  using assms(1)
  by (cases rule: type_cases)
    (use assms(2,3) md5_stream.final_digest [of msg ctx] sha1_any.final_digest [of a1 msg ctx]
      sha256_any.final_digest [of a2 msg ctx] sha512_stream.final_digest [of msg ctx]
      in \<open>auto simp: holds_msg_def hash_final_def hash_count_def digest_of_def\<close>)

lemma hash_count_bounds: "type < HASH_MAX \<Longrightarrow> hash_count ! type \<le> MAX_BLOCKSIZE \<and> length (digest_of type msg) = hash_count ! type"
  by (elim type_cases) (simp_all add: hash_count_def digest_of_def MAX_BLOCKSIZE_def MD5_HASHSIZE_def SHA1_HASHSIZE_def
      SHA256_HASHSIZE_def SHA512_HASHSIZE_def)

lemma HashBuffer_run:
  assumes "type < HASH_MAX" and "len \<le> length buf" and "len < 2 ^ 64" and "hash_count ! type \<le> length out"
  shows "HashBuffer (sha1_accel a1) (sha256_accel a2) type buf len (Some out) =
    Some (True, Some (digest_of type (take len buf) @ drop (hash_count ! type) out))"
proof -
  obtain c1 where c1: "(writer a1 a2 type) (hash_init ! type) buf len = Some c1"
    "holds_msg a1 a2 type ([] @ take len buf) c1"
    using hash_write_holds [OF assms(1) hash_init_holds [OF assms(1)] assms(2)] by blast
  obtain c2 where c2: "(finisher a1 a2 type) c1 = Some c2" "length (hbuf c2) = MAX_BLOCKSIZE"
    "take (hash_count ! type) (hbuf c2) = digest_of type (take len buf)"
    using hash_final_digest [OF assms(1), of a1 a2 "take len buf" c1] c1(2) assms(2,3) by auto
  have "memcpy out 0 (hbuf c2) (hash_count ! type) =
      Some (digest_of type (take len buf) @ drop (hash_count ! type) out)"
    using c2(2,3) assms(4) hash_count_bounds [OF assms(1)] by (simp add: memcpy_Some)
  then show ?thesis using c1(1) c2(1) assms(1) by (simp add: HashBuffer_def HASH_MAX_def)
qed

lemma db_scan_result:
  assumes "length db = 32 * n" and "length hash = SHA256_HASHSIZE"
  shows "k \<le> n \<Longrightarrow> db_scan db hash (32 * k) = Some (\<exists>j. k \<le> j \<and> j < n \<and> hash = slice (32 * j) 32 db)"
proof (induction "n - k" arbitrary: k)
  case 0
  then show ?case using assms by (subst db_scan.simps) auto
next
  case (Suc m)
  then have kn: "k < n" "m = n - Suc k" "Suc k \<le> n" by simp_all
  have IH: "db_scan db hash (32 * k + 32) = Some (\<exists>j. Suc k \<le> j \<and> j < n \<and> hash = slice (32 * j) 32 db)"
    using Suc.hyps(1) [OF kn(2,3)] by (simp add: add.commute)
  have len: "32 * k < length db" "\<not> length db < 32 * k + SHA256_HASHSIZE"
    using kn assms(1) by (simp_all add: SHA256_HASHSIZE_def)
  have split: "(\<exists>j. k \<le> j \<and> j < n \<and> P j) \<longleftrightarrow> P k \<or> (\<exists>j. Suc k \<le> j \<and> j < n \<and> P j)" for P
    using kn(1) by (metis Suc_leD Suc_leI le_neq_implies_less order_refl)
  show ?case unfolding split using len IH assms(2)
    by (subst db_scan.simps) (simp add: SHA256_HASHSIZE_def)
qed

text \<open>
  A file that delivers the pieces \<open>cs\<close>, none of them empty or longer than the buffer, and then
  the end of the file.
\<close>

inductive delivers :: "'f file_api \<Rightarrow> 'f \<Rightarrow> u8 list list \<Rightarrow> bool" for api where
  delivers_end: "\<not> f_cancel api f \<Longrightarrow> f_read api f 4096 = (True, [], f') \<Longrightarrow> delivers api f []"
| delivers_piece: "\<not> f_cancel api f \<Longrightarrow> f_read api f 4096 = (True, c, f') \<Longrightarrow> c \<noteq> [] \<Longrightarrow> length c \<le> 4096 \<Longrightarrow>
    delivers api f' cs \<Longrightarrow> delivers api f (c # cs)"

lemma hash_file_loop_run:
  assumes "delivers api f cs" and t: "type < HASH_MAX" and "holds_msg a1 a2 type msg ctx" and "length buf = 4096"
  shows "\<exists>ctx'. hash_file_loop api (writer a1 a2 type) ctx buf f = Some (Inr ctx') \<and>
     holds_msg a1 a2 type (msg @ concat cs) ctx'"
  using assms(1,3,4)
proof (induction arbitrary: msg ctx buf)
  case (delivers_end f f')
  then show ?case by (subst hash_file_loop.simps) (simp add: memcpy_def)
next
  case (delivers_piece f c f' cs)
  let ?buf = "c @ drop (length c) buf"
  have m: "memcpy buf 0 c (length c) = Some ?buf" "length ?buf = 4096"
    using delivers_piece by (simp_all add: memcpy_Some)
  obtain ctx1 where c1: "(writer a1 a2 type) ctx ?buf (length c) = Some ctx1"
    "holds_msg a1 a2 type (msg @ take (length c) ?buf) ctx1"
    using hash_write_holds [OF t delivers_piece.prems(1), of "length c" ?buf] m(2) by (auto simp: MD5_BLOCKSIZE_def)
  have "holds_msg a1 a2 type (msg @ c) ctx1" using c1(2) by simp
  from delivers_piece.IH [OF this m(2)] show ?case
    using delivers_piece.hyps delivers_piece.prems(2) m(1) c1(1) by (subst hash_file_loop.simps) simp
qed

section \<open>Results\<close>

text \<open>
C6. \<open>HashBuffer\<close> is correct for all four types: with the portable transforms and with the accelerated ones it returns
true and stores the MD5 digest of RFC 1321, or the SHA-1, SHA-256 or SHA-512 digest of FIPS 180-4, of
the first \<open>len\<close> bytes, and it touches nothing else of the output.
\<close>

theorem HashBuffer_digest:
  assumes "type < HASH_MAX" and "len \<le> length buf" and "len < 2 ^ 64" and "hash_count ! type \<le> length out"
  shows "HashBuffer (sha1_accel a1) (sha256_accel a2) type buf len (Some out) =
    Some (True, Some (digest_of type (take len buf) @ drop (hash_count ! type) out))"
  by (rule HashBuffer_run [OF assms])

theorem HashBuffer_digest_witness:
  "HashBuffer (sha1_accel True) (sha256_accel True) 2 [1, 2, 3, 4] 3 (Some (replicate 40 9)) =
     Some (True, Some (digest_of 2 (take 3 [1, 2, 3, 4]) @ drop (hash_count ! 2) (replicate 40 9)))"
  by (rule HashBuffer_digest)
    (simp_all add: HASH_MAX_def hash_count_def SHA256_HASHSIZE_def)

text \<open>
C7. The SHA functions do not depend on how the message is cut: feeding it in any pieces, empty
ones included, gives the digest of the whole.
\<close>

theorem sha_stream_digest:
  assumes "0 < type" "type < HASH_MAX" and "length (concat cs) < 2 ^ 64"
  shows "\<exists>ctx ctx'. write_all (writer a1 a2 type) (hash_init ! type) cs = Some ctx \<and>
     (finisher a1 a2 type) ctx = Some ctx' \<and>
     take (hash_count ! type) (hbuf ctx') = digest_of type (concat cs)"
proof -
  have rd: "all_readable (\<lambda>msg buf len. len \<le> length buf) msg ds" for msg ds
    by (induction ds arbitrary: msg) simp_all
  from assms(2) show ?thesis
    by (cases rule: type_cases)
      (use assms(1,3) sha1_any.stream_digest [OF rd, where cpu = a1] sha256_any.stream_digest [OF rd, where cpu = a2]
        sha512_stream.stream_digest [OF rd]
        in \<open>simp_all add: hash_write_def hash_init_def hash_final_def hash_count_def digest_of_def\<close>)
qed

theorem sha_stream_digest_witness:
  "\<exists>ctx ctx'. write_all (writer True True 1) (hash_init ! 1) [[1, 2], [], [3]] = Some ctx \<and>
     (finisher True True 1) ctx = Some ctx' \<and>
     take (hash_count ! 1) (hbuf ctx') = digest_of 1 (concat [[1, 2], [], [3]])"
  by (rule sha_stream_digest) (simp_all add: HASH_MAX_def)

text \<open>
C8. \<open>md5_write\<close> reads past its input: a piece that does not complete the current block makes
it copy as many bytes as would complete it, and those lie outside a buffer that holds just the
piece.
\<close>

theorem md5_write_overread:
  assumes "holds_msg a1 a2 0 msg ctx" and "length msg mod 64 \<noteq> 0" and "length c < 64 - length msg mod 64"
  shows "md5_write ctx c (length c) = None"
proof -
  have "unat (bytecount ctx AND 63) = length msg mod 64" using assms(1) by (simp add: holds_msg_def count_mod_64)
  then show ?thesis using assms(2,3) by (simp add: md5_write_def Let_def MD5_BLOCKSIZE_def memcpy_def)
qed

theorem md5_write_overread_witness:
  "\<exists>ctx. md5_write md5_init [1] 1 = Some ctx \<and> md5_write ctx [2] 1 = None"
proof -
  obtain ctx where c: "md5_write md5_init [1] 1 = Some ctx" "holds_msg True True 0 ([] @ take 1 [1]) ctx"
    using hash_write_holds [of 0 True True "[]" "hash_init ! 0" 1 "[1]"] hash_init_holds [of 0 True True]
    by (auto simp: HASH_MAX_def hash_write_def hash_init_def)
  have "md5_write ctx [2] (length [2 :: u8]) = None"
    by (rule md5_write_overread [of True True "[1]"]) (use c(2) in simp_all)
  then show ?thesis using c(1) by auto
qed

text \<open>
C9. \<open>HashFile\<close> hashes the whole file: however the system cuts the file into reads of at most
4096 bytes, the call ends and stores the digest of their concatenation, for all four types.
\<close>

theorem HashFile_digest:
  assumes "f_open api = Some f" and "delivers api f cs" and "type < HASH_MAX"
    and "length (concat cs) < 2 ^ 64" and "hash_count ! type \<le> length out"
  shows "HashFile (sha1_accel a1) (sha256_accel a2) api type (Some out) =
    Some (HashDone, Some (digest_of type (concat cs) @ drop (hash_count ! type) out))"
proof -
  have l: "length (replicate 4096 (0 :: u8)) = 4096" by (rule length_replicate)
  obtain c1 where c1: "hash_file_loop api (writer a1 a2 type) (hash_init ! type) (replicate 4096 0) f = Some (Inr c1)"
    "holds_msg a1 a2 type ([] @ concat cs) c1"
    using hash_file_loop_run [OF assms(2,3) hash_init_holds [OF assms(3)] l] by blast
  obtain c2 where c2: "(finisher a1 a2 type) c1 = Some c2" "length (hbuf c2) = MAX_BLOCKSIZE"
    "take (hash_count ! type) (hbuf c2) = digest_of type (concat cs)"
    using hash_final_digest [OF assms(3), of a1 a2 "concat cs" c1] c1(2) assms(4) by auto
  have "memcpy out 0 (hbuf c2) (hash_count ! type) =
      Some (digest_of type (concat cs) @ drop (hash_count ! type) out)"
    using c2(2,3) assms(5) hash_count_bounds [OF assms(3)] by (simp add: memcpy_Some)
  then show ?thesis using c1(1) c2(1) assms(1,3)
    by (simp add: HashFile_def HASH_MAX_def)
qed

definition list_file :: "u8 list list file_api" where
  "list_file = \<lparr> f_open = Some [[1, 2, 3], [4]],
     f_read = (\<lambda>f n. case f of [] \<Rightarrow> (True, [], []) | c # cs \<Rightarrow> (True, c, cs)), f_cancel = (\<lambda>f. False) \<rparr>"

theorem HashFile_digest_witness:
  "HashFile (sha1_accel True) (sha256_accel True) list_file 0 (Some (replicate 16 0)) =
     Some (HashDone, Some (digest_of 0 (concat [[1, 2, 3], [4]]) @ drop (hash_count ! 0) (replicate 16 0)))"
proof (rule HashFile_digest)
  have "delivers list_file [] []" by (rule delivers_end [of _ _ "[]"]) (simp_all add: list_file_def)
  then have "delivers list_file [[4]] [[4]]"
    by (rule delivers_piece [rotated 4, of _ "[]"]) (simp_all add: list_file_def)
  then show "delivers list_file [[1, 2, 3], [4]] [[1, 2, 3], [4]]"
    by (rule delivers_piece [rotated 4, of _ "[[4]]"]) (simp_all add: list_file_def)
qed (simp_all add: list_file_def HASH_MAX_def hash_count_def MD5_HASHSIZE_def)

text \<open>
C10. \<open>IsBufferInDB\<close> finds a buffer exactly when its SHA-256 digest is one of the 32-byte
entries of the table, and reads nothing outside the table.
\<close>

theorem IsBufferInDB_correct:
  assumes "length db = 32 * n" and "len \<le> length buf" and "len < 2 ^ 64"
  shows "IsBufferInDB (sha1_accel a1) (sha256_accel a2) db buf len =
    Some (\<exists>j < n. fips_sha256 (take len buf) = slice (32 * j) 32 db)"
proof -
  have "HashBuffer (sha1_accel a1) (sha256_accel a2) 2 buf len (Some (replicate SHA256_HASHSIZE 0)) =
      Some (True, Some (fips_sha256 (take len buf)))"
    using HashBuffer_run [of 2 len buf "replicate SHA256_HASHSIZE 0"] assms(2,3)
    by (simp add: HASH_MAX_def hash_count_def digest_of_def)
  then show ?thesis using db_scan_result [OF assms(1), of "fips_sha256 (take len buf)" 0]
    by (simp add: IsBufferInDB_def)
qed

theorem IsBufferInDB_correct_witness:
  "IsBufferInDB (sha1_accel True) (sha256_accel True) (replicate 64 7) [1, 2] 2 =
     Some (\<exists>j < 2. fips_sha256 (take 2 [1, 2]) = slice (32 * j) 32 (replicate 64 7))"
  by (rule IsBufferInDB_correct) simp_all

end
