(* ===== verification/PE_Image.thy ===== *)
theory PE_Image
  imports Hash_Buffer "HOL-Library.Multiset"
begin

text \<open>
  The hash of a UEFI executable (\<open>efi_image_region_add\<close>, \<open>cmp_pe_section\<close>,
  \<open>efi_image_parse\<close> and \<open>PE256Buffer\<close> of \<open>src/src/hash.c\<close>): the parts of a PE image
  that are hashed are collected as regions of the file, in order and without overlap, and fed to
  SHA-256.

  Pointers into the image are offsets from its start. The layout of the headers is the one of the
  PE format (\<open>winnt.h\<close>): the offset of the new header at 0x3C, the file header 4 bytes into
  it, the optional header at 24, section headers of 40 bytes. A read outside the image gives
  \<^term>\<open>None\<close>. \<open>qsort\<close> and the success of the two allocations are arguments.
\<close>

section \<open>Regions\<close>

record image_region =
  rdata :: int
  rsize :: u32

record efi_image_regions =
  rmax :: nat
  rnum :: nat
  reg :: "image_region list"

definition region_end :: "image_region \<Rightarrow> int" where
  "region_end r = rdata r + int (unat (rsize r))"

text \<open>Copying the regions from \<open>i\<close> on one place up, the last one first.\<close>

fun region_shift :: "image_region list \<Rightarrow> nat \<Rightarrow> nat \<Rightarrow> image_region list option" where
  "region_shift rs i 0 = Some rs"
| "region_shift rs i (Suc j) =
     (if j \<ge> i then do {
        x \<leftarrow> aget rs j;
        rs' \<leftarrow> aset rs (Suc j) x;
        region_shift rs' i j
      } else Some rs)"

text \<open>The loop over the regions: \<open>Some None\<close> is the return on an overlap.\<close>

function region_scan :: "bool \<Rightarrow> image_region list \<Rightarrow> nat \<Rightarrow> int \<Rightarrow> int \<Rightarrow> nat \<Rightarrow> (nat \<times> image_region list) option option" where
  "region_scan nocheck rs num start stop i =
     (if i < num then do {
        r \<leftarrow> aget rs i;
        if nocheck then region_scan nocheck rs num start stop (Suc i)
        else if start \<ge> region_end r then region_scan nocheck rs num start stop (Suc i)
        else if stop \<le> rdata r then do {rs' \<leftarrow> region_shift rs i num; Some (Some (i, rs'))}
        else Some None
      } else Some (Some (i, rs)))"
  by pat_completeness auto
termination
  by (relation "measure (\<lambda>(nocheck, rs, num, start, stop, i). num - i)") auto

declare region_scan.simps [simp del]

definition efi_image_region_add :: "efi_image_regions \<Rightarrow> int \<Rightarrow> int \<Rightarrow> bool \<Rightarrow> (bool \<times> efi_image_regions) option" where
  "efi_image_region_add regs start stop nocheck =
     (if rnum regs \<ge> rmax regs then Some (False, regs)
      else if stop < start then Some (False, regs)
      else do {
        r \<leftarrow> region_scan nocheck (reg regs) (rnum regs) start stop 0;
        case r of
          None \<Rightarrow> Some (False, regs)
        | Some (i, rs) \<Rightarrow> do {
            rs' \<leftarrow> aset rs i \<lparr> rdata = start, rsize = word_of_int (stop - start) \<rparr>;
            Some (True, regs\<lparr> reg := rs', rnum := rnum regs + 1 \<rparr>)
          }
      })"

section \<open>The image\<close>

definition rd16 :: "u8 list \<Rightarrow> int \<Rightarrow> u16 option" where
  "rd16 efi off = (if 0 \<le> off \<and> nat off + 2 \<le> length efi then Some (load_le (slice (nat off) 2 efi)) else None)"

definition rd32 :: "u8 list \<Rightarrow> int \<Rightarrow> u32 option" where
  "rd32 efi off = (if 0 \<le> off \<and> nat off + 4 \<le> length efi then Some (load_le (slice (nat off) 4 efi)) else None)"

record section_header =
  VirtualAddress :: u32
  SizeOfRawData :: u32
  PointerToRawData :: u32

definition read_section :: "u8 list \<Rightarrow> int \<Rightarrow> section_header option" where
  "read_section efi off = do {
     va \<leftarrow> rd32 efi (off + 12);
     sz \<leftarrow> rd32 efi (off + 16);
     ptr \<leftarrow> rd32 efi (off + 20);
     Some \<lparr> VirtualAddress = va, SizeOfRawData = sz, PointerToRawData = ptr \<rparr>
   }"

definition cmp_pe_section :: "section_header \<Rightarrow> section_header \<Rightarrow> int" where
  "cmp_pe_section section1 section2 =
     (if VirtualAddress section1 < VirtualAddress section2 then -1
      else if VirtualAddress section1 = VirtualAddress section2 then 0
      else 1)"

text \<open>The calls of \<open>efi_image_region_add\<close> ignore its result.\<close>

definition add_region :: "int \<Rightarrow> int \<Rightarrow> efi_image_regions \<Rightarrow> efi_image_regions option" where
  "add_region start stop regs = map_option snd (efi_image_region_add regs start stop False)"

definition IMAGE_DIRECTORY_ENTRY_SECURITY :: nat where
  "IMAGE_DIRECTORY_ENTRY_SECURITY = 4"

text \<open>
  The file headers, for an optional header at \<open>opt\<close> whose number of directories is at
  \<open>nrva\<close>; the directories follow it. The result also has \<open>bytes_hashed\<close>,
  \<open>align\<close> and \<open>authsz\<close>.
\<close>

definition parse_headers ::
  "u8 list \<Rightarrow> int \<Rightarrow> int \<Rightarrow> efi_image_regions \<Rightarrow> (efi_image_regions \<times> nat \<times> u32 \<times> u32) option" where
  "parse_headers efi opt nrva regs = do {
     let ctidx = IMAGE_DIRECTORY_ENTRY_SECURITY;
     let dir = opt + nrva + 4 + 8 * int ctidx;
     regs \<leftarrow> add_region 0 (opt + 64) regs;
     n \<leftarrow> rd32 efi (opt + nrva);
     SizeOfHeaders \<leftarrow> rd32 efi (opt + 60);
     FileAlignment \<leftarrow> rd32 efi (opt + 36);
     (regs, authsz) \<leftarrow>
       (if unat n \<le> ctidx then do {
          regs \<leftarrow> add_region (opt + 68) (int (unat SizeOfHeaders)) regs;
          Some (regs, 0)
        } else do {
          regs \<leftarrow> add_region (opt + 68) dir regs;
          regs \<leftarrow> add_region (dir + 8) (int (unat SizeOfHeaders)) regs;
          Size \<leftarrow> rd32 efi (dir + 4);
          Some (regs, Size)
        });
     Some (regs, unat SizeOfHeaders, FileAlignment, authsz)
   }"

text \<open>The loop over the sorted sections.\<close>

fun parse_sections :: "u32 \<Rightarrow> section_header list \<Rightarrow> efi_image_regions \<Rightarrow> nat \<Rightarrow> (efi_image_regions \<times> nat) option" where
  "parse_sections align [] regs bytes_hashed = Some (regs, bytes_hashed)"
| "parse_sections align (s # ss) regs bytes_hashed =
     (if SizeOfRawData s = 0 then parse_sections align ss regs bytes_hashed
      else do {
        let size = (SizeOfRawData s + align - 1) AND NOT (align - 1);
        let start = int (unat (PointerToRawData s));
        regs \<leftarrow> add_region start (start + int (unat size)) regs;
        parse_sections align ss regs (bytes_hashed + unat size)
      })"

fun read_sections :: "u8 list \<Rightarrow> int \<Rightarrow> nat \<Rightarrow> section_header list option" where
  "read_sections efi off 0 = Some []"
| "read_sections efi off (Suc n) = do {
     s \<leftarrow> read_section efi off;
     ss \<leftarrow> read_sections efi (off + 40) n;
     Some (s # ss)
   }"

text \<open>
  \<open>efi_image_parse\<close>; the inner \<^term>\<open>None\<close> is the return of \<open>FALSE\<close>. The
  comparison of \<open>e_lfanew\<close> is one of signed 32-bit integers.
\<close>

definition efi_image_parse ::
  "(section_header list \<Rightarrow> section_header list) \<Rightarrow> bool \<Rightarrow> bool \<Rightarrow> u8 list \<Rightarrow> nat \<Rightarrow> efi_image_regions option option" where
  "efi_image_parse qsort regs_ok sorted_ok efi len =
     (if len < 0x80 then Some None
      else do {
        lfanew \<leftarrow> rd32 efi 0x3C;
        if sint lfanew > sint (word_of_nat len :: u32) - 0x40 then Some None
        else do {
          let nt = sint lfanew;
          NumberOfSections \<leftarrow> rd16 efi (nt + 6);
          let num_regions = 3 + unat NumberOfSections + 1;
          if \<not> regs_ok then Some None
          else do {
            let regs = \<lparr> rmax = num_regions, rnum = 0, reg = replicate num_regions \<lparr> rdata = 0, rsize = 0 \<rparr> \<rparr>;
            let opt = nt + 24;
            Magic \<leftarrow> rd16 efi opt;
            if Magic \<noteq> 0x20b \<and> Magic \<noteq> 0x10b then Some None
            else do {
              (regs, bytes_hashed, align, authsz) \<leftarrow> parse_headers efi opt (if Magic = 0x20b then 108 else 92) regs;
              SizeOfOptionalHeader \<leftarrow> rd16 efi (nt + 20);
              if \<not> sorted_ok then Some None
              else do {
                sections \<leftarrow> read_sections efi (opt + int (unat SizeOfOptionalHeader)) (unat NumberOfSections);
                (regs, bytes_hashed) \<leftarrow> parse_sections align (qsort sections) regs bytes_hashed;
                regs \<leftarrow>
                  (if bytes_hashed + unat authsz < len
                   then add_region (int bytes_hashed) (int len - int (unat authsz)) regs else Some regs);
                Some (Some regs)
              }
            }
          }
        }
      })"

text \<open>\<open>PE256Buffer\<close>: its return value and the contents of the caller's \<open>hash\<close> buffer.\<close>

definition region_bytes :: "u8 list \<Rightarrow> image_region \<Rightarrow> u8 list option" where
  "region_bytes buf r =
     (if 0 \<le> rdata r \<and> nat (rdata r) \<le> length buf then Some (drop (nat (rdata r)) buf) else None)"

fun write_regions :: "x86_transform option \<Rightarrow> u8 list \<Rightarrow> image_region list \<Rightarrow> HASH_CONTEXT \<Rightarrow> HASH_CONTEXT option" where
  "write_regions a256 buf [] ctx = Some ctx"
| "write_regions a256 buf (r # rs) ctx = do {
     p \<leftarrow> region_bytes buf r;
     ctx' \<leftarrow> (if unat (rsize r) \<le> length p then sha256_write a256 ctx p (unat (rsize r)) else None);
     write_regions a256 buf rs ctx'
   }"

definition PE256Buffer ::
  "x86_transform option \<Rightarrow> (section_header list \<Rightarrow> section_header list) \<Rightarrow> bool \<Rightarrow> bool \<Rightarrow> u8 list option \<Rightarrow> nat \<Rightarrow>
   u8 list option \<Rightarrow> (bool \<times> u8 list option) option" where
  "PE256Buffer a256 qsort regs_ok sorted_ok buf len hash =
     (case (buf, hash) of
        (Some b, Some out) \<Rightarrow>
          if len = 0 \<or> len < 1024 \<or> len > 64 * 1048576 then Some (False, hash)
          else do {
            r \<leftarrow> efi_image_parse qsort regs_ok sorted_ok b len;
            case r of
              None \<Rightarrow> Some (False, hash)
            | Some regs \<Rightarrow> do {
                ctx \<leftarrow> write_regions a256 b (take (rnum regs) (reg regs)) sha256_init;
                ctx \<leftarrow> sha256_final a256 ctx;
                out' \<leftarrow> memcpy out 0 (hbuf ctx) SHA256_HASHSIZE;
                Some (True, Some out')
              }
          }
      | _ \<Rightarrow> Some (False, hash))"

section \<open>Regions in order\<close>

text \<open>
  The regions in use, ascending and disjoint; the specification of an insertion.
\<close>

definition regions :: "efi_image_regions \<Rightarrow> image_region list" where
  "regions regs = take (rnum regs) (reg regs)"

definition regs_inv :: "efi_image_regions \<Rightarrow> bool" where
  "regs_inv regs \<longleftrightarrow> rnum regs \<le> rmax regs \<and> length (reg regs) = rmax regs \<and>
     sorted_wrt (\<lambda>a b. region_end a \<le> rdata b) (regions regs)"

definition overlaps :: "int \<Rightarrow> int \<Rightarrow> image_region \<Rightarrow> bool" where
  "overlaps start stop r \<longleftrightarrow> start < region_end r \<and> rdata r < stop"

definition ins_region :: "image_region \<Rightarrow> image_region list \<Rightarrow> image_region list" where
  "ins_region x rs = takeWhile (\<lambda>r. region_end r \<le> rdata x) rs @ x # dropWhile (\<lambda>r. region_end r \<le> rdata x) rs"

lemma shift_step:
  assumes "i \<le> n" and "Suc n < length rs"
  shows "take (Suc i) (rs[Suc n := rs ! n]) @ slice i (n - i) (rs[Suc n := rs ! n]) @ drop (Suc n) (rs[Suc n := rs ! n]) =
    take (Suc i) rs @ slice i (Suc n - i) rs @ drop (Suc (Suc n)) rs"
proof -
  have "slice i (n - i) (rs[Suc n := rs ! n]) = slice i (n - i) rs"
    using assms by (simp add: slice_def drop_update_swap take_update_cancel)
  moreover have "drop (Suc n) (rs[Suc n := rs ! n]) = rs ! n # drop (Suc (Suc n)) rs"
    using assms(2) by (simp flip: Cons_nth_drop_Suc)
  moreover have "slice i (Suc n - i) rs = slice i (n - i) rs @ [rs ! n]"
    using assms by (simp add: slice_def Suc_diff_le take_Suc_conv_app_nth)
  ultimately show ?thesis using assms by simp
qed

lemma region_shift_result:
  "i \<le> n \<Longrightarrow> n < length rs \<Longrightarrow> region_shift rs i n = Some (take (Suc i) rs @ slice i (n - i) rs @ drop (Suc n) rs)"
proof (induction n arbitrary: rs)
  case 0
  then show ?case by (simp add: slice_def flip: Cons_nth_drop_Suc)
next
  case (Suc n)
  show ?case
  proof (cases "i \<le> n")
    case True
    let ?rs = "rs[Suc n := rs ! n]"
    have "region_shift rs i (Suc n) = region_shift ?rs i n" using Suc.prems True by (simp add: aget_Some aset_Some)
    also have "\<dots> = Some (take (Suc i) ?rs @ slice i (n - i) ?rs @ drop (Suc n) ?rs)" using Suc True by simp
    finally show ?thesis using shift_step [OF True Suc.prems(2)] by simp
  next
    case False
    then have "i = Suc n" using Suc.prems(1) by simp
    then show ?thesis by (simp add: slice_def)
  qed
qed

lemma region_scan_result:
  assumes "num < length rs"
  shows "i \<le> num \<Longrightarrow> j = i + length (takeWhile (\<lambda>r. region_end r \<le> start) (drop i (take num rs))) \<Longrightarrow>
    region_scan False rs num start stop i =
      (if j < num \<and> rdata (rs ! j) < stop then Some None
       else Some (Some (j, take (Suc j) rs @ slice j (num - j) rs @ drop (Suc num) rs)))"
proof (induction "num - i" arbitrary: i)
  case 0
  then have "i = num" "j = num" by auto
  then show ?case using assms by (subst region_scan.simps) (simp add: slice_def)
next
  case (Suc m)
  then have i: "i < num" by simp
  have d: "drop i (take num rs) = rs ! i # drop (Suc i) (take num rs)"
    using i assms by (metis Cons_nth_drop_Suc length_take min.absorb4 nth_take)
  have g: "aget rs i = Some (rs ! i)" using i assms by (simp add: aget_Some)
  show ?case
  proof (cases "region_end (rs ! i) \<le> start")
    case True
    then have "j = Suc i + length (takeWhile (\<lambda>r. region_end r \<le> start) (drop (Suc i) (take num rs)))" using Suc.prems(2) d by simp
    then show ?thesis using Suc.hyps(1) [of "Suc i"] Suc.hyps(2) i g True by (subst region_scan.simps) simp
  next
    case False
    then have "j = i" using Suc.prems(2) d by simp
    then show ?thesis using False i g region_shift_result [of i num rs] assms by (subst region_scan.simps) auto
  qed
qed

lemma region_end_new: "0 \<le> stop - start \<Longrightarrow> stop - start < 2 ^ 32 \<Longrightarrow> region_end \<lparr> rdata = start, rsize = word_of_int (stop - start) \<rparr> = stop"
  by (simp add: region_end_def unsigned_of_int take_bit_int_eq_self del: of_int_diff)

lemma region_le [simp]: "rdata r \<le> region_end r"
  by (simp add: region_end_def)

lemma overlap_first:
  assumes s: "sorted_wrt (\<lambda>a b. region_end a \<le> rdata b) xs" and le: "start \<le> stop"
    and j: "j = length (takeWhile (\<lambda>r. region_end r \<le> start) xs)"
  shows "(\<exists>r \<in> set xs. overlaps start stop r) \<longleftrightarrow> j < length xs \<and> rdata (xs ! j) < stop"
proof
  assume "\<exists>r \<in> set xs. overlaps start stop r"
  then obtain k where k: "k < length xs" "start < region_end (xs ! k)" "rdata (xs ! k) < stop"
    by (auto simp: overlaps_def in_set_conv_nth)
  have "j \<le> k" using k(1,2) j by (metis (no_types, lifting) leI length_takeWhile_le nth_mem set_takeWhileD takeWhile_nth not_less)
  then have "j < length xs" using k(1) by simp
  moreover have "rdata (xs ! j) \<le> rdata (xs ! k)"
  proof (cases "j = k")
    case False
    then have "region_end (xs ! j) \<le> rdata (xs ! k)" using s \<open>j \<le> k\<close> k(1) by (simp add: sorted_wrt_iff_nth_less)
    then show ?thesis using region_le [of "xs ! j"] by linarith
  qed simp
  ultimately show "j < length xs \<and> rdata (xs ! j) < stop" using k(3) by simp
next
  assume a: "j < length xs \<and> rdata (xs ! j) < stop"
  then have "start < region_end (xs ! j)" using nth_length_takeWhile [of "\<lambda>r. region_end r \<le> start" xs] j by simp
  then show "\<exists>r \<in> set xs. overlaps start stop r" using a by (auto simp: overlaps_def intro: bexI [of _ "xs ! j"])
qed

lemma ins_region_sorted:
  assumes s: "sorted_wrt (\<lambda>a b. region_end a \<le> rdata b) xs" and le: "rdata x \<le> region_end x"
    and no: "\<forall>r \<in> set xs. \<not> overlaps (rdata x) (region_end x) r"
  shows "sorted_wrt (\<lambda>a b. region_end a \<le> rdata b) (ins_region x xs)"
proof -
  let ?P = "\<lambda>r. region_end r \<le> rdata x"
  have tw: "sorted_wrt (\<lambda>a b. region_end a \<le> rdata b) (takeWhile ?P xs @ dropWhile ?P xs)" using s by simp
  have after: "region_end x \<le> rdata b" if b: "b \<in> set (dropWhile ?P xs)" for b
  proof -
    obtain h t where ht: "dropWhile ?P xs = h # t" using b by (cases "dropWhile ?P xs") auto
    then have "\<not> ?P h" by (metis dropWhile_eq_Cons_conv)
    moreover have "h \<in> set xs" using ht by (metis list.set_intros(1) set_dropWhileD)
    ultimately have h: "region_end x \<le> rdata h" using no by (auto simp: overlaps_def)
    have "b = h \<or> region_end h \<le> rdata b" using b tw unfolding ht sorted_wrt_append by auto
    then show ?thesis using h order_trans [OF h order_trans [OF region_le [of h]]] by (elim disjE) simp_all
  qed
  have before: "region_end a \<le> rdata x" if "a \<in> set (takeWhile ?P xs)" for a using that by (auto dest: set_takeWhileD)
  have "rdata x \<le> rdata b" if "b \<in> set (dropWhile ?P xs)" for b using after [OF that] le by linarith
  then have "region_end a \<le> rdata b" if "a \<in> set (takeWhile ?P xs)" "b \<in> set (dropWhile ?P xs)" for a b
    using order_trans [OF before [OF that(1)]] that(2) by blast
  moreover have "sorted_wrt (\<lambda>a b. region_end a \<le> rdata b) (takeWhile ?P xs)" "sorted_wrt (\<lambda>a b. region_end a \<le> rdata b) (dropWhile ?P xs)"
    using tw unfolding sorted_wrt_append by blast+
  ultimately show ?thesis using after before unfolding ins_region_def sorted_wrt_append sorted_wrt.simps(2) list.set(2) by blast
qed

lemma region_add_result:
  assumes inv: "regs_inv regs" and w: "stop - start < 2 ^ 32"
  shows "\<exists>regs'. efi_image_region_add regs start stop False =
      Some (rnum regs < rmax regs \<and> start \<le> stop \<and> (\<forall>r \<in> set (regions regs). \<not> overlaps start stop r), regs') \<and>
    regs_inv regs' \<and> rmax regs' = rmax regs \<and>
    regions regs' =
      (if rnum regs < rmax regs \<and> start \<le> stop \<and> (\<forall>r \<in> set (regions regs). \<not> overlaps start stop r)
       then ins_region \<lparr> rdata = start, rsize = word_of_int (stop - start) \<rparr> (regions regs) else regions regs)"
proof (cases "rnum regs < rmax regs \<and> start \<le> stop")
  case False
  then show ?thesis using inv by (auto simp: efi_image_region_add_def)
next
  case True
  let ?x = "\<lparr> rdata = start, rsize = word_of_int (stop - start) \<rparr>" and ?n = "rnum regs" and ?rs = "reg regs"
  define xs where "xs = regions regs"
  have xs: "xs = take ?n ?rs" "length xs = ?n" "sorted_wrt (\<lambda>a b. region_end a \<le> rdata b) xs" and n: "?n < length ?rs"
    using inv True by (auto simp: xs_def regions_def regs_inv_def)
  define j where "j = length (takeWhile (\<lambda>r. region_end r \<le> start) xs)"
  have jn: "j \<le> ?n" using length_takeWhile_le xs(2) by (metis j_def)
  have scan: "region_scan False ?rs ?n start stop 0 = (if j < ?n \<and> rdata (?rs ! j) < stop then Some None
      else Some (Some (j, take (Suc j) ?rs @ slice j (?n - j) ?rs @ drop (Suc ?n) ?rs)))"
    by (rule region_scan_result [OF n]) (simp_all add: j_def xs(1))
  have ov: "(\<exists>r \<in> set xs. overlaps start stop r) \<longleftrightarrow> j < ?n \<and> rdata (?rs ! j) < stop"
    using overlap_first [OF xs(3), of start stop j] True xs(1,2) by (auto simp: j_def)
  show ?thesis
  proof (cases "\<exists>r \<in> set xs. overlaps start stop r")
    case o: True
    then show ?thesis using True inv scan ov by (auto simp: efi_image_region_add_def xs_def)
  next
    case o: False
    define rs' where "rs' = take j ?rs @ ?x # slice j (?n - j) ?rs @ drop (Suc ?n) ?rs"
    have "aset (take (Suc j) ?rs @ slice j (?n - j) ?rs @ drop (Suc ?n) ?rs) j ?x = Some rs'"
      using n jn by (simp add: aset_def rs'_def list_update_append take_Suc_conv_app_nth slice_def)
    then have run: "efi_image_region_add regs start stop False = Some (True, regs\<lparr> reg := rs', rnum := ?n + 1 \<rparr>)"
      using True scan ov o by (auto simp: efi_image_region_add_def)
    have "length (slice j (?n - j) ?rs) = ?n - j" using n by simp
    then have "take (?n + 1) rs' = take j ?rs @ ?x # slice j (?n - j) ?rs" using n jn by (simp add: rs'_def Suc_diff_le)
    also have "\<dots> = take j xs @ ?x # drop j xs" by (simp only: xs(1) slice_def drop_take take_take min.absorb1 [OF jn])
    also have "\<dots> = ins_region ?x xs" by (simp add: ins_region_def j_def flip: takeWhile_eq_take dropWhile_eq_drop)
    finally have new: "regions (regs\<lparr> reg := rs', rnum := ?n + 1 \<rparr>) = ins_region ?x xs" by (simp add: regions_def)
    have e: "region_end ?x = stop" by (rule region_end_new) (use True w in auto)
    have "sorted_wrt (\<lambda>a b. region_end a \<le> rdata b) (ins_region ?x xs)"
      by (rule ins_region_sorted [OF xs(3)]) (use e True o in auto)
    moreover have "length rs' = rmax regs" using n jn inv by (simp add: rs'_def regs_inv_def slice_def)
    ultimately have "regs_inv (regs\<lparr> reg := rs', rnum := ?n + 1 \<rparr>)" using new True by (simp add: regs_inv_def)
    then show ?thesis using run new True o by (auto simp: xs_def)
  qed
qed


text \<open>Regions that follow one another, and what they hold of the image.\<close>

definition region_slice :: "u8 list \<Rightarrow> image_region \<Rightarrow> u8 list" where
  "region_slice efi r = slice (nat (rdata r)) (unat (rsize r)) efi"

definition spans :: "u8 list \<Rightarrow> nat \<Rightarrow> u8 list \<Rightarrow> efi_image_regions \<Rightarrow> bool" where
  "spans efi k msg regs \<longleftrightarrow> regs_inv regs \<and> k \<le> length efi \<and>
     (\<forall>r \<in> set (regions regs). 0 \<le> rdata r \<and> region_end r \<le> int k) \<and>
     concat (map (region_slice efi) (regions regs)) = msg"

lemma ins_region_last: "\<forall>r \<in> set rs. region_end r \<le> rdata x \<Longrightarrow> ins_region x rs = rs @ [x]"
  by (simp add: ins_region_def)

lemma length_regions: "regs_inv regs \<Longrightarrow> length (regions regs) = rnum regs"
  by (simp add: regs_inv_def regions_def)

lemma spans_add:
  assumes sp: "spans efi k msg regs" and room: "rnum regs < rmax regs" and ab: "k \<le> a" "a \<le> b" "b \<le> length efi"
    and small: "length efi < 2 ^ 32"
  shows "\<exists>regs'. add_region (int a) (int b) regs = Some regs' \<and> spans efi b (msg @ slice a (b - a) efi) regs' \<and>
    rnum regs' = Suc (rnum regs) \<and> rmax regs' = rmax regs"
proof -
  let ?x = "\<lparr> rdata = int a, rsize = word_of_int (int b - int a) \<rparr>"
  have inv: "regs_inv regs" and rs: "\<forall>r \<in> set (regions regs). 0 \<le> rdata r \<and> region_end r \<le> int k"
    using sp by (simp_all add: spans_def)
  have w: "int b - int a < 2 ^ 32" using ab(3) small by simp
  have free: "\<forall>r \<in> set (regions regs). \<not> overlaps (int a) (int b) r" using rs ab(1) by (force simp: overlaps_def)
  obtain regs' where r: "efi_image_region_add regs (int a) (int b) False = Some (True, regs')" "regs_inv regs'"
    "rmax regs' = rmax regs" "regions regs' = ins_region ?x (regions regs)"
    using region_add_result [OF inv w] room ab(2) free by auto
  have app: "regions regs' = regions regs @ [?x]" using r(4) rs ab(1) by (force intro: ins_region_last)
  have e: "region_end ?x = int b" by (rule region_end_new) (use ab w in auto)
  have "unat (rsize ?x) = b - a"
    using e ab(2) by (simp only: region_end_def image_region.simps)
  then have "spans efi b (msg @ slice a (b - a) efi) regs'"
    using app e r(2) sp rs ab by (force simp: spans_def region_slice_def)
  moreover have "rnum regs' = Suc (rnum regs)"
    using length_regions [OF r(2)] length_regions [OF inv] app by simp
  ultimately show ?thesis using r(1,3) by (auto simp: add_region_def)
qed


text \<open>
  The sections of a well-formed image lie one behind the other, each of a multiple of the alignment:
  where they end, from an offset on.
\<close>

definition raw_size :: "u32 \<Rightarrow> section_header \<Rightarrow> nat" where
  "raw_size align s = unat ((SizeOfRawData s + align - 1) AND NOT (align - 1))"

fun packed :: "u32 \<Rightarrow> nat \<Rightarrow> section_header list \<Rightarrow> nat option" where
  "packed align k [] = Some k"
| "packed align k (s # ss) =
     (if SizeOfRawData s = 0 then packed align k ss
      else if unat (PointerToRawData s) = k then packed align (k + raw_size align s) ss
      else None)"

lemma packed_mono: "packed align k ss = Some e \<Longrightarrow> k \<le> e"
  by (induction ss arbitrary: k) (force split: if_splits)+

lemma parse_sections_packed:
  assumes "length efi < 2 ^ 32"
  shows "packed align k ss = Some e \<Longrightarrow> e \<le> length efi \<Longrightarrow> spans efi k msg regs \<Longrightarrow> rnum regs + length ss \<le> rmax regs \<Longrightarrow>
    \<exists>regs'. parse_sections align ss regs k = Some (regs', e) \<and> spans efi e (msg @ slice k (e - k) efi) regs' \<and>
      rnum regs' \<le> rnum regs + length ss \<and> rmax regs' = rmax regs"
proof (induction ss arbitrary: k msg regs)
  case Nil
  then show ?case by (simp add: slice_def)
next
  case (Cons s ss)
  show ?case
  proof (cases "SizeOfRawData s = 0")
    case True
    then show ?thesis using Cons.IH [OF _ Cons.prems(2,3)] Cons.prems(1,4) by fastforce
  next
    case False
    let ?m = "k + raw_size align s"
    have p: "unat (PointerToRawData s) = k" "packed align ?m ss = Some e" using Cons.prems(1) False by (auto split: if_splits)
    then have me: "?m \<le> e" using packed_mono by blast
    obtain regs1 where r1: "add_region (int k) (int ?m) regs = Some regs1" "spans efi ?m (msg @ slice k (raw_size align s) efi) regs1"
      "rnum regs1 = Suc (rnum regs)" "rmax regs1 = rmax regs"
      using spans_add [OF Cons.prems(3) _ _ _ _ assms, of k ?m] me Cons.prems(2,4) by auto
    from Cons.IH [OF p(2) Cons.prems(2) r1(2)] obtain regs2 where r2: "parse_sections align ss regs1 ?m = Some (regs2, e)"
      "spans efi e ((msg @ slice k (raw_size align s) efi) @ slice ?m (e - ?m) efi) regs2"
      "rnum regs2 \<le> rnum regs1 + length ss" "rmax regs2 = rmax regs1"
      using r1(3,4) Cons.prems(4) by auto
    have "slice k (raw_size align s) efi @ slice ?m (e - ?m) efi = slice k (e - k) efi"
      using slice_append [of k "raw_size align s" efi "e - ?m"] me by simp
    then have "spans efi e (msg @ slice k (e - k) efi) regs2" using r2(2) by simp
    then show ?thesis using False p(1) r1(1,3,4) r2(1,3,4) by (simp add: Let_def raw_size_def)
  qed
qed

text \<open>\<open>qsort\<close> as the C library promises it: a permutation, ordered by the comparison.\<close>

definition sorts :: "(section_header list \<Rightarrow> section_header list) \<Rightarrow> bool" where
  "sorts qsort \<longleftrightarrow> (\<forall>ss. mset (qsort ss) = mset ss \<and> sorted_wrt (\<lambda>a b. cmp_pe_section a b \<le> 0) (qsort ss))"

lemma sorts_unique:
  assumes "sorts qsort" and "distinct (map VirtualAddress ss)"
  shows "qsort ss = sort_key VirtualAddress ss"
proof (rule sort_key_inj_key_eq [symmetric])
  show m: "mset ss = mset (qsort ss)" using assms(1) by (simp add: sorts_def)
  show "inj_on VirtualAddress (set ss)" using assms(2) by (simp add: distinct_map)
  have "sorted_wrt (\<lambda>a b. VirtualAddress a \<le> VirtualAddress b) (qsort ss)"
    by (rule sorted_wrt_mono_rel [where P = "\<lambda>a b. cmp_pe_section a b \<le> 0"])
      (use assms(1) in \<open>auto simp: sorts_def cmp_pe_section_def split: if_splits\<close>)
  then show "sorted (map VirtualAddress (qsort ss))" by (simp add: sorted_map)
qed

text \<open>
  A well-formed image with a certificate directory: what its headers say, and that its headers and
  its sections, in the order of their addresses, are packed in the file.
\<close>

record pe_layout =
  l_nt :: nat
  l_magic :: u16
  l_headers :: u32
  l_align :: u32
  l_auth :: u32
  l_sections :: "section_header list"

definition l_opt :: "pe_layout \<Rightarrow> nat" where
  "l_opt L = l_nt L + 24"

definition l_nrva :: "pe_layout \<Rightarrow> nat" where
  "l_nrva L = (if l_magic L = 0x20b then 108 else 92)"

definition l_dir :: "pe_layout \<Rightarrow> nat" where
  "l_dir L = l_opt L + l_nrva L + 36"

definition headers_read :: "u8 list \<Rightarrow> pe_layout \<Rightarrow> bool" where
  "headers_read efi L \<longleftrightarrow> rd32 efi 0x3C = Some (of_nat (l_nt L)) \<and>
     map_option unat (rd16 efi (int (l_nt L) + 6)) = Some (length (l_sections L)) \<and>
     rd16 efi (int (l_opt L)) = Some (l_magic L) \<and> (l_magic L = 0x20b \<or> l_magic L = 0x10b) \<and>
     map_option (\<lambda>n. unat n > 4) (rd32 efi (int (l_opt L + l_nrva L))) = Some True \<and>
     rd32 efi (int (l_opt L) + 60) = Some (l_headers L) \<and> rd32 efi (int (l_opt L) + 36) = Some (l_align L) \<and>
     rd32 efi (int (l_dir L) + 4) = Some (l_auth L) \<and>
     Option.bind (rd16 efi (int (l_nt L) + 20)) (\<lambda>k. read_sections efi (int (l_opt L) + int (unat k)) (length (l_sections L))) =
       Some (l_sections L)"

definition well_formed_pe :: "u8 list \<Rightarrow> pe_layout \<Rightarrow> bool" where
  "well_formed_pe efi L \<longleftrightarrow> headers_read efi L \<and> l_dir L + 8 \<le> unat (l_headers L) \<and> distinct (map VirtualAddress (l_sections L)) \<and>
     (case packed (l_align L) (unat (l_headers L)) (sort_key VirtualAddress (l_sections L)) of
        None \<Rightarrow> False | Some e \<Rightarrow> e + unat (l_auth L) \<le> length efi)"

text \<open>
  What Authenticode hashes: the file without the checksum, the entry of the certificate directory
  and the certificates at the end.
\<close>

definition authenticode :: "u8 list \<Rightarrow> pe_layout \<Rightarrow> u8 list" where
  "authenticode efi L = take (l_opt L + 64) efi @ slice (l_opt L + 68) (l_dir L - (l_opt L + 68)) efi @
     slice (l_dir L + 8) (length efi - unat (l_auth L) - (l_dir L + 8)) efi"

definition no_regions :: "nat \<Rightarrow> efi_image_regions" where
  "no_regions n = \<lparr> rmax = n, rnum = 0, reg = replicate n \<lparr> rdata = 0, rsize = 0 \<rparr> \<rparr>"

lemma spans_start: "spans efi 0 [] (no_regions n)" "rnum (no_regions n) = 0" "rmax (no_regions n) = n"
  by (simp_all add: spans_def no_regions_def regs_inv_def regions_def)

lemma parse_headers_run:
  assumes h: "headers_read efi L" and fit: "l_dir L + 8 \<le> unat (l_headers L)" "unat (l_headers L) \<le> length efi"
    and small: "length efi < 2 ^ 32" and n: "3 \<le> n"
  shows "\<exists>regs. parse_headers efi (int (l_opt L)) (int (l_nrva L)) (no_regions n) =
      Some (regs, unat (l_headers L), l_align L, l_auth L) \<and>
    spans efi (unat (l_headers L)) (take (l_opt L + 64) efi @ slice (l_opt L + 68) (l_dir L - (l_opt L + 68)) efi @
      slice (l_dir L + 8) (unat (l_headers L) - (l_dir L + 8)) efi) regs \<and> rnum regs = 3 \<and> rmax regs = n"
proof -
  have d: "l_opt L + 68 \<le> l_dir L" by (simp add: l_dir_def l_nrva_def)
  obtain r1 where r1: "add_region 0 (int (l_opt L + 64)) (no_regions n) = Some r1" "spans efi (l_opt L + 64) (take (l_opt L + 64) efi) r1"
    "rnum r1 = 1" "rmax r1 = n"
    using spans_add [OF spans_start(1) _ _ _ _ small, of n 0 "l_opt L + 64"] spans_start(2,3) [of n] n d fit by (auto simp: slice_def)
  obtain r2 where r2: "add_region (int (l_opt L + 68)) (int (l_dir L)) r1 = Some r2" "spans efi (l_dir L) (take (l_opt L + 64) efi @ slice (l_opt L + 68) (l_dir L - (l_opt L + 68)) efi) r2"
    "rnum r2 = 2" "rmax r2 = n"
    using spans_add [OF r1(2) _ _ _ _ small, of "l_opt L + 68" "l_dir L"] r1(3,4) n d fit by auto
  obtain r3 where r3: "add_region (int (l_dir L + 8)) (int (unat (l_headers L))) r2 = Some r3" "spans efi (unat (l_headers L)) ((take (l_opt L + 64) efi @ slice (l_opt L + 68) (l_dir L - (l_opt L + 68)) efi) @
      slice (l_dir L + 8) (unat (l_headers L) - (l_dir L + 8)) efi) r3"
    "rnum r3 = 3" "rmax r3 = n"
    using spans_add [OF r2(2) _ _ _ _ small, of "l_dir L + 8" "unat (l_headers L)"] r2(3,4) n d fit by auto
  obtain k where k: "rd32 efi (int (l_opt L) + int (l_nrva L)) = Some k" "\<not> unat k \<le> 4" using h by (auto simp: headers_read_def)
  have dir: "int (l_opt L) + int (l_nrva L) + 4 + 8 * int IMAGE_DIRECTORY_ENTRY_SECURITY = int (l_dir L)"
    by (simp add: IMAGE_DIRECTORY_ENTRY_SECURITY_def l_dir_def)
  show ?thesis using h k r1(1) r2(1) r3 unfolding parse_headers_def dir Let_def
    by (simp add: headers_read_def IMAGE_DIRECTORY_ENTRY_SECURITY_def add.commute)
qed


lemma authenticode_split:
  assumes "l_dir L + 8 \<le> h" "h \<le> e" "e + unat (l_auth L) \<le> length efi"
  shows "(take (l_opt L + 64) efi @ slice (l_opt L + 68) (l_dir L - (l_opt L + 68)) efi @ slice (l_dir L + 8) (h - (l_dir L + 8)) efi) @
    slice h (e - h) efi @ slice e (length efi - unat (l_auth L) - e) efi = authenticode efi L"
proof -
  have "slice h (e - h) efi @ slice e (length efi - unat (l_auth L) - e) efi = slice h (length efi - unat (l_auth L) - h) efi"
    using slice_append [of h "e - h" efi] assms(2,3) by simp
  moreover have "slice (l_dir L + 8) (h - (l_dir L + 8)) efi @ slice h (length efi - unat (l_auth L) - h) efi =
      slice (l_dir L + 8) (length efi - unat (l_auth L) - (l_dir L + 8)) efi"
    using slice_append [of "l_dir L + 8" "h - (l_dir L + 8)" efi] assms by simp
  ultimately show ?thesis by (simp add: authenticode_def)
qed

lemma sint_of_nat_small: "n < 2 ^ 31 \<Longrightarrow> sint (of_nat n :: u32) = int n"
  by (simp add: sint_uint unsigned_of_nat signed_take_bit_int_eq_self take_bit_nat_eq_self of_nat_mod)

lemma efi_image_parse_run:
  assumes wf: "well_formed_pe efi L" and q: "sorts qsort" and len: "length efi < 2 ^ 31"
  shows "\<exists>regs k. efi_image_parse qsort True True efi (length efi) = Some (Some regs) \<and> spans efi k (authenticode efi L) regs"
proof -
  let ?H = "unat (l_headers L)" and ?n = "3 + length (l_sections L) + 1" and ?ss = "sort_key VirtualAddress (l_sections L)"
  have h: "headers_read efi L" and dir: "l_dir L + 8 \<le> ?H" and qs: "qsort (l_sections L) = ?ss"
    using wf sorts_unique [OF q] by (auto simp: well_formed_pe_def)
  obtain e where e: "packed (l_align L) ?H ?ss = Some e" "e + unat (l_auth L) \<le> length efi"
    using wf by (auto simp: well_formed_pe_def split: option.splits)
  have He: "?H \<le> e" using packed_mono [OF e(1)] .
  have small: "length efi < 2 ^ 32" "?H \<le> length efi" using len He e(2) by simp_all
  obtain r1 where r1: "parse_headers efi (int (l_opt L)) (int (l_nrva L)) (no_regions ?n) = Some (r1, ?H, l_align L, l_auth L)"
    "spans efi ?H (take (l_opt L + 64) efi @ slice (l_opt L + 68) (l_dir L - (l_opt L + 68)) efi @
      slice (l_dir L + 8) (?H - (l_dir L + 8)) efi) r1" "rnum r1 = 3" "rmax r1 = ?n"
    using parse_headers_run [OF h dir small(2,1), of ?n] by auto
  have "e \<le> length efi" using e(2) by simp
  from parse_sections_packed [OF small(1) e(1) this r1(2)] obtain r2 where
    r2: "parse_sections (l_align L) ?ss r1 ?H = Some (r2, e)"
    "spans efi e ((take (l_opt L + 64) efi @ slice (l_opt L + 68) (l_dir L - (l_opt L + 68)) efi @
      slice (l_dir L + 8) (?H - (l_dir L + 8)) efi) @ slice ?H (e - ?H) efi) r2" "rnum r2 < rmax r2"
    using r1(3,4) by auto
  have "\<exists>r3 k. (if e + unat (l_auth L) < length efi then add_region (int e) (int (length efi) - int (unat (l_auth L))) r2 else Some r2) = Some r3 \<and>
      spans efi k (authenticode efi L) r3"
  proof (cases "e + unat (l_auth L) < length efi")
    case True
    then show ?thesis
      using spans_add [OF r2(2,3) _ _ _ small(1), of e "length efi - unat (l_auth L)"] authenticode_split [OF dir He e(2)]
      by (fastforce simp: of_nat_diff)
  next
    case False
    then show ?thesis using r2(2) authenticode_split [OF dir He e(2)] e(2) by (fastforce simp: slice_def)
  qed
  then obtain r3 k where r3: "(if e + unat (l_auth L) < length efi then add_region (int e) (int (length efi) - int (unat (l_auth L))) r2 else Some r2) = Some r3"
      "spans efi k (authenticode efi L) r3" by blast
  have nt: "l_nt L + 160 \<le> length efi" "l_nt L < 2 ^ 31" using dir small(2) len by (simp_all add: l_dir_def l_opt_def l_nrva_def split: if_splits)
  have sn: "sint (of_nat (l_nt L) :: u32) = int (l_nt L)" "sint (of_nat (length efi) :: u32) = int (length efi)"
    using sint_of_nat_small nt(2) len by blast+
  have nrva: "(if l_magic L = 0x20b then 108 else 92) = int (l_nrva L)" by (simp add: l_nrva_def)
  obtain ns k2 where ns: "rd16 efi (int (l_nt L) + 6) = Some ns" "unat ns = length (l_sections L)"
    and k2: "rd16 efi (int (l_nt L) + 20) = Some k2"
      "read_sections efi (int (l_opt L) + int (unat k2)) (length (l_sections L)) = Some (l_sections L)"
    and rd: "rd32 efi 0x3C = Some (of_nat (l_nt L))" "rd16 efi (int (l_opt L)) = Some (l_magic L)" "l_magic L = 0x20b \<or> l_magic L = 0x10b"
    using h by (auto simp: headers_read_def bind_eq_Some_conv)
  have "efi_image_parse qsort True True efi (length efi) = Some (Some r3)"
    using nt rd ns k2 r1(1) r2(1) r3(1) qs unfolding efi_image_parse_def Let_def nrva
    by (simp add: sn l_opt_def nrva flip: no_regions_def)
  then show ?thesis using r3(2) by blast
qed

lemma region_bytes_Some:
  "0 \<le> rdata r \<Longrightarrow> region_end r \<le> int (length efi) \<Longrightarrow>
   region_bytes efi r = Some (drop (nat (rdata r)) efi) \<and> unat (rsize r) \<le> length (drop (nat (rdata r)) efi)"
proof -
  assume a: "0 \<le> rdata r" "region_end r \<le> int (length efi)"
  then have "nat (rdata r) + unat (rsize r) \<le> length efi" unfolding region_end_def by linarith
  then show ?thesis using a(1) by (simp add: region_bytes_def)
qed

lemma write_regions_holds:
  assumes "\<forall>r \<in> set rs. 0 \<le> rdata r \<and> region_end r \<le> int (length efi)" and "holds_msg a1 a2 2 msg ctx"
  shows "\<exists>ctx'. write_regions (sha256_accel a2) efi rs ctx = Some ctx' \<and> holds_msg a1 a2 2 (msg @ concat (map (region_slice efi) rs)) ctx'"
  using assms
proof (induction rs arbitrary: msg ctx)
  case Nil
  then show ?case by simp
next
  case (Cons r rs)
  let ?p = "drop (nat (rdata r)) efi"
  have p: "region_bytes efi r = Some ?p" "unat (rsize r) \<le> length ?p" using region_bytes_Some [of r efi] Cons.prems(1) by auto
  obtain c1 where c1: "sha256_write (sha256_accel a2) ctx ?p (unat (rsize r)) = Some c1" "holds_msg a1 a2 2 (msg @ region_slice efi r) c1"
    using sha256_any.write_absorbs [of a2 msg ctx "unat (rsize r)" ?p] Cons.prems(2) p(2)
    by (auto simp: holds_msg_def region_slice_def slice_def)
  have rest: "\<forall>r \<in> set rs. 0 \<le> rdata r \<and> region_end r \<le> int (length efi)" using Cons.prems(1) by simp
  show ?case using Cons.IH [OF rest c1(2)] p c1(1) by auto
qed


lemma finish_digest:
  assumes "holds_msg a1 a2 2 msg ctx" and "length msg < 2 ^ 64" and "SHA256_HASHSIZE \<le> length out"
  shows "do {ctx \<leftarrow> sha256_final (sha256_accel a2) ctx; memcpy out 0 (hbuf ctx) SHA256_HASHSIZE} =
    Some (fips_sha256 msg @ drop SHA256_HASHSIZE out)"
proof -
  obtain c where c: "sha256_final (sha256_accel a2) ctx = Some c" "length (hbuf c) = MAX_BLOCKSIZE"
    "take SHA256_HASHSIZE (hbuf c) = fips_sha256 msg"
    using sha256_any.final_digest [of a2 msg ctx] assms(1,2) by (auto simp: holds_msg_def)
  then show ?thesis using assms(3) by (simp add: memcpy_Some MAX_BLOCKSIZE_def SHA256_HASHSIZE_def)
qed

lemma init_holds_256: "holds_msg a1 a2 2 [] sha256_init"
  using hash_init_holds [of 2 a1 a2] by (simp add: HASH_MAX_def hash_init_def)

lemma PE256_of_regions:
  assumes p: "efi_image_parse qsort rk sk efi len = Some (Some regs)" and sz: "1024 \<le> len" "len \<le> 64 * 1048576"
    and fit: "\<forall>r \<in> set (regions regs). 0 \<le> rdata r \<and> region_end r \<le> int (length efi)"
    and out: "SHA256_HASHSIZE \<le> length out"
    and l: "length (concat (map (region_slice efi) (regions regs))) < 2 ^ 64"
  shows "PE256Buffer (sha256_accel a) qsort rk sk (Some efi) len (Some out) =
    Some (True, Some (fips_sha256 (concat (map (region_slice efi) (regions regs))) @ drop SHA256_HASHSIZE out))"
proof -
  obtain c where c: "write_regions (sha256_accel a) efi (regions regs) sha256_init = Some c"
    "holds_msg True a 2 ([] @ concat (map (region_slice efi) (regions regs))) c"
    using write_regions_holds [OF fit init_holds_256] by blast
  have "holds_msg True a 2 (concat (map (region_slice efi) (regions regs))) c" using c(2) by simp
  from finish_digest [OF this l out] show ?thesis using p sz c(1)
    by (auto simp: PE256Buffer_def regions_def bind_eq_Some_conv)
qed







lemma regions_total:
  assumes "sorted_wrt (\<lambda>a b. region_end a \<le> rdata b) rs" and "\<forall>r \<in> set rs. int k \<le> rdata r \<and> region_end r \<le> int (length efi)"
    and "k \<le> length efi"
  shows "k + length (concat (map (region_slice efi) rs)) \<le> length efi"
  using assms
proof (induction rs arbitrary: k)
  case (Cons r rs)
  have e: "region_end r \<le> int (length efi)" "int k \<le> rdata r" using Cons.prems(2) by simp_all
  then have n: "int (nat (region_end r)) = region_end r" using region_le [of r] by linarith
  have "nat (region_end r) + length (concat (map (region_slice efi) rs)) \<le> length efi"
    by (rule Cons.IH) (use Cons.prems(1,2) e n in auto)
  moreover have "k + length (region_slice efi r) \<le> nat (region_end r)"
    using e(2) unfolding region_slice_def region_end_def length_slice by linarith
  ultimately show ?case by simp
qed simp

section \<open>Results\<close>

text \<open>
An insertion keeps the regions in ascending order and free of overlap, within the
array: a region that overlaps one of them, that ends before it starts, or that finds no room is
refused without a change, any other is put in its place.
\<close>

theorem efi_image_region_add_ordered:
  assumes "regs_inv regs" and "stop - start < 2 ^ 32"
    and "ok = (rnum regs < rmax regs \<and> start \<le> stop \<and> (\<forall>r \<in> set (regions regs). \<not> overlaps start stop r))"
  shows "\<exists>regs'. efi_image_region_add regs start stop False = Some (ok, regs') \<and> regs_inv regs' \<and> rmax regs' = rmax regs \<and>
    regions regs' =
      (if ok then ins_region \<lparr> rdata = start, rsize = word_of_int (stop - start) \<rparr> (regions regs) else regions regs)"
  using region_add_result [OF assms(1,2)] unfolding assms(3) by blast

theorem efi_image_region_add_ordered_witness:
  "\<exists>regs'. efi_image_region_add \<lparr> rmax = 2, rnum = 1, reg = [\<lparr> rdata = 8, rsize = 4 \<rparr>, \<lparr> rdata = 0, rsize = 0 \<rparr>] \<rparr> 2 8 False = Some (True, regs') \<and>
    regions regs' = [\<lparr> rdata = 2, rsize = 6 \<rparr>, \<lparr> rdata = 8, rsize = 4 \<rparr>]"
proof -
  let ?regs = "\<lparr> rmax = 2, rnum = 1, reg = [\<lparr> rdata = 8, rsize = 4 \<rparr>, \<lparr> rdata = 0, rsize = 0 \<rparr>] \<rparr>"
  have r: "regions ?regs = [\<lparr> rdata = 8, rsize = 4 \<rparr>]" by (simp add: regions_def)
  have "regs_inv ?regs" unfolding regs_inv_def r by simp
  from efi_image_region_add_ordered [OF this, of 8 2 True] show ?thesis
    unfolding r by (auto simp: overlaps_def region_end_def ins_region_def)
qed


lemma PE256_well_formed:
  assumes "well_formed_pe efi L" and "sorts qsort" and "1024 \<le> length efi" "length efi \<le> 64 * 1048576"
    and "SHA256_HASHSIZE \<le> length out"
  shows "PE256Buffer (sha256_accel a) qsort True True (Some efi) (length efi) (Some out) =
    Some (True, Some (fips_sha256 (authenticode efi L) @ drop SHA256_HASHSIZE out))"
proof -
  have len: "length efi < 2 ^ 31" using assms(4) by simp
  obtain regs k where r: "efi_image_parse qsort True True efi (length efi) = Some (Some regs)" "spans efi k (authenticode efi L) regs"
    using efi_image_parse_run [OF assms(1,2) len] by blast
  have fit: "\<forall>r \<in> set (regions regs). 0 \<le> rdata r \<and> region_end r \<le> int (length efi)"
    using r(2) unfolding spans_def by force
  have m: "concat (map (region_slice efi) (regions regs)) = authenticode efi L" using r(2) by (simp add: spans_def)
  have "length (authenticode efi L) < 2 ^ 64"
    using regions_total [of "regions regs" 0 efi] r(2) fit len m by (simp add: spans_def regs_inv_def)
  then show ?thesis using PE256_of_regions [OF r(1) assms(3,4) fit assms(5)] m by simp
qed

text \<open>
C15. On a well-formed image \<open>PE256Buffer\<close> computes the Authenticode digest: the SHA-256
digest of the file without its checksum, the entry of the certificate directory and the
certificates at its end.
\<close>

theorem PE256Buffer_authenticode:
  assumes "well_formed_pe efi L" and "sorts qsort" and "1024 \<le> length efi" "length efi \<le> 64 * 1048576"
    and "SHA256_HASHSIZE \<le> length out"
  shows "PE256Buffer (sha256_accel a) qsort True True (Some efi) (length efi) (Some out) =
    Some (True, Some (fips_sha256 (authenticode efi L) @ drop SHA256_HASHSIZE out))"
  by (rule PE256_well_formed [OF assms])

text \<open>A well-formed image with one section and eight bytes of certificates.\<close>

definition sample_image :: "u8 list" where
  "sample_image =
     [0x4D, 0x5A] @ replicate 58 0 @ [64, 0, 0, 0] @ [0x50, 0x45, 0, 0] @ [0x64, 0x86] @ [1, 0] @ replicate 12 0 @ [240, 0] @ [0, 0] @
     [0x0b, 0x02] @ replicate 34 0 @ [0, 2, 0, 0] @ replicate 20 0 @ [0, 2, 0, 0] @ [1, 2, 3, 4] @ replicate 40 0 @ [16, 0, 0, 0] @
     replicate 32 0 @ [0, 4, 0, 0] @ [8, 0, 0, 0] @ replicate 88 0 @
     replicate 12 0 @ [0, 16, 0, 0] @ [0, 2, 0, 0] @ [0, 2, 0, 0] @ replicate 16 0 @ replicate 144 0 @
     replicate 512 7 @ replicate 8 9"

definition sample_layout :: pe_layout where
  "sample_layout = \<lparr> l_nt = 64, l_magic = 0x20b, l_headers = 512, l_align = 512, l_auth = 8,
     l_sections = [\<lparr> VirtualAddress = 4096, SizeOfRawData = 512, PointerToRawData = 512 \<rparr>] \<rparr>"

lemma sample_length: "length sample_image = 1032"
  by (simp add: sample_image_def)

lemma sample_well_formed: "well_formed_pe sample_image sample_layout"
  by code_simp

lemma sort_key_sorts: "sorts (sort_key VirtualAddress)"
proof -
  have "sorted_wrt (\<lambda>a b. cmp_pe_section a b \<le> 0) (sort_key VirtualAddress ss)" for ss
    by (rule sorted_wrt_mono_rel [where P = "\<lambda>a b. VirtualAddress a \<le> VirtualAddress b"])
      (use sorted_sort_key [of VirtualAddress ss] in \<open>auto simp: sorted_map cmp_pe_section_def\<close>)
  then show ?thesis by (simp add: sorts_def)
qed

theorem PE256Buffer_authenticode_witness:
  "PE256Buffer (sha256_accel True) (sort_key VirtualAddress) True True (Some sample_image) (length sample_image) (Some (replicate 32 0)) =
    Some (True, Some (fips_sha256 (authenticode sample_image sample_layout) @ drop SHA256_HASHSIZE (replicate 32 0)))"
  by (rule PE256Buffer_authenticode [OF sample_well_formed sort_key_sorts])
    (simp_all add: sample_length SHA256_HASHSIZE_def)


text \<open>
The offset of the new header is compared as a signed number and only from above: a negative
one passes the check, and the parser reads before the start of the image.
\<close>

theorem efi_image_parse_negative_offset:
  assumes "rd32 efi 0x3C = Some w" and "sint w < -6" and "0x80 \<le> len" and "len < 2 ^ 31"
  shows "efi_image_parse qsort rk sk efi len = None"
proof -
  have "sint (of_nat len :: u32) = int len" using sint_of_nat_small [OF assms(4)] .
  then show ?thesis using assms by (simp add: efi_image_parse_def rd16_def)
qed

theorem efi_image_parse_negative_offset_witness:
  "efi_image_parse (sort_key VirtualAddress) True True (replicate 1024 0x80) 1024 = None"
proof (rule efi_image_parse_negative_offset)
  show "rd32 (replicate 1024 0x80) 0x3C = Some 0x80808080" by code_simp
qed simp_all

end
