(* ===== verification/PE_Access.thy ===== *)
theory PE_Access
  imports PE_Image
begin

text \<open>
  Access to the parts of a PE image in memory: \<open>GetPeArch\<close>, \<open>GetPeSection\<close>,
  \<open>RvaToPhysical\<close>, \<open>FindResourceRva\<close> and \<open>GetPeSignatureData\<close> of \<open>src/src/parser.c\<close>, and
  \<open>MachineToArch\<close> of \<open>src/src/rufus.c\<close>.

  As in \<open>PE_Image\<close> a pointer into the image is an offset, and a read outside the image gives
  \<^term>\<open>None\<close>; an inner \<^term>\<open>None\<close> is the return of \<open>NULL\<close>. The code does not compare any
  offset with the size of the image.
\<close>

section \<open>Headers\<close>

definition IMAGE_DOS_SIGNATURE :: u16 where "IMAGE_DOS_SIGNATURE = 0x5A4D"
definition IMAGE_NT_SIGNATURE :: u32 where "IMAGE_NT_SIGNATURE = 0x4550"
definition IMAGE_FILE_MACHINE_UNKNOWN :: u16 where "IMAGE_FILE_MACHINE_UNKNOWN = 0"
definition IMAGE_FILE_MACHINE_I386 :: u16 where "IMAGE_FILE_MACHINE_I386 = 0x14C"
definition IMAGE_FILE_MACHINE_ARM :: u16 where "IMAGE_FILE_MACHINE_ARM = 0x1C0"

datatype ArchType =
  ARCH_UNKNOWN | ARCH_X86_32 | ARCH_X86_64 | ARCH_ARM_32 | ARCH_ARM_64 | ARCH_IA_64 | ARCH_RISCV_64 | ARCH_LOONGARCH_64 | ARCH_EBC

definition MachineToArch :: "u16 \<Rightarrow> ArchType" where
  "MachineToArch machine =
     (if machine = IMAGE_FILE_MACHINE_I386 then ARCH_X86_32
      else if machine = 0x8664 then ARCH_X86_64
      else if machine = IMAGE_FILE_MACHINE_ARM then ARCH_ARM_32
      else if machine = 0xAA64 then ARCH_ARM_64
      else if machine = 0x200 then ARCH_IA_64
      else if machine = 0x5064 then ARCH_RISCV_64
      else if machine = 0x6264 then ARCH_LOONGARCH_64
      else if machine = 0xEBC then ARCH_EBC
      else ARCH_UNKNOWN)"

text \<open>The test of the two signatures that all functions start with, and the offset of the new header.\<close>

definition pe_header :: "u8 list \<Rightarrow> int option option" where
  "pe_header buf = do {
     e_magic \<leftarrow> rd16 buf 0;
     if e_magic \<noteq> IMAGE_DOS_SIGNATURE then Some None
     else do {
       e_lfanew \<leftarrow> rd32 buf 0x3C;
       Signature \<leftarrow> rd32 buf (sint e_lfanew);
       if Signature \<noteq> IMAGE_NT_SIGNATURE then Some None else Some (Some (sint e_lfanew))
     }
   }"

definition is_pe32 :: "u8 list \<Rightarrow> int \<Rightarrow> bool option" where
  "is_pe32 buf nt = do {
     Machine \<leftarrow> rd16 buf (nt + 4);
     Some (Machine = IMAGE_FILE_MACHINE_I386 \<or> Machine = IMAGE_FILE_MACHINE_ARM)
   }"

text \<open>The section headers behind a header of fixed size, and their number.\<close>

definition section_table :: "u8 list \<Rightarrow> int \<Rightarrow> (int \<times> nat) option" where
  "section_table buf nt = do {
     pe32 \<leftarrow> is_pe32 buf nt;
     NumberOfSections \<leftarrow> rd16 buf (nt + 6);
     Some (nt + (if pe32 then 248 else 264), unat NumberOfSections)
   }"

definition GetPeArch :: "u8 list option \<Rightarrow> u16 option" where
  "GetPeArch buf =
     (case buf of
        None \<Rightarrow> Some IMAGE_FILE_MACHINE_UNKNOWN
      | Some b \<Rightarrow> do {
          h \<leftarrow> pe_header b;
          case h of None \<Rightarrow> Some IMAGE_FILE_MACHINE_UNKNOWN | Some nt \<Rightarrow> rd16 b (nt + 4)
        })"

section \<open>Sections\<close>

definition rd_bytes :: "u8 list \<Rightarrow> int \<Rightarrow> nat \<Rightarrow> u8 list option" where
  "rd_bytes buf off n = (if 0 \<le> off \<and> nat off + n \<le> length buf then Some (slice (nat off) n buf) else None)"

text \<open>\<open>static_strcpy\<close> of a name into an array of eight bytes.\<close>

definition short_name :: "u8 list \<Rightarrow> u8 list" where
  "short_name name = take 7 name @ replicate (8 - length (take 7 name)) 0"

text \<open>The length is the one of the first header of the table, as in the code.\<close>

function section_loop :: "u8 list \<Rightarrow> u8 list \<Rightarrow> int \<Rightarrow> nat \<Rightarrow> nat \<Rightarrow> (nat \<times> u32) option option" where
  "section_loop buf section_name table nb_sections i =
     (if i < nb_sections then do {
        Name \<leftarrow> rd_bytes buf (table + 40 * int i) 8;
        if Name = section_name then do {
          len \<leftarrow> rd32 buf (table + 16);
          ptr \<leftarrow> rd32 buf (table + 40 * int i + 20);
          Some (Some (unat ptr, len))
        } else section_loop buf section_name table nb_sections (i + 1)
      } else Some None)"
  by pat_completeness auto
termination
  by (relation "measure (\<lambda>(buf, section_name, table, nb_sections, i). nb_sections - i)") auto

declare section_loop.simps [simp del]

definition GetPeSection :: "u8 list option \<Rightarrow> u8 list \<Rightarrow> (nat \<times> u32) option option" where
  "GetPeSection buf name =
     (case buf of
        None \<Rightarrow> Some None
      | Some b \<Rightarrow> do {
          h \<leftarrow> pe_header b;
          case h of
            None \<Rightarrow> Some None
          | Some nt \<Rightarrow> do {
              (table, nb_sections) \<leftarrow> section_table b nt;
              section_loop b (short_name name) table nb_sections 0
            }
        })"

function rva_loop :: "u8 list \<Rightarrow> u32 \<Rightarrow> int \<Rightarrow> nat \<Rightarrow> nat \<Rightarrow> nat option option" where
  "rva_loop buf rva table nb_sections i =
     (if i < nb_sections then do {
        VirtualAddress \<leftarrow> rd32 buf (table + 40 * int i + 12);
        VirtualSize \<leftarrow> rd32 buf (table + 40 * int i + 8);
        if VirtualAddress \<le> rva \<and> rva < VirtualAddress + VirtualSize then do {
          ptr \<leftarrow> rd32 buf (table + 40 * int i + 20);
          Some (Some (unat (ptr + (rva - VirtualAddress))))
        } else rva_loop buf rva table nb_sections (i + 1)
      } else Some None)"
  by pat_completeness auto
termination
  by (relation "measure (\<lambda>(buf, rva, table, nb_sections, i). nb_sections - i)") auto

declare rva_loop.simps [simp del]

definition RvaToPhysical :: "u8 list option \<Rightarrow> u32 \<Rightarrow> nat option option" where
  "RvaToPhysical buf rva =
     (case buf of
        None \<Rightarrow> Some None
      | Some b \<Rightarrow> do {
          h \<leftarrow> pe_header b;
          case h of
            None \<Rightarrow> Some None
          | Some nt \<Rightarrow> do {
              (table, nb_sections) \<leftarrow> section_table b nt;
              rva_loop b rva table nb_sections 0
            }
        })"

section \<open>Data directories\<close>

text \<open>Address and size of an entry; the directories end the header.\<close>

definition data_directory :: "u8 list \<Rightarrow> int \<Rightarrow> nat \<Rightarrow> (u32 \<times> u32) option" where
  "data_directory buf nt k = do {
     pe32 \<leftarrow> is_pe32 buf nt;
     let dir = nt + (if pe32 then 120 else 136) + 8 * int k;
     va \<leftarrow> rd32 buf dir;
     sz \<leftarrow> rd32 buf (dir + 4);
     Some (va, sz)
   }"

definition WIN_CERT_TYPE_PKCS_SIGNED_DATA :: u16 where "WIN_CERT_TYPE_PKCS_SIGNED_DATA = 2"

definition GetPeSignatureData :: "u8 list option \<Rightarrow> nat option option" where
  "GetPeSignatureData buf =
     (case buf of
        None \<Rightarrow> Some None
      | Some b \<Rightarrow> do {
          h \<leftarrow> pe_header b;
          case h of
            None \<Rightarrow> Some None
          | Some nt \<Rightarrow> do {
              (va, sz) \<leftarrow> data_directory b nt IMAGE_DIRECTORY_ENTRY_SECURITY;
              if va = 0 \<or> sz = 0 then Some None
              else do {
                dwLength \<leftarrow> rd32 b (int (unat va));
                wCertificateType \<leftarrow> rd16 b (int (unat va) + 6);
                if dwLength = 0 \<or> wCertificateType \<noteq> WIN_CERT_TYPE_PKCS_SIGNED_DATA then Some None
                else Some (Some (unat va))
              }
            }
        })"

section \<open>Resources\<close>

text \<open>
  The loop of \<open>FindResourceRva\<close> over the entries of the directory at \<open>dir\<close>, from entry \<open>i\<close>
  on. \<open>found\<close> is the static variable \<open>FoundResourceRva\<close>, which a call for the root resets. The
  result is the address with the length, or 0, and \<open>found\<close>. As many bytes of the name are compared as
  it has characters. A directory that contains itself makes the recursion endless.
\<close>

definition name_differs :: "u8 list \<Rightarrow> u16 list \<Rightarrow> nat \<Rightarrow> bool option" where
  "name_differs buf name off = do {
     Length \<leftarrow> rd16 buf (int off);
     if unat Length \<noteq> length name then Some True
     else do {
       NameString \<leftarrow> rd_bytes buf (int off + 2) (length name);
       Some (NameString \<noteq> take (length name) (concat (map (store_le 2) name)))
     }
   }"

definition IMAGE_RESOURCE_DATA_IS_DIRECTORY :: u32 where "IMAGE_RESOURCE_DATA_IS_DIRECTORY = 0x80000000"

partial_function (option) rsrc_loop :: "u8 list \<Rightarrow> u16 list \<Rightarrow> nat \<Rightarrow> nat \<Rightarrow> nat \<Rightarrow> bool \<Rightarrow> (u32 \<times> u32 \<times> bool) option" where
  "rsrc_loop buf name root dir i found = do {
     NumberOfNamedEntries \<leftarrow> rd16 buf (int dir + 12);
     NumberOfIdEntries \<leftarrow> rd16 buf (int dir + 14);
     if i < unat NumberOfNamedEntries + unat NumberOfIdEntries then do {
       let entry = int dir + 16 + 8 * int i;
       skip \<leftarrow> (if \<not> found \<and> i < unat NumberOfNamedEntries then do {
                 NameOffset \<leftarrow> rd32 buf entry;
                 name_differs buf name (root + unat (NameOffset AND 0x7FFFFFFF))
               } else Some False);
       if skip then rsrc_loop buf name root dir (i + 1) found
       else do {
         let found = (found \<or> i < unat NumberOfNamedEntries);
         OffsetToData \<leftarrow> rd32 buf (entry + 4);
         if OffsetToData AND IMAGE_RESOURCE_DATA_IS_DIRECTORY \<noteq> 0 then do {
           let sub = root + unat (OffsetToData AND 0x7FFFFFFF);
           (rva, len, found) \<leftarrow> rsrc_loop buf name root sub 0 (if sub = root then False else found);
           if rva \<noteq> 0 then Some (rva, len, found) else rsrc_loop buf name root dir (i + 1) found
         } else if found then do {
           rva \<leftarrow> rd32 buf (int (root + unat OffsetToData));
           len \<leftarrow> rd32 buf (int (root + unat OffsetToData) + 4);
           Some (rva, len, found)
         } else rsrc_loop buf name root dir (i + 1) found
       }
     } else Some (0, 0, found)
   }"

definition FindResourceRva :: "u8 list \<Rightarrow> u16 list \<Rightarrow> nat option \<Rightarrow> (u32 \<times> u32) option" where
  "FindResourceRva buf name root =
     (case root of
        None \<Rightarrow> Some (0, 0)
      | Some r \<Rightarrow> do {
          (rva, len, found) \<leftarrow> rsrc_loop buf name r r 0 False;
          Some (rva, len)
        })"

section \<open>The table of sections\<close>

record pe_section =
  s_name :: "u8 list"
  s_vsize :: u32
  s_va :: u32
  s_raw :: u32
  s_ptr :: u32

definition read_pe_section :: "u8 list \<Rightarrow> int \<Rightarrow> pe_section option" where
  "read_pe_section buf off = do {
     nm \<leftarrow> rd_bytes buf off 8;
     vs \<leftarrow> rd32 buf (off + 8);
     va \<leftarrow> rd32 buf (off + 12);
     raw \<leftarrow> rd32 buf (off + 16);
     ptr \<leftarrow> rd32 buf (off + 20);
     Some \<lparr> s_name = nm, s_vsize = vs, s_va = va, s_raw = raw, s_ptr = ptr \<rparr>
   }"

text \<open>The header offset and the sections of an image that passes the tests and whose table is inside it.\<close>

definition pe_sections :: "u8 list \<Rightarrow> pe_section list option" where
  "pe_sections buf =
     (case pe_header buf of
        Some (Some nt) \<Rightarrow>
          (case section_table buf nt of
             Some (table, n) \<Rightarrow> those (map (\<lambda>i. read_pe_section buf (table + 40 * int i)) [0..<n])
           | None \<Rightarrow> None)
      | _ \<Rightarrow> None)"

definition contains_rva :: "u32 \<Rightarrow> pe_section \<Rightarrow> bool" where
  "contains_rva rva s \<longleftrightarrow> s_va s \<le> rva \<and> rva < s_va s + s_vsize s"

lemma those_map_SomeD: "those (map f xs) = Some ys \<Longrightarrow> length ys = length xs \<and> (\<forall>i < length xs. f (xs ! i) = Some (ys ! i))"
proof (induction xs arbitrary: ys)
  case (Cons x xs)
  then obtain y zs where "f x = Some y" "those (map f xs) = Some zs" "ys = y # zs" by (auto split: option.splits)
  then show ?case using Cons.IH [of zs] by (auto simp: nth_Cons split: nat.split)
qed simp

lemma pe_sectionsD:
  assumes "pe_sections buf = Some ss"
  obtains nt table where "pe_header buf = Some (Some nt)" "section_table buf nt = Some (table, length ss)"
    "\<And>i. i < length ss \<Longrightarrow> read_pe_section buf (table + 40 * int i) = Some (ss ! i)"
proof -
  from assms obtain nt table n where h: "pe_header buf = Some (Some nt)" "section_table buf nt = Some (table, n)"
    "those (map (\<lambda>i. read_pe_section buf (table + 40 * int i)) [0..<n]) = Some ss"
    by (auto simp: pe_sections_def split: option.splits)
  from those_map_SomeD [OF h(3)] show thesis using that [OF h(1)] h(2) by auto
qed

lemma read_pe_sectionD:
  assumes "read_pe_section buf off = Some s"
  shows "rd_bytes buf off 8 = Some (s_name s)" "rd32 buf (off + 8) = Some (s_vsize s)" "rd32 buf (off + 12) = Some (s_va s)"
    "rd32 buf (off + 16) = Some (s_raw s)" "rd32 buf (off + 20) = Some (s_ptr s)"
  using assms by (auto simp: read_pe_section_def bind_eq_Some_conv)

lemma section_loop_find:
  assumes "\<And>i. i < length ss \<Longrightarrow> read_pe_section buf (table + 40 * int i) = Some (ss ! i)"
  shows "i \<le> length ss \<Longrightarrow> section_loop buf nm table (length ss) i =
    Some (map_option (\<lambda>s. (unat (s_ptr s), s_raw (hd ss))) (find (\<lambda>s. s_name s = nm) (drop i ss)))"
proof (induction "length ss - i" arbitrary: i)
  case 0
  then show ?case by (subst section_loop.simps) simp
next
  case (Suc k)
  then have i: "i < length ss" and IH: "section_loop buf nm table (length ss) (i + 1) =
    Some (map_option (\<lambda>s. (unat (s_ptr s), s_raw (hd ss))) (find (\<lambda>s. s_name s = nm) (drop (Suc i) ss)))" by auto
  have "ss \<noteq> []" using i by auto
  then have "rd32 buf (table + 16) = Some (s_raw (hd ss))" using read_pe_sectionD(4) [OF assms [of 0]] by (simp add: hd_conv_nth)
  then show ?case using i IH read_pe_sectionD [OF assms [OF i]] by (subst section_loop.simps) (simp flip: Cons_nth_drop_Suc)
qed

lemma rva_loop_find:
  assumes "\<And>i. i < length ss \<Longrightarrow> read_pe_section buf (table + 40 * int i) = Some (ss ! i)"
  shows "i \<le> length ss \<Longrightarrow> rva_loop buf rva table (length ss) i =
    Some (map_option (\<lambda>s. unat (s_ptr s + (rva - s_va s))) (find (contains_rva rva) (drop i ss)))"
proof (induction "length ss - i" arbitrary: i)
  case 0
  then show ?case by (subst rva_loop.simps) simp
next
  case (Suc k)
  then have i: "i < length ss" and IH: "rva_loop buf rva table (length ss) (i + 1) =
    Some (map_option (\<lambda>s. unat (s_ptr s + (rva - s_va s))) (find (contains_rva rva) (drop (Suc i) ss)))" by auto
  show ?case using i IH read_pe_sectionD [OF assms [OF i]]
    by (subst rva_loop.simps) (simp add: contains_rva_def flip: Cons_nth_drop_Suc)
qed

lemma GetPeSection_find:
  assumes "pe_sections buf = Some ss"
  shows "GetPeSection (Some buf) name =
    Some (map_option (\<lambda>s. (unat (s_ptr s), s_raw (hd ss))) (find (\<lambda>s. s_name s = short_name name) ss))"
  by (rule pe_sectionsD [OF assms]) (simp add: GetPeSection_def section_loop_find [where i = 0])

lemma RvaToPhysical_find:
  assumes "pe_sections buf = Some ss"
  shows "RvaToPhysical (Some buf) rva = Some (map_option (\<lambda>s. unat (s_ptr s + (rva - s_va s))) (find (contains_rva rva) ss))"
  by (rule pe_sectionsD [OF assms]) (simp add: RvaToPhysical_def rva_loop_find [where i = 0])

text \<open>Bytes behind the headers do not change them.\<close>

lemma rd_append:
  "rd16 a off = Some x \<Longrightarrow> rd16 (a @ b) off = Some x" "rd32 a off = Some y \<Longrightarrow> rd32 (a @ b) off = Some y"
  "rd_bytes a off n = Some z \<Longrightarrow> rd_bytes (a @ b) off n = Some z"
  by (auto simp: rd16_def rd32_def rd_bytes_def slice_def split: if_splits)

lemma pe_header_append: "pe_header a = Some (Some nt) \<Longrightarrow> pe_header (a @ b) = Some (Some nt)"
proof -
  assume h: "pe_header a = Some (Some nt)"
  obtain m where m: "rd16 a 0 = Some m" using h by (cases "rd16 a 0") (simp_all add: pe_header_def)
  have m': "m = IMAGE_DOS_SIGNATURE" using h m by (simp add: pe_header_def split: if_splits)
  obtain l where l: "rd32 a 0x3C = Some l" using h m m' by (cases "rd32 a 0x3C") (simp_all add: pe_header_def)
  obtain g where g: "rd32 a (sint l) = Some g" using h m m' l by (cases "rd32 a (sint l)") (simp_all add: pe_header_def)
  show ?thesis using h m' m l g rd_append(1) [OF m, of b] rd_append(2) [OF l, of b] rd_append(2) [OF g, of b] by (simp add: pe_header_def)
qed

lemma section_table_append: "section_table a nt = Some t \<Longrightarrow> section_table (a @ b) nt = Some t"
proof -
  assume t: "section_table a nt = Some t"
  then obtain m n where m: "rd16 a (nt + 4) = Some m" "rd16 a (nt + 6) = Some n"
    by (auto simp: section_table_def is_pe32_def bind_eq_Some_conv)
  then show ?thesis using t rd_append(1) [OF m(1), of b] rd_append(1) [OF m(2), of b] by (simp add: section_table_def is_pe32_def)
qed

lemma read_pe_section_append: "read_pe_section a off = Some s \<Longrightarrow> read_pe_section (a @ b) off = Some s"
proof -
  assume s: "read_pe_section a off = Some s"
  note r = read_pe_sectionD [OF s]
  show ?thesis using s r rd_append(3) [OF r(1), of b] rd_append(2) [OF r(2), of b] rd_append(2) [OF r(3), of b]
      rd_append(2) [OF r(4), of b] rd_append(2) [OF r(5), of b] by (simp add: read_pe_section_def)
qed

lemma those_map_mono: "those (map f xs) = Some ys \<Longrightarrow> (\<And>x y. f x = Some y \<Longrightarrow> g x = Some y) \<Longrightarrow> those (map g xs) = Some ys"
  by (induction xs arbitrary: ys) (auto split: option.splits)

lemma pe_sections_append: "pe_sections a = Some ss \<Longrightarrow> pe_sections (a @ b) = Some ss"
proof -
  assume "pe_sections a = Some ss"
  then obtain nt table n where h: "pe_header a = Some (Some nt)" "section_table a nt = Some (table, n)"
    "those (map (\<lambda>i. read_pe_section a (table + 40 * int i)) [0..<n]) = Some ss"
    by (auto simp: pe_sections_def split: option.splits)
  have "those (map (\<lambda>i. read_pe_section (a @ b) (table + 40 * int i)) [0..<n]) = Some ss"
    by (rule those_map_mono [OF h(3)]) (rule read_pe_section_append)
  then show ?thesis using pe_header_append [OF h(1)] section_table_append [OF h(2)] by (simp add: pe_sections_def)
qed

section \<open>The tree of resources\<close>

text \<open>
  The entries of a directory, each with its name, if it has one: data with address and size, or a
  directory; and how they are laid out in the image, at an entry of eight bytes each.
\<close>

datatype rsrc = RData "u16 list option" u32 u32 | RDir "u16 list option" "rsrc list"

fun rname :: "rsrc \<Rightarrow> u16 list option" where
  "rname (RData nm rva sz) = nm"
| "rname (RDir nm ts) = nm"

definition name_bytes :: "u16 list \<Rightarrow> u8 list" where
  "name_bytes nm = concat (map (store_le 2) nm)"

definition name_at :: "u8 list \<Rightarrow> nat \<Rightarrow> nat \<Rightarrow> u16 list option \<Rightarrow> bool" where
  "name_at buf root e nm =
     (case nm of
        None \<Rightarrow> True
      | Some s \<Rightarrow>
          (case rd32 buf (int e) of
             None \<Rightarrow> False
           | Some off \<Rightarrow> let p = root + unat (off AND 0x7FFFFFFF) in
               map_option unat (rd16 buf (int p)) = Some (length s) \<and> rd_bytes buf (int p + 2) (2 * length s) = Some (name_bytes s)))"

definition dir_head :: "u8 list \<Rightarrow> nat \<Rightarrow> rsrc list \<Rightarrow> bool" where
  "dir_head buf dir ts \<longleftrightarrow>
     (let n = length (takeWhile (\<lambda>t. rname t \<noteq> None) ts) in
      map_option unat (rd16 buf (int dir + 12)) = Some n \<and> map_option unat (rd16 buf (int dir + 14)) = Some (length ts - n) \<and>
      list_all (\<lambda>t. rname t = None) (drop n ts))"

fun node_at :: "u8 list \<Rightarrow> nat \<Rightarrow> nat \<Rightarrow> rsrc \<Rightarrow> bool" and nodes_at :: "u8 list \<Rightarrow> nat \<Rightarrow> nat \<Rightarrow> rsrc list \<Rightarrow> bool" where
  "node_at buf root e (RData nm rva sz) \<longleftrightarrow> name_at buf root e nm \<and>
     (case rd32 buf (int e + 4) of
        None \<Rightarrow> False
      | Some w \<Rightarrow> w AND 0x80000000 = 0 \<and> rd32 buf (int (root + unat w)) = Some rva \<and> rd32 buf (int (root + unat w) + 4) = Some sz)"
| "node_at buf root e (RDir nm ts) \<longleftrightarrow> name_at buf root e nm \<and>
     (case rd32 buf (int e + 4) of
        None \<Rightarrow> False
      | Some w \<Rightarrow> w AND 0x80000000 \<noteq> 0 \<and> w AND 0x7FFFFFFF \<noteq> 0 \<and>
          dir_head buf (root + unat (w AND 0x7FFFFFFF)) ts \<and> nodes_at buf root (root + unat (w AND 0x7FFFFFFF) + 16) ts)"
| "nodes_at buf root e [] \<longleftrightarrow> True"
| "nodes_at buf root e (t # ts) \<longleftrightarrow> node_at buf root e t \<and> nodes_at buf root (e + 8) ts"

text \<open>
  No empty directories, no data at address 0, and no name that agrees with the one asked for in
  length and in the bytes compared without being that name.
\<close>

definition separated :: "u16 list \<Rightarrow> u16 list option \<Rightarrow> bool" where
  "separated name nm =
     (case nm of
        None \<Rightarrow> True
      | Some s \<Rightarrow> length s = length name \<and> take (length name) (name_bytes s) = take (length name) (name_bytes name) \<longrightarrow> s = name)"

fun wf_rsrc :: "u16 list \<Rightarrow> rsrc \<Rightarrow> bool" where
  "wf_rsrc name (RData nm rva sz) \<longleftrightarrow> separated name nm \<and> rva \<noteq> 0"
| "wf_rsrc name (RDir nm ts) \<longleftrightarrow> separated name nm \<and> ts \<noteq> [] \<and> list_all (wf_rsrc name) ts"

text \<open>
  The data in the order of the directories, with whether the name is on the path to it; what lies
  below another name is passed over.
\<close>

definition other_name :: "u16 list \<Rightarrow> u16 list option \<Rightarrow> bool" where
  "other_name name nm \<longleftrightarrow> nm \<noteq> None \<and> nm \<noteq> Some name"

fun rsrc_leaves :: "u16 list \<Rightarrow> bool \<Rightarrow> rsrc \<Rightarrow> (bool \<times> u32 \<times> u32) list" where
  "rsrc_leaves name below (RData nm rva sz) =
     (if \<not> below \<and> other_name name nm then [] else [(below \<or> nm = Some name, rva, sz)])"
| "rsrc_leaves name below (RDir nm ts) =
     (if \<not> below \<and> other_name name nm then [] else concat (map (rsrc_leaves name (below \<or> nm = Some name)) ts))"

definition first_below :: "(bool \<times> u32 \<times> u32) list \<Rightarrow> (u32 \<times> u32) option" where
  "first_below ls = map_option snd (find fst ls)"

lemma first_below_simps [simp]: "first_below [] = None" "first_below ((b, x) # ls) = (if b then Some x else first_below ls)"
  "first_below (xs @ ys) = (case first_below xs of None \<Rightarrow> first_below ys | Some x \<Rightarrow> Some x)"
proof -
  show "first_below (xs @ ys) = (case first_below xs of None \<Rightarrow> first_below ys | Some x \<Rightarrow> Some x)"
    by (induction xs) (auto simp: first_below_def)
qed (simp_all add: first_below_def)

lemma rsrc_leaves_below:
  "wf_rsrc name t \<Longrightarrow> \<exists>rva sz ls. rsrc_leaves name True t = (True, rva, sz) # ls \<and> rva \<noteq> 0"
proof (induction t)
  case (RDir nm ts)
  then obtain u us where ts: "ts = u # us" by (cases ts) auto
  then obtain rva sz ls where "rsrc_leaves name True u = (True, rva, sz) # ls" "rva \<noteq> 0" using RDir.IH [of u] RDir.prems by auto
  then show ?case by (simp add: ts)
qed simp

lemma first_below_nonzero:
  "wf_rsrc name t \<Longrightarrow> first_below (rsrc_leaves name b t) = Some (rva, sz) \<Longrightarrow> rva \<noteq> 0"
proof (induction t arbitrary: b)
  case (RDir nm ts)
  have "list_all (wf_rsrc name) us \<Longrightarrow> set us \<subseteq> set ts \<Longrightarrow>
    first_below (concat (map (rsrc_leaves name (b \<or> nm = Some name)) us)) = Some (rva, sz) \<Longrightarrow> rva \<noteq> 0" for us
    by (induction us) (use RDir.IH in \<open>auto split: option.splits\<close>)
  from this [of ts] show ?case using RDir.prems by (auto split: if_splits)
qed (auto split: if_splits)

lemma first_below_list:
  "list_all (wf_rsrc name) ts \<Longrightarrow> first_below (concat (map (rsrc_leaves name b) ts)) = Some (rva, sz) \<Longrightarrow> rva \<noteq> 0"
  by (induction ts) (auto split: option.splits dest: first_below_nonzero)

lemma rd_bytes_take: "rd_bytes buf off n = Some bs \<Longrightarrow> k \<le> n \<Longrightarrow> rd_bytes buf off k = Some (take k bs)"
  by (auto simp: rd_bytes_def slice_def min_def split: if_splits)

lemma name_differs_at:
  assumes "name_at buf root e (Some s)" "separated name (Some s)"
  obtains off where "rd32 buf (int e) = Some off" "name_differs buf name (root + unat (off AND 0x7FFFFFFF)) = Some (s \<noteq> name)"
proof -
  obtain off where off: "rd32 buf (int e) = Some off" using assms(1) by (auto simp: name_at_def split: option.splits)
  let ?p = "root + unat (off AND 0x7FFFFFFF)"
  obtain l where l: "rd16 buf (int ?p) = Some l" "unat l = length s" and b: "rd_bytes buf (int ?p + 2) (2 * length s) = Some (name_bytes s)"
    using assms(1) off by (auto simp: name_at_def Let_def)
  have "rd_bytes buf (int ?p + 2) (length s) = Some (take (length s) (name_bytes s))"
    by (rule rd_bytes_take [OF b]) simp
  then have "name_differs buf name ?p = Some (s \<noteq> name)"
    using l assms(2) by (auto simp: name_differs_def separated_def name_bytes_def)
  then show thesis using that off by blast
qed

text \<open>One turn of the loop, for an entry that is not the last of its kind.\<close>

lemma dir_headD:
  assumes "dir_head buf dir (us @ t # ts)"
  obtains n m where "rd16 buf (int dir + 12) = Some n" "rd16 buf (int dir + 14) = Some m"
    "unat n + unat m = length (us @ t # ts)" "length us < unat n \<longleftrightarrow> rname t \<noteq> None"
proof -
  let ?n = "length (takeWhile (\<lambda>t. rname t \<noteq> None) (us @ t # ts))"
  obtain n m where nm: "rd16 buf (int dir + 12) = Some n" "rd16 buf (int dir + 14) = Some m" "unat n = ?n"
    "unat m = length (us @ t # ts) - ?n" "list_all (\<lambda>t. rname t = None) (drop ?n (us @ t # ts))"
    using assms by (auto simp: dir_head_def Let_def)
  have sum: "unat n + unat m = length (us @ t # ts)" unfolding nm(3,4) by (rule le_add_diff_inverse) (rule length_takeWhile_le)
  have "rname t \<noteq> None" if "length us < ?n"
    using set_takeWhileD [OF nth_mem [OF that]] unfolding takeWhile_nth [OF that] by simp
  moreover have "rname t = None" if "\<not> length us < ?n"
  proof -
    have "drop ?n (us @ t # ts) = drop ?n us @ t # ts" using that by (simp only: drop_append) simp
    then have "t \<in> set (drop ?n (us @ t # ts))" by simp
    then show ?thesis using nm(5) unfolding list_all_iff by blast
  qed
  ultimately have "length us < unat n \<longleftrightarrow> rname t \<noteq> None" unfolding nm(3) by argo
  then show thesis using that [OF nm(1,2) sum] by blast
qed

lemma dir_head_end:
  assumes "dir_head buf dir ts"
  obtains n m where "rd16 buf (int dir + 12) = Some n" "rd16 buf (int dir + 14) = Some m" "unat n + unat m = length ts"
  using assms length_takeWhile_le [of "\<lambda>t. rname t \<noteq> None" ts] by (auto simp: dir_head_def Let_def)

lemma rsrc_skip:
  assumes "name_at buf root e nm" "separated name nm"
  shows "(if \<not> found \<and> nm \<noteq> None then do {
      off \<leftarrow> rd32 buf (int e); name_differs buf name (root + unat (off AND 0x7FFFFFFF)) } else Some False) = Some (\<not> found \<and> other_name name nm)"
proof (cases nm)
  case (Some s)
  obtain off where "rd32 buf (int e) = Some off" "name_differs buf name (root + unat (off AND 0x7FFFFFFF)) = Some (s \<noteq> name)"
    using name_differs_at [OF assms [unfolded Some]] by metis
  then show ?thesis by (simp add: Some other_name_def)
qed (simp add: other_name_def)

definition node_turn :: "u8 list \<Rightarrow> u16 list \<Rightarrow> nat \<Rightarrow> nat \<Rightarrow> nat \<Rightarrow> bool \<Rightarrow> u32 \<Rightarrow> (u32 \<times> u32 \<times> bool) option" where
  "node_turn buf name root dir i found w =
     (if w AND IMAGE_RESOURCE_DATA_IS_DIRECTORY \<noteq> 0 then do {
        let sub = root + unat (w AND 0x7FFFFFFF);
        (rva, len, found) \<leftarrow> rsrc_loop buf name root sub 0 (if sub = root then False else found);
        if rva \<noteq> 0 then Some (rva, len, found) else rsrc_loop buf name root dir (i + 1) found
      } else if found then do {
        rva \<leftarrow> rd32 buf (int (root + unat w));
        len \<leftarrow> rd32 buf (int (root + unat w) + 4);
        Some (rva, len, found)
      } else rsrc_loop buf name root dir (i + 1) found)"

lemma rsrc_loop_turn: "rsrc_loop buf name root dir i found = do {
     n \<leftarrow> rd16 buf (int dir + 12);
     m \<leftarrow> rd16 buf (int dir + 14);
     if i < unat n + unat m then do {
       skip \<leftarrow> (if \<not> found \<and> i < unat n then do {
                 off \<leftarrow> rd32 buf (int dir + 16 + 8 * int i);
                 name_differs buf name (root + unat (off AND 0x7FFFFFFF))
               } else Some False);
       if skip then rsrc_loop buf name root dir (i + 1) found
       else do {
         w \<leftarrow> rd32 buf (int dir + 16 + 8 * int i + 4);
         node_turn buf name root dir i (found \<or> i < unat n) w
       }
     } else Some (0, 0, found)
   }"
  unfolding node_turn_def Let_def by (subst rsrc_loop.simps) (simp only: Let_def)

lemma rsrc_loop_nodes:
  "dir_head buf dir (us @ ts) \<Longrightarrow> nodes_at buf root (dir + 16 + 8 * length us) ts \<Longrightarrow> list_all (wf_rsrc name) ts \<Longrightarrow>
   rsrc_loop buf name root dir (length us) found =
     (case first_below (concat (map (rsrc_leaves name found) ts)) of
        None \<Rightarrow> Some (0, 0, found)
      | Some (rva, len) \<Rightarrow> Some (rva, len, True))"
proof (induction "size_list size ts" arbitrary: ts us dir found rule: less_induct)
  case less
  show ?case
  proof (cases ts)
    case Nil
    then show ?thesis using less.prems(1) by (subst rsrc_loop.simps) (auto elim!: dir_head_end)
  next
    case (Cons t vs)
    let ?e = "dir + 16 + 8 * length us"
    obtain n m where nm: "rd16 buf (int dir + 12) = Some n" "rd16 buf (int dir + 14) = Some m"
      "unat n + unat m = length (us @ t # vs)" "length us < unat n \<longleftrightarrow> rname t \<noteq> None"
      using dir_headD [OF less.prems(1) [unfolded Cons]] by metis
    have t: "node_at buf root ?e t" "name_at buf root ?e (rname t)" "separated name (rname t)" "wf_rsrc name t"
      using less.prems(2,3) Cons by (cases t; simp)+
    have nx: "rsrc_loop buf name root dir (length us + 1) f =
        (case first_below (concat (map (rsrc_leaves name f) vs)) of None \<Rightarrow> Some (0, 0, f) | Some (rva, len) \<Rightarrow> Some (rva, len, True))" for f
      using less.hyps [of vs dir "us @ [t]" f] less.prems Cons by (simp add: add.commute)
    have e: "int dir + 16 + 8 * int (length us) = int ?e" by simp
    have step: "rsrc_loop buf name root dir (length us) found =
      (if \<not> found \<and> other_name name (rname t) then rsrc_loop buf name root dir (length us + 1) found
       else do {
         w \<leftarrow> rd32 buf (int ?e + 4);
         node_turn buf name root dir (length us) (found \<or> rname t \<noteq> None) w
       })"
      unfolding rsrc_loop_turn [of buf name root dir "length us"] nm(1,2) bind.simps e nm(3,4)
      unfolding rsrc_skip [OF t(2,3), of found] by simp
    show ?thesis
    proof (cases t)
      case (RData s rva sz)
      then obtain w where "rd32 buf (int ?e + 4) = Some w" "w AND IMAGE_RESOURCE_DATA_IS_DIRECTORY = 0"
        "rd32 buf (int (root + unat w)) = Some rva" "rd32 buf (int (root + unat w) + 4) = Some sz"
        using t(1) by (auto simp: IMAGE_RESOURCE_DATA_IS_DIRECTORY_def split: option.splits)
      then show ?thesis using step nx [of found] by (auto simp: Cons RData node_turn_def other_name_def)
    next
      case (RDir s ws)
      then obtain w where w: "rd32 buf (int ?e + 4) = Some w" "w AND IMAGE_RESOURCE_DATA_IS_DIRECTORY \<noteq> 0" "w AND 0x7FFFFFFF \<noteq> 0"
        "dir_head buf (root + unat (w AND 0x7FFFFFFF)) ws" "nodes_at buf root (root + unat (w AND 0x7FFFFFFF) + 16) ws"
        using t(1) by (auto simp: IMAGE_RESOURCE_DATA_IS_DIRECTORY_def split: option.splits)
      have sub: "rsrc_loop buf name root (root + unat (w AND 0x7FFFFFFF)) 0 f =
          (case first_below (concat (map (rsrc_leaves name f) ws)) of None \<Rightarrow> Some (0, 0, f) | Some (rva, len) \<Rightarrow> Some (rva, len, True))" for f
        using less.hyps [of ws "root + unat (w AND 0x7FFFFFFF)" "[]" f] w(4,5) t(4) Cons RDir by simp
      have "root + unat (w AND 0x7FFFFFFF) \<noteq> root" using w(3) by (simp add: unat_eq_0)
      then have turn: "node_turn buf name root dir (length us) f w =
        (case first_below (concat (map (rsrc_leaves name f) ws)) of
           None \<Rightarrow> rsrc_loop buf name root dir (length us + 1) f | Some (rva, len) \<Rightarrow> Some (rva, len, True))" for f
        using w(2) sub [of f] first_below_list [of name ws f] t(4) RDir by (auto simp: node_turn_def split: option.splits)
      have below: "first_below (concat (map (rsrc_leaves name True) ws)) \<noteq> None"
        using rsrc_leaves_below [OF t(4)] RDir by auto
      show ?thesis
      proof (cases "\<not> found \<and> other_name name s")
        case True
        then show ?thesis using step nx [of found] by (simp add: Cons RDir)
      next
        case False
        then have "(found \<or> s \<noteq> None) = (found \<or> s = Some name)" by (auto simp: other_name_def)
        then show ?thesis using step nx [of found] turn [of "found \<or> s = Some name"] False w(1) below
          by (cases "found \<or> s = Some name") (auto simp: Cons RDir split: option.splits)
      qed
    qed
  qed
qed

section \<open>Properties\<close>

text \<open>
  C20. On a resource directory without cycles, empty directories and data at address 0,
  \<open>FindResourceRva\<close> returns, and gives address and size of the first data, in the order of the
  directories, that lies below an entry of the given name; what lies below another name does not
  count. When there is none it returns 0. As only the first half of the bytes of a name is
  compared, this needs that no other name of the same length agrees with it there.
\<close>

theorem FindResourceRva_finds:
  assumes "dir_head buf root ts" "nodes_at buf root (root + 16) ts" "list_all (wf_rsrc name) ts"
  shows "FindResourceRva buf name (Some root) =
    Some (case first_below (concat (map (rsrc_leaves name False) ts)) of None \<Rightarrow> (0, 0) | Some x \<Rightarrow> x)"
  using rsrc_loop_nodes [of buf root "[]" ts root name False] assms by (auto simp: FindResourceRva_def split: option.splits)

definition rsrc_example :: "u8 list" where
  "rsrc_example = replicate 12 0 @ [1, 0, 0, 0] @ [48, 0, 0, 0x80] @ [24, 0, 0, 0x80] @ replicate 12 0 @ [0, 0, 1, 0] @
     [9, 4, 0, 0] @ [56, 0, 0, 0] @ [2, 0, 65, 0, 66, 0] @ [0, 0] @ [0, 16, 0, 0] @ [4, 0, 0, 0]"

theorem FindResourceRva_finds_witness:
  "FindResourceRva rsrc_example [65, 66] (Some 0) = Some (0x1000, 4) \<and> FindResourceRva rsrc_example [65] (Some 0) = Some (0, 0)"
proof -
  let ?ts = "[RDir (Some [65, 66]) [RData None 0x1000 4]]"
  have d: "dir_head rsrc_example 0 ?ts" by code_simp
  have n: "nodes_at rsrc_example 0 (0 + 16) ?ts" by code_simp
  have w: "list_all (wf_rsrc [65, 66]) ?ts" "list_all (wf_rsrc [65]) ?ts" by code_simp+
  show ?thesis using FindResourceRva_finds [OF d n w(1)] FindResourceRva_finds [OF d n w(2)] by (simp add: other_name_def)
qed

text \<open>
  C21. On an image whose section table is inside it, \<open>GetPeSection\<close> gives the position in the
  file of the first section with the name, as far as it fits eight bytes, together with the size
  of the raw data of the first section of the table, whichever section was found; \<open>RvaToPhysical\<close>
  translates an address by the first section that contains it. Both return \<open>NULL\<close> when there is no such section.
\<close>

theorem section_lookups:
  assumes "pe_sections buf = Some ss"
  shows "GetPeSection (Some buf) name =
      Some (map_option (\<lambda>s. (unat (s_ptr s), s_raw (hd ss))) (find (\<lambda>s. s_name s = short_name name) ss)) \<and>
    RvaToPhysical (Some buf) rva =
      Some (map_option (\<lambda>s. unat (s_ptr s + (rva - s_va s))) (find (contains_rva rva) ss))"
  using GetPeSection_find [OF assms] RvaToPhysical_find [OF assms] by simp

text \<open>An image with the sections \<open>.text\<close> of 512 bytes and \<open>.sbat\<close> of 64 bytes.\<close>

definition sections_example :: "u8 list" where
  "sections_example = [0x4D, 0x5A] @ replicate 58 0 @ [64, 0, 0, 0] @ [0x50, 0x45, 0, 0, 0x64, 0x86, 2, 0] @ replicate 256 0 @
     [46, 116, 101, 120, 116, 0, 0, 0] @ [0, 2, 0, 0] @ [0, 16, 0, 0] @ [0, 2, 0, 0] @ [0, 2, 0, 0] @ replicate 16 0 @
     [46, 115, 98, 97, 116, 0, 0, 0] @ [64, 0, 0, 0] @ [0, 32, 0, 0] @ [64, 0, 0, 0] @ [0, 4, 0, 0] @ replicate 16 0"

definition example_sections :: "pe_section list" where
  "example_sections =
     [\<lparr> s_name = [46, 116, 101, 120, 116, 0, 0, 0], s_vsize = 512, s_va = 0x1000, s_raw = 512, s_ptr = 512 \<rparr>,
      \<lparr> s_name = [46, 115, 98, 97, 116, 0, 0, 0], s_vsize = 64, s_va = 0x2000, s_raw = 64, s_ptr = 1024 \<rparr>]"

lemma sections_example: "pe_sections sections_example = Some example_sections"
  by code_simp

theorem section_lookups_witness:
  "GetPeSection (Some sections_example) [46, 115, 98, 97, 116] = Some (Some (1024, 512)) \<and>
   RvaToPhysical (Some sections_example) 0x2010 = Some (Some 1040)"
  using section_lookups [OF sections_example, of "[46, 115, 98, 97, 116]" "0x2010"]
  by (simp add: example_sections_def short_name_def contains_rva_def numeral_3_eq_3)

end
