(* ===== verification/Revocation_Lists.thy ===== *)
theory Revocation_Lists
  imports Hash_SHA1
begin

text \<open>
  The lists that Secure Boot revocation is checked against: \<open>GetSbatEntries\<close> and
  \<open>GetThumbprintEntries\<close> of \<open>src/src/parser.c\<close>.

  A text is a block of memory with a terminating zero, and a pointer into it is an index. Both
  functions walk over the text, and the first one puts zeros behind the fields; a pointer to a
  product name stays an index into the text, and the string there is what lies up to the next zero.
\<close>

section \<open>Strings\<close>

definition c_string :: "u8 list \<Rightarrow> nat \<Rightarrow> u8 list option" where
  "c_string mem i =
     (let s = takeWhile (\<lambda>c. c \<noteq> 0) (drop i mem) in
      if i + length s < length mem then Some s else None)"

text \<open>The loops that go on to the next character of a kind.\<close>

function skip_to :: "(u8 \<Rightarrow> bool) \<Rightarrow> u8 list \<Rightarrow> nat \<Rightarrow> nat option" where
  "skip_to stop mem i = do {
     c \<leftarrow> aget mem i;
     if stop c then Some i else skip_to stop mem (i + 1)
   }"
  by pat_completeness auto
termination
  by (relation "measure (\<lambda>(stop, mem, i). length mem - i)") (auto dest: aget_eq_SomeD)

declare skip_to.simps [simp del]

definition line_end :: "u8 \<Rightarrow> bool" where
  "line_end c \<longleftrightarrow> c = 0 \<or> c = 10"

definition field_end :: "u8 \<Rightarrow> bool" where
  "field_end c \<longleftrightarrow> c = 44 \<or> line_end c"

definition isspace :: "u8 \<Rightarrow> bool" where
  "isspace c \<longleftrightarrow> c = 32 \<or> 9 \<le> c \<and> c \<le> 13"

definition IS_HEXASCII :: "u8 \<Rightarrow> bool" where
  "IS_HEXASCII c \<longleftrightarrow> 48 \<le> c \<and> c \<le> 57 \<or> 65 \<le> c \<and> c \<le> 70 \<or> 97 \<le> c \<and> c \<le> 102"

definition FROM_HEXASCII :: "u8 \<Rightarrow> u8" where
  "FROM_HEXASCII c =
     (if 48 \<le> c \<and> c \<le> 57 then c - 48
      else if 65 \<le> c \<and> c \<le> 90 then c - 65 + 10
      else if 97 \<le> c \<and> c \<le> 122 then c - 97 + 10 else 0)"

text \<open>
  \<open>strtoul\<close> and \<open>atoi\<close> of the C library: white space, a sign, for base 16 the prefix \<open>0x\<close>, then
  the digits. \<open>unsigned long\<close> has 32 bits; a value out of range gives the nearest one in range.
\<close>

definition numeral_digits :: "nat \<Rightarrow> u8 list \<Rightarrow> nat" where
  "numeral_digits base s =
     foldl (\<lambda>n c. base * n + unat (FROM_HEXASCII c)) 0 (takeWhile (\<lambda>c. IS_HEXASCII c \<and> unat (FROM_HEXASCII c) < base) s)"

definition sign_split :: "u8 list \<Rightarrow> bool \<times> u8 list" where
  "sign_split s =
     (case dropWhile isspace s of
        [] \<Rightarrow> (False, [])
      | c # r \<Rightarrow> if c = 45 then (True, r) else if c = 43 then (False, r) else (False, c # r))"

definition strtoul_base :: "nat \<Rightarrow> u8 list \<Rightarrow> u32" where
  "strtoul_base base s =
     (case sign_split s of
        (neg, r) \<Rightarrow>
          let v = numeral_digits base (if base = 16 \<and> take 2 r \<in> {[48, 120], [48, 88]} then drop 2 r else r) in
          if v \<ge> 2 ^ 32 then - 1 else if neg then - of_nat v else of_nat v)"

definition atoi :: "u8 list \<Rightarrow> u32" where
  "atoi s =
     (case sign_split s of
        (neg, r) \<Rightarrow>
          let v = numeral_digits 10 r in
          if neg then - of_nat (min v (2 ^ 31)) else of_nat (min v (2 ^ 31 - 1)))"

section \<open>The list of minimal versions\<close>

record sbat_entry =
  product :: "nat option"
  version :: u32

abbreviation no_entry :: sbat_entry where
  "no_entry \<equiv> \<lparr> product = None, version = 0 \<rparr>"

definition sbat_version :: "u8 list \<Rightarrow> u32" where
  "sbat_version s = strtoul_base (if take 2 s = [48, 120] then 16 else 10) s"

text \<open>The number of newlines before the terminating zero.\<close>

function count_lines :: "u8 list \<Rightarrow> nat \<Rightarrow> nat \<Rightarrow> nat option" where
  "count_lines mem i n = do {
     c \<leftarrow> aget mem i;
     if c = 0 then Some n else count_lines mem (i + 1) (if c = 10 then n + 1 else n)
   }"
  by pat_completeness auto
termination
  by (relation "measure (\<lambda>(mem, i, n). length mem - i)") (auto dest: aget_eq_SomeD)

declare count_lines.simps [simp del]

lemma skip_toD: "skip_to stop mem i = Some j \<Longrightarrow> i \<le> j \<and> j < length mem \<and> stop (mem ! j) \<and> (\<not> stop (mem ! i) \<longrightarrow> i < j)"
proof (induction stop mem i rule: skip_to.induct)
  case (1 stop mem i)
  then obtain c where c: "aget mem i = Some c" by (subst (asm) (2) skip_to.simps) (auto simp: bind_eq_Some_conv)
  then show ?case using 1 aget_eq_SomeD [OF c] by (cases "stop c") (subst (asm) skip_to.simps, force)+
qed

text \<open>
  The line at \<open>i\<close>, which is not blank and no comment: \<open>Inl\<close> is the \<open>break\<close> at a line without a
  comma, \<open>Inr\<close> has the text with the zeros put in, the version and the position to go on at.
\<close>

definition sbat_line :: "u8 list \<Rightarrow> nat \<Rightarrow> (unit + u8 list \<times> u32 \<times> nat) option" where
  "sbat_line mem i = do {
     j \<leftarrow> skip_to field_end mem i;
     c \<leftarrow> aget mem j;
     if line_end c then Some (Inl ())
     else do {
       mem \<leftarrow> aset mem j 0;
       k \<leftarrow> skip_to field_end mem (j + 1);
       c \<leftarrow> aget mem k;
       let eol = line_end c;
       let eof = (c = 0);
       mem \<leftarrow> aset mem k 0;
       let i = (if eof then k else k + 1);
       version_str \<leftarrow> c_string mem (j + 1);
       i \<leftarrow> (if eol then Some i else skip_to line_end mem i);
       Some (Inr (mem, sbat_version version_str, i))
     }
   }"

lemma sbat_line_advances: "sbat_line mem i = Some (Inr (mem', v, i')) \<Longrightarrow> i < i' \<and> length mem' = length mem \<and> i < length mem"
  unfolding sbat_line_def Let_def
  by (fastforce simp: bind_eq_Some_conv dest: skip_toD aset_eq_SomeD split: if_splits)

function sbat_loop :: "u8 list \<Rightarrow> sbat_entry list \<Rightarrow> nat \<Rightarrow> nat \<Rightarrow> (u8 list \<times> sbat_entry list \<times> nat) option" where
  "sbat_loop mem sbat_list num_entries i = do {
     c \<leftarrow> aget mem i;
     if c = 0 then Some (mem, sbat_list, num_entries)
     else if c = 10 then sbat_loop mem sbat_list num_entries (i + 1)
     else if c = 35 then do {
       j \<leftarrow> skip_to line_end mem i;
       sbat_loop mem sbat_list num_entries j
     }
     else do {
       entry \<leftarrow> aget sbat_list num_entries;
       sbat_list \<leftarrow> aset sbat_list num_entries (entry\<lparr> product := Some i \<rparr>);
       r \<leftarrow> sbat_line mem i;
       case r of
         Inl _ \<Rightarrow> Some (mem, sbat_list, num_entries)
       | Inr (mem, v, i') \<Rightarrow> do {
           sbat_list \<leftarrow> aset sbat_list num_entries (entry\<lparr> product := Some i, version := v \<rparr>);
           sbat_loop mem sbat_list (if v \<noteq> 0 then num_entries + 1 else num_entries) i'
         }
     }
   }"
  by pat_completeness auto
termination
proof (relation "measure (\<lambda>(mem, sbat_list, num_entries, i). length mem - i)", goal_cases)
  case (3 mem sbat_list num_entries i c j)
  then show ?case using skip_toD [of line_end mem i j] aget_eq_SomeD [of mem i c] by (auto simp: line_end_def)
next
  case (4 mem sbat_list num_entries i c entry sl r b mem' y v i' sl2)
  then show ?case using sbat_line_advances [of mem i mem' v i'] by auto
qed (auto dest: aget_eq_SomeD)

declare sbat_loop.simps [simp del]

text \<open>The text afterwards and the list; \<open>ok\<close> is the success of the allocation.\<close>

definition GetSbatEntries :: "bool \<Rightarrow> u8 list option \<Rightarrow> (u8 list option \<times> sbat_entry list option) option" where
  "GetSbatEntries ok sbatlevel =
     (case sbatlevel of
        None \<Rightarrow> Some (None, None)
      | Some mem \<Rightarrow> do {
          num_entries \<leftarrow> count_lines mem 0 1;
          if \<not> ok then Some (Some mem, None)
          else do {
            (mem, sbat_list, num_entries) \<leftarrow> sbat_loop mem (replicate (num_entries + 1) no_entry) 0 0;
            Some (Some mem, if num_entries = 0 then None else Some sbat_list)
          }
        })"

section \<open>The list of thumbprints\<close>

text \<open>
  The loop over the digits of a line; the bytes of the list are in one array. The result is the
  list, the cnt and the position.
\<close>

function hex_loop :: "u8 list \<Rightarrow> u8 list \<Rightarrow> nat \<Rightarrow> nat \<Rightarrow> nat \<Rightarrow> (u8 list \<times> nat \<times> nat) option" where
  "hex_loop mem bytes cnt i j = do {
     c \<leftarrow> aget mem i;
     if line_end c \<or> \<not> IS_HEXASCII c \<or> j div 2 \<ge> SHA1_HASHSIZE then Some (bytes, cnt, i)
     else do {
       b \<leftarrow> aget bytes (SHA1_HASHSIZE * cnt + j div 2);
       bytes \<leftarrow> aset bytes (SHA1_HASHSIZE * cnt + j div 2) (push_bit 4 b OR FROM_HEXASCII c);
       hex_loop mem bytes (if j = 2 * SHA1_HASHSIZE - 1 then cnt + 1 else cnt) (i + 1) (j + 1)
     }
   }"
  by pat_completeness auto
termination
  by (relation "measure (\<lambda>(mem, bytes, cnt, i, j). length mem - i)") (auto dest: aget_eq_SomeD)

declare hex_loop.simps [simp del]

lemma hex_loop_advances: "hex_loop mem bytes cnt i j = Some (bytes', cnt', i') \<Longrightarrow> i \<le> i'"
proof (induction mem bytes cnt i j rule: hex_loop.induct)
  case (1 mem bytes cnt i j)
  from "1.prems" show ?case
    by (subst (asm) hex_loop.simps) (fastforce simp: bind_eq_Some_conv split: if_splits dest: "1.IH")
qed

function thumbprint_loop :: "u8 list \<Rightarrow> u8 list \<Rightarrow> nat \<Rightarrow> nat \<Rightarrow> (u8 list \<times> nat) option" where
  "thumbprint_loop mem bytes cnt i = do {
     c \<leftarrow> aget mem i;
     if c = 0 then Some (bytes, cnt)
     else if c = 10 then thumbprint_loop mem bytes cnt (i + 1)
     else if \<not> IS_HEXASCII c then do {
       k \<leftarrow> skip_to line_end mem i;
       thumbprint_loop mem bytes cnt k
     }
     else do {
       (bytes, cnt, k) \<leftarrow> hex_loop mem bytes cnt i 0;
       k \<leftarrow> skip_to line_end mem k;
       thumbprint_loop mem bytes cnt k
     }
   }"
  by pat_completeness auto
termination
proof (relation "measure (\<lambda>(mem, bytes, cnt, i). length mem - i)", goal_cases)
  case (3 mem bytes cnt i c k)
  then show ?case using skip_toD [of line_end mem i k] aget_eq_SomeD [of mem i c] by (auto simp: line_end_def)
next
  case (4 mem bytes cnt i c x bytes' y cnt' k' k)
  have "i \<le> k'" using 4 hex_loop_advances by auto
  moreover have "k' \<le> k" "line_end (mem ! k)" "k < length mem" using skip_toD [of line_end mem k' k] 4 by auto
  moreover have "mem ! i = c" "i < length mem" using 4 aget_eq_SomeD [of mem i c] by auto
  ultimately show ?case using 4 by (cases "i = k") (auto simp: line_end_def)
qed (auto dest: aget_eq_SomeD)

declare thumbprint_loop.simps [simp del]

record thumbprint_list =
  num_prints :: nat
  prints :: "u8 list"

definition GetThumbprintEntries :: "bool \<Rightarrow> u8 list option \<Rightarrow> thumbprint_list option option" where
  "GetThumbprintEntries ok thumbprints_txt =
     (case thumbprints_txt of
        None \<Rightarrow> Some None
      | Some mem \<Rightarrow> do {
          num_entries \<leftarrow> count_lines mem 0 1;
          if \<not> ok then Some None
          else do {
            (bytes, n) \<leftarrow> thumbprint_loop mem (replicate (num_entries * SHA1_HASHSIZE) 0) 0 0;
            Some (if n = 0 then None else Some \<lparr> num_prints = n, prints = bytes \<rparr>)
          }
        })"

section \<open>Lines and fields\<close>

text \<open>The lines of a text, and the fields of a line.\<close>

fun split_at :: "u8 \<Rightarrow> u8 list \<Rightarrow> u8 list list" where
  "split_at sep [] = [[]]"
| "split_at sep (c # cs) = (if c = sep then [] # split_at sep cs else case split_at sep cs of [] \<Rightarrow> [[c]] | l # ls \<Rightarrow> (c # l) # ls)"

abbreviation lines :: "u8 list \<Rightarrow> u8 list list" where
  "lines \<equiv> split_at 10"

abbreviation line_fields :: "u8 list \<Rightarrow> u8 list list" where
  "line_fields \<equiv> split_at 44"

lemma split_at_nonempty [simp]: "split_at sep s \<noteq> []" "[] \<noteq> split_at sep s"
  by (cases s; auto split: list.splits)+

lemma split_at_no_sep: "sep \<notin> set s \<Longrightarrow> split_at sep s = [s]"
  by (induction s) auto

lemma split_at_append: "sep \<notin> set a \<Longrightarrow> split_at sep (a @ sep # b) = a # split_at sep b"
  by (induction a) auto

text \<open>A text is its first line, and behind a newline the others.\<close>

lemma split_at_cases:
  obtains "sep \<notin> set s" "split_at sep s = [s]"
  | a b where "s = a @ sep # b" "sep \<notin> set a" "split_at sep s = a # split_at sep b"
  using split_at_no_sep [of sep s] split_at_append [of sep] by (metis split_list_first)

text \<open>
  The products of a list with their versions: a line has the name and the version as its first two
  fields; blank lines, comments and lines with version 0 do not count, and the list ends at a line
  with one field.
\<close>

fun sbat_products :: "u8 list list \<Rightarrow> (u8 list \<times> u32) list" where
  "sbat_products [] = []"
| "sbat_products (l # ls) =
     (if l = [] \<or> hd l = 35 then sbat_products ls
      else
        (case line_fields l of
           p # v # _ \<Rightarrow> (if sbat_version v \<noteq> 0 then [(p, sbat_version v)] else []) @ sbat_products ls
         | _ \<Rightarrow> []))"

text \<open>What a client sees of a list: the entries up to the one without a product.\<close>

fun sbat_view :: "u8 list \<Rightarrow> sbat_entry list \<Rightarrow> (u8 list \<times> u32) list option" where
  "sbat_view mem [] = None"
| "sbat_view mem (e # es) =
     (case product e of
        None \<Rightarrow> Some []
      | Some p \<Rightarrow> do {
          s \<leftarrow> c_string mem p;
          vs \<leftarrow> sbat_view mem es;
          Some ((s, version e) # vs)
        })"

section \<open>Walking over a text\<close>

lemma aget_at: "drop i mem = c # b \<Longrightarrow> aget mem i = Some c \<and> drop (i + 1) mem = b \<and> i < length mem"
proof -
  assume d: "drop i mem = c # b"
  then have "i < length mem" by (metis drop_eq_Nil2 leI list.distinct(1))
  then show ?thesis using d Cons_nth_drop_Suc [of i mem] by (simp add: aget_def)
qed

lemma drop_add_append: "drop i mem = a @ b \<Longrightarrow> drop (i + length a) mem = b"
  by (metis add.commute append_eq_conv_conj drop_drop)

lemma skip_to_drop:
  "drop i mem = a @ c # b \<Longrightarrow> list_all (\<lambda>x. \<not> stop x) a \<Longrightarrow> stop c \<Longrightarrow> skip_to stop mem i = Some (i + length a)"
proof (induction a arbitrary: i)
  case Nil
  then show ?case using aget_at [of i mem c b] by (subst skip_to.simps) simp
next
  case (Cons x a)
  then have "aget mem i = Some x" "drop (i + 1) mem = a @ c # b" using aget_at [of i mem x "a @ c # b"] by simp_all
  then show ?case using Cons.IH [of "i + 1"] Cons.prems by (subst skip_to.simps) simp
qed

lemma aset_drop:
  assumes "drop i mem = a @ c # b" "j = i + length a"
  obtains mem' where "aset mem j d = Some mem'" "drop i mem' = a @ d # b" "take j mem' = take j mem" "length mem' = length mem"
proof -
  have "drop j mem = c # b" using drop_add_append [OF assms(1)] assms(2) by simp
  then have j: "j < length mem" using aget_at [of j mem c b] by simp
  then have "aset mem j d = Some (mem[j := d])" by (simp add: aset_def)
  moreover have "drop i (mem[j := d]) = a @ d # b" using assms by (simp add: drop_update_swap list_update_append)
  ultimately show thesis using that by simp
qed

lemma c_string_drop: "drop i mem = s @ 0 # b \<Longrightarrow> 0 \<notin> set s \<Longrightarrow> c_string mem i = Some s"
proof -
  assume d: "drop i mem = s @ 0 # b" and s: "0 \<notin> set s"
  have "takeWhile (\<lambda>c. c \<noteq> 0) (drop i mem) = s" unfolding d using s by (simp add: takeWhile_append)
  moreover have "i + length s < length mem" using aget_at [OF drop_add_append [OF d]] by simp
  ultimately show ?thesis by (simp add: c_string_def)
qed

lemma count_lines_drop:
  "drop i mem = s @ 0 # b \<Longrightarrow> 0 \<notin> set s \<Longrightarrow> count_lines mem i n = Some (n + length (lines s) - 1)"
proof (induction s arbitrary: i n)
  case Nil
  then show ?case using aget_at [of i mem 0 b] by (subst count_lines.simps) simp
next
  case (Cons x s)
  then have "aget mem i = Some x" "drop (i + 1) mem = s @ 0 # b" using aget_at [of i mem x "s @ 0 # b"] by simp_all
  moreover have "length (lines (x # s)) = (if x = 10 then length (lines s) + 1 else length (lines s))" by (cases "lines s") auto
  ultimately show ?case using Cons by (subst count_lines.simps) simp
qed

text \<open>The string at a position, and that it does not depend on what lies behind it.\<close>

definition str_at :: "u8 list \<Rightarrow> nat \<Rightarrow> u8 list \<Rightarrow> bool" where
  "str_at mem p s \<longleftrightarrow> 0 \<notin> set s \<and> slice p (length s + 1) mem = s @ [0]"

lemma str_at_c_string: "str_at mem p s \<Longrightarrow> c_string mem p = Some s"
proof -
  assume s: "str_at mem p s"
  have "drop p mem = take (length s + 1) (drop p mem) @ drop (length s + 1) (drop p mem)" by (rule append_take_drop_id [symmetric])
  then have "drop p mem = s @ 0 # drop (length s + 1) (drop p mem)" using s unfolding str_at_def slice_def by simp
  then show ?thesis using s by (auto simp: str_at_def intro: c_string_drop)
qed

lemma str_at_drop: "drop p mem = s @ 0 # b \<Longrightarrow> 0 \<notin> set s \<Longrightarrow> str_at mem p s"
  by (simp add: str_at_def slice_def)

lemma str_at_before: "str_at mem p s \<Longrightarrow> p + length s < i \<Longrightarrow> take i mem' = take i mem \<Longrightarrow> str_at mem' p s"
proof -
  assume s: "str_at mem p s" and p: "p + length s < i" and t: "take i mem' = take i mem"
  have sl: "slice p (length s + 1) m = take (length s + 1) (drop p (take i m))" for m :: "u8 list"
    using p by (simp add: slice_def drop_take min_def)
  then show ?thesis using s t by (simp add: str_at_def)
qed

lemma fields_cases:
  assumes "line_fields l = p # v # fs"
  obtains (two) "l = p @ 44 # v" "44 \<notin> set p" "44 \<notin> set v" "fs = []"
  | (more) w where "l = p @ 44 # v @ 44 # w" "44 \<notin> set p" "44 \<notin> set v" "fs \<noteq> []"
proof (cases l rule: split_at_cases [where sep = 44])
  case (2 a q)
  then have q: "line_fields q = v # fs" "a = p" using assms by auto
  show thesis
  proof (cases q rule: split_at_cases [where sep = 44])
    case 1
    then show thesis using two 2 q by auto
  next
    case (2 a' w)
    then show thesis using more [of w] \<open>l = a @ 44 # q\<close> \<open>44 \<notin> set a\<close> q by auto
  qed
qed (use assms in simp)

lemma no_field_end: "list_all (\<lambda>c. \<not> line_end c) s \<Longrightarrow> 44 \<notin> set s \<Longrightarrow> list_all (\<lambda>c. \<not> field_end c) s"
  by (auto simp: list_all_iff field_end_def)

lemma no_zero: "list_all (\<lambda>c. \<not> line_end c) s \<Longrightarrow> 0 \<notin> set s"
  by (auto simp: list_all_iff line_end_def)

text \<open>The two fields of a line, with the zeros put behind them.\<close>

lemma two_fields:
  assumes d: "drop i mem = p @ 44 # v @ e # r" and e: "field_end e"
    and p: "list_all (\<lambda>c. \<not> field_end c) p" and v: "list_all (\<lambda>c. \<not> field_end c) v"
  obtains mem1 mem2 where "skip_to field_end mem i = Some (i + length p)" "aget mem (i + length p) = Some 44"
    "aset mem (i + length p) 0 = Some mem1" "skip_to field_end mem1 (i + length p + 1) = Some (i + length p + 1 + length v)"
    "aget mem1 (i + length p + 1 + length v) = Some e" "aset mem1 (i + length p + 1 + length v) 0 = Some mem2"
    "c_string mem2 (i + length p + 1) = Some v" "str_at mem2 i p" "take i mem2 = take i mem" "length mem2 = length mem"
    "drop (i + length p + 1 + length v) mem2 = 0 # r"
proof -
  have z: "0 \<notin> set p" "0 \<notin> set v" using p v by (auto simp: list_all_iff field_end_def line_end_def)
  have skip1: "skip_to field_end mem i = Some (i + length p)" by (rule skip_to_drop [OF d p]) (simp add: field_end_def)
  obtain mem1 where m1: "aset mem (i + length p) 0 = Some mem1" "drop i mem1 = p @ 0 # v @ e # r"
    "take (i + length p) mem1 = take (i + length p) mem" "length mem1 = length mem"
    using aset_drop [OF d refl, of 0] by metis
  have d1: "drop (i + length p + 1) mem1 = v @ e # r" using drop_add_append [of i mem1 "p @ [0]"] m1(2) by simp
  have skip2: "skip_to field_end mem1 (i + length p + 1) = Some (i + length p + 1 + length v)" by (rule skip_to_drop [OF d1 v e])
  obtain mem2 where m2: "aset mem1 (i + length p + 1 + length v) 0 = Some mem2" "drop (i + length p + 1) mem2 = v @ 0 # r"
    "take (i + length p + 1 + length v) mem2 = take (i + length p + 1 + length v) mem1" "length mem2 = length mem1"
    using aset_drop [OF d1 refl, of 0] by metis
  have "str_at mem1 i p" using str_at_drop [OF m1(2) z(1)] .
  then have s2: "str_at mem2 i p" by (rule str_at_before [OF _ _ m2(3)]) simp
  have "take i mem2 = take i mem"
    using arg_cong [OF m2(3), of "take i"] arg_cong [OF m1(3), of "take i"] by (simp add: min_def)
  then show thesis
    using that skip1 m1(1) skip2 m2(1) s2 c_string_drop [OF m2(2) z(2)] aget_at [OF drop_add_append [OF d]]
      aget_at [OF drop_add_append [OF d1]] m1(4) m2(4) drop_add_append [OF m2(2)] by simp
qed

lemma sbat_line_run:
  assumes d: "drop i mem = l @ e # r" and e: "line_end e" and l: "list_all (\<lambda>c. \<not> line_end c) l" and f: "line_fields l = p # v # fs"
  obtains mem' i' where "sbat_line mem i = Some (Inr (mem', sbat_version v, i'))" "take i mem' = take i mem" "str_at mem' i p"
    "i + length p < i'" "drop i' mem' = (if fs = [] \<and> e = 10 then r else e # r)"
  using f
proof (cases rule: fields_cases)
  case two
  then have pv: "list_all (\<lambda>c. \<not> field_end c) p" "list_all (\<lambda>c. \<not> field_end c) v" using l no_field_end by auto
  have "drop i mem = p @ 44 # v @ e # r" using d two by simp
  moreover have "field_end e" using e by (simp add: field_end_def)
  ultimately obtain mem1 mem2 where
    m: "skip_to field_end mem i = Some (i + length p)" "aget mem (i + length p) = Some 44"
    "aset mem (i + length p) 0 = Some mem1" "skip_to field_end mem1 (i + length p + 1) = Some (i + length p + 1 + length v)"
    "aget mem1 (i + length p + 1 + length v) = Some e" "aset mem1 (i + length p + 1 + length v) 0 = Some mem2"
    "c_string mem2 (i + length p + 1) = Some v" "str_at mem2 i p" "take i mem2 = take i mem" "length mem2 = length mem"
    "drop (i + length p + 1 + length v) mem2 = 0 # r"
    using pv by (rule two_fields)
  let ?k = "i + length p + 1 + length v"
  have "sbat_line mem i = Some (Inr (mem2, sbat_version v, if e = 0 then ?k else ?k + 1))"
    unfolding sbat_line_def Let_def by (simp only: m(1-7) bind.simps e if_True) (simp add: line_end_def)
  moreover have "drop (?k + 1) mem2 = r" using aget_at [OF m(11)] by simp
  ultimately show thesis using that m(8,9,11) e two(4) by (cases "e = 0") (auto simp: line_end_def)
next
  case (more w)
  then have pv: "list_all (\<lambda>c. \<not> field_end c) p" "list_all (\<lambda>c. \<not> field_end c) v" and w: "list_all (\<lambda>c. \<not> line_end c) w"
    using l no_field_end by auto
  have "drop i mem = p @ 44 # v @ 44 # (w @ e # r)" using d more by simp
  moreover have "field_end 44" by (simp add: field_end_def)
  ultimately obtain mem1 mem2 where
    m: "skip_to field_end mem i = Some (i + length p)" "aget mem (i + length p) = Some 44"
    "aset mem (i + length p) 0 = Some mem1" "skip_to field_end mem1 (i + length p + 1) = Some (i + length p + 1 + length v)"
    "aget mem1 (i + length p + 1 + length v) = Some 44" "aset mem1 (i + length p + 1 + length v) 0 = Some mem2"
    "c_string mem2 (i + length p + 1) = Some v" "str_at mem2 i p" "take i mem2 = take i mem" "length mem2 = length mem"
    "drop (i + length p + 1 + length v) mem2 = 0 # w @ e # r"
    using pv by (rule two_fields)
  let ?k = "i + length p + 1 + length v"
  have dk: "drop (?k + 1) mem2 = w @ e # r" using aget_at [OF m(11)] by simp
  have sk: "skip_to line_end mem2 (?k + 1) = Some (?k + 1 + length w)" by (rule skip_to_drop [OF dk w e])
  have "sbat_line mem i = Some (Inr (mem2, sbat_version v, ?k + 1 + length w))"
    unfolding sbat_line_def Let_def by (simp only: m(1-7) bind.simps) (use sk in \<open>simp add: line_end_def\<close>)
  then show thesis using that m(8,9) more(4) drop_add_append [OF dk] by simp
qed

section \<open>The loop over the lines\<close>

text \<open>
  The entries found so far, which lie before \<open>i\<close>, then possibly one that a line with version 0
  has left, then empty ones.
\<close>

definition stored :: "u8 list \<Rightarrow> nat \<Rightarrow> sbat_entry \<Rightarrow> u8 list \<Rightarrow> bool" where
  "stored mem i e s \<longleftrightarrow> (\<exists>p. product e = Some p \<and> str_at mem p s \<and> p + length s < i)"

definition sbat_inv :: "u8 list \<Rightarrow> sbat_entry list \<Rightarrow> nat \<Rightarrow> nat \<Rightarrow> (u8 list \<times> u32) list \<Rightarrow> bool" where
  "sbat_inv mem es n i vs \<longleftrightarrow> n = length vs \<and> n < length es \<and>
     (\<forall>j < n. stored mem i (es ! j) (fst (vs ! j)) \<and> version (es ! j) = snd (vs ! j)) \<and>
     (product (es ! n) = None \<or> (\<exists>s. stored mem i (es ! n) s) \<and> n + 1 < length es) \<and> version (es ! n) = 0 \<and>
     (\<forall>j. n < j \<and> j < length es \<longrightarrow> es ! j = no_entry)"

definition filled :: "u8 list \<Rightarrow> nat" where
  "filled u = length (filter (\<lambda>l. l \<noteq> []) (lines u))"

lemma stored_mono: "stored mem i e s \<Longrightarrow> i \<le> i' \<Longrightarrow> take i mem' = take i mem \<Longrightarrow> stored mem' i' e s"
  unfolding stored_def by (meson str_at_before less_le_trans)

lemma sbat_inv_mono: "sbat_inv mem es n i vs \<Longrightarrow> i \<le> i' \<Longrightarrow> take i mem' = take i mem \<Longrightarrow> sbat_inv mem' es n i' vs"
  unfolding sbat_inv_def using stored_mono by blast

lemma sbat_inv_new:
  assumes "sbat_inv mem es n i vs" "take i mem' = take i mem" "str_at mem' i p" "i + length p < i'" "n + 1 < length es"
  shows "v = 0 \<Longrightarrow> sbat_inv mem' (es[n := (es ! n)\<lparr> product := Some i, version := v \<rparr>]) n i' vs"
    and "v \<noteq> 0 \<Longrightarrow> sbat_inv mem' (es[n := (es ! n)\<lparr> product := Some i, version := v \<rparr>]) (n + 1) i' (vs @ [(p, v)])"
proof -
  let ?es = "es[n := (es ! n)\<lparr> product := Some i, version := v \<rparr>]"
  have inv: "sbat_inv mem' es n i' vs" using sbat_inv_mono [OF assms(1) _ assms(2)] assms(4) by simp
  have new: "stored mem' i' (?es ! n) p" using assms by (simp add: stored_def)
  show "v = 0 \<Longrightarrow> sbat_inv mem' ?es n i' vs" using inv new assms(5) by (auto simp: sbat_inv_def)
  show "v \<noteq> 0 \<Longrightarrow> sbat_inv mem' ?es (n + 1) i' (vs @ [(p, v)])"
    using inv new assms(5) by (auto simp: sbat_inv_def nth_append less_Suc_eq)
qed

lemma sbat_inv_broken:
  assumes "sbat_inv mem es n i vs" "str_at mem i s" "i + length s < i'" "n + 1 < length es"
  shows "sbat_inv mem (es[n := (es ! n)\<lparr> product := Some i \<rparr>]) n i' vs"
proof -
  have "version (es ! n) = 0" using assms(1) unfolding sbat_inv_def by blast
  then have "(es ! n)\<lparr> product := Some i \<rparr> = (es ! n)\<lparr> product := Some i, version := 0 \<rparr>" by (cases "es ! n") simp
  then show ?thesis using sbat_inv_new(1) [OF assms(1) refl assms(2-4) refl] by simp
qed

text \<open>The first line of a text with its end and what lies behind it.\<close>

lemma first_line:
  assumes "drop i mem = u @ 0 # r" "0 \<notin> set u"
  obtains (last_line) "drop i mem = u @ 0 # r" "list_all (\<lambda>c. \<not> line_end c) u" "lines u = [u]"
  | (newline) l b where "u = l @ 10 # b" "drop i mem = l @ 10 # (b @ 0 # r)" "list_all (\<lambda>c. \<not> line_end c) l" "lines u = l # lines b"
proof (cases u rule: split_at_cases [where sep = 10])
  case 1
  then show thesis using assms last_line by (auto simp: list_all_iff line_end_def)
next
  case (2 l b)
  then show thesis using assms newline [of l b] by (auto simp: list_all_iff line_end_def)
qed

text \<open>One turn for a line with text, in terms of what is left of the text.\<close>

definition line_rest :: "u8 list \<Rightarrow> u8 list \<Rightarrow> u8 list \<Rightarrow> bool" where
  "line_rest u l u' \<longleftrightarrow> length u' < length u \<and> 0 \<notin> set u' \<and> filled u = filled u' + 1 \<and>
     (\<forall>ls. lines u = l # ls \<longrightarrow> sbat_products (lines u') = sbat_products ls)"

lemma sbat_products_blank [simp]: "sbat_products ([] # ls) = sbat_products ls"
  by simp

lemma filled_newline [simp]: "filled (10 # b) = filled b"
  by (simp add: filled_def)

lemma line_rests:
  assumes "l \<noteq> []"
  shows "u = l @ 10 # b \<Longrightarrow> lines u = l # lines b \<Longrightarrow> 0 \<notin> set u \<Longrightarrow> line_rest u l b \<and> line_rest u l (10 # b)"
    and "lines l = [l] \<Longrightarrow> line_rest l l []"
  using assms by (auto simp: line_rest_def filled_def)

lemma sbat_loop_text:
  assumes l: "drop i mem = l @ e # r'" "line_end e" "list_all (\<lambda>c. \<not> line_end c) l" "l \<noteq> []" "hd l \<noteq> 35"
    and u: "drop i mem = u @ 0 # r" "0 \<notin> set u" "\<exists>ls. lines u = l # ls"
    and inv: "sbat_inv mem es n i vs" "n + 1 < length es"
    and rest: "\<And>mem' i'. drop i' mem' = e # r' \<or> e = 10 \<and> drop i' mem' = r' \<Longrightarrow> \<exists>u'. drop i' mem' = u' @ 0 # r \<and> line_rest u l u'"
    and IH: "\<And>u' mem' es' n' i' vs'. line_rest u l u' \<Longrightarrow> drop i' mem' = u' @ 0 # r \<Longrightarrow> sbat_inv mem' es' n' i' vs' \<Longrightarrow>
      length es' = length es \<Longrightarrow> n' + (if product (es' ! n') = None then 0 else 1) \<le> n + 1 \<Longrightarrow>
      \<exists>m q k. sbat_loop mem' es' n' i' = Some (m, q, k) \<and> sbat_inv m q k (length m) (vs' @ sbat_products (lines u'))"
  shows "\<exists>m q k. sbat_loop mem es n i = Some (m, q, k) \<and> sbat_inv m q k (length m) (vs @ sbat_products (lines u))"
proof -
  obtain ls where ls: "lines u = l # ls" using u(3) by blast
  have n: "n < length es" "aget es n = Some (es ! n)" using inv(2) by (simp_all add: aget_Some)
  have set: "aset es n x = Some (es[n := x])" "aset (es[n := y]) n x = Some (es[n := x])" for x y using n(1) by (simp_all add: aset_Some)
  obtain c cs where c: "l = c # cs" using l(4) by (cases l) auto
  have g: "aget mem i = Some c" "c \<noteq> 0" "c \<noteq> 10" "c \<noteq> 35" using aget_at [of i mem c "cs @ e # r'"] l c by (auto simp: line_end_def)
  show ?thesis
  proof (cases "line_fields l" rule: sbat_products.cases)
    case (2 p fs)
    show ?thesis
    proof (cases fs)
      case Nil
      then have "44 \<notin> set l" using 2 by (cases l rule: split_at_cases [where sep = 44]) auto
      have "sbat_line mem i = Some (Inl ())"
      proof -
        have "skip_to field_end mem i = Some (i + length l)"
          by (rule skip_to_drop [OF l(1) no_field_end [OF l(3) \<open>44 \<notin> set l\<close>]]) (use l(2) in \<open>simp add: field_end_def\<close>)
        then show ?thesis using aget_at [OF drop_add_append [OF l(1)]] l(2) by (simp add: sbat_line_def)
      qed
      then have run: "sbat_loop mem es n i = Some (mem, es[n := (es ! n)\<lparr> product := Some i \<rparr>], n)"
        using g n set by (subst sbat_loop.simps) simp
      have "i + length u < length mem" using aget_at [OF drop_add_append [OF u(1)]] by simp
      from sbat_inv_broken [OF inv(1) str_at_drop [OF u(1,2)] this inv(2)] show ?thesis
        using run 2 Nil ls l(4,5) by simp
    next
      case (Cons v gs)
      obtain mem' i' where m: "sbat_line mem i = Some (Inr (mem', sbat_version v, i'))" "take i mem' = take i mem" "str_at mem' i p"
        "i + length p < i'" "drop i' mem' = (if gs = [] \<and> e = 10 then r' else e # r')"
        using sbat_line_run [OF l(1-3), of p v gs] 2 Cons by metis
      have "drop i' mem' = e # r' \<or> e = 10 \<and> drop i' mem' = r'" using m(5) by (simp split: if_splits)
      from rest [OF this] obtain u' where u': "drop i' mem' = u' @ 0 # r" "line_rest u l u'" by blast
      let ?es = "es[n := (es ! n)\<lparr> product := Some i, version := sbat_version v \<rparr>]"
      have run: "sbat_loop mem es n i = sbat_loop mem' ?es (if sbat_version v \<noteq> 0 then n + 1 else n) i'"
        using g n set m(1) by (subst sbat_loop.simps) simp
      have next_free: "product (?es ! (n + 1)) = None" using inv by (simp add: sbat_inv_def)
      have prods: "sbat_products (lines u) = (if sbat_version v \<noteq> 0 then [(p, sbat_version v)] else []) @ sbat_products (lines u')"
        using u'(2) ls 2 Cons l(4,5) by (auto simp: line_rest_def)
      note new = sbat_inv_new [OF inv(1) m(2-4) inv(2), of "sbat_version v"]
      show ?thesis
      proof (cases "sbat_version v = 0")
        case True
        then show ?thesis using IH [OF u'(2,1) new(1) [OF True]] run prods n(1) by simp
      next
        case False
        then show ?thesis using IH [OF u'(2,1) new(2) [OF False]] run prods next_free by simp
      qed
    qed
  qed simp
qed

lemma sbat_loop_run:
  "drop i mem = u @ 0 # r \<Longrightarrow> 0 \<notin> set u \<Longrightarrow> sbat_inv mem es n i vs \<Longrightarrow>
   n + (if product (es ! n) = None then 0 else 1) + filled u < length es \<Longrightarrow>
   \<exists>m q k. sbat_loop mem es n i = Some (m, q, k) \<and> sbat_inv m q k (length m) (vs @ sbat_products (lines u))"
proof (induction "length u" arbitrary: u mem es n i vs rule: less_induct)
  case less
  note d = less.prems(1)
  have len: "i + length u < length mem" using aget_at [OF drop_add_append [OF d]] by simp
  have IH: "\<exists>m q k. sbat_loop mem' es' n' i' = Some (m, q, k) \<and> sbat_inv m q k (length m) (vs' @ sbat_products (lines u'))"
    if "length u' < length u" "0 \<notin> set u'" "drop i' mem' = u' @ 0 # r" "sbat_inv mem' es' n' i' vs'"
      "n' + (if product (es' ! n') = None then 0 else 1) + filled u' < length es'" for u' mem' es' n' i' vs'
    using less.hyps [OF that(1,3,2,4,5)] .
  show ?case
  proof (cases u)
    case Nil
    have "sbat_inv mem es n (length mem) vs" by (rule sbat_inv_mono [OF less.prems(3)]) (use len in simp_all)
    then show ?thesis using aget_at [of i mem 0 r] d Nil by (subst sbat_loop.simps) simp
  next
    case (Cons c u1)
    have g: "aget mem i = Some c" "drop (i + 1) mem = u1 @ 0 # r" using aget_at [of i mem c "u1 @ 0 # r"] d Cons by simp_all
    have inv1: "sbat_inv mem es n j vs" if "i \<le> j" for j by (rule sbat_inv_mono [OF less.prems(3) that refl])
    show ?thesis
    proof (cases "c = 10")
      case True
      then show ?thesis using IH [of u1 "i + 1" mem es n vs] g inv1 [of "i + 1"] less.prems(2,4) Cons by (subst sbat_loop.simps) simp
    next
      case False
      from d less.prems(2) obtain l e r' where l: "drop i mem = l @ e # r'" "line_end e" "list_all (\<lambda>c. \<not> line_end c) l"
        "\<exists>ls. lines u = l # ls" "l \<noteq> []" "hd l = c" and
        rest: "\<And>mem' i'. drop i' mem' = e # r' \<or> e = 10 \<and> drop i' mem' = r' \<Longrightarrow> \<exists>u'. drop i' mem' = u' @ 0 # r \<and> line_rest u l u'"
      proof (cases rule: first_line)
        case last_line
        have "u \<noteq> []" "hd u = c" using Cons by simp_all
        then show thesis using that [of u 0 r] last_line line_rests(2) [of u] by (simp add: line_end_def)
      next
        case (newline l b)
        then have "l \<noteq> []" "hd l = c" using Cons False by (cases l; simp)+
        moreover note line_rests(1) [OF this(1) newline(1,4) less.prems(2)]
        ultimately show thesis using that [of l 10 "b @ 0 # r"] newline by (simp add: line_end_def) (metis append_Cons)
      qed
      show ?thesis
      proof (cases "c = 35")
        case True
        have skip: "skip_to line_end mem i = Some (i + length l)" by (rule skip_to_drop [OF l(1,3,2)])
        obtain u' where u': "drop (i + length l) mem = u' @ 0 # r" "line_rest u l u'" using rest drop_add_append [OF l(1)] by blast
        have "sbat_products (lines u) = sbat_products (lines u')" using u'(2) l(4-6) True by (auto simp: line_rest_def)
        then show ?thesis using IH [of u' "i + length l" mem es n vs] u' inv1 [of "i + length l"] less.prems(4) g skip True
          by (subst sbat_loop.simps) (simp add: line_rest_def)
      next
        case data: False
        have cap: "n + (if product (es ! n) = None then 0 else 1) + filled u' + 1 < length es" if "line_rest u l u'" for u'
          using less.prems(4) that by (simp add: line_rest_def)
        have n1: "n + 1 < length es" using rest [of "i + length l" mem] drop_add_append [OF l(1)] cap by fastforce
        have h: "hd l \<noteq> 35" using data l(6) by simp
        show ?thesis
        proof (rule sbat_loop_text [OF l(1-3,5) h d less.prems(2) l(4) less.prems(3) n1 rest])
          fix u' mem' es' n' i' vs'
          assume "line_rest u l u'" "drop i' mem' = u' @ 0 # r" "sbat_inv mem' es' n' i' vs'" "length es' = length es"
            "n' + (if product (es' ! n') = None then 0 else 1) \<le> n + 1"
          then show "\<exists>m q k. sbat_loop mem' es' n' i' = Some (m, q, k) \<and> sbat_inv m q k (length m) (vs' @ sbat_products (lines u'))"
            using cap [of u'] by (intro IH) (auto simp: line_rest_def)
        qed
      qed
    qed
  qed
qed

lemma sbat_view_drop:
  assumes "sbat_inv mem es n i vs"
  shows "j \<le> n \<Longrightarrow> \<exists>t. sbat_view mem (drop j es) = Some (drop j vs @ t) \<and> list_all (\<lambda>x. snd x = 0) t"
proof (induction "n - j" arbitrary: j)
  case 0
  then have j: "j = n" "n = length vs" "n < length es" "version (es ! n) = 0" using assms by (auto simp: sbat_inv_def)
  have d: "drop n es = es ! n # drop (n + 1) es" using j(3) by (simp add: Cons_nth_drop_Suc)
  show ?case
  proof (cases "product (es ! n)")
    case None
    then show ?thesis using d j by simp
  next
    case (Some p)
    then obtain s where s: "c_string mem p = Some s" and l: "n + 1 < length es" using assms by (auto simp: sbat_inv_def stored_def dest: str_at_c_string)
    then have "sbat_view mem (drop (n + 1) es) = Some []" using assms by (simp add: sbat_inv_def flip: Cons_nth_drop_Suc)
    then show ?thesis using d j s Some by simp
  qed
next
  case (Suc m)
  then have "m = n - (j + 1)" "j + 1 \<le> n" by simp_all
  then obtain t where t: "sbat_view mem (drop (j + 1) es) = Some (drop (j + 1) vs @ t)" "list_all (\<lambda>x. snd x = 0) t"
    using Suc.hyps(1) by blast
  have j: "j < n" "j < length es" "j < length vs" using Suc.hyps(2) assms by (auto simp: sbat_inv_def)
  have "stored mem i (es ! j) (fst (vs ! j))" "version (es ! j) = snd (vs ! j)" using assms j(1) by (simp_all add: sbat_inv_def)
  then obtain p where "product (es ! j) = Some p" "c_string mem p = Some (fst (vs ! j))" by (auto simp: stored_def dest: str_at_c_string)
  then show ?case using t j \<open>version (es ! j) = snd (vs ! j)\<close> by (simp flip: Cons_nth_drop_Suc)
qed

lemma sbat_products_nonzero: "(p, v) \<in> set (sbat_products ls) \<Longrightarrow> v \<noteq> 0"
proof (induction ls)
  case (Cons l ls)
  then show ?case by (auto split: if_splits list.splits)
qed simp

lemma filled_lines: "filled u \<le> length (lines u)"
  by (simp add: filled_def)

lemma GetSbatEntries_run:
  assumes "0 \<notin> set t"
  obtains mem es vs where "GetSbatEntries True (Some (t @ 0 # r)) = Some (Some mem, if sbat_products (lines t) = [] then None else Some es)"
    "sbat_view mem es = Some vs" "filter (\<lambda>x. snd x \<noteq> 0) vs = sbat_products (lines t)"
proof -
  let ?mem = "t @ 0 # r" and ?n = "length (lines t)"
  have cnt: "count_lines ?mem 0 1 = Some ?n" using count_lines_drop [of 0 ?mem t r 1] assms by simp
  have "sbat_inv ?mem (replicate (?n + 1) no_entry) 0 0 []" by (auto simp: sbat_inv_def nth_Cons')
  moreover have "product (replicate (?n + 1) no_entry ! 0) = None" by simp
  ultimately obtain m q k where run: "sbat_loop ?mem (replicate (?n + 1) no_entry) 0 0 = Some (m, q, k)"
    "sbat_inv m q k (length m) (sbat_products (lines t))"
    using sbat_loop_run [of 0 ?mem t r "replicate (?n + 1) no_entry" 0 "[]"] assms filled_lines [of t] by auto
  have k: "k = 0 \<longleftrightarrow> sbat_products (lines t) = []" using run(2) by (simp add: sbat_inv_def)
  obtain tl where v: "sbat_view m q = Some (sbat_products (lines t) @ tl)" "list_all (\<lambda>x. snd x = 0) tl"
    using sbat_view_drop [OF run(2), of 0] by auto
  have "filter (\<lambda>x. snd x \<noteq> 0) (sbat_products (lines t) @ tl) = sbat_products (lines t)"
    using v(2) sbat_products_nonzero by (fastforce simp: filter_empty_conv list_all_iff filter_id_conv)
  then show thesis using that [OF _ v(1)] cnt run(1) k by (simp add: GetSbatEntries_def)
qed

section \<open>Thumbprints of a text\<close>

fun hex_bytes :: "u8 list \<Rightarrow> u8 list" where
  "hex_bytes (a # b # s) = (push_bit 4 (FROM_HEXASCII a) OR FROM_HEXASCII b) # hex_bytes s"
| "hex_bytes _ = []"

text \<open>A line that starts with 40 digits has a thumbprint, whatever follows.\<close>

definition line_print :: "u8 list \<Rightarrow> u8 list list" where
  "line_print l = (let h = takeWhile IS_HEXASCII l in if 40 \<le> length h then [hex_bytes (take 40 h)] else [])"

lemma line_end_no_hex: "IS_HEXASCII c \<Longrightarrow> \<not> line_end c"
  by (auto simp: IS_HEXASCII_def line_end_def)

lemma push4_twice: "push_bit 4 (push_bit 4 (b :: u8) OR x) = push_bit 4 x"
  by (rule bit_word_eqI) (auto simp: bit_simps)

lemma hex_step:
  assumes "drop i mem = a # s" "IS_HEXASCII a" "j div 2 < 20" "20 * cnt + j div 2 < length bytes"
  shows "hex_loop mem bytes cnt i j = hex_loop mem (bytes[20 * cnt + j div 2 := push_bit 4 (bytes ! (20 * cnt + j div 2)) OR FROM_HEXASCII a])
    (if j = 39 then cnt + 1 else cnt) (i + 1) (j + 1)"
  using aget_at [OF assms(1)] assms line_end_no_hex [OF assms(2)]
  by (subst hex_loop.simps) (simp add: SHA1_HASHSIZE_def aget_Some aset_Some)

lemma hex_stop: "drop i mem = c # s \<Longrightarrow> \<not> IS_HEXASCII c \<or> 20 \<le> j div 2 \<Longrightarrow> hex_loop mem bytes cnt i j = Some (bytes, cnt, i)"
  using aget_at [of i mem c s] by (subst hex_loop.simps) (auto simp: SHA1_HASHSIZE_def)

lemma hex_pair:
  assumes "drop i mem = a # b # s" "IS_HEXASCII a" "IS_HEXASCII b" "k < 20" "20 * cnt + k < length bytes"
  shows "hex_loop mem bytes cnt i (2 * k) = hex_loop mem (bytes[20 * cnt + k := push_bit 4 (FROM_HEXASCII a) OR FROM_HEXASCII b])
    (if k = 19 then cnt + 1 else cnt) (i + 2) (2 * (k + 1))"
proof -
  have "drop (i + 1) mem = b # s" using aget_at [OF assms(1)] by simp
  moreover have "2 * k \<noteq> 39" "2 * k + 1 = 39 \<longleftrightarrow> k = 19" by presburger+
  ultimately show ?thesis using hex_step [OF assms(1,2), of "2 * k" cnt bytes] assms(3-5)
      hex_step [of "i + 1" mem b s "2 * k + 1" cnt "bytes[20 * cnt + k := push_bit 4 (bytes ! (20 * cnt + k)) OR FROM_HEXASCII a]"]
    by (simp add: push4_twice)
qed

lemma hex_loop_run:
  assumes "\<not> IS_HEXASCII c" "20 * cnt + 20 \<le> length bytes" "k < 20" "drop i mem = h @ c # b" "list_all IS_HEXASCII h"
  shows "(40 - 2 * k \<le> length h \<longrightarrow> hex_loop mem bytes cnt i (2 * k) =
      Some (take (20 * cnt + k) bytes @ hex_bytes (take (40 - 2 * k) h) @ drop (20 * cnt + 20) bytes, cnt + 1, i + (40 - 2 * k))) \<and>
    (length h < 40 - 2 * k \<longrightarrow> (\<exists>bytes'. hex_loop mem bytes cnt i (2 * k) = Some (bytes', cnt, i + length h) \<and>
      length bytes' = length bytes \<and> take (20 * cnt) bytes' = take (20 * cnt) bytes))"
  using assms(2-5)
proof (induction "20 - k" arbitrary: k i h bytes)
  case (Suc m)
  show ?case
  proof (cases h rule: hex_bytes.cases)
    case (1 x y s)
    let ?v = "push_bit 4 (FROM_HEXASCII x) OR FROM_HEXASCII y"
    let ?bytes = "bytes[20 * cnt + k := ?v]"
    have d: "drop i mem = x # y # (s @ c # b)" "drop (i + 2) mem = s @ c # b"
      using Suc.prems(3) drop_add_append [of i mem "[x, y]"] 1 by simp_all
    note pair = hex_pair [OF d(1) _ _ Suc.prems(2), of cnt bytes]
    have upd: "take (20 * cnt + Suc k) ?bytes = take (20 * cnt + k) bytes @ [?v]" "drop (20 * cnt + 20) ?bytes = drop (20 * cnt + 20) bytes"
      using Suc.prems(1,2) by (simp_all add: take_Suc_conv_app_nth)
    show ?thesis
    proof (cases "k = 19")
      case True
      obtain z zs where "s @ c # b = z # zs" by (cases s) auto
      then have "hex_loop mem ?bytes (cnt + 1) (i + 2) 40 = Some (?bytes, cnt + 1, i + 2)" using hex_stop [of "i + 2" mem z zs 40] d(2) by simp
      moreover have "?bytes = take (20 * cnt + 19) bytes @ [?v] @ drop (20 * cnt + 20) bytes"
        using Suc.prems(1) True by (simp add: upd_conv_take_nth_drop add.commute)
      ultimately show ?thesis using pair Suc.prems 1 True by simp
    next
      case False
      then have k: "Suc k < 20" "m = 20 - Suc k" using Suc by auto
      have "hex_loop mem bytes cnt i (2 * k) = hex_loop mem ?bytes cnt (i + 2) (2 * Suc k)" using pair Suc.prems 1 False by simp
      moreover have "take (20 * cnt) ?bytes = take (20 * cnt) bytes" by simp
      moreover have "40 - 2 * k = Suc (Suc (38 - 2 * k))" using k(1) by simp
      then have "hex_bytes (take (40 - 2 * k) (x # y # s)) = ?v # hex_bytes (take (38 - 2 * k) s)" by simp
      ultimately show ?thesis using Suc.hyps(1) [OF k(2), of ?bytes "i + 2" s] Suc.prems k(1) d(2) upd 1
        by (auto simp: Suc_diff_le)
    qed
  next
    case "2_1"
    then show ?thesis using hex_stop [of i mem c b] Suc.prems assms(1) by simp
  next
    case "2_2"
    then obtain v where h: "h = [v]" by blast
    then have "drop i mem = v # c # b" "IS_HEXASCII v" "drop (i + 1) mem = c # b" using Suc.prems drop_add_append [of i mem "[v]"] by simp_all
    then show ?thesis using hex_step [of i mem v "c # b" "2 * k" cnt bytes] hex_stop [of "i + 1" mem c b] Suc.prems h assms(1) by simp
  qed
qed simp

text \<open>A line, from its first digit to its end.\<close>

lemma hex_line:
  assumes d: "drop i mem = l @ e # r" and l: "list_all (\<lambda>c. \<not> line_end c) l" and e: "line_end e" and room: "20 * cnt + 20 \<le> length bytes"
  obtains bytes' k where "hex_loop mem bytes cnt i 0 = Some (bytes', cnt + length (line_print l), k)"
    "skip_to line_end mem k = Some (i + length l)" "length bytes' = length bytes"
    "take (20 * (cnt + length (line_print l))) bytes' = take (20 * cnt) bytes @ concat (line_print l)"
proof -
  let ?h = "takeWhile IS_HEXASCII l" and ?t = "dropWhile IS_HEXASCII l"
  obtain c b where cb: "?t @ e # r = c # b" "\<not> IS_HEXASCII c"
    using hd_dropWhile [of IS_HEXASCII l] e line_end_no_hex by (cases ?t) auto
  have split: "drop i mem = ?h @ c # b" using d cb(1) by (metis append_assoc takeWhile_dropWhile_id)
  have h: "list_all IS_HEXASCII ?h" by (auto simp: list_all_iff dest: set_takeWhileD)
  have skip: "skip_to line_end mem (i + n) = Some (i + length l)" if "n \<le> length l" for n
  proof -
    have "drop (i + n) mem = drop n l @ e # r" 
      using that drop_append [of n l "e # r"] unfolding drop_drop [symmetric] add.commute [of i n] d by simp
    then have "skip_to line_end mem (i + n) = Some (i + n + length (drop n l))"
      by (rule skip_to_drop) (use l e in \<open>auto simp: list_all_iff dest: in_set_dropD\<close>)
    then show ?thesis using that by simp
  qed
  have le: "length ?h \<le> length l" by (rule length_takeWhile_le)
  note run = hex_loop_run [OF cb(2) room _ split h, of 0, simplified]
  show thesis
  proof (cases "40 \<le> length ?h")
    case True
    let ?p = "hex_bytes (take 40 ?h)"
    have len: "length ?p = 20"
    proof -
      have "length (hex_bytes s) = length s div 2" for s by (induction s rule: hex_bytes.induct) auto
      then show ?thesis using True by simp
    qed
    show thesis
      by (rule that [of "take (20 * cnt) bytes @ ?p @ drop (20 * cnt + 20) bytes" "i + 40"])
        (use run True skip [of 40] le len room in \<open>simp_all add: line_print_def\<close>)
  next
    case False
    then obtain bytes' where "hex_loop mem bytes cnt i 0 = Some (bytes', cnt, i + length ?h)" "length bytes' = length bytes"
      "take (20 * cnt) bytes' = take (20 * cnt) bytes" using run by auto
    then show thesis using that [of bytes'] False skip [OF le] by (simp add: line_print_def)
  qed
qed

lemma line_print_no_hex: "l \<noteq> [] \<Longrightarrow> \<not> IS_HEXASCII (hd l) \<Longrightarrow> line_print l = []" "line_print [] = []"
  by (cases l; simp add: line_print_def)+

lemma thumbprint_loop_run:
  "drop i mem = u @ 0 # r \<Longrightarrow> 0 \<notin> set u \<Longrightarrow> 20 * (cnt + filled u) \<le> length bytes \<Longrightarrow>
   \<exists>bytes'. thumbprint_loop mem bytes cnt i = Some (bytes', cnt + length (concat (map line_print (lines u)))) \<and>
     take (20 * (cnt + length (concat (map line_print (lines u))))) bytes' = take (20 * cnt) bytes @ concat (concat (map line_print (lines u)))"
proof (induction "length u" arbitrary: u i cnt bytes rule: less_induct)
  case less
  note d = less.prems(1)
  show ?case
  proof (cases u)
    case Nil
    then show ?thesis using aget_at [of i mem 0 r] d by (subst thumbprint_loop.simps) (simp add: line_print_no_hex)
  next
    case (Cons c u1)
    have g: "aget mem i = Some c" "drop (i + 1) mem = u1 @ 0 # r" using aget_at [of i mem c "u1 @ 0 # r"] d Cons by simp_all
    have c0: "c \<noteq> 0" using less.prems(2) Cons by auto
    show ?thesis
    proof (cases "c = 10")
      case True
      then show ?thesis using less.hyps [of u1 "i + 1" cnt bytes] g less.prems(2,3) Cons
        by (subst thumbprint_loop.simps) (simp add: line_print_no_hex)
    next
      case False
      from d less.prems(2) obtain l e r' u' where l: "drop i mem = l @ e # r'" "line_end e" "list_all (\<lambda>c. \<not> line_end c) l" "l \<noteq> []" "hd l = c"
        and u': "drop (i + length l) mem = u' @ 0 # r" "line_rest u l u'"
          "concat (map line_print (lines u)) = line_print l @ concat (map line_print (lines u'))"
      proof (cases rule: first_line)
        case last_line
        have "u \<noteq> []" "hd u = c" using Cons by simp_all
        then show thesis using that [of u 0 r "[]"] last_line line_rests(2) [of u] drop_add_append [OF d]
          by (simp add: line_end_def line_print_no_hex)
      next
        case (newline l b)
        then have "l \<noteq> []" "hd l = c" using Cons False by (cases l; simp)+
        then show thesis using that [of l 10 "b @ 0 # r" "10 # b"] newline line_rests(1) [OF _ newline(1,4) less.prems(2)]
            drop_add_append [OF newline(2)]
          by (simp add: line_end_def line_print_no_hex)
      qed
      have s: "length u' < length u" "0 \<notin> set u'" "filled u = filled u' + 1" using u'(2) by (simp_all add: line_rest_def)
      show ?thesis
      proof (cases "IS_HEXASCII c")
        case True
        obtain bytes' k where run: "hex_loop mem bytes cnt i 0 = Some (bytes', cnt + length (line_print l), k)"
          "skip_to line_end mem k = Some (i + length l)" "length bytes' = length bytes"
          "take (20 * (cnt + length (line_print l))) bytes' = take (20 * cnt) bytes @ concat (line_print l)"
          using hex_line [OF l(1,3,2), of cnt bytes] less.prems(3) s(3) by auto
        have "length (line_print l) \<le> 1" by (simp add: line_print_def Let_def)
        then have "20 * (cnt + length (line_print l) + filled u') \<le> length bytes'" using less.prems(3) s(3) run(3) by simp
        from less.hyps [OF s(1) u'(1) s(2) this] show ?thesis
          using g(1) c0 False True run unfolding u'(3) by (subst thumbprint_loop.simps) (auto simp: ac_simps)
      next
        case no_hex: False
        have "skip_to line_end mem i = Some (i + length l)" by (rule skip_to_drop [OF l(1,3,2)])
        moreover have "line_print l = []" using line_print_no_hex(1) l(4,5) no_hex by simp
        ultimately show ?thesis using less.hyps [OF s(1) u'(1) s(2), of cnt bytes] less.prems(3) s(3) g(1) c0 False no_hex
          unfolding u'(3) by (subst thumbprint_loop.simps) simp
      qed
    qed
  qed
qed

lemma GetThumbprintEntries_run:
  assumes "0 \<notin> set t"
  obtains bytes where "GetThumbprintEntries True (Some (t @ 0 # r)) =
      Some (let ps = concat (map line_print (lines t)) in if ps = [] then None else Some \<lparr> num_prints = length ps, prints = bytes \<rparr>)"
    "take (20 * length (concat (map line_print (lines t)))) bytes = concat (concat (map line_print (lines t)))"
proof -
  let ?mem = "t @ 0 # r" and ?n = "length (lines t)"
  have "count_lines ?mem 0 1 = Some ?n" using count_lines_drop [of 0 ?mem t r 1] assms by simp
  moreover obtain bytes where "thumbprint_loop ?mem (replicate (?n * SHA1_HASHSIZE) 0) 0 0 = Some (bytes, length (concat (map line_print (lines t))))"
    "take (20 * length (concat (map line_print (lines t)))) bytes = concat (concat (map line_print (lines t)))"
    using thumbprint_loop_run [of 0 ?mem t r 0 "replicate (?n * SHA1_HASHSIZE) 0"] assms filled_lines [of t] by (auto simp: SHA1_HASHSIZE_def)
  ultimately show thesis using that [of bytes] by (simp add: GetThumbprintEntries_def Let_def)
qed

section \<open>Properties\<close>

text \<open>
  C19. \<open>GetSbatEntries\<close> leaves neither the text nor the list it allocates, and the entries a client
  sees in the list, up to the first without a product, are the products and versions of the lines
  of the text, in order: the first field of a line is the name, the second the version, in base 16
  when it starts with \<open>0x\<close>; blank lines and comments do not count, and the list ends at a line with only one field. At
  most one entry of version 0 follows, which no version is below. A text without a product gives
  \<open>NULL\<close>.
\<close>

theorem GetSbatEntries_products:
  assumes "0 \<notin> set t"
  shows "\<exists>mem es vs. GetSbatEntries True (Some (t @ 0 # r)) = Some (Some mem, if sbat_products (lines t) = [] then None else Some es) \<and>
    sbat_view mem es = Some vs \<and> filter (\<lambda>x. snd x \<noteq> 0) vs = sbat_products (lines t)"
  using GetSbatEntries_run [OF assms, of r] by metis

text \<open>The text \<open>shim,4\<close>, a comment, \<open>BOOT,0x30000\<close>.\<close>

definition sbat_example :: "u8 list" where
  "sbat_example = [115, 104, 105, 109, 44, 52, 10, 35, 44, 49, 10, 66, 79, 79, 84, 44, 48, 120, 51, 48, 48, 48, 48]"

theorem GetSbatEntries_products_witness:
  "sbat_products (lines sbat_example) = [([115, 104, 105, 109], 4), ([66, 79, 79, 84], 0x30000)] \<and>
   (\<exists>mem es vs. GetSbatEntries True (Some (sbat_example @ [0])) =
      Some (Some mem, if sbat_products (lines sbat_example) = [] then None else Some es) \<and>
    sbat_view mem es = Some vs \<and> filter (\<lambda>x. snd x \<noteq> 0) vs = sbat_products (lines sbat_example))"
proof
  show "sbat_products (lines sbat_example) = [([115, 104, 105, 109], 4), ([66, 79, 79, 84], 0x30000)]"
    by (simp add: sbat_example_def sbat_version_def strtoul_base_def sign_split_def numeral_digits_def FROM_HEXASCII_def IS_HEXASCII_def isspace_def)
  have "0 \<notin> set sbat_example" by (simp add: sbat_example_def)
  from GetSbatEntries_products [OF this, of "[]"] show "\<exists>mem es vs. GetSbatEntries True (Some (sbat_example @ [0])) =
      Some (Some mem, if sbat_products (lines sbat_example) = [] then None else Some es) \<and>
    sbat_view mem es = Some vs \<and> filter (\<lambda>x. snd x \<noteq> 0) vs = sbat_products (lines sbat_example)" .
qed

text \<open>
  \<open>GetThumbprintEntries\<close> leaves neither the text nor the list it allocates, and the list has the
  20 bytes of every line that starts with 40 hexadecimal digits, in order, whatever follows on the
  line and however short other lines are. A text without such a line gives \<open>NULL\<close>.
\<close>

theorem GetThumbprintEntries_prints:
  assumes "0 \<notin> set t"
  shows "\<exists>bytes. GetThumbprintEntries True (Some (t @ 0 # r)) =
      Some (let ps = concat (map line_print (lines t)) in if ps = [] then None else Some \<lparr> num_prints = length ps, prints = bytes \<rparr>) \<and>
    take (20 * length (concat (map line_print (lines t)))) bytes = concat (concat (map line_print (lines t)))"
  using GetThumbprintEntries_run [OF assms, of r] by metis

text \<open>A short line, then one with 40 digits and a remark.\<close>

definition prints_example :: "u8 list" where
  "prints_example = [97, 98, 10] @ replicate 38 48 @ [53, 70] @ [32, 120]"

theorem GetThumbprintEntries_prints_witness:
  "concat (map line_print (lines prints_example)) = [replicate 19 0 @ [0x5F]] \<and>
   (\<exists>bytes. GetThumbprintEntries True (Some (prints_example @ [0])) = Some (Some \<lparr> num_prints = 1, prints = bytes \<rparr>) \<and>
     take 20 bytes = replicate 19 0 @ [0x5F])"
proof -
  have p: "concat (map line_print (lines prints_example)) = [replicate 19 0 @ [0x5F]]" by code_simp
  have "0 \<notin> set prints_example" by (simp add: prints_example_def)
  from GetThumbprintEntries_prints [OF this, of "[]"] show ?thesis unfolding p by simp
qed

end
