(* ===== verification/Revocation.thy ===== *)
theory Revocation
  imports PE_Access Revocation_Lists
begin

text \<open>
  The check of UEFI boot loaders for revocation: \<open>IsRevokedBySbat\<close>, \<open>IsRevokedByDbx\<close>,
  \<open>IsRevokedBySvn\<close>, \<open>IsRevokedByCert\<close>, \<open>IsSignedBySecureBootAuthority\<close> and
  \<open>IsBootloaderRevoked\<close> of \<open>src/src/hash.c\<close>.

  The variables that hold the downloaded lists are a record; the texts and files that are compiled
  in or stored, the settings, \<open>GetIssuerCertificateInfo\<close>, which asks the system, and
  \<open>utf8_to_wchar\<close> are another. Allocations succeed. A failed assertion gives \<^term>\<open>None\<close>,
  as do reads outside a buffer.
\<close>

section \<open>State\<close>

type_synonym sbat_db = "u8 list \<times> sbat_entry list"

record revocation_state =
  sbat_entries :: "sbat_db option"
  sb_active_certs :: "thumbprint_list option"
  sb_revoked_certs :: "thumbprint_list option"

text \<open>A return value of \<open>GetIssuerCertificateInfo\<close> is 0 for unsigned, -1 for an error, 1 for the signer and 2 for the issuer.\<close>

record revocation_env =
  db_sbat_level_txt :: "u8 list"
  db_sb_active_txt :: "u8 list"
  db_sb_revoked_txt :: "u8 list"
  expert_mode :: bool
  UseLocalDbx :: "ArchType \<Rightarrow> bool"
  dbx_file :: "ArchType \<Rightarrow> u8 list option"
  dbx_resource :: "ArchType \<Rightarrow> u8 list option"
  pe256ssp :: "u8 list"
  pe256ssp_size :: nat
  GetIssuerCertificateInfo :: "u8 list \<Rightarrow> nat option \<Rightarrow> int \<times> u8 list"
  utf8_to_wchar :: "u8 list \<Rightarrow> u16 list option"

section \<open>SBAT\<close>

text \<open>The comparison of one product with the list.\<close>

fun sbat_match :: "u8 list \<Rightarrow> sbat_entry list \<Rightarrow> u8 list \<Rightarrow> u32 \<Rightarrow> bool option" where
  "sbat_match mem [] pname ver = None"
| "sbat_match mem (e # es) pname ver =
     (case product e of
        None \<Rightarrow> Some False
      | Some q \<Rightarrow> do {
          s \<leftarrow> c_string mem q;
          if pname = s \<and> ver < version e then Some True else sbat_match mem es pname ver
        })"

text \<open>
  The line at \<open>i\<close> of the section, which is not blank: \<open>Inl\<close> is the \<open>break\<close>; \<open>Inr\<close> has the
  buffer with the zeros put in, the version and the position to go on at. The position behind the
  second field is advanced whether the line goes on there or not.
\<close>

definition sbat_section_line :: "u8 list \<Rightarrow> nat \<Rightarrow> (unit + u8 list \<times> u32 \<times> nat) option" where
  "sbat_section_line buf i = do {
     j \<leftarrow> skip_to field_end buf i;
     c \<leftarrow> aget buf j;
     if line_end c then Some (Inl ())
     else do {
       buf \<leftarrow> aset buf j 0;
       k \<leftarrow> skip_to field_end buf (j + 1);
       buf \<leftarrow> aset buf k 0;
       version_str \<leftarrow> c_string buf (j + 1);
       i \<leftarrow> skip_to line_end buf (k + 1);
       Some (Inr (buf, atoi version_str, i))
     }
   }"

lemma sbat_section_line_advances:
  "sbat_section_line buf i = Some (Inr (buf', v, i')) \<Longrightarrow> i < i' \<and> length buf' = length buf \<and> i < length buf"
  unfolding sbat_section_line_def
  by (fastforce simp: bind_eq_Some_conv dest: skip_toD aset_eq_SomeD split: if_splits)

text \<open>The loop over the lines; the result is the return value and the buffer.\<close>

function sbat_section_loop :: "sbat_db \<Rightarrow> u8 list \<Rightarrow> nat \<Rightarrow> (bool \<times> u8 list) option" where
  "sbat_section_loop db buf i = do {
     i \<leftarrow> skip_to (\<lambda>c. c \<noteq> 10) buf i;
     c \<leftarrow> aget buf i;
     if c = 0 then Some (False, buf)
     else do {
       r \<leftarrow> sbat_section_line buf i;
       case r of
         Inl _ \<Rightarrow> Some (False, buf)
       | Inr (buf, ver, i') \<Rightarrow>
           if ver = 0 then sbat_section_loop db buf i'
           else do {
             pname \<leftarrow> c_string buf i;
             hit \<leftarrow> sbat_match (fst db) (snd db) pname ver;
             if hit then Some (True, buf) else sbat_section_loop db buf i'
           }
     }
   }"
  by pat_completeness auto
termination
  by (relation "measure (\<lambda>(db, buf, i). length buf - i)") (auto dest!: sbat_section_line_advances skip_toD)

declare sbat_section_loop.simps [simp del]

definition load_sbat_entries :: "revocation_env \<Rightarrow> revocation_state \<Rightarrow> (sbat_db \<times> revocation_state) option" where
  "load_sbat_entries env st =
     (case sbat_entries st of
        Some db \<Rightarrow> Some (db, st)
      | None \<Rightarrow> do {
          r \<leftarrow> GetSbatEntries True (Some (db_sbat_level_txt env));
          case r of
            (Some mem, Some es) \<Rightarrow> Some ((mem, es), st\<lparr> sbat_entries := Some (mem, es) \<rparr>)
          | _ \<Rightarrow> None
        })"

definition IsRevokedBySbat ::
  "revocation_env \<Rightarrow> revocation_state \<Rightarrow> u8 list \<Rightarrow> nat \<Rightarrow> (bool \<times> revocation_state \<times> u8 list) option" where
  "IsRevokedBySbat env st buf len = do {
     (db, st) \<leftarrow> load_sbat_entries env st;
     sec \<leftarrow> GetPeSection (Some buf) [46, 115, 98, 97, 116];
     case sec of
       None \<Rightarrow> Some (False, st, buf)
     | Some (sbat, sbat_len) \<Rightarrow>
         if sbat \<ge> len then Some (False, st, buf)
         else do {
           (r, buf) \<leftarrow> sbat_section_loop db buf sbat;
           Some (r, st, buf)
         }
   }"

section \<open>DBX\<close>

definition EFI_CERT_SHA256_GUID :: "u8 list" where
  "EFI_CERT_SHA256_GUID = [0x26, 0x16, 0xC4, 0xC1, 0x4C, 0x50, 0x92, 0x40, 0xAC, 0xA9, 0x41, 0xF9, 0x36, 0x93, 0x43, 0x28]"






section \<open>Secure version numbers\<close>






section \<open>Certificates\<close>

function print_loop :: "u8 list \<Rightarrow> thumbprint_list \<Rightarrow> nat \<Rightarrow> bool option" where
  "print_loop thumbprint certs i =
     (if i < num_prints certs then do {
        p \<leftarrow> rd_bytes (prints certs) (int (SHA1_HASHSIZE * i)) SHA1_HASHSIZE;
        if thumbprint = p then Some True else print_loop thumbprint certs (i + 1)
      } else Some False)"
  by pat_completeness auto
termination
  by (relation "measure (\<lambda>(thumbprint, certs, i). num_prints certs - i)") auto

declare print_loop.simps [simp del]

text \<open>The list that was downloaded, else the one compiled in.\<close>

definition load_certs :: "thumbprint_list option \<Rightarrow> u8 list \<Rightarrow> thumbprint_list option" where
  "load_certs certs embedded =
     (case certs of
        Some c \<Rightarrow> if num_prints c = 0 then None else Some c
      | None \<Rightarrow> do {
          r \<leftarrow> GetThumbprintEntries True (Some embedded);
          case r of None \<Rightarrow> None | Some c \<Rightarrow> if num_prints c = 0 then None else Some c
        })"

definition IsRevokedByCert :: "revocation_env \<Rightarrow> revocation_state \<Rightarrow> u8 list \<Rightarrow> (bool \<times> revocation_state) option" where
  "IsRevokedByCert env st thumbprint =
     (if \<not> expert_mode env then Some (False, st)
      else do {
        certs \<leftarrow> load_certs (sb_revoked_certs st) (db_sb_revoked_txt env);
        r \<leftarrow> print_loop thumbprint certs 0;
        Some (r, st\<lparr> sb_revoked_certs := Some certs \<rparr>)
      })"

definition IsSignedBySecureBootAuthority ::
  "revocation_env \<Rightarrow> revocation_state \<Rightarrow> u8 list option \<Rightarrow> nat \<Rightarrow> (bool \<times> revocation_state) option" where
  "IsSignedBySecureBootAuthority env st buf len =
     (case buf of
        None \<Rightarrow> Some (False, st)
      | Some b \<Rightarrow>
          if len < 0x100 then Some (False, st)
          else do {
            cert \<leftarrow> GetPeSignatureData buf;
            case GetIssuerCertificateInfo env b cert of
              (r, thumbprint) \<Rightarrow>
                if r \<noteq> 2 then Some (False, st)
                else do {
                  certs \<leftarrow> load_certs (sb_active_certs st) (db_sb_active_txt env);
                  r \<leftarrow> print_loop thumbprint certs 0;
                  Some (r, st\<lparr> sb_active_certs := Some certs \<rparr>)
                }
          })"

section \<open>The verdict\<close>





section \<open>SBAT lines\<close>

text \<open>A version of the section is below the one that the list demands.\<close>

definition too_old :: "(u8 list \<times> u32) list \<Rightarrow> u8 list \<Rightarrow> u32 \<Rightarrow> bool" where
  "too_old vs p v \<longleftrightarrow> v \<noteq> 0 \<and> list_ex (\<lambda>(s, m). p = s \<and> v < m) vs"

fun sbat_section_hit :: "(u8 list \<times> u32) list \<Rightarrow> u8 list list \<Rightarrow> bool" where
  "sbat_section_hit vs [] = False"
| "sbat_section_hit vs (l # ls) =
     (if l = [] then sbat_section_hit vs ls
      else
        (case line_fields l of
           p # v # _ \<Rightarrow> too_old vs p (atoi v) \<or> sbat_section_hit vs ls
         | _ \<Rightarrow> False))"

lemma sbat_match_view:
  "sbat_view mem es = Some vs \<Longrightarrow> sbat_match mem es p v = Some (list_ex (\<lambda>(s, m). p = s \<and> v < m) vs)"
proof (induction es arbitrary: vs)
  case (Cons e es)
  then show ?case by (auto simp: bind_eq_Some_conv split: option.splits)
qed simp

lemma too_old_filter: "too_old (filter (\<lambda>x. snd x \<noteq> 0) vs) p v = too_old vs p v"
  by (auto simp: too_old_def list_ex_iff)

lemma sbat_section_hit_filter: "sbat_section_hit (filter (\<lambda>x. snd x \<noteq> 0) vs) ls = sbat_section_hit vs ls"
  by (induction ls) (auto simp: too_old_filter split: list.splits)

lemma sbat_section_line_run:
  assumes d: "drop i buf = l @ e # r" and e: "line_end e" and l: "list_all (\<lambda>c. \<not> line_end c) l"
    and f: "line_fields l = p # v # fs" "fs \<noteq> []"
  obtains buf' i' where "sbat_section_line buf i = Some (Inr (buf', atoi v, i'))" "str_at buf' i p" "drop i' buf' = e # r"
  using f(1)
proof (cases rule: fields_cases)
  case (more w)
  then have pv: "list_all (\<lambda>c. \<not> field_end c) p" "list_all (\<lambda>c. \<not> field_end c) v" and w: "list_all (\<lambda>c. \<not> line_end c) w"
    using l no_field_end by auto
  have "drop i buf = p @ 44 # v @ 44 # (w @ e # r)" using d more by simp
  moreover have "field_end 44" by (simp add: field_end_def)
  ultimately obtain mem1 mem2 where
    m: "skip_to field_end buf i = Some (i + length p)" "aget buf (i + length p) = Some 44"
    "aset buf (i + length p) 0 = Some mem1" "skip_to field_end mem1 (i + length p + 1) = Some (i + length p + 1 + length v)"
    "aget mem1 (i + length p + 1 + length v) = Some 44" "aset mem1 (i + length p + 1 + length v) 0 = Some mem2"
    "c_string mem2 (i + length p + 1) = Some v" "str_at mem2 i p" "take i mem2 = take i buf" "length mem2 = length buf"
    "drop (i + length p + 1 + length v) mem2 = 0 # w @ e # r"
    using pv by (rule two_fields)
  let ?k = "i + length p + 1 + length v"
  have dk: "drop (?k + 1) mem2 = w @ e # r" using aget_at [OF m(11)] by simp
  have sk: "skip_to line_end mem2 (?k + 1) = Some (?k + 1 + length w)" by (rule skip_to_drop [OF dk w e])
  have "sbat_section_line buf i = Some (Inr (mem2, atoi v, ?k + 1 + length w))"
    unfolding sbat_section_line_def by (simp only: m(1-4,6,7) sk bind.simps) (simp add: line_end_def)
  then show thesis using that m(8) drop_add_append [OF dk] by blast
qed (use f(2) in simp)

text \<open>Behind a line with two fields the search for the end of the line starts on the next one.\<close>

lemma sbat_section_line_two:
  assumes d: "drop i buf = l @ 10 # l2 @ e # r" and e: "line_end e" and l: "list_all (\<lambda>c. \<not> line_end c) l" "list_all (\<lambda>c. \<not> line_end c) l2"
    and f: "line_fields l = [p, v]"
  obtains buf' i' where "sbat_section_line buf i = Some (Inr (buf', atoi v, i'))" "str_at buf' i p" "drop i' buf' = e # r"
  using f
proof (cases rule: fields_cases)
  case two
  then have pv: "list_all (\<lambda>c. \<not> field_end c) p" "list_all (\<lambda>c. \<not> field_end c) v" using l no_field_end by auto
  have "drop i buf = p @ 44 # v @ 10 # (l2 @ e # r)" using d two by simp
  moreover have "field_end 10" by (simp add: field_end_def line_end_def)
  ultimately obtain mem1 mem2 where
    m: "skip_to field_end buf i = Some (i + length p)" "aget buf (i + length p) = Some 44"
    "aset buf (i + length p) 0 = Some mem1" "skip_to field_end mem1 (i + length p + 1) = Some (i + length p + 1 + length v)"
    "aget mem1 (i + length p + 1 + length v) = Some 10" "aset mem1 (i + length p + 1 + length v) 0 = Some mem2"
    "c_string mem2 (i + length p + 1) = Some v" "str_at mem2 i p" "take i mem2 = take i buf" "length mem2 = length buf"
    "drop (i + length p + 1 + length v) mem2 = 0 # l2 @ e # r"
    using pv by (rule two_fields)
  let ?k = "i + length p + 1 + length v"
  have dk: "drop (?k + 1) mem2 = l2 @ e # r" using aget_at [OF m(11)] by simp
  have sk: "skip_to line_end mem2 (?k + 1) = Some (?k + 1 + length l2)" by (rule skip_to_drop [OF dk l(2) e])
  have "sbat_section_line buf i = Some (Inr (mem2, atoi v, ?k + 1 + length l2))"
    unfolding sbat_section_line_def by (simp only: m(1-4,6,7) sk bind.simps) (simp add: line_end_def)
  then show thesis using that m(8) drop_add_append [OF dk] by blast
qed simp

text \<open>One turn of the loop at a line with at least two fields.\<close>

lemma sbat_section_turn:
  assumes "aget buf i = Some c" "\<not> line_end c" "sbat_section_line buf i = Some (Inr (buf', v, i'))" "str_at buf' i p"
    and "sbat_view (fst db) (snd db) = Some vs"
  shows "sbat_section_loop db buf i = (if too_old vs p v then Some (True, buf') else sbat_section_loop db buf' i')"
proof -
  have "skip_to (\<lambda>c. c \<noteq> 10) buf i = Some i" using assms(1,2) by (subst skip_to.simps) (simp add: line_end_def)
  then show ?thesis using assms(1-3) str_at_c_string [OF assms(4)] sbat_match_view [OF assms(5)]
    by (subst sbat_section_loop.simps) (auto simp: too_old_def line_end_def)
qed

lemma sbat_section_break:
  assumes d: "drop i buf = l @ e # r" and e: "line_end e" and l: "list_all (\<lambda>c. \<not> line_end c) l" "l \<noteq> []" "44 \<notin> set l"
  shows "sbat_section_loop db buf i = Some (False, buf)"
proof -
  obtain c cs where c: "l = c # cs" using l(2) by (cases l) auto
  have g: "aget buf i = Some c" "\<not> line_end c" using aget_at [of i buf c "cs @ e # r"] d l(1) c by auto
  have "skip_to (\<lambda>c. c \<noteq> 10) buf i = Some i" using g by (subst skip_to.simps) (simp add: line_end_def)
  moreover have "skip_to field_end buf i = Some (i + length l)"
    by (rule skip_to_drop [OF d no_field_end [OF l(1,3)]]) (use e in \<open>simp add: field_end_def\<close>)
  ultimately show ?thesis using g e aget_at [OF drop_add_append [OF d]]
    by (subst sbat_section_loop.simps) (simp add: sbat_section_line_def line_end_def)
qed

lemma sbat_section_newline:
  "drop i buf = 10 # b \<Longrightarrow> sbat_section_loop db buf i = sbat_section_loop db buf (i + 1)"
  using aget_at [of i buf 10 b] skip_to.simps [of "\<lambda>c. c \<noteq> 10" buf i]
  by (subst (1 2) sbat_section_loop.simps) simp

lemma sbat_section_end: "drop i buf = 0 # b \<Longrightarrow> sbat_section_loop db buf i = Some (False, buf)"
  using aget_at [of i buf 0 b] by (subst sbat_section_loop.simps) (simp add: skip_to.simps)

lemma sbat_section_loop_run:
  assumes db: "sbat_view (fst db) (snd db) = Some vs"
  shows "drop i buf = u @ 0 # r \<Longrightarrow> 0 \<notin> set u \<Longrightarrow> list_all (\<lambda>l. length (line_fields l) \<noteq> 2) (lines u) \<Longrightarrow>
    \<exists>buf'. sbat_section_loop db buf i = Some (sbat_section_hit vs (lines u), buf')"
proof (induction "length u" arbitrary: u i buf rule: less_induct)
  case less
  note d = less.prems(1)
  show ?case
  proof (cases u)
    case Nil
    then show ?thesis using sbat_section_end d by simp
  next
    case (Cons c u1)
    have g: "aget buf i = Some c" "drop (i + 1) buf = u1 @ 0 # r" using aget_at [of i buf c "u1 @ 0 # r"] d Cons by simp_all
    show ?thesis
    proof (cases "c = 10")
      case True
      have step: "sbat_section_loop db buf i = sbat_section_loop db buf (i + 1)" using sbat_section_newline d Cons True by simp
      have "\<exists>buf'. sbat_section_loop db buf (i + 1) = Some (sbat_section_hit vs (lines u1), buf')"
        by (rule less.hyps [OF _ g(2)]) (use less.prems(2,3) Cons True in auto)
      then show ?thesis unfolding step using Cons True by simp
    next
      case False
      then have c: "\<not> line_end c" using less.prems(2) Cons by (auto simp: line_end_def)
      from d less.prems(2) obtain l e r' u' ls where l: "drop i buf = l @ e # r'" "line_end e" "list_all (\<lambda>c. \<not> line_end c) l" "l \<noteq> []"
        "lines u = l # ls" and u': "e # r' = u' @ 0 # r" "length u' < length u" "0 \<notin> set u'"
        "list_all (\<lambda>l. length (line_fields l) \<noteq> 2) (lines u')" "sbat_section_hit vs (lines u') = sbat_section_hit vs ls"
      proof (cases rule: first_line)
        case last_line
        then show thesis using that [of u 0 r "[]" "[]"] Cons by (simp add: line_end_def)
      next
        case (newline l b)
        have "l \<noteq> []" using newline(1) Cons False by (cases l; simp)
        moreover have "list_all (\<lambda>l. length (line_fields l) \<noteq> 2) (lines (10 # b))" using less.prems(3) newline(4) by simp
        moreover have "length (10 # b) < length u" "0 \<notin> set (10 # b)" using newline(1) less.prems(2) \<open>l \<noteq> []\<close> by auto
        ultimately show thesis using that [OF newline(2) _ newline(3) _ newline(4), of "10 # b"] by (simp add: line_end_def)
      qed
      show ?thesis
      proof (cases "line_fields l" rule: sbat_products.cases)
        case (2 p fs)
        show ?thesis
        proof (cases fs)
          case Nil
          then have "44 \<notin> set l" using 2 by (cases l rule: split_at_cases [where sep = 44]) auto
          then show ?thesis using sbat_section_break [OF l(1-4)] l(4,5) 2 Nil by simp
        next
          case (Cons v gs)
          then have "gs \<noteq> []" using 2 less.prems(3) l(5) by auto
          then obtain buf' i' where m: "sbat_section_line buf i = Some (Inr (buf', atoi v, i'))" "str_at buf' i p" "drop i' buf' = e # r'"
            using sbat_section_line_run [OF l(1-3), of p v gs] 2 Cons by metis
          then show ?thesis using sbat_section_turn [OF g(1) c m(1,2) db] less.hyps [OF u'(2) _ u'(3,4), of i' buf'] u' l(4,5) 2 Cons by auto
        qed
      qed simp
    qed
  qed
qed

section \<open>Entries of equal size\<close>

lemma slice_concat:
  "\<forall>x \<in> set xs. length (f x) = n \<Longrightarrow> i < length xs \<Longrightarrow> slice (n * i) n (concat (map f xs)) = f (xs ! i)"
proof (induction xs arbitrary: i)
  case (Cons x xs)
  show ?case
  proof (cases i)
    case (Suc j)
    have "slice (n * i) n (f x @ concat (map f xs)) = slice (n * j) n (concat (map f xs))" using Cons.prems(1) by (simp add: slice_def Suc)
    then show ?thesis using Cons Suc by simp
  qed (use Cons.prems in \<open>simp add: slice_def\<close>)
qed simp

lemma length_concat_same: "\<forall>x \<in> set xs. length (f x) = n \<Longrightarrow> length (concat (map f xs)) = n * length xs"
  by (induction xs) auto

lemma rd_bytes_part: "off + n \<le> length buf \<Longrightarrow> rd_bytes buf (int off) n = Some (slice off n buf)"
  by (simp add: rd_bytes_def)




text \<open>
  The contents of a DBX update: the time stamp, the certificate with its length in front, and one
  list of SHA-256 hashes, each with its owner.
\<close>

definition dbx_bytes :: "u8 list \<Rightarrow> u8 list \<Rightarrow> (u8 list \<times> u8 list) list \<Rightarrow> u8 list" where
  "dbx_bytes time cert sigs =
     time @ store_le 4 (of_nat (4 + length cert) :: u32) @ cert @ EFI_CERT_SHA256_GUID @
     store_le 4 (of_nat (28 + 48 * length sigs) :: u32) @ store_le 4 (0 :: u32) @ store_le 4 (48 :: u32) @
     concat (map (\<lambda>(own, h). own @ h) sigs)"








lemma print_loop_run:
  assumes "num_prints certs = length ps" "take (20 * length ps) (prints certs) = concat ps" "\<forall>p \<in> set ps. length p = 20"
  shows "i \<le> length ps \<Longrightarrow> print_loop t certs i = Some (t \<in> set (drop i ps))"
proof (induction "length ps - i" arbitrary: i)
  case 0
  then show ?case using assms(1) by (subst print_loop.simps) simp
next
  case (Suc k)
  then have i: "i < length ps" and IH: "print_loop t certs (i + 1) = Some (t \<in> set (drop (Suc i) ps))" by auto
  have "20 * length ps \<le> length (prints certs)"
    using arg_cong [OF assms(2), of length] length_concat_same [of ps id 20] assms(3) by (simp add: min_def split: if_splits)
  moreover have "slice (20 * i) 20 (prints certs) = slice (20 * i) 20 (take (20 * length ps) (prints certs))"
    using i by (simp add: slice_def drop_take min_def)
  ultimately have "rd_bytes (prints certs) (int (20 * i)) 20 = Some (ps ! i)"
    using rd_bytes_part [of "20 * i" 20 "prints certs"] slice_concat [of ps id 20 i] assms(2,3) i by simp
  then show ?case using i IH assms(1) by (subst print_loop.simps) (simp add: SHA1_HASHSIZE_def flip: Cons_nth_drop_Suc)
qed

section \<open>Results\<close>

lemma load_sbat_embedded:
  assumes "sbat_entries st = None" "db_sbat_level_txt env = t @ 0 # r" "0 \<notin> set t" "sbat_products (lines t) \<noteq> []"
  obtains db vs where "load_sbat_entries env st = Some (db, st\<lparr> sbat_entries := Some db \<rparr>)" "sbat_view (fst db) (snd db) = Some vs"
    "filter (\<lambda>x. snd x \<noteq> 0) vs = sbat_products (lines t)"
proof -
  obtain mem es vs where "GetSbatEntries True (Some (t @ 0 # r)) = Some (Some mem, if sbat_products (lines t) = [] then None else Some es)"
    "sbat_view mem es = Some vs" "filter (\<lambda>x. snd x \<noteq> 0) vs = sbat_products (lines t)" by (rule GetSbatEntries_run [OF assms(3)])
  then show thesis using that [of "(mem, es)" vs] assms(1,2,4) by (simp add: load_sbat_entries_def)
qed

text \<open>
  C18. On an image whose section \<open>.sbat\<close> starts inside it and holds a text that ends in a zero,
  with no line of exactly two fields, \<open>IsRevokedBySbat\<close> reads nothing outside its buffers and tells
  whether one of the lines names a product with a version, other than 0, below the one that the list
  compiled in demands; lines behind one without a comma do not count.
\<close>

theorem IsRevokedBySbat_correct:
  assumes "sbat_entries st = None" "db_sbat_level_txt env = t @ 0 # r0" "0 \<notin> set t" "sbat_products (lines t) \<noteq> []"
    and "pe_sections buf = Some ss" "find (\<lambda>s. s_name s = [46, 115, 98, 97, 116, 0, 0, 0]) ss = Some s" "unat (s_ptr s) < len"
    and "drop (unat (s_ptr s)) buf = u @ 0 # r" "0 \<notin> set u" "list_all (\<lambda>l. length (line_fields l) \<noteq> 2) (lines u)"
  shows "\<exists>st' buf'. IsRevokedBySbat env st buf len = Some (sbat_section_hit (sbat_products (lines t)) (lines u), st', buf')"
proof -
  obtain db vs where db: "load_sbat_entries env st = Some (db, st\<lparr> sbat_entries := Some db \<rparr>)" "sbat_view (fst db) (snd db) = Some vs"
    "filter (\<lambda>x. snd x \<noteq> 0) vs = sbat_products (lines t)" by (rule load_sbat_embedded [OF assms(1-4)])
  obtain buf' where run: "sbat_section_loop db buf (unat (s_ptr s)) = Some (sbat_section_hit vs (lines u), buf')"
    using sbat_section_loop_run [OF db(2) assms(8-10)] by blast
  have "short_name [46, 115, 98, 97, 116] = [46, 115, 98, 97, 116, 0, 0, 0]" by (simp add: short_name_def numeral_3_eq_3)
  then have "GetPeSection (Some buf) [46, 115, 98, 97, 116] = Some (Some (unat (s_ptr s), s_raw (hd ss)))"
    using GetPeSection_find [OF assms(5)] assms(6) by simp
  then show ?thesis using db(1) run assms(7) sbat_section_hit_filter [of vs "lines u"] unfolding db(3) by (simp add: IsRevokedBySbat_def)
qed

text \<open>The list demands version 3 of \<open>grub\<close>, and the section of the image has version 1.\<close>

definition sbat_env :: revocation_env where
  "sbat_env = \<lparr> db_sbat_level_txt = [103, 114, 117, 98, 44, 51, 0], db_sb_active_txt = [0], db_sb_revoked_txt = [0], expert_mode = False,
     UseLocalDbx = (\<lambda>_. False), dbx_file = (\<lambda>_. None),
     dbx_resource = (\<lambda>_. Some (dbx_bytes (replicate 16 0) (replicate 21 0) [(replicate 16 0, replicate 32 7)])),
     pe256ssp = replicate 64 1, pe256ssp_size = 2, GetIssuerCertificateInfo = (\<lambda>_ _. (0, replicate 20 0)), utf8_to_wchar = (\<lambda>s. Some (map ucast s)) \<rparr>"

definition no_lists :: revocation_state where
  "no_lists = \<lparr> sbat_entries = None, sb_active_certs = None, sb_revoked_certs = None \<rparr>"

definition sbat_image :: "u8 list" where
  "sbat_image = sections_example @ replicate 616 0 @ [103, 114, 117, 98, 44, 49, 44, 120] @ [0]"

theorem IsRevokedBySbat_correct_witness:
  "\<exists>st' buf'. IsRevokedBySbat sbat_env no_lists sbat_image 1033 = Some (True, st', buf')"
proof -
  let ?t = "[103, 114, 117, 98, 44, 51] :: u8 list" and ?u = "[103, 114, 117, 98, 44, 49, 44, 120] :: u8 list"
  let ?s = "\<lparr> s_name = [46, 115, 98, 97, 116, 0, 0, 0], s_vsize = 64, s_va = 0x2000, s_raw = 64, s_ptr = 1024 \<rparr> :: pe_section"
  have ss: "pe_sections sbat_image = Some example_sections"
    unfolding sbat_image_def by (rule pe_sections_append [OF sections_example])
  have f: "find (\<lambda>s. s_name s = [46, 115, 98, 97, 116, 0, 0, 0]) example_sections = Some ?s" "unat (s_ptr ?s) = 1024"
    by (simp_all add: example_sections_def)
  have d: "drop 1024 sbat_image = ?u @ 0 # []" by (simp add: sbat_image_def sections_example_def)
  have p: "sbat_products (lines ?t) = [([103, 114, 117, 98], 3)]"
    by (simp add: sbat_version_def strtoul_base_def sign_split_def numeral_digits_def FROM_HEXASCII_def IS_HEXASCII_def isspace_def)
  have h: "sbat_section_hit [([103, 114, 117, 98], 3)] (lines ?u)"
    by (simp add: too_old_def atoi_def sign_split_def numeral_digits_def FROM_HEXASCII_def IS_HEXASCII_def isspace_def)
  have "\<exists>st' buf'. IsRevokedBySbat sbat_env no_lists sbat_image 1033 = Some (sbat_section_hit (sbat_products (lines ?t)) (lines ?u), st', buf')"
    by (rule IsRevokedBySbat_correct [OF _ _ _ _ ss f(1), where r0 = "[]" and r = "[]"])
      (use d f(2) p in \<open>simp_all add: no_lists_def sbat_env_def del: pe_section.simps\<close>)
  then show ?thesis unfolding p using h by simp
qed

text \<open>
  C34. The line behind a line of exactly two fields is not looked at: the newline has been replaced by
  a zero and passed, and the search for the end of the line runs over the next one. Whatever
  product it names, and however old, the section passes.
\<close>

theorem sbat_two_fields_hide_next:
  assumes "sbat_view (fst db) (snd db) = Some vs" "drop i buf = l1 @ 10 # l2 @ 0 # r" "list_all (\<lambda>c. \<not> line_end c) (l1 @ l2)"
    and "line_fields l1 = [p, v]" "l1 \<noteq> []" "\<not> too_old vs p (atoi v)"
  shows "\<exists>buf'. sbat_section_loop db buf i = Some (False, buf')"
proof -
  have l: "list_all (\<lambda>c. \<not> line_end c) l1" "list_all (\<lambda>c. \<not> line_end c) l2" "line_end 0" using assms(3) by (simp_all add: line_end_def)
  obtain buf' i' where m: "sbat_section_line buf i = Some (Inr (buf', atoi v, i'))" "str_at buf' i p" "drop i' buf' = 0 # r"
    by (rule sbat_section_line_two [OF assms(2) l(3,1,2) assms(4)])
  obtain c cs where c: "l1 = c # cs" using assms(5) by (cases l1) auto
  then have "aget buf i = Some c" "\<not> line_end c" using aget_at [of i buf c "cs @ 10 # l2 @ 0 # r"] assms(2) l(1) by auto
  from sbat_section_turn [OF this m(1,2) assms(1)] sbat_section_end [OF m(3)] show ?thesis using assms(6) by simp
qed

text \<open>The list demands version 3 of \<open>grub\<close>; the section has \<open>shim,1\<close> and then \<open>grub,1,x\<close>.\<close>

theorem sbat_two_fields_hide_next_witness:
  "sbat_section_hit [([103, 114, 117, 98], 3)] (lines [115, 104, 105, 109, 44, 49, 10, 103, 114, 117, 98, 44, 49, 44, 120]) \<and>
   (\<exists>buf'. sbat_section_loop ([103, 114, 117, 98, 0], [\<lparr> product = Some 0, version = 3 \<rparr>, no_entry])
      [115, 104, 105, 109, 44, 49, 10, 103, 114, 117, 98, 44, 49, 44, 120, 0] 0 = Some (False, buf'))"
proof
  show "sbat_section_hit [([103, 114, 117, 98], 3)] (lines [115, 104, 105, 109, 44, 49, 10, 103, 114, 117, 98, 44, 49, 44, 120])"
    by (simp add: too_old_def atoi_def sign_split_def numeral_digits_def FROM_HEXASCII_def IS_HEXASCII_def isspace_def)
  show "\<exists>buf'. sbat_section_loop ([103, 114, 117, 98, 0], [\<lparr> product = Some 0, version = 3 \<rparr>, no_entry])
      [115, 104, 105, 109, 44, 49, 10, 103, 114, 117, 98, 44, 49, 44, 120, 0] 0 = Some (False, buf')"
    by (rule sbat_two_fields_hide_next [where vs = "[([103, 114, 117, 98], 3)]" and ?l1.0 = "[115, 104, 105, 109, 44, 49]" and
          ?l2.0 = "[103, 114, 117, 98, 44, 49, 44, 120]" and p = "[115, 104, 105, 109]" and v = "[49]" and r = "[]"])
      (simp_all add: c_string_def line_end_def too_old_def)
qed


text \<open>A certificate is revoked when its thumbprint is in the list, which only counts in expert mode.\<close>

theorem IsRevokedByCert_correct:
  assumes "sb_revoked_certs st = None" "db_sb_revoked_txt env = t @ 0 # r" "0 \<notin> set t" "concat (map line_print (lines t)) \<noteq> []"
  shows "\<exists>st'. IsRevokedByCert env st thumbprint = Some (expert_mode env \<and> thumbprint \<in> set (concat (map line_print (lines t))), st')"
proof -
  let ?ps = "concat (map line_print (lines t))"
  obtain bytes where b: "GetThumbprintEntries True (Some (t @ 0 # r)) =
      Some (let ps = ?ps in if ps = [] then None else Some \<lparr> num_prints = length ps, prints = bytes \<rparr>)"
    "take (20 * length ?ps) bytes = concat ?ps" by (rule GetThumbprintEntries_run [OF assms(3)])
  let ?certs = "\<lparr> num_prints = length ?ps, prints = bytes \<rparr>"
  have "length (hex_bytes s) = length s div 2" for s by (induction s rule: hex_bytes.induct) auto
  then have "\<forall>p \<in> set ?ps. length p = 20" by (auto simp: line_print_def Let_def split: if_splits)
  then have "print_loop thumbprint ?certs 0 = Some (thumbprint \<in> set ?ps)" using print_loop_run [of ?certs ?ps 0 thumbprint] b(2) by simp
  moreover have "load_certs (sb_revoked_certs st) (db_sb_revoked_txt env) = Some ?certs" using assms b(1) by (simp add: load_certs_def Let_def)
  ultimately show ?thesis by (simp add: IsRevokedByCert_def)
qed



end
