(* ===== verification/ASN1.thy ===== *)
theory ASN1
  imports Prelude
begin

text \<open>
  The search in ASN.1 data: \<open>get_data_from_asn1_internal\<close>, \<open>make_flagged_int\<close>,
  \<open>oid_from_str\<close> and \<open>get_data_from_asn1\<close> of \<open>src/src/parser.c\<close>.

  The data is part of a block of memory \<open>mem\<close>, and a pointer into it is an index. A read behind
  the end of \<open>mem\<close> is \<^term>\<open>None\<close>; a read behind the end of the data that is still in \<open>mem\<close>
  happens as in C. \<open>size_t\<close> has 64 bits and \<open>unsigned long\<close> 32, as on Windows.
\<close>

section \<open>The search\<close>

text \<open>The difference of two values of type \<open>size_t\<close>.\<close>

definition sub64 :: "nat \<Rightarrow> nat \<Rightarrow> nat" where
  "sub64 a b = (a + 2 ^ 64 - b) mod 2 ^ 64"

fun len_bytes :: "u8 list \<Rightarrow> nat \<Rightarrow> nat \<Rightarrow> nat \<Rightarrow> (nat \<times> nat) option" where
  "len_bytes mem a 0 len = Some (len, a)"
| "len_bytes mem a (Suc n) len = do {
     b \<leftarrow> aget mem a;
     len_bytes mem (a + 1) n (len * 2 ^ 8 + unat b)
   }"

text \<open>The length field at offset \<open>p\<close> and the offset behind it; the inner \<^term>\<open>None\<close> is an unsupported length.\<close>

definition read_length :: "u8 list \<Rightarrow> nat \<Rightarrow> nat \<Rightarrow> (nat \<times> nat) option option" where
  "read_length mem base p = do {
     l \<leftarrow> aget mem (base + p);
     if l AND 0x80 \<noteq> 0 then
       if unat (l AND 0x7F) > 2 then Some None
       else do {
         (n, a) \<leftarrow> len_bytes mem (base + p + 1) (unat (l AND 0x7F)) 0;
         Some (Some (n, a - base))
       }
     else Some (Some (unat l, p + 1))
   }"

record asn1_header =
  is_sequence :: bool
  is_universal_tag :: bool
  tag :: u8
  len :: nat
  pos :: nat

text \<open>
  Tag and length of the element at offset \<open>p\<close> of the buffer at \<open>base\<close>; the inner
  \<^term>\<open>None\<close> is the return of \<open>FALSE\<close>.
\<close>

definition read_header :: "u8 list \<Rightarrow> nat \<Rightarrow> nat \<Rightarrow> nat \<Rightarrow> asn1_header option option" where
  "read_header mem base buf_len p = do {
     b \<leftarrow> aget mem (base + p);
     let h = \<lparr> is_sequence = (b AND 0x20 \<noteq> 0), is_universal_tag = (b AND 0xC0 = 0), tag = b AND 0x1F, len = 0, pos = p + 2 \<rparr>;
     if tag h = 0x1F then Some None
     else if is_universal_tag h \<and> tag h = 0x05 then Some (Some h)
     else do {
       r \<leftarrow> read_length mem base (p + 1);
       case r of
         None \<Rightarrow> Some None
       | Some (n, q) \<Rightarrow> if n > sub64 buf_len q then Some None else Some (Some (h\<lparr> len := n, pos := q \<rparr>))
     }
   }"

lemma read_length_advances: "read_length mem base p = Some (Some (n, q)) \<Longrightarrow> p < q"
proof -
  have *: "len_bytes mem a n l = Some (m, a') \<Longrightarrow> a \<le> a'" for a n l m a'
    by (induction mem a n l rule: len_bytes.induct) (auto simp: bind_eq_Some_conv)
  assume "read_length mem base p = Some (Some (n, q))"
  then show "p < q" by (fastforce simp: read_length_def bind_eq_Some_conv dest: * split: if_splits)
qed

lemma read_header_advances: "read_header mem base buf_len p = Some (Some h) \<Longrightarrow> base + p < length mem \<and> p < pos h"
  unfolding read_header_def Let_def
  by (fastforce simp: bind_eq_Some_conv dest: aget_eq_SomeD read_length_advances split: if_splits option.splits)

text \<open>The result: the return value, the data found as index and length, and \<open>matched\<close>.\<close>

type_synonym asn1_result = "bool \<times> (nat \<times> nat) option \<times> bool"

function get_data_from_asn1_internal ::
  "u8 list \<Rightarrow> u8 list \<Rightarrow> u8 \<Rightarrow> nat \<Rightarrow> nat \<Rightarrow> nat \<Rightarrow> bool \<Rightarrow> asn1_result option" where
  "get_data_from_asn1_internal mem oid asn1_type base buf_len p matched =
     (if p < buf_len then do {
        header \<leftarrow> read_header mem base buf_len p;
        case header of
          None \<Rightarrow> Some (False, None, matched)
        | Some h \<Rightarrow>
            if len h = 0 then get_data_from_asn1_internal mem oid asn1_type base buf_len (pos h) matched
            else if is_sequence h then do {
              (ok, data, matched) \<leftarrow> get_data_from_asn1_internal mem oid asn1_type (base + pos h) (len h) 0 matched;
              if \<not> ok then Some (False, data, matched)
              else if data \<noteq> None then Some (True, data, matched)
              else get_data_from_asn1_internal mem oid asn1_type base buf_len (pos h + len h) matched
            }
            else if is_universal_tag h then
              if \<not> matched \<and> tag h = 0x06 \<and> len h = length oid then
                if base + pos h + len h > length mem then None
                else get_data_from_asn1_internal mem oid asn1_type base buf_len (pos h + len h)
                       (matched \<or> slice (base + pos h) (len h) mem = oid)
              else if matched \<and> tag h = asn1_type then Some (True, Some (base + pos h, len h), matched)
              else get_data_from_asn1_internal mem oid asn1_type base buf_len (pos h + len h) matched
            else get_data_from_asn1_internal mem oid asn1_type base buf_len (pos h + len h) matched
      } else Some (True, None, matched))"
  by pat_completeness auto
termination
  by (relation "measure (\<lambda>(mem, oid, asn1_type, base, buf_len, p, matched). length mem - (base + p))")
    (auto dest!: read_header_advances)

declare get_data_from_asn1_internal.simps [simp del]

section \<open>Object identifiers\<close>

text \<open>The loop of \<open>make_flagged_int\<close> over the shifts; the buffer, the length used and \<open>value\<close> are the state.\<close>

fun flagged_loop :: "nat list \<Rightarrow> bool \<Rightarrow> nat \<Rightarrow> u8 list \<Rightarrow> nat \<Rightarrow> (u8 list \<times> nat \<times> nat) option" where
  "flagged_loop [] going value buf buf_len = Some (buf, buf_len, value)"
| "flagged_loop (shift # shifts) going value buf buf_len =
     (if going \<or> value \<ge> 2 ^ shift then do {
        buf \<leftarrow> aset buf buf_len (0x80 OR of_nat (value div 2 ^ shift));
        flagged_loop shifts True (value - value div 2 ^ shift * 2 ^ shift) buf (buf_len + 1)
      } else flagged_loop shifts going value buf buf_len)"

definition make_flagged_int :: "nat \<Rightarrow> u8 list \<Rightarrow> nat \<Rightarrow> (u8 list \<times> nat) option" where
  "make_flagged_int value buf buf_len = do {
     (buf, buf_len, value) \<leftarrow> flagged_loop [28, 21, 14, 7] False value buf buf_len;
     buf \<leftarrow> aset buf buf_len (of_nat value);
     Some (buf, buf_len + 1)
   }"

definition is_digit :: "char \<Rightarrow> bool" where
  "is_digit c \<longleftrightarrow> 48 \<le> (of_char c :: nat) \<and> (of_char c :: nat) \<le> 57"

definition digit_value :: "char \<Rightarrow> nat" where
  "digit_value c = of_char c - 48"

definition number_value :: "string \<Rightarrow> nat" where
  "number_value ds = foldl (\<lambda>n c. 10 * n + digit_value c) 0 ds"

text \<open>\<open>strtoul\<close> on a string that starts with a digit: the value, at most \<open>ULONG_MAX\<close>, and the rest.\<close>

definition strtoul :: "string \<Rightarrow> nat \<times> string" where
  "strtoul s = (min (2 ^ 32 - 1) (number_value (takeWhile is_digit s)), dropWhile is_digit s)"

text \<open>
  One arc of the identifier: \<open>arcno\<close> is its number from 0 on, \<open>val1\<close> the first arc. The inner
  \<^term>\<open>None\<close> is a jump to \<open>err\<close>.
\<close>

definition oid_arc :: "nat \<Rightarrow> nat \<Rightarrow> nat \<Rightarrow> u8 list \<Rightarrow> nat \<Rightarrow> (nat \<times> u8 list \<times> nat) option option" where
  "oid_arc arcno val1 val oid oid_len =
     (if arcno = 0 then Some (Some (val, oid, oid_len))
      else if arcno = 1 then
        if val1 < 2 then
          if val > 39 then Some None
          else do { oid \<leftarrow> aset oid oid_len (of_nat (val1 * 40 + val)); Some (Some (val1, oid, oid_len + 1)) }
        else do { (oid, n) \<leftarrow> make_flagged_int ((val + 80) mod 2 ^ 32) oid oid_len; Some (Some (val1, oid, n)) }
      else do { (oid, n) \<leftarrow> make_flagged_int val oid oid_len; Some (Some (val1, oid, n)) })"

text \<open>The loop over the arcs; a first arc above 2 leaves it with \<open>arcno\<close> 1.\<close>

function oid_loop :: "string \<Rightarrow> nat \<Rightarrow> nat \<Rightarrow> u8 list \<Rightarrow> nat \<Rightarrow> (nat \<times> u8 list \<times> nat) option option" where
  "oid_loop oid_str arcno val1 oid oid_len =
     (if oid_str = [] \<or> \<not> is_digit (hd oid_str) then Some None
      else
        (case strtoul oid_str of
           (val, endp) \<Rightarrow>
             if \<not> (endp = [] \<or> hd endp = CHR ''.'') then Some None
             else if arcno = 0 \<and> val > 2 then Some (Some (1, oid, oid_len))
             else do {
               r \<leftarrow> oid_arc arcno val1 val oid oid_len;
               case r of
                 None \<Rightarrow> Some None
               | Some (val1, oid, oid_len) \<Rightarrow>
                   if endp \<noteq> [] then oid_loop (tl endp) (arcno + 1) val1 oid oid_len
                   else Some (Some (arcno + 1, oid, oid_len))
             }))"
  by pat_completeness auto
termination
proof (relation "measure (\<lambda>(oid_str, _). length oid_str)", goal_cases)
  case (2 oid_str arcno val1 oid oid_len x y)
  then have "y = dropWhile is_digit oid_str" "oid_str \<noteq> []" by (auto simp: strtoul_def)
  then show ?case using length_dropWhile_le [of is_digit oid_str] by (cases oid_str) auto
qed simp

declare oid_loop.simps [simp del]

text \<open>\<open>oid_from_str\<close>; \<open>fresh\<close> is what the allocation gives, of the size asked for, or \<^term>\<open>None\<close>.\<close>

definition oid_from_str :: "(nat \<Rightarrow> u8 list option) \<Rightarrow> string option \<Rightarrow> u8 list option option" where
  "oid_from_str malloc oid_str =
     (case oid_str of
        None \<Rightarrow> Some None
      | Some s \<Rightarrow>
          if s = [] then Some None
          else
            (case malloc (1 + length s + 2) of
               None \<Rightarrow> Some None
             | Some oid \<Rightarrow> do {
                 r \<leftarrow> oid_loop s 0 0 oid 0;
                 case r of
                   None \<Rightarrow> Some None
                 | Some (arcno, oid, oid_len) \<Rightarrow>
                     if arcno = 1 \<or> oid_len < 2 \<or> oid_len > 254 then Some None else Some (Some (take oid_len oid))
               }))"

definition get_data_from_asn1 ::
  "(nat \<Rightarrow> u8 list option) \<Rightarrow> u8 list \<Rightarrow> nat \<Rightarrow> string option \<Rightarrow> u8 \<Rightarrow> (nat \<times> nat) option option" where
  "get_data_from_asn1 malloc buf buf_len oid_str asn1_type =
     (let matched = (oid_str = None \<or> oid_str = Some []) in
      if buf_len \<ge> 65536 then Some None
      else do {
        oid \<leftarrow> (if \<not> matched then oid_from_str malloc oid_str else Some (Some []));
        case oid of
          None \<Rightarrow> Some None
        | Some oid \<Rightarrow> do {
            (ok, data, matched) \<leftarrow> get_data_from_asn1_internal buf oid asn1_type 0 buf_len 0 matched;
            Some data
          }
      })"

section \<open>Numbers in base 128\<close>

fun septets :: "nat \<Rightarrow> nat list" where
  "septets v = (if v < 128 then [v] else septets (v div 128) @ [v mod 128])"

declare septets.simps [simp del]

definition arc_bytes :: "nat \<Rightarrow> u8 list" where
  "arc_bytes v = map (\<lambda>d. 0x80 OR of_nat d) (butlast (septets v)) @ [of_nat (last (septets v))]"

definition put :: "u8 list \<Rightarrow> nat \<Rightarrow> u8 list \<Rightarrow> u8 list" where
  "put buf n bs = take n buf @ bs @ drop (n + length bs) buf"

lemma put_Nil [simp]: "put buf n [] = buf"
  by (simp add: put_def)

lemma aset_put: "n + length bs < length buf \<Longrightarrow> aset (put buf n bs) (n + length bs) b = Some (put buf n (bs @ [b]))"
  by (auto simp: aset_def put_def list_update_append min_def simp flip: Cons_nth_drop_Suc)

lemma put_take: "n + length bs \<le> length buf \<Longrightarrow> take (n + length bs) (put buf n bs) = take n buf @ bs"
  by (cases bs) (auto simp: put_def min_def)

lemma length_put: "n + length bs \<le> length buf \<Longrightarrow> length (put buf n bs) = length buf"
  by (simp add: put_def)

lemma septets_nonempty [simp]: "septets v \<noteq> []"
  by (subst septets.simps) simp

lemma arc_bytes_step: "128 \<le> v \<Longrightarrow> arc_bytes v = map (\<lambda>d. 0x80 OR of_nat d) (septets (v div 128)) @ [of_nat (v mod 128)]"
  by (simp add: arc_bytes_def septets.simps [of v])

text \<open>The shifts from \<open>7 * k\<close> down: once a byte is written, all the remaining digits are.\<close>

fun shifts :: "nat \<Rightarrow> nat list" where
  "shifts 0 = []"
| "shifts (Suc k) = 7 * Suc k # shifts k"

fun digits :: "nat \<Rightarrow> nat \<Rightarrow> nat list" where
  "digits 0 v = []"
| "digits (Suc k) v = v div 128 ^ Suc k # digits k (v mod 128 ^ Suc k)"

lemma length_digits [simp]: "length (digits k v) = k"
  by (induction k arbitrary: v) auto

lemma pow7: "(2::nat) ^ (7 * k) = 128 ^ k"
  by (simp add: power_mult)

lemma flagged_going:
  "n + length bs + k \<le> length buf \<Longrightarrow>
   flagged_loop (shifts k) True v (put buf n bs) (n + length bs) =
     Some (put buf n (bs @ map (\<lambda>d. 0x80 OR of_nat d) (digits k v)), n + length bs + k, (if k = 0 then v else v mod 128))"
proof (induction k arbitrary: v bs)
  case (Suc k)
  have "v - v div 128 ^ Suc k * 128 ^ Suc k = v mod 128 ^ Suc k" by (simp add: minus_div_mult_eq_mod)
  moreover have "v mod 128 ^ Suc k mod 128 = v mod 128" by (simp add: mod_mod_cancel)
  ultimately show ?case
    using Suc.prems Suc.IH [of "bs @ [0x80 OR of_nat (v div 128 ^ Suc k)]" "v mod 128 ^ Suc k"]
    by (simp add: aset_put pow7 del: power_Suc mult_Suc_right)
qed simp

lemma digits_snoc: "v < 128 ^ Suc (Suc k) \<Longrightarrow> digits (Suc k) v = digits k (v div 128) @ [v div 128 mod 128]"
proof (induction k arbitrary: v)
  case 0
  then have "v div 128 < 128" by (simp add: div_less_iff_less_mult)
  then show ?case by simp
next
  case (Suc k)
  have "v mod 128 ^ Suc (Suc k) < 128 ^ Suc (Suc k)" by simp
  note IH = Suc.IH [OF this]
  have "v mod (128 * N) div 128 = v div 128 mod N" for N by (simp add: mod_mult2_eq)
  from this [of "128 ^ Suc k"] have "v mod 128 ^ Suc (Suc k) div 128 = v div 128 mod 128 ^ Suc k" by (simp only: power_Suc)
  moreover have "v mod 128 ^ Suc (Suc k) div 128 mod 128 = v div 128 mod 128" unfolding calculation by (simp add: mod_mod_cancel)
  moreover have "v div 128 div 128 ^ Suc k = v div 128 ^ Suc (Suc k)" by (simp only: power_Suc div_mult2_eq)
  ultimately show ?case using IH digits.simps(2) [of "Suc k" v] digits.simps(2) [of k "v div 128"] by (simp del: digits.simps power_Suc)
qed

lemma septets_digits: "v < 128 ^ Suc k \<Longrightarrow> k = 0 \<or> 128 ^ k \<le> v \<Longrightarrow> septets v = digits k v @ [v mod 128]"
proof (induction k arbitrary: v)
  case 0
  then show ?case by (subst septets.simps) simp
next
  case (Suc k)
  then have "v div 128 < 128 ^ Suc k" "128 ^ k \<le> v div 128" by (auto simp: div_less_iff_less_mult less_eq_div_iff_mult_less_eq mult.commute)
  moreover have "128 * 1 \<le> 128 * (128 :: nat) ^ k" by (rule mult_le_mono2) simp
  then have "128 \<le> v" using Suc.prems(2) by (simp only: power_Suc mult_1_right nat.simps simp_thms)
  ultimately show ?case using Suc.IH [of "v div 128"] digits_snoc [OF Suc.prems(1)] by (subst septets.simps) (simp del: digits.simps)
qed

lemma flagged_start:
  "v < 128 ^ Suc k \<Longrightarrow> n + length (septets v) \<le> length buf \<Longrightarrow>
   flagged_loop (shifts k) False v buf n =
     Some (put buf n (map (\<lambda>d. 0x80 OR of_nat d) (butlast (septets v))), n + (length (septets v) - 1), last (septets v))"
proof (induction k)
  case 0
  then show ?case by (subst septets.simps) (simp add: septets.simps)
next
  case (Suc k)
  show ?case
  proof (cases "128 ^ Suc k \<le> v")
    case True
    then have "flagged_loop (shifts (Suc k)) False v buf n = flagged_loop (shifts (Suc k)) True v (put buf n []) (n + length [])"
      by (simp add: pow7 del: power_Suc mult_Suc_right)
    then show ?thesis using flagged_going [of n "[]" "Suc k" buf v] septets_digits [OF Suc.prems(1)] Suc.prems(2) True by simp
  next
    case False
    then have "flagged_loop (shifts (Suc k)) False v buf n = flagged_loop (shifts k) False v buf n"
      by (simp add: pow7 del: power_Suc mult_Suc_right)
    then show ?thesis using Suc False by simp
  qed
qed

lemma length_arc_bytes: "length (arc_bytes v) = length (septets v)"
  by (simp add: arc_bytes_def)

lemma make_flagged_int_put:
  assumes "v < 2 ^ 32" "n + length (arc_bytes v) \<le> length buf"
  shows "make_flagged_int v buf n = Some (put buf n (arc_bytes v), n + length (arc_bytes v))"
proof -
  have "[28, 21, 14, 7] = shifts 4" by (simp add: numeral_eq_Suc)
  moreover have "v < 128 ^ Suc 4" using assms(1) by simp
  moreover have l: "length (butlast (septets v)) = length (septets v) - 1" "1 \<le> length (septets v)" by (simp_all add: Suc_le_eq)
  ultimately show ?thesis
    using flagged_start [of v 4 n buf] assms(2) aset_put [of n "map (\<lambda>d. 0x80 OR of_nat d) (butlast (septets v))" buf "of_nat (last (septets v))"]
    unfolding make_flagged_int_def length_arc_bytes by (simp add: arc_bytes_def)
qed

text \<open>A number of \<open>d\<close> decimal digits has at most \<open>d\<close> digits in base 128, even with 80 added.\<close>

lemma length_septets: "v < 128 ^ d \<Longrightarrow> 0 < d \<Longrightarrow> length (septets v) \<le> d"
proof (induction d arbitrary: v)
  case (Suc d)
  show ?case
  proof (cases "v < 128")
    case True
    then show ?thesis by (simp add: septets.simps)
  next
    case False
    then have "0 < d" using Suc.prems by (cases d) auto
    moreover have "v div 128 < 128 ^ d" using Suc.prems by (simp add: div_less_iff_less_mult mult.commute)
    ultimately show ?thesis using Suc.IH [of "v div 128"] False by (subst septets.simps) simp
  qed
qed simp

lemma number_value_snoc [simp]: "number_value (ds @ [c]) = 10 * number_value ds + digit_value c"
  by (simp add: number_value_def)

lemma number_value_bound: "list_all is_digit ds \<Longrightarrow> number_value ds < 10 ^ length ds"
proof (induction ds rule: rev_induct)
  case (snoc c ds)
  then have "digit_value c \<le> 9" "number_value ds < 10 ^ length ds" by (auto simp: digit_value_def is_digit_def)
  then show ?case by simp
qed (simp add: number_value_def)

lemma arc_length:
  assumes "list_all is_digit ds" "ds \<noteq> []" "v \<le> number_value ds + 80"
  shows "length (arc_bytes v) \<le> length ds"
proof -
  obtain d where d: "length ds = Suc d" using assms(2) by (cases ds) auto
  have "(10::nat) ^ Suc d + 80 \<le> 128 ^ Suc d"
  proof -
    have "(10::nat) ^ d \<le> 128 ^ d" by (rule power_mono) auto
    moreover have "(1::nat) \<le> 128 ^ d" by simp
    ultimately have "10 * (10::nat) ^ d + 80 \<le> 10 * 128 ^ d + 80 * 128 ^ d" by (intro add_mono) auto
    then show ?thesis by simp
  qed
  then have "v < 128 ^ Suc d" using number_value_bound [OF assms(1)] assms(3) d by simp
  then show ?thesis using length_septets [of v "Suc d"] d by (simp add: length_arc_bytes)
qed

section \<open>Reading an identifier\<close>

lemma strtoul_split:
  assumes "list_all is_digit ds" "rest = [] \<or> \<not> is_digit (hd rest)"
  shows "strtoul (ds @ rest) = (min (2 ^ 32 - 1) (number_value ds), rest)"
proof -
  have "takeWhile is_digit rest = []" "dropWhile is_digit rest = rest" using assms(2) by (cases rest; auto)+
  moreover have "\<forall>c \<in> set ds. is_digit c" using assms(1) by (simp add: list_all_iff)
  ultimately show ?thesis by (simp add: strtoul_def takeWhile_append2 dropWhile_append2)
qed

lemma strtoul_digits:
  assumes "oid_str \<noteq> []" "is_digit (hd oid_str)" "strtoul oid_str = (val, endp)"
  obtains ds where "ds \<noteq> []" "list_all is_digit ds" "oid_str = ds @ endp" "val = min (2 ^ 32 - 1) (number_value ds)"
proof
  let ?ds = "takeWhile is_digit oid_str"
  show "?ds \<noteq> []" using assms(1,2) by (cases oid_str) auto
  show "list_all is_digit ?ds" by (auto simp: list_all_iff dest: set_takeWhileD)
  show "oid_str = ?ds @ endp" "val = min (2 ^ 32 - 1) (number_value ?ds)" using assms(3) by (auto simp: strtoul_def)
qed

lemma oid_arc_run:
  assumes ds: "ds \<noteq> []" "list_all is_digit ds" "val = min (2 ^ 32 - 1) (number_value ds)" and room: "n + length ds \<le> length oid"
    and r: "oid_arc arcno val1 val oid n = r"
  shows "r = Some None \<or> (\<exists>v bs. r = Some (Some (v, put oid n bs, n + length bs)) \<and> length bs \<le> length ds)"
proof -
  have v: "(val + 80) mod 2 ^ 32 \<le> number_value ds + 80" "val \<le> number_value ds + 80" "(val + 80) mod 2 ^ 32 < 2 ^ 32" "val < 2 ^ 32"
    using ds(3) by (auto intro: le_trans [OF mod_less_eq_dividend])
  note a = arc_length [OF ds(2,1) v(1)] arc_length [OF ds(2,1) v(2)]
  have "1 \<le> length ds" using ds(1) by (cases ds) auto
  then have w: "make_flagged_int ((val + 80) mod 2 ^ 32) oid n = Some (put oid n (arc_bytes ((val + 80) mod 2 ^ 32)), n + length (arc_bytes ((val + 80) mod 2 ^ 32)))"
    "make_flagged_int val oid n = Some (put oid n (arc_bytes val), n + length (arc_bytes val))"
    "aset oid n b = Some (put oid n [b])" for b
    using make_flagged_int_put [OF v(3), of n oid] make_flagged_int_put [OF v(4), of n oid] a room aset_put [of n "[]" oid b] by simp_all
  consider "arcno = 0" | "arcno = 1" "val1 < 2" "39 < val" | "arcno = 1" "val1 < 2" "\<not> 39 < val" | "arcno = 1" "\<not> val1 < 2" | "1 < arcno" by linarith
  then show ?thesis
  proof cases
    case 1
    then show ?thesis using r by (auto simp: oid_arc_def intro!: exI [of _ "[]"])
  next
    case 3
    then show ?thesis using r w(3) \<open>1 \<le> length ds\<close> by (auto simp: oid_arc_def intro!: exI [of _ "[of_nat (val1 * 40 + val)]"])
  next
    case 4
    then show ?thesis using r w(1) a(1) by (auto simp: oid_arc_def)
  next
    case 5
    then show ?thesis using r w(2) a(2) by (auto simp: oid_arc_def)
  qed (use r in \<open>simp add: oid_arc_def\<close>)
qed

text \<open>Whatever the string holds, the bytes stay within a buffer of its length.\<close>

lemma oid_loop_safe:
  "oid_len + length oid_str \<le> length oid \<Longrightarrow> \<exists>r. oid_loop oid_str arcno val1 oid oid_len = Some r"
proof (induction oid_str arcno val1 oid oid_len rule: oid_loop.induct)
  case (1 oid_str arcno val1 oid oid_len)
  show ?case
  proof (cases "oid_str = [] \<or> \<not> is_digit (hd oid_str)")
    case True
    then show ?thesis by (subst oid_loop.simps) auto
  next
    case False
    obtain val endp where st: "strtoul oid_str = (val, endp)" by fastforce
    from strtoul_digits [OF _ _ st] False obtain ds where
      ds: "ds \<noteq> []" "list_all is_digit ds" "oid_str = ds @ endp" "val = min (2 ^ 32 - 1) (number_value ds)" by blast
    have room: "oid_len + length ds \<le> length oid" using 1(2) ds(3) by simp
    show ?thesis
    proof (cases "\<not> (endp = [] \<or> hd endp = CHR ''.'') \<or> arcno = 0 \<and> val > 2 \<or> oid_arc arcno val1 val oid oid_len = Some None")
      case True
      then show ?thesis using False st by (subst oid_loop.simps) auto
    next
      case go: False
      then obtain v bs where a: "oid_arc arcno val1 val oid oid_len = Some (Some (v, put oid oid_len bs, oid_len + length bs))" "length bs \<le> length ds"
        using oid_arc_run [OF ds(1,2,4) room refl] by blast
      have "oid_len + length bs + length (tl endp) \<le> length (put oid oid_len bs)" using a(2) room 1(2) ds(3) by (simp add: length_put)
      then have "endp \<noteq> [] \<longrightarrow> (\<exists>r. oid_loop (tl endp) (arcno + 1) v (put oid oid_len bs) (oid_len + length bs) = Some r)"
        using 1(1) [OF False st [symmetric] _ _ a(1) refl refl refl] go by auto
      then show ?thesis using False st go a(1) by (subst oid_loop.simps) auto
    qed
  qed
qed

section \<open>Dotted identifiers\<close>

text \<open>Numbers in decimal, arcs joined by dots, and the encoding of X.690 for them.\<close>

definition digit :: "nat \<Rightarrow> char" where
  "digit n = char_of (48 + n)"

fun decimal :: "nat \<Rightarrow> string" where
  "decimal n = (if n < 10 then [digit n] else decimal (n div 10) @ [digit (n mod 10)])"

declare decimal.simps [simp del]

fun dotted :: "nat list \<Rightarrow> string" where
  "dotted [] = []"
| "dotted [a] = decimal a"
| "dotted (a # as) = decimal a @ CHR ''.'' # dotted as"

fun oid_bytes :: "nat list \<Rightarrow> u8 list" where
  "oid_bytes (a # b # arcs) = arc_bytes (40 * a + b) @ concat (map arc_bytes arcs)"
| "oid_bytes _ = []"

definition valid_oid :: "nat list \<Rightarrow> bool" where
  "valid_oid arcs \<longleftrightarrow> (\<exists>a b cs. arcs = a # b # cs \<and> a \<le> 2 \<and> (a < 2 \<longrightarrow> b \<le> 39) \<and> b + 80 < 2 ^ 32 \<and> (\<forall>c \<in> set cs. c < 2 ^ 32)) \<and>
     length (oid_bytes arcs) \<in> {2..254}"

lemma digit_simps: "n < 10 \<Longrightarrow> is_digit (digit n)" "n < 10 \<Longrightarrow> digit_value (digit n) = n"
  by (simp_all add: is_digit_def digit_def digit_value_def of_char_of)

lemma decimal_digits: "list_all is_digit (decimal n)" "decimal n \<noteq> []"
proof (induction n rule: decimal.induct)
  case (1 n)
  { case 1 then show ?case using "1.IH" by (subst decimal.simps) (auto simp: digit_simps) }
  { case 2 then show ?case by (subst decimal.simps) auto }
qed

lemma number_value_decimal: "number_value (decimal n) = n"
proof (induction n rule: decimal.induct)
  case (1 n)
  then show ?case by (subst decimal.simps) (auto simp: digit_simps number_value_def)
qed

lemma dot_no_digit: "\<not> is_digit (CHR ''.'')"
  by (simp add: is_digit_def)

lemma strtoul_decimal: "rest = [] \<or> hd rest = CHR ''.'' \<Longrightarrow> v < 2 ^ 32 \<Longrightarrow> strtoul (decimal v @ rest) = (v, rest)"
  using strtoul_split [OF decimal_digits(1), of rest v] dot_no_digit by (auto simp: number_value_decimal min_def)

lemma hd_decimal: "is_digit (hd (decimal v @ rest))" "decimal v @ rest \<noteq> []"
  using decimal_digits [of v] by (cases "decimal v"; auto)+

lemma oid_loop_step:
  assumes "rest = [] \<or> hd rest = CHR ''.''" "v < 2 ^ 32" "\<not> (arcno = 0 \<and> v > 2)" "oid_arc arcno val1 v oid n = Some (Some (v1, oid', n'))"
  shows "oid_loop (decimal v @ rest) arcno val1 oid n =
    (if rest \<noteq> [] then oid_loop (tl rest) (arcno + 1) v1 oid' n' else Some (Some (arcno + 1, oid', n')))"
proof -
  define s where "s = decimal v @ rest"
  have "s \<noteq> []" "is_digit (hd s)" "strtoul s = (v, rest)"
    using hd_decimal [of v rest] strtoul_decimal [OF assms(1,2)] by (simp_all only: s_def simp_thms)
  then show ?thesis using assms unfolding s_def [symmetric] by (subst oid_loop.simps) auto
qed

lemma dotted_Cons: "dotted (a # as) = decimal a @ (if as = [] then [] else CHR ''.'' # dotted as)"
  by (cases as) auto

lemma put_put: "n + length xs + length ys \<le> length buf \<Longrightarrow> put (put buf n xs) (n + length xs) ys = put buf n (xs @ ys)"
  by (cases xs) (auto simp: put_def min_def ac_simps)

lemma oid_loop_rest:
  "arcs \<noteq> [] \<Longrightarrow> \<forall>c \<in> set arcs. c < 2 ^ 32 \<Longrightarrow> 2 \<le> arcno \<Longrightarrow> n + length (concat (map arc_bytes arcs)) \<le> length oid \<Longrightarrow>
   oid_loop (dotted arcs) arcno val1 oid n =
     Some (Some (arcno + length arcs, put oid n (concat (map arc_bytes arcs)), n + length (concat (map arc_bytes arcs))))"
proof (induction arcs arbitrary: arcno oid n)
  case (Cons c cs)
  let ?oid = "put oid n (arc_bytes c)" and ?n = "n + length (arc_bytes c)"
  have "oid_arc arcno val1 c oid n = Some (Some (val1, ?oid, ?n))"
    using Cons.prems make_flagged_int_put [of c n oid] by (simp add: oid_arc_def)
  note step = oid_loop_step [OF _ _ _ this, of "if cs = [] then [] else CHR ''.'' # dotted cs", folded dotted_Cons]
  show ?case
  proof (cases "cs = []")
    case True
    then show ?thesis using step Cons.prems by simp
  next
    case False
    have "?n + length (concat (map arc_bytes cs)) \<le> length ?oid" using Cons.prems(4) by (simp add: length_put)
    from Cons.IH [OF False _ _ this, of "arcno + 1"] show ?thesis using step False Cons.prems put_put [of n "arc_bytes c" _ oid] by simp
  qed
qed simp

lemma arc_bytes_decimal: "v \<le> a + 80 \<Longrightarrow> length (arc_bytes v) \<le> length (decimal a)"
  using arc_length [OF decimal_digits, of v a] by (simp add: number_value_decimal)

lemma length_arcs: "length (concat (map arc_bytes arcs)) \<le> length (dotted arcs)"
proof (induction arcs)
  case (Cons a as)
  then show ?case using arc_bytes_decimal [of a a] by (simp add: dotted_Cons)
qed simp

lemma second_arc:
  assumes "a \<le> 2" "a < 2 \<longrightarrow> b \<le> 39" "b + 80 < 2 ^ 32" "length (arc_bytes (40 * a + b)) \<le> length oid"
  shows "oid_arc 1 a b oid 0 = Some (Some (a, put oid 0 (arc_bytes (40 * a + b)), length (arc_bytes (40 * a + b))))"
proof (cases "a < 2")
  case True
  then have "40 * a + b < 128" using assms(2) by simp
  then have "arc_bytes (40 * a + b) = [of_nat (40 * a + b)]" by (simp add: arc_bytes_def septets.simps)
  moreover from this have "oid \<noteq> []" using assms(4) by auto
  ultimately show ?thesis using True assms aset_put [of 0 "[]" oid] by (simp add: oid_arc_def mult.commute del: of_nat_add of_nat_mult)
next
  case False
  then have e: "40 * a + b = b + 80" "(b + 80) mod 2 ^ 32 = b + 80" using assms(1,3) by auto
  then show ?thesis using False assms(3,4) make_flagged_int_put [of "b + 80" 0 oid] unfolding e(1) by (simp add: oid_arc_def)
qed

lemma oid_loop_dotted:
  assumes v: "valid_oid arcs" and room: "length (oid_bytes arcs) \<le> length oid"
  shows "oid_loop (dotted arcs) 0 0 oid 0 = Some (Some (length arcs, put oid 0 (oid_bytes arcs), length (oid_bytes arcs)))"
proof -
  obtain a b cs where arcs: "arcs = a # b # cs" and ab: "a \<le> 2" "a < 2 \<longrightarrow> b \<le> 39" "b + 80 < 2 ^ 32" "\<forall>c \<in> set cs. c < 2 ^ 32"
    using v by (auto simp: valid_oid_def)
  let ?h = "arc_bytes (40 * a + b)"
  have "oid_arc 0 0 a oid 0 = Some (Some (a, oid, 0))" by (simp add: oid_arc_def)
  then have one: "oid_loop (dotted arcs) 0 0 oid 0 = oid_loop (dotted (b # cs)) 1 a oid 0"
    using oid_loop_step [of "CHR ''.'' # dotted (b # cs)" a 0 0 oid 0] ab(1) by (simp add: arcs)
  have two: "oid_arc 1 a b oid 0 = Some (Some (a, put oid 0 ?h, length ?h))" using second_arc [OF ab(1-3)] room by (simp add: arcs)
  note step = oid_loop_step [OF _ _ _ two, of "if cs = [] then [] else CHR ''.'' # dotted cs", folded dotted_Cons]
  show ?thesis
  proof (cases "cs = []")
    case True
    then show ?thesis using one step ab(3) by (simp add: arcs)
  next
    case False
    have "length ?h + length (concat (map arc_bytes cs)) \<le> length (put oid 0 ?h)" using room by (simp add: arcs length_put)
    from oid_loop_rest [OF False ab(4) _ this, of 2 a] show ?thesis
      using one step ab(3) False room put_put [of 0 ?h "concat (map arc_bytes cs)" oid] by (simp add: arcs numeral_2_eq_2)
  qed
qed

text \<open>An allocation gives what is asked for, or nothing.\<close>

definition sized_malloc :: "(nat \<Rightarrow> u8 list option) \<Rightarrow> bool" where
  "sized_malloc malloc \<longleftrightarrow> (\<forall>n bs. malloc n = Some bs \<longrightarrow> length bs = n)"

lemma length_oid_bytes: "valid_oid arcs \<Longrightarrow> length (oid_bytes arcs) \<le> length (dotted arcs)"
proof -
  assume "valid_oid arcs"
  then obtain a b cs where arcs: "arcs = a # b # cs" "a \<le> 2" by (auto simp: valid_oid_def)
  then have "length (arc_bytes (40 * a + b)) \<le> length (decimal b)" by (intro arc_bytes_decimal) simp
  then show ?thesis using length_arcs [of cs] by (simp add: arcs dotted_Cons)
qed

lemma oid_from_str_dotted:
  assumes "sized_malloc malloc" "malloc (1 + length (dotted arcs) + 2) = Some fresh" "valid_oid arcs"
  shows "oid_from_str malloc (Some (dotted arcs)) = Some (Some (oid_bytes arcs))"
proof -
  have len: "length fresh = 1 + length (dotted arcs) + 2" using assms(1,2) by (simp add: sized_malloc_def)
  have "length (oid_bytes arcs) \<le> length fresh" using length_oid_bytes [OF assms(3)] len by linarith
  moreover have "dotted arcs \<noteq> []" "length arcs \<noteq> 1" "2 \<le> length (oid_bytes arcs)" "length (oid_bytes arcs) \<le> 254"
    using assms(3) decimal_digits(2) by (auto simp: valid_oid_def)
  ultimately show ?thesis
    using oid_loop_dotted [OF assms(3), of fresh] assms(2) put_take [of 0 "oid_bytes arcs" fresh] unfolding oid_from_str_def by simp
qed

lemma oid_from_str_safe:
  assumes "sized_malloc malloc"
  shows "\<exists>r. oid_from_str malloc s = Some r"
proof (cases s)
  case (Some str)
  show ?thesis
  proof (cases "malloc (1 + length str + 2)")
    case fresh: (Some fresh)
    then have "0 + length str \<le> length fresh" using assms by (auto simp: sized_malloc_def)
    from oid_loop_safe [OF this, of 0 0] show ?thesis unfolding oid_from_str_def Some using fresh by (auto split: option.splits)
  qed (auto simp: oid_from_str_def Some)
qed (simp add: oid_from_str_def)

section \<open>Elements of DER\<close>

text \<open>
  Elements with their identifier byte, primitive with their content or constructed from elements, their
  encoding by X.690 with a length below 64 kilobytes, and the primitive ones in the order of the
  encoding, with the address of their content.
\<close>

datatype der = Leaf u8 "u8 list" | Node u8 "der list"

definition der_len :: "nat \<Rightarrow> u8 list" where
  "der_len n = (if n < 128 then [of_nat n] else if n < 256 then [0x81, of_nat n] else [0x82, of_nat (n div 256), of_nat (n mod 256)])"

fun encode :: "der \<Rightarrow> u8 list" where
  "encode (Leaf i c) = i # der_len (length c) @ c"
| "encode (Node i ts) = i # der_len (length (concat (map encode ts))) @ concat (map encode ts)"

abbreviation encodes :: "der list \<Rightarrow> u8 list" where
  "encodes ts \<equiv> concat (map encode ts)"

definition supported :: "u8 \<Rightarrow> bool" where
  "supported i \<longleftrightarrow> i AND 0x1F \<noteq> 0x1F"

definition null_tag :: "u8 \<Rightarrow> bool" where
  "null_tag i \<longleftrightarrow> i AND 0xC0 = 0 \<and> i AND 0x1F = 5"

fun wf_der :: "der \<Rightarrow> bool" where
  "wf_der (Leaf i c) = (supported i \<and> i AND 0x20 = 0 \<and> (null_tag i \<longrightarrow> c = []))"
| "wf_der (Node i ts) = (supported i \<and> i AND 0x20 \<noteq> 0 \<and> \<not> null_tag i \<and> list_all wf_der ts)"

fun leaves :: "nat \<Rightarrow> der \<Rightarrow> (u8 \<times> nat \<times> u8 list) list" and leaves_list :: "nat \<Rightarrow> der list \<Rightarrow> (u8 \<times> nat \<times> u8 list) list" where
  "leaves a (Leaf i c) = [(i, a + 1 + length (der_len (length c)), c)]"
| "leaves a (Node i ts) = leaves_list (a + 1 + length (der_len (length (encodes ts)))) ts"
| "leaves_list a [] = []"
| "leaves_list a (t # ts) = leaves a t @ leaves_list (a + length (encode t)) ts"

text \<open>The first primitive element of a type behind the identifier, as address and length.\<close>

fun find_element :: "u8 list \<Rightarrow> u8 \<Rightarrow> bool \<Rightarrow> (u8 \<times> nat \<times> u8 list) list \<Rightarrow> (nat \<times> nat) option \<times> bool" where
  "find_element oid ty matched [] = (None, matched)"
| "find_element oid ty matched ((i, a, c) # ls) =
     (if c = [] \<or> i AND 0xC0 \<noteq> 0 then find_element oid ty matched ls
      else if \<not> matched \<and> i AND 0x1F = 6 \<and> c = oid then find_element oid ty True ls
      else if matched \<and> i AND 0x1F = ty then (Some (a, length c), matched)
      else find_element oid ty matched ls)"

lemma find_element_append:
  "find_element oid ty m (xs @ ys) = (case find_element oid ty m xs of (Some r, m') \<Rightarrow> (Some r, m') | (None, m') \<Rightarrow> find_element oid ty m' ys)"
  by (induction oid ty m xs rule: find_element.induct) auto

lemma drop_Cons: "drop a mem = x # rest \<Longrightarrow> aget mem a = Some x \<and> drop (a + 1) mem = rest \<and> a < length mem"
proof -
  assume d: "drop a mem = x # rest"
  then have "a < length mem" by (metis drop_eq_Nil2 leI list.distinct(1))
  then show ?thesis using d Cons_nth_drop_Suc [of a mem] by (simp add: aget_def)
qed

lemma drop_append: "drop a mem = xs @ ys \<Longrightarrow> drop (a + length xs) mem = ys \<and> slice a (length xs) mem = xs \<and> (xs = [] \<or> a + length xs \<le> length mem)"
proof -
  assume d: "drop a mem = xs @ ys"
  then have "length mem - a = length xs + length ys" by (metis length_append length_drop)
  moreover have "drop (length xs) (drop a mem) = ys" "take (length xs) (drop a mem) = xs" unfolding d by simp_all
  ultimately show ?thesis by (cases xs) (auto simp: slice_def add.commute)
qed

lemma small_byte: "n < 128 \<Longrightarrow> (of_nat n :: u8) AND 0x80 = 0"
proof -
  assume n: "n < 128"
  have "\<not> bit n 7" using n by (simp add: bit_iff_odd)
  then have "(of_nat n :: u8) AND 2 ^ 7 = 0" unfolding and_exp_eq_0_iff_not_bit by (simp add: bit_simps)
  then show ?thesis by simp
qed

lemma len_bytes_simps: "len_bytes mem a (Suc 0) l = do { b \<leftarrow> aget mem a; Some (l * 256 + unat b, a + 1) }"
  "len_bytes mem a 2 l = do { b \<leftarrow> aget mem a; c \<leftarrow> aget mem (a + 1); Some ((l * 256 + unat b) * 256 + unat c, a + 2) }"
  by (simp_all add: eval_nat_numeral)

lemma read_length_der:
  assumes d: "drop (base + q) mem = der_len n @ rest" and n: "n < 65536"
  shows "read_length mem base q = Some (Some (n, q + length (der_len n)))"
proof -
  consider "n < 128" | "128 \<le> n" "n < 256" | "256 \<le> n" by linarith
  then show ?thesis
  proof cases
    case 1
    then show ?thesis using drop_Cons [of "base + q" mem "of_nat n" rest] d small_byte [OF 1] by (simp add: read_length_def der_len_def unat_of_nat)
  next
    case 2
    then show ?thesis using d drop_Cons [of "base + q" mem "0x81" "of_nat n # rest"] drop_Cons [of "base + q + 1" mem "of_nat n" rest]
      by (simp add: read_length_def der_len_def unat_of_nat len_bytes_simps)
  next
    case 3
    then have "n div 256 < 256" using n by simp
    then show ?thesis using 3 d drop_Cons [of "base + q" mem "0x82" "of_nat (n div 256) # of_nat (n mod 256) # rest"]
        drop_Cons [of "base + q + 1" mem "of_nat (n div 256)" "of_nat (n mod 256) # rest"] drop_Cons [of "base + q + 2" mem "of_nat (n mod 256)" rest]
      by (simp add: read_length_def der_len_def unat_of_nat len_bytes_simps)
  qed
qed

lemma read_header_der:
  assumes d: "drop (base + p) mem = i # der_len n @ rest" and n: "n < 65536" and i: "supported i" "null_tag i \<longrightarrow> n = 0"
    and fits: "p + 1 + length (der_len n) + n \<le> buf_len" "buf_len < 65536"
  shows "read_header mem base buf_len p = Some (Some
    \<lparr> is_sequence = (i AND 0x20 \<noteq> 0), is_universal_tag = (i AND 0xC0 = 0), tag = i AND 0x1F, len = n, pos = p + 1 + length (der_len n) \<rparr>)"
proof -
  have b: "aget mem (base + p) = Some i" and d': "drop (base + (p + 1)) mem = der_len n @ rest" using drop_Cons [OF d] by (simp_all add: add.assoc)
  have l: "read_length mem base (p + 1) = Some (Some (n, p + 1 + length (der_len n)))" using read_length_der [OF d' n] .
  let ?q = "p + 1 + length (der_len n)"
  have "buf_len + 2 ^ 64 - ?q = (buf_len - ?q) + 2 ^ 64" using fits by linarith
  then have "sub64 buf_len ?q = buf_len - ?q" using fits by (simp only: sub64_def mod_add_self2) (simp add: less_imp_diff_less)
  then have "\<not> n > sub64 buf_len ?q" using fits by linarith
  then show ?thesis using b l i unfolding read_header_def Let_def by (auto simp: supported_def null_tag_def der_len_def)
qed

lemma internal_step:
  assumes d: "drop (base + p) mem = i # der_len n @ body @ rest" "length body = n" and i: "supported i" "null_tag i \<longrightarrow> n = 0"
    and fits: "p + 1 + length (der_len n) + n \<le> buf_len" "buf_len < 65536"
  defines "q \<equiv> p + 1 + length (der_len n)"
  shows "get_data_from_asn1_internal mem oid ty base buf_len p m =
    (if n = 0 then get_data_from_asn1_internal mem oid ty base buf_len q m
     else if i AND 0x20 \<noteq> 0 then do {
       (ok, data, m) \<leftarrow> get_data_from_asn1_internal mem oid ty (base + q) n 0 m;
       if \<not> ok then Some (False, data, m) else if data \<noteq> None then Some (True, data, m)
       else get_data_from_asn1_internal mem oid ty base buf_len (q + n) m
     }
     else if i AND 0xC0 = 0 then
       if \<not> m \<and> i AND 0x1F = 6 \<and> body = oid then get_data_from_asn1_internal mem oid ty base buf_len (q + n) True
       else if m \<and> i AND 0x1F = ty then Some (True, Some (base + q, n), m)
       else get_data_from_asn1_internal mem oid ty base buf_len (q + n) m
     else get_data_from_asn1_internal mem oid ty base buf_len (q + n) m)"
proof -
  have "n < 65536" "p < buf_len" using fits by linarith+
  note h = read_header_der [OF d(1) this(1) i fits, folded q_def]
  have "drop (base + p + 1) mem = der_len n @ body @ rest" using drop_Cons [OF d(1)] by simp
  then have "drop (base + q) mem = body @ rest" using drop_append [of "base + p + 1" mem "der_len n"] by (simp add: q_def ac_simps)
  from drop_append [OF this] d(2) have s: "slice (base + q) n mem = body" "n = 0 \<or> base + q + n \<le> length mem" by auto
  have run: "get_data_from_asn1_internal mem oid ty base buf_len p m =
    (if n = 0 then get_data_from_asn1_internal mem oid ty base buf_len q m
     else if i AND 0x20 \<noteq> 0 then do {
       (ok, data, m) \<leftarrow> get_data_from_asn1_internal mem oid ty (base + q) n 0 m;
       if \<not> ok then Some (False, data, m) else if data \<noteq> None then Some (True, data, m)
       else get_data_from_asn1_internal mem oid ty base buf_len (q + n) m
     }
     else if i AND 0xC0 = 0 then
       if \<not> m \<and> i AND 0x1F = 6 \<and> n = length oid then
         if base + q + n > length mem then None
         else get_data_from_asn1_internal mem oid ty base buf_len (q + n) (m \<or> slice (base + q) n mem = oid)
       else if m \<and> i AND 0x1F = ty then Some (True, Some (base + q, n), m)
       else get_data_from_asn1_internal mem oid ty base buf_len (q + n) m
     else get_data_from_asn1_internal mem oid ty base buf_len (q + n) m)"
    by (subst get_data_from_asn1_internal.simps) (simp only: h \<open>p < buf_len\<close> if_True bind.simps option.case asn1_header.simps)
  show ?thesis
  proof (cases "n \<noteq> 0 \<and> \<not> m \<and> i AND 0x1F = 6 \<and> n = length oid")
    case True
    then have "\<not> base + q + n > length mem" using s(2) by auto
    then show ?thesis unfolding run using True s(1) by (cases "body = oid") simp_all
  next
    case False
    then show ?thesis unfolding run using d(2) by (cases "n = 0") auto
  qed
qed

text \<open>The search in the bytes is the search in the elements.\<close>

lemma internal_der:
  "list_all wf_der ts \<Longrightarrow> drop (base + p) mem = encodes ts @ rest \<Longrightarrow> buf_len = p + length (encodes ts) \<Longrightarrow> buf_len < 65536 \<Longrightarrow>
   get_data_from_asn1_internal mem oid ty base buf_len p m = Some (True, find_element oid ty m (leaves_list (base + p) ts))"
proof (induction "size_list size ts" arbitrary: ts base p rest buf_len m rule: less_induct)
  case less
  show ?case
  proof (cases ts)
    case Nil
    then show ?thesis using less.prems by (subst get_data_from_asn1_internal.simps) simp
  next
    case (Cons t us)
    define i where "i = (case t of Leaf i c \<Rightarrow> i | Node i vs \<Rightarrow> i)"
    define body where "body = (case t of Leaf i c \<Rightarrow> c | Node i vs \<Rightarrow> encodes vs)"
    let ?n = "length body" and ?q = "p + 1 + length (der_len (length body))"
    have enc: "encode t = i # der_len ?n @ body" by (cases t) (simp_all add: i_def body_def)
    have d: "drop (base + p) mem = i # der_len ?n @ body @ (encodes us @ rest)" using less.prems(2) Cons enc by simp
    have i: "supported i" "null_tag i \<longrightarrow> ?n = 0" using less.prems(1) Cons by (cases t; simp add: i_def body_def)+
    have fits: "?q + ?n \<le> buf_len" using less.prems(3) Cons enc by simp
    have after: "drop (base + (?q + ?n)) mem = encodes us @ rest"
      using drop_append [of "base + p" mem "encode t" "encodes us @ rest"] d enc by (simp add: ac_simps)
    have nx: "get_data_from_asn1_internal mem oid ty base buf_len (?q + ?n) m' =
        Some (True, find_element oid ty m' (leaves_list (base + p + length (encode t)) us))" for m'
      using less.hyps [OF _ _ after, of buf_len m'] less.prems Cons enc by (simp add: ac_simps)
    note step = internal_step [OF d refl i fits less.prems(4), of oid ty m]
    show ?thesis
    proof (cases t)
      case (Leaf j c)
      then show ?thesis using step nx less.prems(1) Cons by (auto simp: i_def body_def ac_simps)
    next
      case (Node j vs)
      have "drop (base + p + 1) mem = der_len ?n @ body @ encodes us @ rest" using drop_Cons [OF d] by simp
      then have inner: "drop (base + ?q + 0) mem = encodes vs @ (encodes us @ rest)"
        using drop_append [of "base + p + 1" mem "der_len ?n"] Node by (simp add: body_def ac_simps)
      have smaller: "size_list size vs < size_list size ts" using Cons Node by simp
      have "list_all wf_der vs" "?n = 0 + length (encodes vs)" "?n < 65536" using less.prems(1,4) Cons Node fits by (auto simp: body_def)
      from less.hyps [OF smaller this(1) inner this(2,3), of m]
      have sub: "get_data_from_asn1_internal mem oid ty (base + ?q) ?n 0 m = Some (True, find_element oid ty m (leaves_list (base + ?q) vs))" by simp
      have lv: "leaves (base + p) t = leaves_list (base + ?q) vs" using Node by (simp add: body_def ac_simps)
      have empty: "leaves_list (base + ?q) vs = []" if "?n = 0" using that Node by (cases vs) (auto simp: body_def elim: encode.elims)
      have "i AND 0x20 \<noteq> 0" using less.prems(1) Cons Node by (simp add: i_def)
      then show ?thesis using step sub nx empty
        by (cases "find_element oid ty m (leaves_list (base + ?q) vs)") (auto simp: Cons lv find_element_append split: option.splits)
    qed
  qed
qed

section \<open>Properties\<close>

text \<open>The arcs of an identifier as the argument \<open>oid_str\<close>: none, or the dotted string.\<close>

fun oid_arg :: "nat list option \<Rightarrow> string option" where
  "oid_arg None = None"
| "oid_arg (Some arcs) = Some (dotted arcs)"

fun oid_content :: "nat list option \<Rightarrow> u8 list" where
  "oid_content None = []"
| "oid_content (Some arcs) = oid_bytes arcs"

definition malloc_ok :: "nat \<Rightarrow> u8 list option" where
  "malloc_ok n = Some (replicate n 0xCC)"

lemma sized_malloc_ok: "sized_malloc malloc_ok"
  by (simp add: sized_malloc_def malloc_ok_def)

lemma dotted_nonempty: "valid_oid arcs \<Longrightarrow> dotted arcs \<noteq> []"
  using decimal_digits(2) by (auto simp: valid_oid_def dotted_Cons)

text \<open>
  C22. On well-formed DER data of less than 64 kilobytes \<open>get_data_from_asn1\<close> gives the address and the
  length of the first non-empty primitive element of the type asked for, in the order of the encoding and
  at any depth, behind the first object identifier equal to \<open>oid_str\<close>, or from the start when no
  identifier is given; when there is none it returns \<open>NULL\<close>. It reads no byte outside the data,
  whatever lies behind it.
\<close>

theorem get_data_from_asn1_finds:
  assumes "sized_malloc malloc" "\<forall>arcs. oid = Some arcs \<longrightarrow> valid_oid arcs \<and> malloc (1 + length (dotted arcs) + 2) \<noteq> None"
    and "list_all wf_der ts" "length (encodes ts) < 65536"
  shows "get_data_from_asn1 malloc (encodes ts) (length (encodes ts)) (oid_arg oid) ty =
    Some (fst (find_element (oid_content oid) ty (oid = None) (leaves_list 0 ts)))"
proof -
  have run: "get_data_from_asn1_internal (encodes ts) bs ty 0 (length (encodes ts)) 0 m = Some (True, find_element bs ty m (leaves_list 0 ts))" for bs m
    using internal_der [OF assms(3), of 0 0 "encodes ts" "[]"] assms(4) by simp
  show ?thesis
  proof (cases oid)
    case None
    then show ?thesis using run [of "[]" True] assms(4) by (simp add: get_data_from_asn1_def split: prod.splits)
  next
    case (Some arcs)
    then obtain fresh where v: "valid_oid arcs" "malloc (1 + length (dotted arcs) + 2) = Some fresh" using assms(2) by auto
    then show ?thesis using oid_from_str_dotted [OF assms(1) v(2,1)] run [of "oid_bytes arcs" False] assms(4) dotted_nonempty [OF v(1)]
      by (simp add: get_data_from_asn1_def Some split: prod.splits)
  qed
qed

text \<open>A sequence of an identifier and a set with a string in it.\<close>

definition der_example :: "der list" where
  "der_example = [Node 0x30 [Leaf 0x06 [0x2A, 0x86, 0x48], Leaf 0x05 [], Node 0x31 [Leaf 0x02 [7], Leaf 0x04 [1, 2, 3]]]]"

lemma oid_example: "oid_bytes [1, 2, 840] = [0x2A, 0x86, 0x48]" "valid_oid [1, 2, 840]"
  "dotted [1, 2, 840] = ''1.2.840''"
proof -
  show "oid_bytes [1, 2, 840] = [0x2A, 0x86, 0x48]" by (simp add: arc_bytes_def septets.simps)
  then show "valid_oid [1, 2, 840]" by (simp add: valid_oid_def del: oid_bytes.simps)
  have "char_of (48::nat) = CHR ''0''" "char_of (49::nat) = CHR ''1''" "char_of (50::nat) = CHR ''2''"
    "char_of (52::nat) = CHR ''4''" "char_of (56::nat) = CHR ''8''" by code_simp+
  then show "dotted [1, 2, 840] = ''1.2.840''" by (simp add: decimal.simps digit_def)
qed

theorem get_data_from_asn1_finds_witness:
  "dotted [1, 2, 840] = ''1.2.840'' \<and>
   encodes der_example = [0x30, 17, 0x06, 3, 0x2A, 0x86, 0x48, 0x05, 0, 0x31, 8, 0x02, 1, 7, 0x04, 3, 1, 2, 3] \<and>
   get_data_from_asn1 malloc_ok (encodes der_example) (length (encodes der_example)) (oid_arg (Some [1, 2, 840])) 0x04 = Some (Some (16, 3))"
proof -
  have "get_data_from_asn1 malloc_ok (encodes der_example) (length (encodes der_example)) (oid_arg (Some [1, 2, 840])) 0x04 =
    Some (fst (find_element (oid_content (Some [1, 2, 840])) 0x04 (Some [1, 2, 840 :: nat] = None) (leaves_list 0 der_example)))"
    by (rule get_data_from_asn1_finds [OF sized_malloc_ok])
      (simp_all add: oid_example(2) [simplified] malloc_ok_def der_example_def der_len_def supported_def null_tag_def)
  also have "\<dots> = Some (Some (16, 3))"
    unfolding oid_content.simps oid_example by (simp add: der_example_def der_len_def)
  finally show ?thesis using oid_example(3) by (simp add: der_example_def der_len_def)
qed

text \<open>
  C23. \<open>oid_from_str\<close> never writes outside the buffer it allocates, which is as long as the string and
  3 bytes: this is the assumption of its comment, and it holds for every string. The dotted form of an
  identifier whose arcs are in range gives the encoding of X.690: 40 times the first arc and the second
  one, then the others, in base 128 with the high bit set in all bytes of a number but the last.
\<close>

theorem oid_from_str_encodes:
  assumes "sized_malloc malloc"
  shows "(\<exists>r. oid_from_str malloc s = Some r) \<and>
    (\<forall>arcs. valid_oid arcs \<and> malloc (1 + length (dotted arcs) + 2) \<noteq> None \<longrightarrow>
      oid_from_str malloc (Some (dotted arcs)) = Some (Some (oid_bytes arcs)))"
  using oid_from_str_safe [OF assms] oid_from_str_dotted [OF assms] by blast

theorem oid_from_str_encodes_witness:
  "sized_malloc malloc_ok \<and> oid_from_str malloc_ok (Some ''1.2.840'') = Some (Some [0x2A, 0x86, 0x48])"
  using oid_from_str_encodes [OF sized_malloc_ok, of None] oid_example sized_malloc_ok
  by (metis malloc_ok_def option.distinct(1))


end
