(* ===== verification/Cregex.thy ===== *)
theory Cregex
  imports Prelude
begin

text \<open>
  Data of the regular expression engine (\<open>src/src/cregex.h\<close>): syntax trees, instructions,
  programs and character classes.

  A C string is the list of its characters, the terminating 0 included, and a pointer into it
  is an index or a suffix. \<open>char\<close> is signed, so characters are integers from -128 to 127.
\<close>

type_synonym cstring = "int list"

definition REGEX_VM_MAX_MATCHES :: nat where
  "REGEX_VM_MAX_MATCHES = 64"

definition CHAR_BIT :: nat where
  "CHAR_BIT = 8"

text \<open>
  The nodes of a parsed pattern. A class keeps the pattern text from its first character on
  (the pointer \<open>from\<close>); \<open>to\<close> is never read. \<open>nmax = -1\<close> stands for no upper bound.
\<close>

datatype cregex_node =
    EPSILON
  | CHARACTER int
  | ANY_CHARACTER
  | CHARACTER_CLASS cstring
  | CHARACTER_CLASS_NEGATED cstring
  | CONCATENATION cregex_node cregex_node
  | ALTERNATION cregex_node cregex_node
  | QUANTIFIER int int bool cregex_node
  | ANCHOR_BEGIN
  | ANCHOR_END
  | CAPTURE cregex_node

text \<open>The bitmap of a character class: \<open>(UCHAR_MAX + CHAR_BIT - 1) / CHAR_BIT\<close> bytes.\<close>

type_synonym cregex_char_class = "u8 list"

definition empty_class :: cregex_char_class where
  "empty_class = replicate 32 0"

text \<open>
  A negative character either indexes before the bitmap or shifts by a negative amount: both
  are undefined.
\<close>

definition cregex_char_class_contains :: "cregex_char_class \<Rightarrow> int \<Rightarrow> bool option" where
  "cregex_char_class_contains klass ch =
     (if ch < 0 then None
      else do {
        b \<leftarrow> aget klass (nat ch div CHAR_BIT);
        Some ((b AND push_bit (nat ch mod CHAR_BIT) 1) \<noteq> 0)
      })"

definition cregex_char_class_add :: "cregex_char_class \<Rightarrow> int \<Rightarrow> cregex_char_class option" where
  "cregex_char_class_add klass ch =
     (if ch < 0 then None
      else do {
        b \<leftarrow> aget klass (nat ch div CHAR_BIT);
        aset klass (nat ch div CHAR_BIT) (b OR push_bit (nat ch mod CHAR_BIT) 1)
      })"

text \<open>Instructions; the pointers \<open>first\<close>, \<open>second\<close> and \<open>target\<close> are indices into the program.\<close>

datatype cregex_program_instr =
    OP_MATCH
  | OP_CHARACTER int
  | OP_ANY_CHARACTER
  | OP_CHARACTER_CLASS cregex_char_class
  | OP_CHARACTER_CLASS_NEGATED cregex_char_class
  | OP_SPLIT nat nat
  | OP_JUMP nat
  | OP_ASSERT_BEGIN
  | OP_ASSERT_END
  | OP_SAVE nat

type_synonym cregex_program = "cregex_program_instr list"

section \<open>Character classes as sets\<close>

definition class_set :: "cregex_char_class \<Rightarrow> int set" where
  "class_set klass = {c. 0 \<le> c \<and> cregex_char_class_contains klass c = Some True}"

definition class_ok :: "cregex_char_class \<Rightarrow> bool" where
  "class_ok klass \<longleftrightarrow> length klass = 32"

lemma and_push1: "(b AND push_bit n 1 \<noteq> (0 :: u8)) \<longleftrightarrow> bit b n"
proof -
  have "b AND push_bit n 1 = (if bit b n then push_bit n 1 else 0)"
    by (rule bit_word_eqI) (auto simp: bit_simps)
  moreover have "bit b n \<Longrightarrow> push_bit n (1 :: u8) \<noteq> 0"
    using bit_imp_le_length [of b n] by (simp add: push_bit_eq_mult exp_eq_zero_iff)
  ultimately show ?thesis by simp
qed

lemma class_contains:
  assumes "class_ok klass" and "0 \<le> c" "c < 256"
  shows "cregex_char_class_contains klass c = Some (bit (klass ! (nat c div 8)) (nat c mod 8))"
  using assms by (simp add: cregex_char_class_contains_def class_ok_def aget_Some CHAR_BIT_def and_push1 [simplified])

lemma class_add:
  assumes ok: "class_ok klass" and c: "0 \<le> c" "c < 256"
  obtains klass' where "cregex_char_class_add klass c = Some klass'" "class_ok klass'"
    "\<And>d. 0 \<le> d \<Longrightarrow> d < 256 \<Longrightarrow>
       cregex_char_class_contains klass' d = Some (d = c \<or> cregex_char_class_contains klass d = Some True)"
proof -
  let ?i = "nat c div 8" and ?k = "nat c mod 8"
  let ?kl = "klass[?i := klass ! ?i OR push_bit ?k 1]"
  have i: "?i < 32" using c by simp
  have add: "cregex_char_class_add klass c = Some ?kl"
    using c i ok by (simp add: cregex_char_class_add_def class_ok_def CHAR_BIT_def array_simps)
  have ok': "class_ok ?kl" using ok by (simp add: class_ok_def)
  have "cregex_char_class_contains ?kl d = Some (d = c \<or> cregex_char_class_contains klass d = Some True)"
    if d: "0 \<le> d" "d < 256" for d
  proof (cases "nat d div 8 = ?i")
    case True
    have "bit (klass ! ?i OR push_bit ?k 1) (nat d mod 8) \<longleftrightarrow> bit (klass ! ?i) (nat d mod 8) \<or> nat d mod 8 = ?k"
      by (auto simp: bit_simps)
    moreover have "nat d mod 8 = ?k \<longleftrightarrow> d = c"
      using True c d by (metis div_mult_mod_eq nat_eq_iff2)
    ultimately show ?thesis using True i ok d class_contains [OF ok' d] class_contains [OF ok d]
      by (auto simp: class_ok_def)
  next
    case False
    then have "d \<noteq> c" by auto
    then show ?thesis using False class_contains [OF ok' d] class_contains [OF ok d] by simp
  qed
  then show thesis using that add ok' by blast
qed

end
