(* ===== verification/Cregex_VM.thy ===== *)
theory Cregex_VM
  imports Cregex
begin

text \<open>
  The virtual machine of \<open>src/src/cregex_vm.c\<close>. Two lists of threads advance over the string
  in step; adding a thread follows the instructions that consume no character. Pointers into
  the string are indices, \<^term>\<open>None\<close> is the null pointer.
\<close>

section \<open>The code\<close>

record vm_thread =
  visited :: nat
  thread_pc :: nat
  thread_matches :: "nat option list"

record vm_thread_list =
  nthreads :: nat
  threads :: "vm_thread list"

text \<open>The number of entries of \<open>matches\<close> that are copied.\<close>

definition ncopy :: "nat \<Rightarrow> nat" where
  "ncopy nmatches = (if nmatches \<le> REGEX_VM_MAX_MATCHES then nmatches else REGEX_VM_MAX_MATCHES)"

definition store_thread :: "nat \<Rightarrow> nat option list \<Rightarrow> nat \<Rightarrow> vm_thread_list \<Rightarrow> vm_thread_list option" where
  "store_thread pc matches nmatches lst = do {
     t \<leftarrow> aget (threads lst) (nthreads lst);
     ms \<leftarrow> memcpy (thread_matches t) 0 matches (ncopy nmatches);
     ts \<leftarrow> aset (threads lst) (nthreads lst) (t\<lparr> thread_pc := pc, thread_matches := ms \<rparr>);
     Some (lst\<lparr> threads := ts, nthreads := Suc (nthreads lst) \<rparr>)
   }"

text \<open>
  \<open>vm_add_thread\<close>. The code changes \<open>matches\<close> around the recursive call and restores it, so
  the array is passed by value here.
\<close>

partial_function (option) vm_add_thread ::
  "cregex_program \<Rightarrow> cstring \<Rightarrow> nat \<Rightarrow> nat \<Rightarrow> nat \<Rightarrow> nat option list \<Rightarrow> vm_thread_list \<Rightarrow> vm_thread_list option" where
  "vm_add_thread program str nmatches pc sp matches lst = do {
     t \<leftarrow> aget (threads lst) pc;
     if visited t = sp + 1 then Some lst
     else do {
       ts \<leftarrow> aset (threads lst) pc (t\<lparr> visited := sp + 1 \<rparr>);
       let lst1 = lst\<lparr> threads := ts \<rparr>;
       i \<leftarrow> aget program pc;
       case i of
         OP_SPLIT first second \<Rightarrow> do {
           lst2 \<leftarrow> vm_add_thread program str nmatches first sp matches lst1;
           vm_add_thread program str nmatches second sp matches lst2
         }
       | OP_JUMP target \<Rightarrow> vm_add_thread program str nmatches target sp matches lst1
       | OP_ASSERT_BEGIN \<Rightarrow>
           if sp = 0 then vm_add_thread program str nmatches (pc + 1) sp matches lst1 else Some lst1
       | OP_ASSERT_END \<Rightarrow> do {
           c \<leftarrow> aget str sp;
           if c = 0 then vm_add_thread program str nmatches (pc + 1) sp matches lst1 else Some lst1
         }
       | OP_SAVE save \<Rightarrow>
           if save < nmatches \<and> save < REGEX_VM_MAX_MATCHES then do {
             ms \<leftarrow> aset matches save (Some sp);
             vm_add_thread program str nmatches (pc + 1) sp ms lst1
           }
           else vm_add_thread program str nmatches (pc + 1) sp matches lst1
       | _ \<Rightarrow> store_thread pc matches nmatches lst1
     }
   }"

declare vm_add_thread.simps [code]

definition vm_estimate_threads :: "cregex_program \<Rightarrow> nat" where
  "vm_estimate_threads program = length program * 2"

text \<open>Whether the thread at an instruction that consumes a character goes on with character \<open>c\<close>.\<close>

definition consumes :: "cregex_program_instr \<Rightarrow> int \<Rightarrow> bool option" where
  "consumes i c =
     (case i of
        OP_CHARACTER ch \<Rightarrow> Some (c = ch)
      | OP_ANY_CHARACTER \<Rightarrow> Some (c \<noteq> 0)
      | OP_CHARACTER_CLASS k \<Rightarrow> cregex_char_class_contains k c
      | OP_CHARACTER_CLASS_NEGATED k \<Rightarrow> map_option Not (cregex_char_class_contains k c)
      | _ \<Rightarrow> None)"

record vm_state =
  vm_matched :: bool
  vm_matches :: "nat option list"
  vm_next :: vm_thread_list

text \<open>
  The inner \<open>for\<close> loop over the threads of \<open>current\<close>, from thread \<open>i\<close> on. A match sets
  \<open>current->nthreads\<close> to 0, which ends the loop. \<^term>\<open>None\<close> covers \<open>abort()\<close> too.
\<close>

function vm_step ::
  "cregex_program \<Rightarrow> cstring \<Rightarrow> nat \<Rightarrow> nat \<Rightarrow> vm_thread_list \<Rightarrow> nat \<Rightarrow> vm_state \<Rightarrow> vm_state option" where
  "vm_step program str nmatches sp current i s =
     (if i < nthreads current then do {
        t \<leftarrow> aget (threads current) i;
        instr \<leftarrow> aget program (thread_pc t);
        if instr = OP_MATCH then do {
          ms \<leftarrow> memcpy (vm_matches s) 0 (thread_matches t) (ncopy nmatches);
          Some (s\<lparr> vm_matched := True, vm_matches := ms \<rparr>)
        }
        else do {
          c \<leftarrow> aget str sp;
          go \<leftarrow> consumes instr c;
          if go then do {
            nxt \<leftarrow> vm_add_thread program str nmatches (thread_pc t + 1) (sp + 1) (thread_matches t) (vm_next s);
            vm_step program str nmatches sp current (Suc i) (s\<lparr> vm_next := nxt \<rparr>)
          }
          else vm_step program str nmatches sp current (Suc i) s
        }
      }
      else Some s)"
  by pat_completeness auto
termination
  by (relation "measure (\<lambda>(program, str, nmatches, sp, current, i, s). nthreads current - i)") auto

declare vm_step.simps [simp del]

text \<open>The outer \<open>for\<close> loop.\<close>

partial_function (option) vm_loop ::
  "cregex_program \<Rightarrow> cstring \<Rightarrow> nat \<Rightarrow> nat \<Rightarrow> vm_thread_list \<Rightarrow> vm_state \<Rightarrow> vm_state option" where
  "vm_loop program str nmatches sp current s = do {
     s1 \<leftarrow> vm_step program str nmatches sp current 0 s;
     let current1 = vm_next s1;
     let s2 = s1\<lparr> vm_next := current\<lparr> nthreads := 0 \<rparr> \<rparr>;
     if nthreads current1 = 0 then Some s2
     else do {
       c \<leftarrow> aget str sp;
       if c = 0 then Some s2 else vm_loop program str nmatches (sp + 1) current1 s2
     }
   }"

declare vm_loop.simps [code]

text \<open>\<open>memset\<close> of the two halves of the thread buffer.\<close>

definition empty_threads :: "nat \<Rightarrow> vm_thread_list" where
  "empty_threads n = \<lparr> nthreads = 0,
     threads = replicate n \<lparr> visited = 0, thread_pc = 0,
                             thread_matches = replicate REGEX_VM_MAX_MATCHES None \<rparr> \<rparr>"

definition vm_run_with_threads :: "cregex_program \<Rightarrow> cstring \<Rightarrow> nat \<Rightarrow> (bool \<times> nat option list) option" where
  "vm_run_with_threads program str nmatches = do {
     let n = length program;
     let matches = replicate nmatches None;
     current \<leftarrow> vm_add_thread program str nmatches 0 0 matches (empty_threads n);
     s \<leftarrow> vm_loop program str nmatches 0 current
       \<lparr> vm_matched = False, vm_matches = matches, vm_next = empty_threads n \<rparr>;
     Some (vm_matched s, vm_matches s)
   }"

text \<open>
  \<open>vm_run\<close> and \<open>cregex_program_run\<close>: -1 when the buffer cannot be allocated. \<open>matches\<close> is
  the caller's array before the call.
\<close>

definition cregex_program_run ::
  "bool \<Rightarrow> cregex_program \<Rightarrow> cstring \<Rightarrow> nat option list \<Rightarrow> nat \<Rightarrow> (int \<times> nat option list) option" where
  "cregex_program_run malloc_ok program str matches nmatches =
     (if \<not> malloc_ok then Some (-1, matches)
      else do {
        (m, ms) \<leftarrow> vm_run_with_threads program str nmatches;
        Some (if m then 1 else 0, ms)
      })"

section \<open>What a program can reach\<close>

text \<open>
  The moves of one thread as a relation on program counter, position and captures, with no
  bookkeeping: this is the specification of the machine.
\<close>

inductive vm_reach :: "cregex_program \<Rightarrow> cstring \<Rightarrow> nat \<Rightarrow> nat \<Rightarrow> nat \<Rightarrow> nat option list \<Rightarrow> bool"
  for program str k where
  reach_start: "vm_reach program str k 0 0 (replicate k None)"
| reach_first: "vm_reach program str k pc sp m \<Longrightarrow> program ! pc = OP_SPLIT a b \<Longrightarrow> vm_reach program str k a sp m"
| reach_second: "vm_reach program str k pc sp m \<Longrightarrow> program ! pc = OP_SPLIT a b \<Longrightarrow> vm_reach program str k b sp m"
| reach_jump: "vm_reach program str k pc sp m \<Longrightarrow> program ! pc = OP_JUMP a \<Longrightarrow> vm_reach program str k a sp m"
| reach_begin: "vm_reach program str k pc 0 m \<Longrightarrow> program ! pc = OP_ASSERT_BEGIN \<Longrightarrow> vm_reach program str k (pc + 1) 0 m"
| reach_end: "vm_reach program str k pc sp m \<Longrightarrow> program ! pc = OP_ASSERT_END \<Longrightarrow> str ! sp = 0 \<Longrightarrow>
    vm_reach program str k (pc + 1) sp m"
| reach_save: "vm_reach program str k pc sp m \<Longrightarrow> program ! pc = OP_SAVE j \<Longrightarrow>
    vm_reach program str k (pc + 1) sp (if j < k then m[j := Some sp] else m)"
| reach_char: "vm_reach program str k pc sp m \<Longrightarrow> consumes (program ! pc) (str ! sp) = Some True \<Longrightarrow>
    vm_reach program str k (pc + 1) (sp + 1) m"

text \<open>The moves that consume nothing.\<close>

definition eps :: "cregex_program \<Rightarrow> cstring \<Rightarrow> nat \<Rightarrow> nat \<Rightarrow> nat \<Rightarrow> bool" where
  "eps program str sp pc pc' \<longleftrightarrow>
     (case program ! pc of
        OP_SPLIT a b \<Rightarrow> pc' = a \<or> pc' = b
      | OP_JUMP a \<Rightarrow> pc' = a
      | OP_ASSERT_BEGIN \<Rightarrow> sp = 0 \<and> pc' = pc + 1
      | OP_ASSERT_END \<Rightarrow> str ! sp = 0 \<and> pc' = pc + 1
      | OP_SAVE j \<Rightarrow> pc' = pc + 1
      | _ \<Rightarrow> False)"

definition leaf :: "cregex_program_instr \<Rightarrow> bool" where
  "leaf i \<longleftrightarrow>
     (case i of
        OP_MATCH \<Rightarrow> True | OP_CHARACTER _ \<Rightarrow> True | OP_ANY_CHARACTER \<Rightarrow> True
      | OP_CHARACTER_CLASS _ \<Rightarrow> True | OP_CHARACTER_CLASS_NEGATED _ \<Rightarrow> True | _ \<Rightarrow> False)"

text \<open>A program whose control never leaves it.\<close>

definition wf_instr :: "nat \<Rightarrow> nat \<Rightarrow> cregex_program_instr \<Rightarrow> bool" where
  "wf_instr n pc i \<longleftrightarrow>
     (case i of
        OP_MATCH \<Rightarrow> True
      | OP_SPLIT a b \<Rightarrow> a < n \<and> b < n
      | OP_JUMP a \<Rightarrow> a < n
      | OP_CHARACTER_CLASS k \<Rightarrow> class_ok k \<and> pc + 1 < n
      | OP_CHARACTER_CLASS_NEGATED k \<Rightarrow> class_ok k \<and> pc + 1 < n
      | _ \<Rightarrow> pc + 1 < n)"

definition wf_prog :: "cregex_program \<Rightarrow> bool" where
  "wf_prog program \<longleftrightarrow> (\<forall>pc < length program. wf_instr (length program) pc (program ! pc))"

text \<open>Both the list's books and the soundness of its threads, at position \<open>sp\<close>.\<close>

definition marked :: "nat \<Rightarrow> vm_thread_list \<Rightarrow> nat set" where
  "marked sp l = {p. p < length (threads l) \<and> visited (threads l ! p) = sp + 1}"

definition active :: "vm_thread_list \<Rightarrow> nat list" where
  "active l = map thread_pc (take (nthreads l) (threads l))"

definition thread_ok :: "nat \<Rightarrow> vm_thread \<Rightarrow> bool" where
  "thread_ok sp t \<longleftrightarrow> length (thread_matches t) = REGEX_VM_MAX_MATCHES \<and> visited t \<le> sp + 1"

definition list_inv :: "cregex_program \<Rightarrow> cstring \<Rightarrow> nat \<Rightarrow> nat \<Rightarrow> vm_thread_list \<Rightarrow> bool" where
  "list_inv program str k sp l \<longleftrightarrow> length (threads l) = length program \<and> nthreads l \<le> length program \<and>
     (\<forall>t \<in> set (threads l). thread_ok sp t) \<and>
     distinct (active l) \<and> set (active l) = {p \<in> marked sp l. leaf (program ! p)} \<and>
     (\<forall>i < nthreads l. vm_reach program str k (thread_pc (threads l ! i)) sp (take k (thread_matches (threads l ! i)))) \<and>
     (\<forall>p \<in> marked sp l. \<exists>m. vm_reach program str k p sp m)"

text \<open>What adding a thread at \<open>pc\<close> does to the list.\<close>

definition added :: "cregex_program \<Rightarrow> cstring \<Rightarrow> nat \<Rightarrow> nat \<Rightarrow> nat \<Rightarrow> vm_thread_list \<Rightarrow> vm_thread_list \<Rightarrow> bool" where
  "added program str k sp pc l l' \<longleftrightarrow> list_inv program str k sp l' \<and> marked sp l \<subseteq> marked sp l' \<and> pc \<in> marked sp l' \<and>
     (\<forall>p \<in> marked sp l' - marked sp l. \<forall>q. eps program str sp p q \<longrightarrow> q \<in> marked sp l')"

section \<open>Adding a thread\<close>

definition mark :: "nat \<Rightarrow> nat \<Rightarrow> vm_thread_list \<Rightarrow> vm_thread_list" where
  "mark sp pc l = l\<lparr> threads := (threads l)[pc := (threads l ! pc)\<lparr> visited := sp + 1 \<rparr>] \<rparr>"

lemma mark_simps [simp]:
  "length (threads (mark sp pc l)) = length (threads l)" "nthreads (mark sp pc l) = nthreads l"
  by (simp_all add: mark_def)

lemma nth_mark:
  assumes "i < length (threads l)"
  shows "thread_pc (threads (mark sp pc l) ! i) = thread_pc (threads l ! i)"
    and "thread_matches (threads (mark sp pc l) ! i) = thread_matches (threads l ! i)"
    and "visited (threads (mark sp pc l) ! i) = (if i = pc then sp + 1 else visited (threads l ! i))"
  using assms by (cases "i = pc"; simp add: mark_def)+

lemma marked_mark: "pc < length (threads l) \<Longrightarrow> marked sp (mark sp pc l) = insert pc (marked sp l)"
  by (auto simp: marked_def nth_mark)

lemma active_mark: "nthreads l \<le> length (threads l) \<Longrightarrow> active (mark sp pc l) = active l"
  by (rule nth_equalityI) (auto simp: active_def nth_mark)

lemma mark_inv:
  assumes inv: "list_inv program str k sp l" and pc: "pc < length program" and "\<not> leaf (program ! pc)"
    and r: "vm_reach program str k pc sp m"
  shows "list_inv program str k sp (mark sp pc l)"
proof -
  have len: "length (threads l) = length program" "nthreads l \<le> length program" using inv by (simp_all add: list_inv_def)
  have "\<forall>t \<in> set (threads (mark sp pc l)). thread_ok sp t"
    using inv len unfolding list_inv_def all_set_conv_all_nth by (auto simp: nth_mark thread_ok_def)
  then show ?thesis using inv assms(3) len pc r unfolding list_inv_def
    by (auto simp: marked_mark active_mark nth_mark)
qed

lemma mark_store:
  assumes inv: "list_inv program str k sp l" and pc: "pc < length program" "pc \<notin> marked sp l"
    and lf: "leaf (program ! pc)" and r: "vm_reach program str k pc sp (take k ms)"
    and k: "k = ncopy nmatches" "k \<le> length ms"
  shows "\<exists>l'. store_thread pc ms nmatches (mark sp pc l) = Some l' \<and> list_inv program str k sp l' \<and>
     marked sp l' = insert pc (marked sp l)"
proof -
  let ?l = "mark sp pc l" and ?n = "nthreads l"
  have len: "length (threads l) = length program" "nthreads l \<le> length program" using inv by (simp_all add: list_inv_def)
  have lb: "length (thread_matches (threads l ! i)) = REGEX_VM_MAX_MATCHES" "visited (threads l ! i) \<le> sp + 1"
    if "i < length program" for i
  proof -
    have "thread_ok sp (threads l ! i)" using inv that len by (simp add: list_inv_def)
    then show "length (thread_matches (threads l ! i)) = REGEX_VM_MAX_MATCHES" "visited (threads l ! i) \<le> sp + 1"
      by (simp_all add: thread_ok_def)
  qed
  have act: "distinct (active l)" "set (active l) = {p \<in> marked sp l. leaf (program ! p)}"
    using inv by (simp_all add: list_inv_def)
  have "set (pc # active l) \<subseteq> {..<length program}" using pc(1) act(2) len by (auto simp: marked_def)
  moreover have "distinct (pc # active l)" using act pc(2) by simp
  ultimately have "length (pc # active l) \<le> length program"
    by (metis card_lessThan card_mono distinct_card finite_lessThan)
  then have n: "?n < length program" using len by (simp add: active_def)
  define t where "t = (threads ?l ! ?n)\<lparr> thread_pc := pc, thread_matches := take k ms @ drop k (thread_matches (threads ?l ! ?n)) \<rparr>"
  define l' where "l' = ?l\<lparr> threads := (threads ?l)[?n := t], nthreads := Suc ?n \<rparr>"
  have k64: "k \<le> REGEX_VM_MAX_MATCHES" by (simp add: k(1) ncopy_def)
  have lm: "length (thread_matches (threads ?l ! ?n)) = REGEX_VM_MAX_MATCHES" using lb(1) [OF n] n len by (simp add: nth_mark)
  have st: "store_thread pc ms nmatches ?l = Some l'"
    using n len lm k k64 by (simp add: store_thread_def array_simps l'_def t_def)
  have nth: "threads l' ! i = (if i = ?n then t else threads ?l ! i)" if "i < length program" for i
    using that n len by (simp add: l'_def)
  have m': "marked sp l' = insert pc (marked sp l)"
  proof -
    have "visited (threads l' ! i) = visited (threads ?l ! i)" if "i < length program" for i
      using nth [OF that] by (simp add: t_def)
    then have "marked sp l' = marked sp ?l" using len by (auto simp: marked_def l'_def)
    then show ?thesis using marked_mark pc len by simp
  qed
  have a': "active l' = active l @ [pc]"
  proof (rule nth_equalityI)
    show "length (active l') = length (active l @ [pc])" using n len by (simp add: active_def l'_def)
    fix i assume "i < length (active l')"
    then have i: "i < Suc ?n" "i < length program" using n len by (simp_all add: active_def l'_def)
    then show "active l' ! i = (active l @ [pc]) ! i"
      using n len nth [OF i(2)] by (auto simp: active_def nth_append nth_mark t_def l'_def less_Suc_eq)
  qed
  have "list_inv program str k sp l'" unfolding list_inv_def
  proof (intro conjI)
    show "\<forall>t \<in> set (threads l'). thread_ok sp t"
    proof -
      have "thread_ok sp (threads l' ! i)" if "i < length program" for i
        using nth [OF that] lb [OF that] that len k(2) k64 lm
        by (cases "i = ?n") (simp_all add: t_def nth_mark thread_ok_def)
      then show ?thesis using len by (simp add: all_set_conv_all_nth l'_def)
    qed
    show "distinct (active l')" using act pc(2) by (simp add: a')
    show "set (active l') = {p \<in> marked sp l'. leaf (program ! p)}" using act(2) lf by (auto simp: a' m')
    show "\<forall>i < nthreads l'. vm_reach program str k (thread_pc (threads l' ! i)) sp (take k (thread_matches (threads l' ! i)))"
    proof (intro allI impI)
      fix i assume "i < nthreads l'"
      then have i: "i < Suc ?n" "i < length program" using n by (simp_all add: l'_def)
      show "vm_reach program str k (thread_pc (threads l' ! i)) sp (take k (thread_matches (threads l' ! i)))"
        using i inv len r k(2) nth [OF i(2)] by (auto simp: list_inv_def nth_mark t_def less_Suc_eq)
    qed
    show "\<forall>p \<in> marked sp l'. \<exists>m. vm_reach program str k p sp m" using inv r by (auto simp: m' list_inv_def)
  qed (use n len in \<open>simp_all add: l'_def\<close>)
  with st m' show ?thesis by blast
qed

lemma addedI:
  assumes "list_inv program str k sp l'" and "marked sp l1 = insert pc (marked sp l)" and "marked sp l1 \<subseteq> marked sp l'"
    and "\<And>q. eps program str sp pc q \<Longrightarrow> q \<in> marked sp l'"
    and "\<And>p q. p \<in> marked sp l' - marked sp l1 \<Longrightarrow> eps program str sp p q \<Longrightarrow> q \<in> marked sp l'"
  shows "added program str k sp pc l l'"
proof -
  have "pc \<in> marked sp l'" "marked sp l \<subseteq> marked sp l'" using assms(2,3) by blast+
  moreover have "q \<in> marked sp l'" if "p \<in> marked sp l' - marked sp l" "eps program str sp p q" for p q
    using assms(4) [of q] assms(5) [of p q] assms(2) that by (cases "p = pc") auto
  ultimately show ?thesis unfolding added_def using assms(1) by blast
qed

text \<open>The outcome of a call, for use on the recursive calls.\<close>

lemma added_chain:
  assumes "added program str k sp a l1 l2" and "added program str k sp b l2 l3"
    and l1: "marked sp l1 = insert pc (marked sp l)"
    and succ: "\<And>q. eps program str sp pc q \<Longrightarrow> q = a \<or> q = b"
  shows "added program str k sp pc l l3"
proof (rule addedI [OF _ l1])
  show "list_inv program str k sp l3" "marked sp l1 \<subseteq> marked sp l3" using assms(1,2) unfolding added_def by blast+
  show "q \<in> marked sp l3" if "eps program str sp pc q" for q
    using succ [OF that] assms(1,2) unfolding added_def by blast
  show "q \<in> marked sp l3" if "p \<in> marked sp l3 - marked sp l1" "eps program str sp p q" for p q
    using that assms(1,2) unfolding added_def by (cases "p \<in> marked sp l2") blast+
qed

lemma added_one:
  assumes "added program str k sp a l1 l2" and l1: "marked sp l1 = insert pc (marked sp l)"
    and succ: "\<And>q. eps program str sp pc q \<Longrightarrow> q = a"
  shows "added program str k sp pc l l2"
proof (rule addedI [OF _ l1])
  show "list_inv program str k sp l2" "marked sp l1 \<subseteq> marked sp l2" using assms(1) unfolding added_def by blast+
  show "q \<in> marked sp l2" if "eps program str sp pc q" for q
    using succ [OF that] assms(1) unfolding added_def by blast
  show "q \<in> marked sp l2" if "p \<in> marked sp l2 - marked sp l1" "eps program str sp p q" for p q
    using that assms(1) unfolding added_def by blast
qed

lemma added_none:
  assumes "list_inv program str k sp l1" and "marked sp l1 = insert pc (marked sp l)"
    and "\<And>q. \<not> eps program str sp pc q"
  shows "added program str k sp pc l l1"
  using assms by (intro addedI [OF assms(1,2)]) auto

text \<open>\<open>sp\<close> can be read wherever an end of string is tested.\<close>

definition end_ok :: "cregex_program \<Rightarrow> cstring \<Rightarrow> nat \<Rightarrow> bool" where
  "end_ok program str sp \<longleftrightarrow> (OP_ASSERT_END \<in> set program \<longrightarrow> sp < length str)"

lemma card_marked_Suc:
  assumes "list_inv program str k sp l" and "pc < length program" "pc \<notin> marked sp l"
  shows "length program - card (insert pc (marked sp l)) < length program - card (marked sp l)"
proof -
  have len: "length (threads l) = length program" using assms(1) by (simp add: list_inv_def)
  have fin: "finite (marked sp l)" by (simp add: marked_def)
  have "insert pc (marked sp l) \<subseteq> {..<length program}" using assms(2) len by (auto simp: marked_def)
  then have "card (insert pc (marked sp l)) \<le> length program" using card_mono [of "{..<length program}"] by simp
  then show ?thesis using fin assms(3) by simp
qed

lemma vm_add_thread_correct:
  assumes wf: "wf_prog program" and e: "end_ok program str sp" and k: "k = ncopy nmatches"
  shows "list_inv program str k sp l \<Longrightarrow> pc < length program \<Longrightarrow> k \<le> length ms \<Longrightarrow>
    vm_reach program str k pc sp (take k ms) \<Longrightarrow>
    \<exists>l'. vm_add_thread program str nmatches pc sp ms l = Some l' \<and> added program str k sp pc l l'"
proof (induction "length program - card (marked sp l)" arbitrary: l pc ms rule: less_induct)
  case less
  have len: "length (threads l) = length program" using less.prems(1) by (simp add: list_inv_def)
  show ?case
  proof (cases "pc \<in> marked sp l")
    case True
    then have "vm_add_thread program str nmatches pc sp ms l = Some l"
      using len less.prems(2) by (subst vm_add_thread.simps) (simp add: marked_def array_simps)
    moreover have "added program str k sp pc l l" using True less.prems(1) by (simp add: added_def)
    ultimately show ?thesis by blast
  next
    case False
    let ?l1 = "mark sp pc l"
    have l1: "marked sp ?l1 = insert pc (marked sp l)" using marked_mark less.prems(2) len by simp
    have unfold: "vm_add_thread program str nmatches pc sp ms l =
       (case program ! pc of
         OP_SPLIT first second \<Rightarrow> do {
           lst2 \<leftarrow> vm_add_thread program str nmatches first sp ms ?l1;
           vm_add_thread program str nmatches second sp ms lst2
         }
       | OP_JUMP target \<Rightarrow> vm_add_thread program str nmatches target sp ms ?l1
       | OP_ASSERT_BEGIN \<Rightarrow>
           if sp = 0 then vm_add_thread program str nmatches (pc + 1) sp ms ?l1 else Some ?l1
       | OP_ASSERT_END \<Rightarrow> do {
           c \<leftarrow> aget str sp;
           if c = 0 then vm_add_thread program str nmatches (pc + 1) sp ms ?l1 else Some ?l1
         }
       | OP_SAVE save \<Rightarrow>
           if save < nmatches \<and> save < REGEX_VM_MAX_MATCHES then do {
             ms \<leftarrow> aset ms save (Some sp);
             vm_add_thread program str nmatches (pc + 1) sp ms ?l1
           }
           else vm_add_thread program str nmatches (pc + 1) sp ms ?l1
       | _ \<Rightarrow> store_thread pc ms nmatches ?l1)"
      using False len less.prems(2) aget_Some [of pc "threads l"] aset_Some [of pc "threads l"] aget_Some [of pc program]
      by (subst vm_add_thread.simps, cases "program ! pc") (simp_all add: marked_def mark_def Let_def cong: if_cong)
    have wfi: "wf_instr (length program) pc (program ! pc)" using wf less.prems(2) by (simp add: wf_prog_def)
    have IH: "\<exists>l'. vm_add_thread program str nmatches q sp ms' l2 = Some l' \<and> added program str k sp q l2 l'"
      if "list_inv program str k sp l2" "marked sp ?l1 \<subseteq> marked sp l2" "q < length program" "k \<le> length ms'"
        "vm_reach program str k q sp (take k ms')" for l2 q ms'
    proof (rule less.hyps)
      have "finite (marked sp l2)" by (simp add: marked_def)
      then have "card (insert pc (marked sp l)) \<le> card (marked sp l2)" using that(2) l1 by (intro card_mono) simp_all
      then show "length program - card (marked sp l2) < length program - card (marked sp l)"
        using card_marked_Suc [OF less.prems(1,2) False] by linarith
    qed (use that in simp_all)
    have inv1: "list_inv program str k sp ?l1" if "\<not> leaf (program ! pc)"
      using mark_inv [OF less.prems(1,2) that less.prems(4)] .
    show ?thesis
    proof (cases "leaf (program ! pc)")
      case True
      obtain l' where l': "store_thread pc ms nmatches ?l1 = Some l'" "list_inv program str k sp l'"
        "marked sp l' = insert pc (marked sp l)"
        using mark_store [OF less.prems(1,2) False True less.prems(4) k less.prems(3)] by blast
      have "vm_add_thread program str nmatches pc sp ms l = Some l'"
        using unfold l'(1) True by (cases "program ! pc") (simp_all add: leaf_def)
      moreover have "added program str k sp pc l l'"
        using True by (intro added_none [OF l'(2,3)]) (cases "program ! pc"; simp add: leaf_def eps_def)
      ultimately show ?thesis by blast
    next
      case nl: False
      note i1 = inv1 [OF nl]
      show ?thesis
      proof (cases "program ! pc")
        case (OP_SPLIT a b)
        have ab: "a < length program" "b < length program" using wfi OP_SPLIT by (simp_all add: wf_instr_def)
        obtain l2 where l2: "vm_add_thread program str nmatches a sp ms ?l1 = Some l2" "added program str k sp a ?l1 l2"
          using IH [OF i1 subset_refl ab(1) less.prems(3) reach_first [OF less.prems(4) OP_SPLIT]] by blast
        then have i2: "list_inv program str k sp l2" "marked sp ?l1 \<subseteq> marked sp l2" by (simp_all add: added_def)
        obtain l3 where l3: "vm_add_thread program str nmatches b sp ms l2 = Some l3" "added program str k sp b l2 l3"
          using IH [OF i2 ab(2) less.prems(3) reach_second [OF less.prems(4) OP_SPLIT]] by blast
        have "added program str k sp pc l l3"
          by (rule added_chain [OF l2(2) l3(2) l1]) (auto simp: eps_def OP_SPLIT)
        then show ?thesis using unfold OP_SPLIT l2(1) l3(1) by simp
      next
        case (OP_JUMP a)
        have a: "a < length program" using wfi OP_JUMP by (simp add: wf_instr_def)
        obtain l2 where l2: "vm_add_thread program str nmatches a sp ms ?l1 = Some l2" "added program str k sp a ?l1 l2"
          using IH [OF i1 subset_refl a less.prems(3) reach_jump [OF less.prems(4) OP_JUMP]] by blast
        have "added program str k sp pc l l2" by (rule added_one [OF l2(2) l1]) (simp add: eps_def OP_JUMP)
        then show ?thesis using unfold OP_JUMP l2(1) by simp
      next
        case OP_ASSERT_BEGIN
        show ?thesis
        proof (cases "sp = 0")
          case True
          have p1: "pc + 1 < length program" using wfi OP_ASSERT_BEGIN by (simp add: wf_instr_def)
          have "vm_reach program str k (pc + 1) sp (take k ms)"
            using reach_begin [OF _ OP_ASSERT_BEGIN] less.prems(4) True by simp
          from IH [OF i1 subset_refl p1 less.prems(3) this] obtain l2 where
            l2: "vm_add_thread program str nmatches (pc + 1) sp ms ?l1 = Some l2" "added program str k sp (pc + 1) ?l1 l2"
            by blast
          have "added program str k sp pc l l2" by (rule added_one [OF l2(2) l1]) (simp add: eps_def OP_ASSERT_BEGIN)
          then show ?thesis using unfold OP_ASSERT_BEGIN l2(1) True by simp
        next
          case False
          have "added program str k sp pc l ?l1" by (rule added_none [OF i1 l1]) (simp add: eps_def OP_ASSERT_BEGIN False)
          then show ?thesis using unfold OP_ASSERT_BEGIN False by simp
        qed
      next
        case OP_ASSERT_END
        have "OP_ASSERT_END \<in> set program" using OP_ASSERT_END less.prems(2) nth_mem by fastforce
        then have rd: "aget str sp = Some (str ! sp)" using e by (simp add: end_ok_def array_simps)
        show ?thesis
        proof (cases "str ! sp = 0")
          case True
          have p1: "pc + 1 < length program" using wfi OP_ASSERT_END by (simp add: wf_instr_def)
          from IH [OF i1 subset_refl p1 less.prems(3) reach_end [OF less.prems(4) OP_ASSERT_END True]] obtain l2 where
            l2: "vm_add_thread program str nmatches (pc + 1) sp ms ?l1 = Some l2" "added program str k sp (pc + 1) ?l1 l2"
            by blast
          have "added program str k sp pc l l2" by (rule added_one [OF l2(2) l1]) (simp add: eps_def OP_ASSERT_END)
          then show ?thesis using unfold OP_ASSERT_END l2(1) True rd by simp
        next
          case False
          have "added program str k sp pc l ?l1" by (rule added_none [OF i1 l1]) (simp add: eps_def OP_ASSERT_END False)
          then show ?thesis using unfold OP_ASSERT_END False rd by simp
        qed
      next
        case (OP_SAVE j)
        define ms' where "ms' = (if j < k then ms[j := Some sp] else ms)"
        have p1: "pc + 1 < length program" using wfi OP_SAVE by (simp add: wf_instr_def)
        have "take k ms' = (if j < k then (take k ms)[j := Some sp] else take k ms)"
          by (simp add: ms'_def take_update_swap)
        then have r: "vm_reach program str k (pc + 1) sp (take k ms')"
          using reach_save [OF less.prems(4) OP_SAVE] by simp
        have "k \<le> length ms'" using less.prems(3) by (simp add: ms'_def)
        from IH [OF i1 subset_refl p1 this r] obtain l2 where
          l2: "vm_add_thread program str nmatches (pc + 1) sp ms' ?l1 = Some l2" "added program str k sp (pc + 1) ?l1 l2"
          by blast
        have "added program str k sp pc l l2" by (rule added_one [OF l2(2) l1]) (simp add: eps_def OP_SAVE)
        moreover have "j < k \<longleftrightarrow> j < nmatches \<and> j < REGEX_VM_MAX_MATCHES" by (auto simp: k ncopy_def)
        ultimately show ?thesis using unfold OP_SAVE l2(1) less.prems(3)
          by (auto simp: ms'_def array_simps split: if_splits)
      qed (use nl in \<open>simp_all add: leaf_def\<close>)
    qed
  qed
qed

section \<open>Running a program\<close>

definition reachable :: "cregex_program \<Rightarrow> cstring \<Rightarrow> nat \<Rightarrow> nat \<Rightarrow> nat set" where
  "reachable program str k sp = {pc. \<exists>m. vm_reach program str k pc sp m}"

lemma reachable_subset:
  assumes start: "sp = 0 \<Longrightarrow> 0 \<in> M"
    and chars: "\<And>p sp'. sp = Suc sp' \<Longrightarrow> p \<in> reachable program str k sp' \<Longrightarrow>
      consumes (program ! p) (str ! sp') = Some True \<Longrightarrow> p + 1 \<in> M"
    and closed: "\<And>p q. p \<in> M \<Longrightarrow> eps program str sp p q \<Longrightarrow> q \<in> M"
  shows "reachable program str k sp \<subseteq> M"
proof -
  have "s = sp \<longrightarrow> p \<in> M" if "vm_reach program str k p s m" for p s m
    using that
  proof induction
    case (reach_char pc s m)
    then show ?case using chars [of s pc] by (auto simp: reachable_def)
  qed (use start closed in \<open>auto simp: eps_def\<close>)
  then show ?thesis by (auto simp: reachable_def)
qed

text \<open>Positions after one with no thread cannot be reached.\<close>

lemma reachable_stops:
  assumes "\<And>p. p \<in> reachable program str k sp \<Longrightarrow> \<not> leaf (program ! p)"
  shows "sp < sp' \<Longrightarrow> reachable program str k sp' = {}"
proof -
  have cl: "leaf i" if "consumes i c = Some True" for i c
    using that by (cases i) (simp_all add: consumes_def leaf_def)
  have "s \<le> sp" if "vm_reach program str k p s m" for p s m
    using that
  proof induction
    case (reach_char pc s m)
    then have "leaf (program ! pc)" by (rule_tac cl)
    then have "s \<noteq> sp" using assms [of pc] reach_char(1) by (auto simp: reachable_def)
    then show ?case using reach_char.IH by simp
  qed auto
  then show "sp < sp' \<Longrightarrow> reachable program str k sp' = {}" by (force simp: reachable_def)
qed

definition fresh :: "cregex_program \<Rightarrow> nat \<Rightarrow> vm_thread_list \<Rightarrow> bool" where
  "fresh program sp l \<longleftrightarrow> length (threads l) = length program \<and> nthreads l = 0 \<and>
     (\<forall>t \<in> set (threads l). length (thread_matches t) = REGEX_VM_MAX_MATCHES \<and> visited t \<le> sp)"

lemma fresh_inv:
  assumes "fresh program sp l"
  shows "list_inv program str k sp l" "marked sp l = {}"
proof -
  have "visited (threads l ! i) \<le> sp" if "i < length (threads l)" for i
    using assms that by (simp add: fresh_def)
  then show "marked sp l = {}" by (fastforce simp: marked_def)
  then show "list_inv program str k sp l"
    using assms by (auto simp: list_inv_def fresh_def thread_ok_def active_def)
qed

lemma inv_fresh: "list_inv program str k sp l \<Longrightarrow> fresh program (sp + 2) (l\<lparr> nthreads := 0 \<rparr>)"
  by (fastforce simp: list_inv_def fresh_def thread_ok_def)

lemma empty_fresh: "fresh program sp (empty_threads (length program))"
  by (simp add: fresh_def empty_threads_def)

text \<open>Every instruction that consumes a character can be tested on the characters of the string.\<close>

definition testable :: "cregex_program \<Rightarrow> cstring \<Rightarrow> bool" where
  "testable program str \<longleftrightarrow>
     (\<forall>i \<in> set program. leaf i \<and> i \<noteq> OP_MATCH \<longrightarrow> (\<forall>c \<in> set str. consumes i c \<noteq> None))"

definition no_read_past :: "cregex_program \<Rightarrow> cstring \<Rightarrow> nat \<Rightarrow> bool" where
  "no_read_past program str sp \<longleftrightarrow>
     end_ok program str (sp + 1) \<or> (\<forall>i \<in> set program. consumes i (str ! sp) \<noteq> Some True)"

text \<open>The captures of a match, when there is one.\<close>

definition match_ok :: "cregex_program \<Rightarrow> cstring \<Rightarrow> nat \<Rightarrow> nat \<Rightarrow> nat \<Rightarrow> vm_state \<Rightarrow> bool" where
  "match_ok program str nmatches k sp s \<longleftrightarrow> length (vm_matches s) = nmatches \<and>
     (if vm_matched s
      then \<exists>pc p. p \<le> sp \<and> pc < length program \<and> program ! pc = OP_MATCH \<and>
             vm_reach program str k pc p (take k (vm_matches s))
      else vm_matches s = replicate nmatches None)"

definition stepped :: "cregex_program \<Rightarrow> cstring \<Rightarrow> nat \<Rightarrow> nat \<Rightarrow> vm_thread_list \<Rightarrow> nat \<Rightarrow> vm_state \<Rightarrow> vm_state \<Rightarrow> bool" where
  "stepped program str k sp current i s s' \<longleftrightarrow> list_inv program str k (sp + 1) (vm_next s') \<and>
     marked (sp + 1) (vm_next s) \<subseteq> marked (sp + 1) (vm_next s') \<and>
     (\<forall>p \<in> marked (sp + 1) (vm_next s') - marked (sp + 1) (vm_next s). \<forall>q.
        eps program str (sp + 1) p q \<longrightarrow> q \<in> marked (sp + 1) (vm_next s')) \<and>
     (vm_matched s \<longrightarrow> vm_matched s') \<and>
     (\<not> vm_matched s' \<longrightarrow> (\<forall>p \<in> set (drop i (active current)). program ! p \<noteq> OP_MATCH \<and>
        (consumes (program ! p) (str ! sp) = Some True \<longrightarrow> p + 1 \<in> marked (sp + 1) (vm_next s'))))"

lemma active_drop:
  assumes "i < nthreads l" "nthreads l \<le> length (threads l)"
  shows "drop i (active l) = thread_pc (threads l ! i) # drop (Suc i) (active l)"
  using assms by (simp add: active_def Cons_nth_drop_Suc [symmetric])

lemma stepped_cons:
  assumes drop: "drop i (active current) = pc # drop (Suc i) (active current)"
    and "added program str k (sp + 1) (pc + 1) (vm_next s) nxt"
    and "stepped program str k sp current (Suc i) (s\<lparr> vm_next := nxt \<rparr>) s'" and "program ! pc \<noteq> OP_MATCH"
  shows "stepped program str k sp current i s s'"
proof -
  let ?M = "marked (sp + 1)"
  have a: "?M (vm_next s) \<subseteq> ?M nxt" "pc + 1 \<in> ?M nxt"
    "\<And>p q. p \<in> ?M nxt - ?M (vm_next s) \<Longrightarrow> eps program str (sp + 1) p q \<Longrightarrow> q \<in> ?M nxt"
    using assms(2) by (auto simp: added_def)
  have b: "?M nxt \<subseteq> ?M (vm_next s')"
    "\<And>p q. p \<in> ?M (vm_next s') - ?M nxt \<Longrightarrow> eps program str (sp + 1) p q \<Longrightarrow> q \<in> ?M (vm_next s')"
    using assms(3) by (auto simp: stepped_def)
  have c: "q \<in> ?M (vm_next s')" if "p \<in> ?M (vm_next s') - ?M (vm_next s)" "eps program str (sp + 1) p q" for p q
    using a(3) [of p q] b(2) [of p q] b(1) that by (cases "p \<in> ?M nxt") auto
  show ?thesis unfolding stepped_def drop
  proof (intro conjI impI ballI allI)
    show "?M (vm_next s) \<subseteq> ?M (vm_next s')" using a(1) b(1) by blast
    show "q \<in> ?M (vm_next s')" if "p \<in> ?M (vm_next s') - ?M (vm_next s)" "eps program str (sp + 1) p q" for p q
      using c that by blast
    show "program ! p \<noteq> OP_MATCH" if "\<not> vm_matched s'" "p \<in> set (pc # drop (Suc i) (active current))" for p
      using assms(3,4) that unfolding stepped_def by auto
    show "p + 1 \<in> ?M (vm_next s')"
      if "\<not> vm_matched s'" "p \<in> set (pc # drop (Suc i) (active current))" "consumes (program ! p) (str ! sp) = Some True" for p
      using assms(3,4) a(2) b(1) that unfolding stepped_def by auto
  qed (use assms(3) in \<open>simp_all add: stepped_def\<close>)
qed

lemma vm_step_correct:
  assumes wf: "wf_prog program" and cur: "list_inv program str k sp current" and sp: "sp < length str"
    and t: "testable program str" and e: "no_read_past program str sp" and k: "k = ncopy nmatches" and n: "sp \<le> n"
  shows "list_inv program str k (sp + 1) (vm_next s) \<Longrightarrow> match_ok program str nmatches k n s \<Longrightarrow>
    \<exists>s'. vm_step program str nmatches sp current i s = Some s' \<and> stepped program str k sp current i s s' \<and>
      match_ok program str nmatches k n s'"
proof (induction "nthreads current - i" arbitrary: i s)
  case 0
  then have "vm_step program str nmatches sp current i s = Some s" "drop i (active current) = []"
    by (simp_all add: vm_step.simps active_def)
  moreover have "stepped program str k sp current i s s"
    using "0.prems" calculation(2) by (simp add: stepped_def)
  ultimately show ?case using "0.prems"(2) by blast
next
  case (Suc d)
  let ?t = "threads current ! i"
  let ?pc = "thread_pc ?t"
  have i: "i < nthreads current" using Suc.hyps(2) by simp
  have len: "length (threads current) = length program" "nthreads current \<le> length program"
    using cur by (simp_all add: list_inv_def)
  have drop: "drop i (active current) = ?pc # drop (Suc i) (active current)" using active_drop i len by simp
  then have "?pc \<in> set (active current)" by (metis in_set_dropD list.set_intros(1))
  then have lf: "leaf (program ! ?pc)" and pc: "?pc < length program"
    using cur len by (auto simp: list_inv_def marked_def)
  have reach: "vm_reach program str k ?pc sp (take k (thread_matches ?t))"
    using cur i by (simp add: list_inv_def)
  have kt: "length (thread_matches ?t) = REGEX_VM_MAX_MATCHES" "k \<le> REGEX_VM_MAX_MATCHES" "k \<le> nmatches"
    using cur i len by (auto simp: list_inv_def thread_ok_def k ncopy_def)
  have start: "aget (threads current) i = Some ?t" "aget program ?pc = Some (program ! ?pc)" "aget str sp = Some (str ! sp)"
    using i len pc sp by (simp_all add: array_simps)
  show ?case
  proof (cases "program ! ?pc = OP_MATCH")
    case True
    let ?ms = "take k (thread_matches ?t) @ drop k (vm_matches s)"
    let ?s = "s\<lparr> vm_matched := True, vm_matches := ?ms \<rparr>"
    have lm: "length (vm_matches s) = nmatches" using Suc.prems(2) by (simp add: match_ok_def)
    have "vm_step program str nmatches sp current i s = Some ?s"
      using i start True kt lm by (simp add: vm_step.simps [of program] memcpy_Some k)
    moreover have "stepped program str k sp current i s ?s" using Suc.prems(1) by (simp add: stepped_def)
    moreover have "match_ok program str nmatches k n ?s"
      unfolding match_ok_def using lm kt reach True pc n by auto
    ultimately show ?thesis by blast
  next
    case False
    then obtain b where b: "consumes (program ! ?pc) (str ! sp) = Some b"
      using t lf pc sp unfolding testable_def by (metis nth_mem option.exhaust)
    have step: "vm_step program str nmatches sp current i s =
       (if b then do {
            nxt \<leftarrow> vm_add_thread program str nmatches (?pc + 1) (sp + 1) (thread_matches ?t) (vm_next s);
            vm_step program str nmatches sp current (Suc i) (s\<lparr> vm_next := nxt \<rparr>)
          }
          else vm_step program str nmatches sp current (Suc i) s)"
      using i start False b by (subst vm_step.simps) simp
    have d: "d = nthreads current - Suc i" using Suc.hyps(2) by simp
    show ?thesis
    proof (cases b)
      case True
      have eo: "end_ok program str (sp + 1)" using e b True pc unfolding no_read_past_def by (metis nth_mem)
      have pc1: "?pc + 1 < length program"
        using wf pc lf False unfolding wf_prog_def by (cases "program ! ?pc") (force simp: wf_instr_def leaf_def)+
      have "vm_reach program str k (?pc + 1) (sp + 1) (take k (thread_matches ?t))"
        using reach_char [OF reach] b True by simp
      note vm_add_thread_correct [OF wf eo k Suc.prems(1) pc1 _ this]
      then obtain nxt where nxt: "vm_add_thread program str nmatches (?pc + 1) (sp + 1) (thread_matches ?t) (vm_next s) = Some nxt"
        "added program str k (sp + 1) (?pc + 1) (vm_next s) nxt"
        using kt(1,2) by auto
      let ?s = "s\<lparr> vm_next := nxt \<rparr>"
      have "list_inv program str k (sp + 1) (vm_next ?s)" "match_ok program str nmatches k n ?s"
        using nxt(2) Suc.prems(2) by (simp_all add: added_def match_ok_def)
      then obtain s' where s': "vm_step program str nmatches sp current (Suc i) ?s = Some s'"
        "stepped program str k sp current (Suc i) ?s s'" "match_ok program str nmatches k n s'"
        using Suc.hyps(1) [OF d, of ?s] by blast
      have "stepped program str k sp current i s s'"
        by (rule stepped_cons [OF drop nxt(2) s'(2) False])
      then show ?thesis using s' step nxt(1) True by auto
    next
      case nb: False
      then obtain s' where s': "vm_step program str nmatches sp current (Suc i) s = Some s'"
        "stepped program str k sp current (Suc i) s s'" "match_ok program str nmatches k n s'"
        using Suc.hyps(1) [OF d, of s] Suc.prems by blast
      have "stepped program str k sp current i s s'"
        using s'(2) False b nb unfolding stepped_def drop by auto
      then show ?thesis using s' step nb by auto
    qed
  qed
qed

text \<open>The positions a match can be found at: those of the string and its terminator.\<close>

definition matches_at :: "cregex_program \<Rightarrow> cstring \<Rightarrow> nat \<Rightarrow> nat \<Rightarrow> bool" where
  "matches_at program str k sp \<longleftrightarrow>
     (\<exists>pc m. pc < length program \<and> program ! pc = OP_MATCH \<and> vm_reach program str k pc sp m)"

lemma matches_at_reachable:
  assumes "wf_prog program" "program \<noteq> []"
  shows "matches_at program str k sp \<longleftrightarrow> (\<exists>pc \<in> reachable program str k sp. program ! pc = OP_MATCH)"
proof -
  have "pc < length program" if "vm_reach program str k pc sp m" for pc sp m
    using that
  proof induction
    case (reach_char pc sp m)
    then have "wf_instr (length program) pc (program ! pc)" using assms by (simp add: wf_prog_def)
    then show ?case using reach_char(2) by (cases "program ! pc") (auto simp: wf_instr_def consumes_def)
  qed (use assms in \<open>force simp: wf_prog_def wf_instr_def\<close>)+
  then show ?thesis by (auto simp: matches_at_def reachable_def)
qed

lemma step_complete:
  assumes inv: "list_inv program str k sp current" and full: "reachable program str k sp \<subseteq> marked sp current"
    and fr: "fresh program (sp + 1) (vm_next s)" and st: "stepped program str k sp current 0 s s'" and "\<not> vm_matched s'"
  shows "reachable program str k (sp + 1) \<subseteq> marked (sp + 1) (vm_next s')"
    and "\<And>pc. pc \<in> reachable program str k sp \<Longrightarrow> program ! pc \<noteq> OP_MATCH"
proof -
  have act: "pc \<in> set (active current)" if "pc \<in> reachable program str k sp" "leaf (program ! pc)" for pc
    using inv full that by (auto simp: list_inv_def)
  then show "program ! pc \<noteq> OP_MATCH" if "pc \<in> reachable program str k sp" for pc
    using that st assms(5) by (fastforce simp: stepped_def leaf_def)
  show "reachable program str k (sp + 1) \<subseteq> marked (sp + 1) (vm_next s')"
  proof (rule reachable_subset)
    fix p q assume "p \<in> marked (sp + 1) (vm_next s')" "eps program str (sp + 1) p q"
    then show "q \<in> marked (sp + 1) (vm_next s')" using st fresh_inv(2) [OF fr] by (auto simp: stepped_def)
  next
    fix p sp' assume p: "sp + 1 = Suc sp'" "p \<in> reachable program str k sp'"
      and c: "consumes (program ! p) (str ! sp') = Some True"
    then have "leaf (program ! p)" by (cases "program ! p") (simp_all add: consumes_def leaf_def)
    then show "p + 1 \<in> marked (sp + 1) (vm_next s')" using act [of p] p c st assms(5) by (auto simp: stepped_def)
  qed simp
qed

lemma vm_loop_correct:
  assumes wf: "wf_prog program" "program \<noteq> []" and k: "k = ncopy nmatches"
    and str: "str = text @ 0 # rest" "0 \<notin> set text" and t: "testable program str"
    and e: "no_read_past program str (length text)"
  shows "sp \<le> length text \<Longrightarrow> list_inv program str k sp current \<Longrightarrow> fresh program (sp + 1) (vm_next s) \<Longrightarrow>
    match_ok program str nmatches k (length text) s \<Longrightarrow>
    (\<not> vm_matched s \<Longrightarrow> reachable program str k sp \<subseteq> marked sp current \<and> (\<forall>p < sp. \<not> matches_at program str k p)) \<Longrightarrow>
    \<exists>s'. vm_loop program str nmatches sp current s = Some s' \<and> match_ok program str nmatches k (length text) s' \<and>
      (\<not> vm_matched s' \<longrightarrow> (\<forall>p \<le> length text. \<not> matches_at program str k p))"
proof (induction "length text - sp" arbitrary: sp current s rule: less_induct)
  case less
  let ?n = "length text"
  have sp: "sp < length str" using less.prems(1) str(1) by simp
  have z: "str ! sp = 0 \<longleftrightarrow> sp = ?n"
    using less.prems(1) str by (auto simp: nth_append) (metis nat_less_le nth_mem)
  have nrp: "no_read_past program str sp"
    using e less.prems(1) str(1) by (cases "sp = ?n") (auto simp: no_read_past_def end_ok_def)
  obtain s1 where s1: "vm_step program str nmatches sp current 0 s = Some s1"
    "stepped program str k sp current 0 s s1" "match_ok program str nmatches k ?n s1"
    using vm_step_correct [OF wf(1) less.prems(2) sp t nrp k less.prems(1) fresh_inv(1) [OF less.prems(3)] less.prems(4)]
    by blast
  define s2 where "s2 = s1\<lparr> vm_next := current\<lparr> nthreads := 0 \<rparr> \<rparr>"
  have s2: "match_ok program str nmatches k ?n s2" "vm_matched s2 = vm_matched s1" "fresh program (Suc sp + 1) (vm_next s2)"
    using s1(3) inv_fresh [OF less.prems(2)] by (simp_all add: s2_def match_ok_def)
  have inv: "list_inv program str k (Suc sp) (vm_next s1)" using s1(2) by (simp add: stepped_def)
  have full: "reachable program str k (Suc sp) \<subseteq> marked (Suc sp) (vm_next s1)"
    and none: "\<forall>p < Suc sp. \<not> matches_at program str k p" if "\<not> vm_matched s1"
  proof -
    have "\<not> vm_matched s" using that s1(2) by (auto simp: stepped_def)
    then have f: "reachable program str k sp \<subseteq> marked sp current" "\<forall>p < sp. \<not> matches_at program str k p"
      using less.prems(5) by blast+
    note c = step_complete [OF less.prems(2) f(1) less.prems(3) s1(2) that]
    show "reachable program str k (Suc sp) \<subseteq> marked (Suc sp) (vm_next s1)" using c(1) by simp
    show "\<forall>p < Suc sp. \<not> matches_at program str k p"
      using f(2) c(2) matches_at_reachable [OF wf] by (auto simp: less_Suc_eq)
  qed
  have unf: "vm_loop program str nmatches sp current s =
      (if nthreads (vm_next s1) = 0 \<or> sp = ?n then Some s2 else vm_loop program str nmatches (sp + 1) (vm_next s1) s2)"
    using s1(1) sp z by (subst vm_loop.simps) (auto simp: aget_Some s2_def Let_def)
  show ?case
  proof (cases "nthreads (vm_next s1) = 0 \<or> sp = ?n")
    case True
    have "\<forall>p \<le> ?n. \<not> matches_at program str k p" if m: "\<not> vm_matched s1"
    proof (cases "sp = ?n")
      case False
      then have "active (vm_next s1) = []" using True by (simp add: active_def)
      then have nl: "\<not> leaf (program ! p)" if "p \<in> reachable program str k (Suc sp)" for p
        using inv full [OF m] that by (auto simp: list_inv_def)
      then have "\<not> matches_at program str k p" if "sp < p" for p
        using reachable_stops [of program str k "Suc sp" p] nl that matches_at_reachable [OF wf]
        by (cases "p = Suc sp") (fastforce simp: leaf_def)+
      then show ?thesis using none [OF m] by (metis less_Suc_eq_le not_less)
    qed (use none [OF m] in simp)
    then show ?thesis using unf True s2 by auto
  next
    case False
    then have *: "?n - Suc sp < ?n - sp" "Suc sp \<le> ?n" using less.prems(1) by auto
    show ?thesis using less.hyps [OF * inv s2(3,1)] full none s2(2) unf False by simp
  qed
qed

text \<open>
  The machine on a string of the caller: it always stops, never leaves an array, and answers
  whether some path of the program ends in a match, with the captures of such a path.
\<close>

lemma vm_run_correct:
  assumes wf: "wf_prog program" "program \<noteq> []"
    and str: "str = text @ 0 # rest" "0 \<notin> set text" and t: "testable program str"
    and e: "no_read_past program str (length text)"
  obtains b ms where "vm_run_with_threads program str nmatches = Some (b, ms)" "length ms = nmatches"
    "b \<longleftrightarrow> (\<exists>sp \<le> length text. matches_at program str (ncopy nmatches) sp)"
    "b \<Longrightarrow> \<exists>pc sp. sp \<le> length text \<and> pc < length program \<and> program ! pc = OP_MATCH \<and>
       vm_reach program str (ncopy nmatches) pc sp (take (ncopy nmatches) ms)"
    "\<not> b \<Longrightarrow> ms = replicate nmatches None"
proof -
  let ?k = "ncopy nmatches" and ?n = "length text" and ?e = "empty_threads (length program)"
  let ?m = "replicate nmatches (None :: nat option)"
  have inv: "list_inv program str ?k 0 ?e" "marked 0 ?e = {}" using fresh_inv [OF empty_fresh] by blast+
  have k: "?k \<le> nmatches" by (simp add: ncopy_def)
  have e0: "end_ok program str 0" using str(1) by (simp add: end_ok_def)
  have "vm_reach program str ?k 0 0 (take ?k ?m)" using reach_start [of program str ?k] k by (simp add: min_def)
  then obtain cur where cur: "vm_add_thread program str nmatches 0 0 ?m ?e = Some cur" "added program str ?k 0 0 ?e cur"
    using vm_add_thread_correct [OF wf(1) e0 refl inv(1), of 0 ?m] wf(2) k by auto
  define s where "s = \<lparr> vm_matched = False, vm_matches = ?m, vm_next = ?e \<rparr>"
  have full: "reachable program str ?k 0 \<subseteq> marked 0 cur"
    by (rule reachable_subset) (use cur(2) inv(2) in \<open>auto simp: added_def\<close>)
  have "match_ok program str nmatches ?k ?n s" "fresh program (0 + 1) (vm_next s)"
    using empty_fresh by (simp_all add: s_def match_ok_def)
  then obtain s' where s': "vm_loop program str nmatches 0 cur s = Some s'" "match_ok program str nmatches ?k ?n s'"
    "\<not> vm_matched s' \<longrightarrow> (\<forall>p \<le> ?n. \<not> matches_at program str ?k p)"
    using vm_loop_correct [OF wf refl str t e, of 0 nmatches cur s] full cur(2) by (auto simp: added_def)
  show thesis
  proof (rule that [of "vm_matched s'" "vm_matches s'"])
    show "vm_run_with_threads program str nmatches = Some (vm_matched s', vm_matches s')"
      using cur(1) s'(1) by (simp add: vm_run_with_threads_def Let_def s_def)
  qed (use s'(2,3) in \<open>auto simp: match_ok_def matches_at_def split: if_splits\<close>)
qed

end
