(* ===== verification/Cregex_Compile.thy ===== *)
theory Cregex_Compile
  imports Cregex
begin

text \<open>
  The compiler of \<open>src/src/cregex_compile.c\<close>: a syntax tree becomes a program written from left
  to right into an array of a size computed beforehand. \<^term>\<open>None\<close> is an access outside the
  array or the pattern, or a signed overflow.
\<close>

section \<open>The code\<close>

definition cint :: "int \<Rightarrow> int option" where
  "cint x = (if - INT_MAX - 1 \<le> x \<and> x \<le> INT_MAX then Some x else None)"

definition cadd :: "int \<Rightarrow> int \<Rightarrow> int option" where
  "cadd x y = cint (x + y)"

definition cmul :: "int \<Rightarrow> int \<Rightarrow> int option" where
  "cmul x y = cint (x * y)"

primrec count_instructions :: "cregex_node \<Rightarrow> int option" where
  "count_instructions EPSILON = Some 0"
| "count_instructions (CHARACTER ch) = Some 1"
| "count_instructions ANY_CHARACTER = Some 1"
| "count_instructions (CHARACTER_CLASS from) = Some 1"
| "count_instructions (CHARACTER_CLASS_NEGATED from) = Some 1"
| "count_instructions (CONCATENATION left right) = do {
     l \<leftarrow> count_instructions left;
     r \<leftarrow> count_instructions right;
     cadd l r
   }"
| "count_instructions (ALTERNATION left right) = do {
     l \<leftarrow> count_instructions left;
     x \<leftarrow> cadd 2 l;
     r \<leftarrow> count_instructions right;
     cadd x r
   }"
| "count_instructions (QUANTIFIER nmin nmax greedy quantified) = do {
     num \<leftarrow> count_instructions quantified;
     if nmax \<ge> nmin then do {
       x \<leftarrow> cmul nmin num;
       d \<leftarrow> cadd nmax (- nmin);
       num1 \<leftarrow> cadd num 1;
       y \<leftarrow> cmul d num1;
       cadd x y
     }
     else do {
       x \<leftarrow> (if nmin \<noteq> 0 then cmul nmin num else cadd num 1);
       cadd 1 x
     }
   }"
| "count_instructions ANCHOR_BEGIN = Some 1"
| "count_instructions ANCHOR_END = Some 1"
| "count_instructions (CAPTURE captured) = do {
     n \<leftarrow> count_instructions captured;
     cadd 2 n
   }"

primrec node_is_anchored :: "cregex_node \<Rightarrow> bool" where
  "node_is_anchored EPSILON = False"
| "node_is_anchored (CHARACTER ch) = False"
| "node_is_anchored ANY_CHARACTER = False"
| "node_is_anchored (CHARACTER_CLASS from) = False"
| "node_is_anchored (CHARACTER_CLASS_NEGATED from) = False"
| "node_is_anchored (CONCATENATION left right) = node_is_anchored left"
| "node_is_anchored (ALTERNATION left right) = (node_is_anchored left \<and> node_is_anchored right)"
| "node_is_anchored (QUANTIFIER nmin nmax greedy quantified) = node_is_anchored quantified"
| "node_is_anchored ANCHOR_BEGIN = True"
| "node_is_anchored ANCHOR_END = False"
| "node_is_anchored (CAPTURE captured) = node_is_anchored captured"

record regex_compile_context =
  instructions :: cregex_program
  cpc :: nat
  ncaptures :: nat

definition emit :: "regex_compile_context \<Rightarrow> cregex_program_instr \<Rightarrow> (nat \<times> regex_compile_context) option" where
  "emit context instruction = do {
     p \<leftarrow> aset (instructions context) (cpc context) instruction;
     Some (cpc context, context\<lparr> instructions := p, cpc := cpc context + 1 \<rparr>)
   }"

text \<open>An assignment to the fields of an instruction that is already emitted.\<close>

definition set_instr :: "regex_compile_context \<Rightarrow> nat \<Rightarrow> cregex_program_instr \<Rightarrow> regex_compile_context option" where
  "set_instr context i instruction = do {
     p \<leftarrow> aset (instructions context) i instruction;
     Some (context\<lparr> instructions := p \<rparr>)
   }"

text \<open>\<open>for (; ch <= hi; ++ch) cregex_char_class_add(klass, ch)\<close>.\<close>

function add_range :: "cregex_char_class \<Rightarrow> int \<Rightarrow> int \<Rightarrow> cregex_char_class option" where
  "add_range klass ch hi =
     (if ch \<le> hi then do {
        klass1 \<leftarrow> cregex_char_class_add klass ch;
        add_range klass1 (ch + 1) hi
      }
      else Some klass)"
  by pat_completeness auto
termination
  by (relation "measure (\<lambda>(klass, ch, hi). nat (hi - ch + 1))") auto

declare add_range.simps [simp del]

text \<open>\<open>*sp == '-' && sp[1] != ']'\<close>.\<close>

definition range_follows :: "cstring \<Rightarrow> bool option" where
  "range_follows sp = do {
     c \<leftarrow> aget sp 0;
     if c = 45 then do {
       d \<leftarrow> aget sp 1;
       Some (d \<noteq> 93)
     }
     else Some False
   }"

text \<open>The label \<open>CHARACTER\<close>: the class with the item that starts with \<open>ch\<close>, and the advance of \<open>sp\<close>.\<close>

definition add_item :: "cregex_char_class \<Rightarrow> int \<Rightarrow> cstring \<Rightarrow> (cregex_char_class \<times> nat) option" where
  "add_item klass ch sp = do {
     r \<leftarrow> range_follows sp;
     if r then do {
       hi \<leftarrow> aget sp 1;
       klass1 \<leftarrow> add_range klass ch hi;
       Some (klass1, 2)
     }
     else do {
       klass1 \<leftarrow> cregex_char_class_add klass ch;
       Some (klass1, 0)
     }
   }"

text \<open>
  The loop of \<open>compile_char_class\<close> from \<open>sp\<close> on; \<open>first\<close> is \<open>sp == node->from\<close>, where \<open>]\<close> is an
  ordinary character. \<open>\\\<close> is 92, \<open>]\<close> is 93.
\<close>

function char_class_loop :: "bool \<Rightarrow> cstring \<Rightarrow> cregex_char_class \<Rightarrow> cregex_char_class option" where
  "char_class_loop first [] klass = None"
| "char_class_loop first (ch # sp) klass =
     (if ch = 93 \<and> \<not> first then Some klass
      else if ch = 92 then
        (case sp of
           [] \<Rightarrow> None
         | ch1 # sp1 \<Rightarrow>
             (case add_item klass ch1 sp1 of
                None \<Rightarrow> None
              | Some (klass1, n) \<Rightarrow> char_class_loop False (drop n sp1) klass1))
      else
        (case add_item klass ch sp of
           None \<Rightarrow> None
         | Some (klass1, n) \<Rightarrow> char_class_loop False (drop n sp) klass1))"
  by pat_completeness auto
termination
  by (relation "measure (\<lambda>(first, sp, klass). length sp)") auto

definition compile_char_class :: "cstring \<Rightarrow> cregex_char_class \<Rightarrow> cregex_char_class option" where
  "compile_char_class from klass = char_class_loop True from klass"

text \<open>The operands of a split, exchanged when the quantifier is not greedy.\<close>

definition split_instr :: "bool \<Rightarrow> nat \<Rightarrow> nat \<Rightarrow> cregex_program_instr" where
  "split_instr greedy first second = (if greedy then OP_SPLIT first second else OP_SPLIT second first)"

text \<open>The loop over the mandatory copies of a quantified expression; the result has \<open>last\<close>.\<close>

primrec compile_min ::
  "nat \<Rightarrow> (regex_compile_context \<Rightarrow> (nat \<times> regex_compile_context) option) \<Rightarrow> nat \<Rightarrow> nat option \<Rightarrow>
   regex_compile_context \<Rightarrow> (nat option \<times> regex_compile_context) option" where
  "compile_min 0 body nc lastp context = Some (lastp, context)"
| "compile_min (Suc n) body nc lastp context = do {
     (l, context1) \<leftarrow> body (context\<lparr> ncaptures := nc \<rparr>);
     compile_min n body nc (Some l) context1
   }"

text \<open>The loop over the optional copies.\<close>

primrec compile_opt ::
  "nat \<Rightarrow> (regex_compile_context \<Rightarrow> (nat \<times> regex_compile_context) option) \<Rightarrow> nat \<Rightarrow> bool \<Rightarrow>
   regex_compile_context \<Rightarrow> regex_compile_context option" where
  "compile_opt 0 body nc greedy context = Some context"
| "compile_opt (Suc n) body nc greedy context = do {
     (split, context1) \<leftarrow> emit (context\<lparr> ncaptures := nc \<rparr>) (OP_SPLIT 0 0);
     (first, context2) \<leftarrow> body context1;
     context3 \<leftarrow> set_instr context2 split (split_instr greedy first (cpc context2));
     compile_opt n body nc greedy context3
   }"

text \<open>
  The result is \<open>bottom\<close>, the position of the first instruction. The fields of a split or a jump
  that the code assigns one by one are written together once both are known; nothing reads
  them before.
\<close>

primrec compile_context :: "cregex_node \<Rightarrow> regex_compile_context \<Rightarrow> (nat \<times> regex_compile_context) option" where
  "compile_context EPSILON context = Some (cpc context, context)"
| "compile_context (CHARACTER ch) context = emit context (OP_CHARACTER ch)"
| "compile_context ANY_CHARACTER context = emit context OP_ANY_CHARACTER"
| "compile_context (CHARACTER_CLASS from) context = do {
     (i, context1) \<leftarrow> emit context (OP_CHARACTER_CLASS empty_class);
     klass \<leftarrow> compile_char_class from empty_class;
     context2 \<leftarrow> set_instr context1 i (OP_CHARACTER_CLASS klass);
     Some (i, context2)
   }"
| "compile_context (CHARACTER_CLASS_NEGATED from) context = do {
     (i, context1) \<leftarrow> emit context (OP_CHARACTER_CLASS_NEGATED empty_class);
     klass \<leftarrow> compile_char_class from empty_class;
     context2 \<leftarrow> set_instr context1 i (OP_CHARACTER_CLASS_NEGATED klass);
     Some (i, context2)
   }"
| "compile_context (CONCATENATION left right) context = do {
     (l, context1) \<leftarrow> compile_context left context;
     (r, context2) \<leftarrow> compile_context right context1;
     Some (cpc context, context2)
   }"
| "compile_context (ALTERNATION left right) context = do {
     (split, context1) \<leftarrow> emit context (OP_SPLIT 0 0);
     (first, context2) \<leftarrow> compile_context left context1;
     (jump, context3) \<leftarrow> emit context2 (OP_JUMP 0);
     (second, context4) \<leftarrow> compile_context right context3;
     context5 \<leftarrow> set_instr context4 split (OP_SPLIT first second);
     context6 \<leftarrow> set_instr context5 jump (OP_JUMP (cpc context5));
     Some (cpc context, context6)
   }"
| "compile_context (QUANTIFIER nmin nmax greedy quantified) context = do {
     (lastp, context1) \<leftarrow> compile_min (nat nmin) (compile_context quantified) (ncaptures context) None context;
     if nmax > nmin then do {
       context2 \<leftarrow> compile_opt (nat (nmax - nmin)) (compile_context quantified) (ncaptures context) greedy context1;
       Some (cpc context, context2)
     }
     else if nmax = -1 then do {
       (split, context2) \<leftarrow> emit context1 (OP_SPLIT 0 0);
       if nmin = 0 then do {
         (first, context3) \<leftarrow> compile_context quantified context2;
         (jump, context4) \<leftarrow> emit context3 (OP_JUMP 0);
         context5 \<leftarrow> set_instr context4 jump (OP_JUMP split);
         context6 \<leftarrow> set_instr context5 split (split_instr greedy first (cpc context5));
         Some (cpc context, context6)
       }
       else do {
         first \<leftarrow> lastp;
         context3 \<leftarrow> set_instr context2 split (split_instr greedy first (cpc context2));
         Some (cpc context, context3)
       }
     }
     else Some (cpc context, context1)
   }"
| "compile_context ANCHOR_BEGIN context = emit context OP_ASSERT_BEGIN"
| "compile_context ANCHOR_END context = emit context OP_ASSERT_END"
| "compile_context (CAPTURE captured) context = do {
     let capture = ncaptures context * 2;
     (i, context1) \<leftarrow> emit (context\<lparr> ncaptures := ncaptures context + 1 \<rparr>) (OP_SAVE capture);
     (j, context2) \<leftarrow> compile_context captured context1;
     (k, context3) \<leftarrow> emit context2 (OP_SAVE (capture + 1));
     Some (cpc context, context3)
   }"

text \<open>The tree that is compiled for a pattern: a capture around it, after \<open>.*?\<close> unless it is anchored.\<close>

definition whole :: "cregex_node \<Rightarrow> cregex_node" where
  "whole root =
     (if \<not> node_is_anchored (CAPTURE root)
      then CONCATENATION (QUANTIFIER 0 (-1) False ANY_CHARACTER) (CAPTURE root) else CAPTURE root)"

definition compile_node_with_program :: "cregex_node \<Rightarrow> cregex_program \<Rightarrow> cregex_program option" where
  "compile_node_with_program root mem = do {
     (bottom, context) \<leftarrow> compile_context (whole root) \<lparr> instructions = mem, cpc = 0, ncaptures = 0 \<rparr>;
     (i, context1) \<leftarrow> emit context OP_MATCH;
     Some (take (cpc context1) (instructions context1))
   }"

definition estimate_instructions :: "cregex_node \<Rightarrow> int option" where
  "estimate_instructions root = do {
     n \<leftarrow> count_instructions root;
     x \<leftarrow> cadd n ((if node_is_anchored root then 0 else 1) * 3);
     y \<leftarrow> cadd x 2;
     cadd y 1
   }"

text \<open>
  \<open>mem\<close> gives the contents of fresh memory of the size asked for. The result is \<^term>\<open>Some None\<close>
  when there is no memory.
\<close>

definition cregex_compile_node :: "(nat \<Rightarrow> cregex_program option) \<Rightarrow> cregex_node \<Rightarrow> cregex_program option option" where
  "cregex_compile_node malloc root = do {
     n \<leftarrow> estimate_instructions root;
     case malloc (nat n) of
       None \<Rightarrow> Some None
     | Some mem \<Rightarrow> map_option Some (compile_node_with_program root mem)
   }"

section \<open>What the compiled code is\<close>

text \<open>The number of instructions, the captures of a node and the nodes a parser can build.\<close>

primrec csize :: "cregex_node \<Rightarrow> nat" where
  "csize EPSILON = 0"
| "csize (CHARACTER ch) = 1"
| "csize ANY_CHARACTER = 1"
| "csize (CHARACTER_CLASS from) = 1"
| "csize (CHARACTER_CLASS_NEGATED from) = 1"
| "csize (CONCATENATION left right) = csize left + csize right"
| "csize (ALTERNATION left right) = 2 + csize left + csize right"
| "csize (QUANTIFIER nmin nmax greedy q) = nat nmin * csize q +
     (if nmax \<ge> nmin then nat (nmax - nmin) * (csize q + 1) else if nmin = 0 then csize q + 2 else 1)"
| "csize ANCHOR_BEGIN = 1"
| "csize ANCHOR_END = 1"
| "csize (CAPTURE q) = 2 + csize q"

primrec ncaps :: "cregex_node \<Rightarrow> nat" where
  "ncaps EPSILON = 0"
| "ncaps (CHARACTER ch) = 0"
| "ncaps ANY_CHARACTER = 0"
| "ncaps (CHARACTER_CLASS from) = 0"
| "ncaps (CHARACTER_CLASS_NEGATED from) = 0"
| "ncaps (CONCATENATION left right) = ncaps left + ncaps right"
| "ncaps (ALTERNATION left right) = ncaps left + ncaps right"
| "ncaps (QUANTIFIER nmin nmax greedy q) = (if nmin = 0 \<and> nmax = 0 then 0 else ncaps q)"
| "ncaps ANCHOR_BEGIN = 0"
| "ncaps ANCHOR_END = 0"
| "ncaps (CAPTURE q) = 1 + ncaps q"

primrec node_ok :: "cregex_node \<Rightarrow> bool" where
  "node_ok EPSILON = True"
| "node_ok (CHARACTER ch) = True"
| "node_ok ANY_CHARACTER = True"
| "node_ok (CHARACTER_CLASS from) = (compile_char_class from empty_class \<noteq> None)"
| "node_ok (CHARACTER_CLASS_NEGATED from) = (compile_char_class from empty_class \<noteq> None)"
| "node_ok (CONCATENATION left right) = (node_ok left \<and> node_ok right)"
| "node_ok (ALTERNATION left right) = (node_ok left \<and> node_ok right)"
| "node_ok (QUANTIFIER nmin nmax greedy q) = (node_ok q \<and> 0 \<le> nmin \<and> nmin \<le> INT_MAX \<and>
     (nmax = -1 \<or> nmin \<le> nmax \<and> nmax \<le> INT_MAX))"
| "node_ok ANCHOR_BEGIN = True"
| "node_ok ANCHOR_END = True"
| "node_ok (CAPTURE q) = node_ok q"

text \<open>The code of a node at position \<open>pc\<close> of a program, its captures numbered from \<open>nc\<close>.\<close>

primrec code_at :: "cregex_program \<Rightarrow> cregex_node \<Rightarrow> nat \<Rightarrow> nat \<Rightarrow> bool" where
  "code_at p EPSILON pc nc \<longleftrightarrow> True"
| "code_at p (CHARACTER ch) pc nc \<longleftrightarrow> p ! pc = OP_CHARACTER ch"
| "code_at p ANY_CHARACTER pc nc \<longleftrightarrow> p ! pc = OP_ANY_CHARACTER"
| "code_at p (CHARACTER_CLASS from) pc nc \<longleftrightarrow>
     p ! pc = OP_CHARACTER_CLASS (the (compile_char_class from empty_class))"
| "code_at p (CHARACTER_CLASS_NEGATED from) pc nc \<longleftrightarrow>
     p ! pc = OP_CHARACTER_CLASS_NEGATED (the (compile_char_class from empty_class))"
| "code_at p (CONCATENATION l r) pc nc \<longleftrightarrow> code_at p l pc nc \<and> code_at p r (pc + csize l) (nc + ncaps l)"
| "code_at p (ALTERNATION l r) pc nc \<longleftrightarrow> p ! pc = OP_SPLIT (pc + 1) (pc + 2 + csize l) \<and>
     code_at p l (pc + 1) nc \<and> p ! (pc + 1 + csize l) = OP_JUMP (pc + 2 + csize l + csize r) \<and>
     code_at p r (pc + 2 + csize l) (nc + ncaps l)"
| "code_at p (QUANTIFIER nmin nmax greedy q) pc nc \<longleftrightarrow>
     (\<forall>i < nat nmin. code_at p q (pc + i * csize q) nc) \<and>
     (let e = pc + nat nmin * csize q in
      if nmax > nmin then
        \<forall>i < nat (nmax - nmin). let s = e + i * (csize q + 1) in
           p ! s = split_instr greedy (s + 1) (s + 1 + csize q) \<and> code_at p q (s + 1) nc
      else if nmax = -1 then
        if nmin = 0 then p ! e = split_instr greedy (e + 1) (e + 2 + csize q) \<and>
          code_at p q (e + 1) nc \<and> p ! (e + 1 + csize q) = OP_JUMP e
        else p ! e = split_instr greedy (e - csize q) (e + 1)
      else True)"
| "code_at p ANCHOR_BEGIN pc nc \<longleftrightarrow> p ! pc = OP_ASSERT_BEGIN"
| "code_at p ANCHOR_END pc nc \<longleftrightarrow> p ! pc = OP_ASSERT_END"
| "code_at p (CAPTURE q) pc nc \<longleftrightarrow> p ! pc = OP_SAVE (nc * 2) \<and> code_at p q (pc + 1) (nc + 1) \<and>
     p ! (pc + 1 + csize q) = OP_SAVE (nc * 2 + 1)"

text \<open>Every part of the node is small enough for its size to be counted in an \<open>int\<close>.\<close>

primrec fits :: "cregex_node \<Rightarrow> bool" where
  "fits EPSILON = True"
| "fits (CHARACTER ch) = True"
| "fits ANY_CHARACTER = True"
| "fits (CHARACTER_CLASS from) = True"
| "fits (CHARACTER_CLASS_NEGATED from) = True"
| "fits (CONCATENATION l r) = (fits l \<and> fits r \<and> int (csize (CONCATENATION l r)) < INT_MAX)"
| "fits (ALTERNATION l r) = (fits l \<and> fits r \<and> int (csize (ALTERNATION l r)) < INT_MAX)"
| "fits (QUANTIFIER nmin nmax greedy q) = (fits q \<and> int (csize (QUANTIFIER nmin nmax greedy q)) < INT_MAX)"
| "fits ANCHOR_BEGIN = True"
| "fits ANCHOR_END = True"
| "fits (CAPTURE q) = (fits q \<and> int (csize (CAPTURE q)) < INT_MAX)"

lemma fits_size: "fits node \<Longrightarrow> int (csize node) < INT_MAX"
  by (cases node) (auto simp: INT_MAX_def)

text \<open>The count of the code is the number of instructions, when no intermediate result overflows.\<close>

lemma cint_Some: "0 \<le> x \<Longrightarrow> x \<le> INT_MAX \<Longrightarrow> cint x = Some x"
  by (simp add: cint_def INT_MAX_def)

lemma count_instructions_csize:
  "node_ok node \<Longrightarrow> fits node \<Longrightarrow> count_instructions node = Some (int (csize node))"
proof (induction node)
  case (QUANTIFIER nmin nmax greedy q)
  have num: "count_instructions q = Some (int (csize q))" "int (csize q) < INT_MAX"
    using QUANTIFIER fits_size by auto
  define s where "s = csize q"
  have total: "int (csize (QUANTIFIER nmin nmax greedy q)) < INT_MAX" and n: "0 \<le> nmin" using QUANTIFIER.prems by auto
  show ?case
  proof (cases "nmax \<ge> nmin")
    case True
    have eq: "int (csize (QUANTIFIER nmin nmax greedy q)) = nmin * int s + (nmax - nmin) * (int s + 1)"
      using True n by (simp add: s_def algebra_simps)
    have nn: "0 \<le> nmin * int s" "0 \<le> (nmax - nmin) * (int s + 1)" "0 \<le> nmax - nmin" "nmax - nmin \<le> INT_MAX"
      using True n QUANTIFIER.prems(1) by auto
    moreover have "nmin * int s \<le> INT_MAX" "(nmax - nmin) * (int s + 1) \<le> INT_MAX" using nn total eq by linarith+
    ultimately show ?thesis using True num total eq
      by (simp add: cadd_def cmul_def cint_Some s_def)
  next
    case False
    have eq: "int (csize (QUANTIFIER nmin nmax greedy q)) = (if nmin = 0 then int s + 2 else nmin * int s + 1)"
      using False n by (simp add: s_def)
    have nn: "0 \<le> nmin * int s" using n by simp
    then show ?thesis using False num total eq by (auto simp: cadd_def cmul_def cint_Some s_def)
  qed
qed (auto simp: cadd_def cint_Some)

lemma quant_bound:
  assumes "i < (n :: nat)"
  shows "i * s + s \<le> n * s"
  using assms mult_le_mono1 [of "Suc i" n s] by simp

lemma code_at_cong:
  "(\<And>i. pc \<le> i \<Longrightarrow> i < pc + csize node \<Longrightarrow> p ! i = p' ! i) \<Longrightarrow> node_ok node \<Longrightarrow> code_at p node pc nc \<Longrightarrow> code_at p' node pc nc"
proof (induction node arbitrary: pc nc)
  case (QUANTIFIER nmin nmax greedy q)
  let ?s = "csize q" and ?e = "pc + nat nmin * csize q"
  have q: "code_at p' q x nc" if "code_at p q x nc" "pc \<le> x" "x + ?s \<le> pc + csize (QUANTIFIER nmin nmax greedy q)" for x
    using that QUANTIFIER.prems(2) by (intro QUANTIFIER.IH [OF QUANTIFIER.prems(1)]) auto
  have "code_at p' q (pc + i * ?s) nc" if "i < nat nmin" for i
    using QUANTIFIER.prems(3) that quant_bound [OF that, of ?s] by (intro q) auto
  moreover have "let s = ?e + i * (?s + 1) in p' ! s = split_instr greedy (s + 1) (s + 1 + ?s) \<and> code_at p' q (s + 1) nc"
    if "nmax > nmin" "i < nat (nmax - nmin)" for i
  proof -
    have b: "i * (?s + 1) + (?s + 1) \<le> nat (nmax - nmin) * (?s + 1)" by (rule quant_bound [OF that(2)])
    have "p ! (?e + i * (?s + 1)) = p' ! (?e + i * (?s + 1))"
      by (rule QUANTIFIER.prems(1)) (use b that in auto)
    moreover have "code_at p' q (?e + i * (?s + 1) + 1) nc"
      using QUANTIFIER.prems(3) that b by (intro q) (auto simp: Let_def)
    ultimately show ?thesis using QUANTIFIER.prems(3) that by (simp add: Let_def)
  qed
  moreover have "p' ! ?e = split_instr greedy (?e + 1) (?e + 2 + ?s) \<and> code_at p' q (?e + 1) nc \<and> p' ! (?e + 1 + ?s) = OP_JUMP ?e"
    if "\<not> nmax > nmin" "nmax = -1" "nmin = 0"
    using QUANTIFIER.prems(3) QUANTIFIER.prems(1) [of ?e] QUANTIFIER.prems(1) [of "?e + 1 + ?s"] q [of "?e + 1"] that
    by (simp add: Let_def)
  moreover have "p' ! ?e = split_instr greedy (?e - ?s) (?e + 1)" if "\<not> nmax > nmin" "nmax = -1" "nmin \<noteq> 0"
    using QUANTIFIER.prems(3) QUANTIFIER.prems(1) [of ?e] that QUANTIFIER.prems(2) by (simp add: Let_def)
  ultimately show ?case unfolding code_at.simps Let_def by simp
qed auto

text \<open>The effect of compiling a node.\<close>

definition compiled :: "cregex_node \<Rightarrow> regex_compile_context \<Rightarrow> regex_compile_context \<Rightarrow> bool" where
  "compiled node c c' \<longleftrightarrow> cpc c' = cpc c + csize node \<and> ncaptures c' = ncaptures c + ncaps node \<and>
     length (instructions c') = length (instructions c) \<and> code_at (instructions c') node (cpc c) (ncaptures c) \<and>
     (\<forall>i. i < cpc c \<or> cpc c' \<le> i \<longrightarrow> instructions c' ! i = instructions c ! i)"

lemma compile_min_correct:
  assumes body: "\<And>c. cpc c + csize q \<le> length (instructions c) \<Longrightarrow> \<exists>c'. compile_context q c = Some (cpc c, c') \<and> compiled q c c'"
    and ok: "node_ok q"
  shows "cpc c + n * csize q \<le> length (instructions c) \<Longrightarrow>
    \<exists>c'. compile_min n (compile_context q) nc lastp c =
        Some (if n = 0 then lastp else Some (cpc c + (n - 1) * csize q), c') \<and>
      cpc c' = cpc c + n * csize q \<and> length (instructions c') = length (instructions c) \<and>
      ncaptures c' = (if n = 0 then ncaptures c else nc + ncaps q) \<and>
      (\<forall>i < n. code_at (instructions c') q (cpc c + i * csize q) nc) \<and>
      (\<forall>i. i < cpc c \<or> cpc c' \<le> i \<longrightarrow> instructions c' ! i = instructions c ! i)"
proof (induction n arbitrary: c lastp)
  case 0
  show ?case by simp
next
  case (Suc n)
  let ?s = "csize q"
  let ?c = "c\<lparr> ncaptures := nc \<rparr>"
  obtain c1 where c1: "compile_context q ?c = Some (cpc c, c1)" "compiled q ?c c1"
    using body [of ?c] Suc.prems by auto
  have c1': "cpc c1 = cpc c + ?s" "length (instructions c1) = length (instructions c)" "ncaptures c1 = nc + ncaps q"
    "code_at (instructions c1) q (cpc c) nc"
    "\<And>i. i < cpc c \<or> cpc c1 \<le> i \<Longrightarrow> instructions c1 ! i = instructions c ! i"
    using c1(2) by (auto simp: compiled_def)
  obtain c2 where c2: "compile_min n (compile_context q) nc (Some (cpc c)) c1 =
        Some (if n = 0 then Some (cpc c) else Some (cpc c1 + (n - 1) * ?s), c2)"
      "cpc c2 = cpc c1 + n * ?s" "length (instructions c2) = length (instructions c1)"
      "ncaptures c2 = (if n = 0 then ncaptures c1 else nc + ncaps q)"
      "\<forall>i < n. code_at (instructions c2) q (cpc c1 + i * ?s) nc"
      "\<forall>i. i < cpc c1 \<or> cpc c2 \<le> i \<longrightarrow> instructions c2 ! i = instructions c1 ! i"
    using Suc.IH [of c1 "Some (cpc c)"] Suc.prems c1' by auto
  have "code_at (instructions c2) q (cpc c + i * ?s) nc" if "i < Suc n" for i
  proof (cases i)
    case 0
    show ?thesis using c2(6) c1'(1,4) 0 by (auto intro: code_at_cong [OF _ ok c1'(4)])
  next
    case (Suc j)
    then show ?thesis using c2(5) that c1'(1) by (simp add: add.assoc)
  qed
  moreover have "compile_min (Suc n) (compile_context q) nc lastp c = Some (Some (cpc c + n * ?s), c2)"
    using c1(1) c2(1) c1'(1) by (cases n) simp_all
  moreover have "instructions c2 ! i = instructions c ! i" if "i < cpc c \<or> cpc c2 \<le> i" for i
    using that c2(2,6) c1'(1,5) by (metis add_leD1 trans_less_add1)
  ultimately show ?case using c1' c2(2,3,4) by auto
qed

lemma emit_Some:
  "cpc c < length (instructions c) \<Longrightarrow>
   emit c i = Some (cpc c, c\<lparr> instructions := (instructions c)[cpc c := i], cpc := cpc c + 1 \<rparr>)"
  by (simp add: emit_def array_simps)

lemma set_instr_Some:
  "j < length (instructions c) \<Longrightarrow> set_instr c j i = Some (c\<lparr> instructions := (instructions c)[j := i] \<rparr>)"
  by (simp add: set_instr_def array_simps)

lemma compile_opt_correct:
  assumes body: "\<And>c. cpc c + csize q \<le> length (instructions c) \<Longrightarrow> \<exists>c'. compile_context q c = Some (cpc c, c') \<and> compiled q c c'"
    and ok: "node_ok q"
  shows "cpc c + n * (csize q + 1) \<le> length (instructions c) \<Longrightarrow>
    \<exists>c'. compile_opt n (compile_context q) nc greedy c = Some c' \<and>
      cpc c' = cpc c + n * (csize q + 1) \<and> length (instructions c') = length (instructions c) \<and>
      ncaptures c' = (if n = 0 then ncaptures c else nc + ncaps q) \<and>
      (\<forall>i < n. let s = cpc c + i * (csize q + 1) in
         instructions c' ! s = split_instr greedy (s + 1) (s + 1 + csize q) \<and> code_at (instructions c') q (s + 1) nc) \<and>
      (\<forall>i. i < cpc c \<or> cpc c' \<le> i \<longrightarrow> instructions c' ! i = instructions c ! i)"
proof (induction n arbitrary: c)
  case 0
  show ?case by simp
next
  case (Suc n)
  let ?s = "csize q"
  define c1 where "c1 = c\<lparr> ncaptures := nc, instructions := (instructions c)[cpc c := OP_SPLIT 0 0], cpc := cpc c + 1 \<rparr>"
  have room: "cpc c + 1 + ?s + n * (?s + 1) \<le> length (instructions c)" using Suc.prems by simp
  have e: "emit (c\<lparr> ncaptures := nc \<rparr>) (OP_SPLIT 0 0) = Some (cpc c, c1)" using room by (simp add: emit_Some c1_def)
  obtain c2 where c2: "compile_context q c1 = Some (cpc c + 1, c2)" "compiled q c1 c2"
    using body [of c1] room by (auto simp: c1_def)
  have c2': "cpc c2 = cpc c + 1 + ?s" "length (instructions c2) = length (instructions c)" "ncaptures c2 = nc + ncaps q"
    "code_at (instructions c2) q (cpc c + 1) nc"
    "\<And>i. i < cpc c \<or> cpc c2 \<le> i \<Longrightarrow> instructions c2 ! i = instructions c ! i"
    using c2(2) by (auto simp: compiled_def c1_def)
  define c3 where "c3 = c2\<lparr> instructions := (instructions c2)[cpc c := split_instr greedy (cpc c + 1) (cpc c2)] \<rparr>"
  have st: "set_instr c2 (cpc c) (split_instr greedy (cpc c + 1) (cpc c2)) = Some c3"
    using room c2'(2) by (simp add: set_instr_Some c3_def)
  have c3': "cpc c3 = cpc c + (?s + 1)" "length (instructions c3) = length (instructions c)" "ncaptures c3 = nc + ncaps q"
    "instructions c3 ! cpc c = split_instr greedy (cpc c + 1) (cpc c + 1 + ?s)"
    "\<And>i. i < cpc c \<or> cpc c3 \<le> i \<Longrightarrow> instructions c3 ! i = instructions c ! i"
    using c2' room by (auto simp: c3_def nth_list_update)
  have body3: "code_at (instructions c3) q (cpc c + 1) nc"
    by (rule code_at_cong [OF _ ok c2'(4)]) (simp add: c3_def)
  have room3: "cpc c3 + n * (?s + 1) \<le> length (instructions c3)" using room c3'(1,2) by simp
  obtain c4 where c4: "compile_opt n (compile_context q) nc greedy c3 = Some c4"
      "cpc c4 = cpc c3 + n * (?s + 1)" "length (instructions c4) = length (instructions c3)"
      "ncaptures c4 = (if n = 0 then ncaptures c3 else nc + ncaps q)"
      "\<forall>i < n. let s = cpc c3 + i * (?s + 1) in
         instructions c4 ! s = split_instr greedy (s + 1) (s + 1 + ?s) \<and> code_at (instructions c4) q (s + 1) nc"
      "\<forall>i. i < cpc c3 \<or> cpc c4 \<le> i \<longrightarrow> instructions c4 ! i = instructions c3 ! i"
    using Suc.IH [OF room3] by blast
  have "let s = cpc c + i * (?s + 1) in
         instructions c4 ! s = split_instr greedy (s + 1) (s + 1 + ?s) \<and> code_at (instructions c4) q (s + 1) nc"
    if "i < Suc n" for i
  proof (cases i)
    case 0
    have "code_at (instructions c4) q (cpc c + 1) nc"
      by (rule code_at_cong [OF _ ok body3]) (use c4(6) c3'(1) in simp)
    then show ?thesis using 0 c4(6) c3'(1,4) by simp
  next
    case (Suc j)
    have eq: "cpc c + i * (?s + 1) = cpc c3 + j * (?s + 1)" and j: "j < n" using Suc c3'(1) that by simp_all
    show ?thesis using c4(5) [rule_format, OF j] unfolding eq .
  qed
  moreover have "instructions c4 ! i = instructions c ! i" if "i < cpc c \<or> cpc c4 \<le> i" for i
    using that c4(2,6) c3'(1) c3'(5) [of i] by auto
  ultimately show ?case using e c2(1) st c4(1-4) c3'(1-3) by auto
qed

lemma compiled_emit:
  assumes "cpc c < length (instructions c)" and "csize node = 1" "ncaps node = 0"
    and "\<And>p. p ! cpc c = i \<Longrightarrow> code_at p node (cpc c) (ncaptures c)"
  shows "\<exists>c'. emit c i = Some (cpc c, c') \<and> compiled node c c'"
  using assms by (auto simp: emit_Some compiled_def)

lemma compile_class_correct:
  assumes "cpc c < length (instructions c)" and "csize node = 1" "ncaps node = 0"
    and "\<And>p. p ! cpc c = f klass \<Longrightarrow> code_at p node (cpc c) (ncaptures c)"
  shows "\<exists>c'. do {
     (i, context1) \<leftarrow> emit c (f empty_class);
     context2 \<leftarrow> set_instr context1 i (f klass);
     Some (i, context2)
   } = Some (cpc c, c') \<and> compiled node c c'"
  using assms by (auto simp: emit_Some set_instr_Some compiled_def)

lemma compile_star_correct:
  assumes body: "\<And>c. cpc c + csize q \<le> length (instructions c) \<Longrightarrow> \<exists>c'. compile_context q c = Some (cpc c, c') \<and> compiled q c c'"
    and ok: "node_ok q" and room: "cpc c + csize q + 2 \<le> length (instructions c)"
  shows "\<exists>c'. compile_context (QUANTIFIER 0 (-1) greedy q) c = Some (cpc c, c') \<and> compiled (QUANTIFIER 0 (-1) greedy q) c c'"
proof -
  let ?L = "length (instructions c)"
  define c1 where "c1 = c\<lparr> instructions := (instructions c)[cpc c := OP_SPLIT 0 0], cpc := cpc c + 1 \<rparr>"
  obtain c2 where c2: "compile_context q c1 = Some (cpc c1, c2)" "compiled q c1 c2"
    using body [of c1] room by (auto simp: c1_def)
  then have c2': "cpc c2 = cpc c + 1 + csize q" "length (instructions c2) = ?L" "ncaptures c2 = ncaptures c + ncaps q"
    by (auto simp: compiled_def c1_def)
  define c3 where "c3 = c2\<lparr> instructions := (instructions c2)[cpc c2 := OP_JUMP 0], cpc := cpc c2 + 1 \<rparr>"
  define c5 where "c5 = c3\<lparr> instructions := (instructions c2)[cpc c2 := OP_JUMP (cpc c),
    cpc c := split_instr greedy (cpc c + 1) (cpc c3)] \<rparr>"
  have e: "emit c (OP_SPLIT 0 0) = Some (cpc c, c1)" "emit c2 (OP_JUMP 0) = Some (cpc c2, c3)"
    using room c2' by (simp_all add: emit_Some c1_def c3_def)
  have run: "compile_context (QUANTIFIER 0 (-1) greedy q) c = Some (cpc c, c5)"
    using e room c2(1) c2' by (simp add: set_instr_Some c3_def) (simp add: c5_def c1_def c3_def)
  have frame: "instructions c5 ! i = instructions c2 ! i" if "i \<noteq> cpc c" "i \<noteq> cpc c2" for i
    using that by (simp add: c5_def)
  have "code_at (instructions c5) q (cpc c + 1) (ncaptures c)"
  proof (rule code_at_cong [of _ _ "instructions c2"])
    show "instructions c2 ! i = instructions c5 ! i" if "cpc c + 1 \<le> i" "i < cpc c + 1 + csize q" for i
      using that frame [of i] c2' by auto
  qed (use c2(2) ok in \<open>auto simp: compiled_def c1_def\<close>)
  moreover have "instructions c5 ! i = instructions c ! i" if "i < cpc c \<or> cpc c5 \<le> i" for i
    using that frame [of i] c2(2) c2' by (auto simp: compiled_def c1_def c3_def c5_def)
  ultimately have "compiled (QUANTIFIER 0 (-1) greedy q) c c5" unfolding compiled_def
    using c2' room by (auto simp: c5_def c3_def)
  then show ?thesis using run by blast
qed

lemma compile_quantifier_correct:
  assumes body: "\<And>c. cpc c + csize q \<le> length (instructions c) \<Longrightarrow> \<exists>c'. compile_context q c = Some (cpc c, c') \<and> compiled q c c'"
    and ok: "node_ok (QUANTIFIER nmin nmax greedy q)"
    and room: "cpc c + csize (QUANTIFIER nmin nmax greedy q) \<le> length (instructions c)"
  shows "\<exists>c'. compile_context (QUANTIFIER nmin nmax greedy q) c = Some (cpc c, c') \<and> compiled (QUANTIFIER nmin nmax greedy q) c c'"
proof -
  let ?s = "csize q" and ?n = "nat nmin" and ?nc = "ncaptures c"
  have okq: "node_ok q" and n: "0 \<le> nmin" "nmax = -1 \<or> nmin \<le> nmax" using ok by auto
  obtain c1 where c1: "compile_min ?n (compile_context q) ?nc None c =
        Some (if ?n = 0 then None else Some (cpc c + (?n - 1) * ?s), c1)"
      "cpc c1 = cpc c + ?n * ?s" "length (instructions c1) = length (instructions c)"
      "ncaptures c1 = (if ?n = 0 then ?nc else ?nc + ncaps q)"
      "\<forall>i < ?n. code_at (instructions c1) q (cpc c + i * ?s) ?nc"
      "\<forall>i. i < cpc c \<or> cpc c1 \<le> i \<longrightarrow> instructions c1 ! i = instructions c ! i"
    using compile_min_correct [OF body okq, of c ?n ?nc None] room by auto
  have keep: "\<forall>i < ?n. code_at p q (cpc c + i * ?s) ?nc" if p: "\<And>i. i < cpc c1 \<Longrightarrow> p ! i = instructions c1 ! i" for p
  proof (intro allI impI)
    fix i assume i: "i < ?n"
    show "code_at p q (cpc c + i * ?s) ?nc"
      by (rule code_at_cong [of _ _ "instructions c1"]) (use p quant_bound [OF i, of ?s] c1(2,5) i okq in auto)
  qed
  consider (opt) "nmax > nmin" | (star) "nmax = -1" "nmin = 0" | (plus) "nmax = -1" "nmin > 0" | (exact) "nmax = nmin"
    using n by linarith
  then show ?thesis
  proof cases
    case opt
    let ?d = "nat (nmax - nmin)"
    obtain c2 where c2: "compile_opt ?d (compile_context q) ?nc greedy c1 = Some c2"
        "cpc c2 = cpc c1 + ?d * (?s + 1)" "length (instructions c2) = length (instructions c1)"
        "ncaptures c2 = (if ?d = 0 then ncaptures c1 else ?nc + ncaps q)"
        "\<forall>i < ?d. let s = cpc c1 + i * (?s + 1) in
           instructions c2 ! s = split_instr greedy (s + 1) (s + 1 + ?s) \<and> code_at (instructions c2) q (s + 1) ?nc"
        "\<forall>i. i < cpc c1 \<or> cpc c2 \<le> i \<longrightarrow> instructions c2 ! i = instructions c1 ! i"
      using compile_opt_correct [OF body okq, of c1 ?d ?nc greedy] room opt c1(2,3) by auto
    have "compiled (QUANTIFIER nmin nmax greedy q) c c2"
      using c1(2,3,6) c2(2-6) opt n keep [of "instructions c2"] by (auto simp: compiled_def Let_def)
    then show ?thesis using c1(1) c2(1) opt by auto
  next
    case star
    then show ?thesis using compile_star_correct [OF body okq, of c greedy] room by simp
  next
    case plus
    define c3 where "c3 = c1\<lparr> instructions := (instructions c1)[cpc c1 := split_instr greedy (cpc c1 - ?s) (cpc c1 + 1)],
      cpc := cpc c1 + 1 \<rparr>"
    have l: "cpc c + (?n - 1) * ?s = cpc c1 - ?s" using plus c1(2) by (cases ?n) simp_all
    have room1: "cpc c1 < length (instructions c1)" using room plus c1(2,3) by simp
    have "compile_context (QUANTIFIER nmin nmax greedy q) c = Some (cpc c, c3)"
      using c1(1) l plus room1 by (simp add: emit_Some set_instr_Some) (simp add: c3_def)
    moreover have "compiled (QUANTIFIER nmin nmax greedy q) c c3"
      using c1(2-6) plus room1 keep [of "instructions c3"] by (auto simp: compiled_def Let_def c3_def)
    ultimately show ?thesis by blast
  next
    case exact
    then have "compile_context (QUANTIFIER nmin nmax greedy q) c = Some (cpc c, c1)" using c1(1) n by simp
    moreover have "compiled (QUANTIFIER nmin nmax greedy q) c c1" using c1(2-6) exact n by (auto simp: compiled_def)
    ultimately show ?thesis by blast
  qed
qed

lemma compile_context_correct:
  "node_ok node \<Longrightarrow> cpc c + csize node \<le> length (instructions c) \<Longrightarrow>
   \<exists>c'. compile_context node c = Some (cpc c, c') \<and> compiled node c c'"
proof (induction node arbitrary: c)
  case EPSILON
  show ?case by (simp add: compiled_def)
next
  case (CHARACTER ch)
  then show ?case using compiled_emit [of c "CHARACTER ch" "OP_CHARACTER ch"] by simp
next
  case ANY_CHARACTER
  then show ?case using compiled_emit [of c ANY_CHARACTER OP_ANY_CHARACTER] by simp
next
  case (CHARACTER_CLASS fr)
  then show ?case using compile_class_correct [of c "CHARACTER_CLASS fr" OP_CHARACTER_CLASS] by auto
next
  case (CHARACTER_CLASS_NEGATED fr)
  then show ?case using compile_class_correct [of c "CHARACTER_CLASS_NEGATED fr" OP_CHARACTER_CLASS_NEGATED] by auto
next
  case (CONCATENATION l r)
  have ok: "node_ok l" "node_ok r" using CONCATENATION.prems(1) by auto
  obtain c1 where c1: "compile_context l c = Some (cpc c, c1)" "compiled l c c1"
    using CONCATENATION.IH(1) [OF ok(1), of c] CONCATENATION.prems by auto
  obtain c2 where c2: "compile_context r c1 = Some (cpc c1, c2)" "compiled r c1 c2"
    using CONCATENATION.IH(2) [OF ok(2), of c1] CONCATENATION.prems c1(2) by (auto simp: compiled_def)
  have "code_at (instructions c2) l (cpc c) (ncaptures c)"
    by (rule code_at_cong [of _ _ "instructions c1"]) (use c1(2) c2(2) ok in \<open>auto simp: compiled_def\<close>)
  then show ?case using c1 c2 by (auto simp: compiled_def)
next
  case (ALTERNATION l r)
  have ok: "node_ok l" "node_ok r" using ALTERNATION.prems(1) by auto
  let ?L = "length (instructions c)"
  have room: "cpc c + 2 + csize l + csize r \<le> ?L" using ALTERNATION.prems by simp
  define c1 where "c1 = c\<lparr> instructions := (instructions c)[cpc c := OP_SPLIT 0 0], cpc := cpc c + 1 \<rparr>"
  obtain c2 where c2: "compile_context l c1 = Some (cpc c1, c2)" "compiled l c1 c2"
    using ALTERNATION.IH(1) [OF ok(1), of c1] room by (auto simp: c1_def)
  then have c2': "cpc c2 = cpc c + 1 + csize l" "length (instructions c2) = ?L" "ncaptures c2 = ncaptures c + ncaps l"
    by (auto simp: compiled_def c1_def)
  define c3 where "c3 = c2\<lparr> instructions := (instructions c2)[cpc c2 := OP_JUMP 0], cpc := cpc c2 + 1 \<rparr>"
  obtain c4 where c4: "compile_context r c3 = Some (cpc c3, c4)" "compiled r c3 c4"
    using ALTERNATION.IH(2) [OF ok(2), of c3] room c2' by (auto simp: c3_def)
  then have c4': "cpc c4 = cpc c + 2 + csize l + csize r" "length (instructions c4) = ?L"
    "ncaptures c4 = ncaptures c + ncaps l + ncaps r"
    using c2' by (auto simp: compiled_def c3_def)
  define c6 where "c6 = c4\<lparr> instructions := (instructions c4)[cpc c := OP_SPLIT (cpc c + 1) (cpc c3), cpc c2 := OP_JUMP (cpc c4)] \<rparr>"
  have e: "emit c (OP_SPLIT 0 0) = Some (cpc c, c1)" "emit c2 (OP_JUMP 0) = Some (cpc c2, c3)"
    using room c2' by (simp_all add: emit_Some c1_def c3_def)
  have run: "compile_context (ALTERNATION l r) c = Some (cpc c, c6)"
    using e room c2(1) c4(1) c2' c4' by (simp add: set_instr_Some) (simp add: c6_def c1_def c3_def)
  have frame: "instructions c6 ! i = instructions c4 ! i" if "i \<noteq> cpc c" "i \<noteq> cpc c2" for i
    using that by (simp add: c6_def)
  have "code_at (instructions c6) l (cpc c + 1) (ncaptures c)"
  proof (rule code_at_cong [of _ _ "instructions c2"])
    show "instructions c2 ! i = instructions c6 ! i" if "cpc c + 1 \<le> i" "i < cpc c + 1 + csize l" for i
      using that frame [of i] c2' c4(2) by (auto simp: compiled_def c3_def)
  qed (use c2(2) ok in \<open>auto simp: compiled_def c1_def\<close>)
  moreover have "code_at (instructions c6) r (cpc c + 2 + csize l) (ncaptures c + ncaps l)"
  proof (rule code_at_cong [of _ _ "instructions c4"])
    show "instructions c4 ! i = instructions c6 ! i" if "cpc c + 2 + csize l \<le> i" for i
      using that frame [of i] c2' by auto
  qed (use c4(2) ok c2' in \<open>auto simp: compiled_def c3_def\<close>)
  moreover have "instructions c6 ! i = instructions c ! i" if "i < cpc c \<or> cpc c6 \<le> i" for i
    using that frame [of i] c2(2) c4(2) c2' c4' by (auto simp: compiled_def c1_def c3_def c6_def)
  ultimately have "compiled (ALTERNATION l r) c c6" unfolding compiled_def
    using c4' c2' room by (auto simp: c6_def c3_def)
  then show ?case using run by blast
next
  case (QUANTIFIER nmin nmax greedy q)
  show ?case using compile_quantifier_correct [OF _ QUANTIFIER.prems] QUANTIFIER.IH QUANTIFIER.prems(1) by simp
next
  case ANCHOR_BEGIN
  then show ?case using compiled_emit [of c ANCHOR_BEGIN OP_ASSERT_BEGIN] by simp
next
  case ANCHOR_END
  then show ?case using compiled_emit [of c ANCHOR_END OP_ASSERT_END] by simp
next
  case (CAPTURE q)
  let ?L = "length (instructions c)"
  have room: "cpc c + 2 + csize q \<le> ?L" using CAPTURE.prems by simp
  define c1 where "c1 = c\<lparr> ncaptures := ncaptures c + 1,
    instructions := (instructions c)[cpc c := OP_SAVE (ncaptures c * 2)], cpc := cpc c + 1 \<rparr>"
  obtain c2 where c2: "compile_context q c1 = Some (cpc c1, c2)" "compiled q c1 c2"
    using CAPTURE.IH [of c1] CAPTURE.prems by (auto simp: c1_def)
  then have c2': "cpc c2 = cpc c + 1 + csize q" "length (instructions c2) = ?L" "ncaptures c2 = ncaptures c + 1 + ncaps q"
    by (auto simp: compiled_def c1_def)
  define c3 where "c3 = c2\<lparr> instructions := (instructions c2)[cpc c2 := OP_SAVE (ncaptures c * 2 + 1)], cpc := cpc c2 + 1 \<rparr>"
  have e: "emit (c\<lparr> ncaptures := ncaptures c + 1 \<rparr>) (OP_SAVE (ncaptures c * 2)) = Some (cpc c, c1)"
    "emit c2 (OP_SAVE (ncaptures c * 2 + 1)) = Some (cpc c2, c3)"
    using room c2' by (simp_all add: emit_Some c1_def c3_def)
  have run: "compile_context (CAPTURE q) c = Some (cpc c, c3)" using e c2(1) by (simp add: Let_def)
  have "code_at (instructions c3) q (cpc c + 1) (ncaptures c + 1)"
    by (rule code_at_cong [of _ _ "instructions c2"]) (use c2(2) c2' CAPTURE.prems in \<open>auto simp: compiled_def c1_def c3_def\<close>)
  moreover have "instructions c3 ! i = instructions c2 ! i" if "i \<noteq> cpc c2" for i using that by (simp add: c3_def)
  ultimately have "compiled (CAPTURE q) c c3"
    using c2(2) c2' room by (auto simp: compiled_def c3_def c1_def)
  then show ?case using run by blast
qed

section \<open>Compiling a pattern\<close>

lemma whole_ok: "node_ok root \<Longrightarrow> node_ok (whole root)"
  by (simp add: whole_def INT_MAX_def)

lemma estimate_exact:
  assumes "node_ok root" "fits root" "int (csize root) + 6 \<le> INT_MAX"
  shows "estimate_instructions root = Some (int (csize (whole root) + 1))"
  using count_instructions_csize [OF assms(1,2)] assms(3)
  by (simp add: estimate_instructions_def whole_def cadd_def cint_Some)

definition program_of :: "cregex_node \<Rightarrow> cregex_program \<Rightarrow> bool" where
  "program_of root p \<longleftrightarrow> length p = csize (whole root) + 1 \<and> code_at p (whole root) 0 0 \<and>
     p ! csize (whole root) = OP_MATCH"

lemma compile_node_correct:
  assumes ok: "node_ok root" and room: "length mem = csize (whole root) + 1"
  obtains p where "compile_node_with_program root mem = Some p" "program_of root p"
proof -
  let ?w = "whole root"
  let ?c = "\<lparr> instructions = mem, cpc = 0, ncaptures = 0 \<rparr>"
  obtain c where c: "compile_context ?w ?c = Some (0, c)" "compiled ?w ?c c"
    using compile_context_correct [OF whole_ok [OF ok], of ?c] room by auto
  then have c': "cpc c = csize ?w" "length (instructions c) = csize ?w + 1" "code_at (instructions c) ?w 0 0"
    using room by (simp_all add: compiled_def)
  let ?p = "(instructions c)[csize ?w := OP_MATCH]"
  have "compile_node_with_program root mem = Some ?p"
    using c(1) c' by (simp add: compile_node_with_program_def emit_Some)
  moreover have "code_at ?p ?w 0 0" by (rule code_at_cong [OF _ whole_ok [OF ok] c'(3)]) simp
  ultimately show thesis using c'(2) by (intro that [of ?p]) (simp_all add: program_of_def)
qed

end
