(* ===== verification/Cregex_Match.thy ===== *)
theory Cregex_Match
  imports Cregex_VM Cregex_Compile
begin

text \<open>
  What a pattern matches, and the proof that the compiled program does just that. A syntax tree
  denotes a relation on positions and captures; the machine's moves through the code of the tree
  realise that relation and nothing else.
\<close>

section \<open>Character classes\<close>

text \<open>The ranges a class lists, read off its text.\<close>

function class_items :: "bool \<Rightarrow> cstring \<Rightarrow> (int \<times> int) list option" where
  "class_items first [] = None"
| "class_items first (ch # sp) =
     (if ch = 93 \<and> \<not> first then Some []
      else if ch = 92 \<and> sp = [] then None
      else
        let (c, rest) = (if ch = 92 then (hd sp, tl sp) else (ch, sp)) in
        case range_follows rest of
          None \<Rightarrow> None
        | Some True \<Rightarrow> map_option ((#) (c, rest ! 1)) (class_items False (drop 2 rest))
        | Some False \<Rightarrow> map_option ((#) (c, c)) (class_items False rest))"
  by pat_completeness auto
termination
  by (relation "measure (\<lambda>(first, sp). length sp)") (auto split: if_splits)

declare class_items.simps [simp del]

definition class_chars :: "cstring \<Rightarrow> int set" where
  "class_chars cs = (\<Union>(a, b) \<in> set (the (class_items True cs)). {a..b})"

text \<open>How the bitmap of a class grows by a set of characters.\<close>

definition grows :: "cregex_char_class \<Rightarrow> int set \<Rightarrow> cregex_char_class \<Rightarrow> bool" where
  "grows klass A klass' \<longleftrightarrow> class_ok klass' \<and> A \<subseteq> {0..<256} \<and>
     (\<forall>c. 0 \<le> c \<and> c < 256 \<longrightarrow>
        cregex_char_class_contains klass' c = Some (c \<in> A \<or> cregex_char_class_contains klass c = Some True))"

lemma grows_trans: "grows k A k' \<Longrightarrow> grows k' B k'' \<Longrightarrow> grows k (A \<union> B) k''"
  by (auto simp: grows_def)

lemma grows_add:
  assumes "class_ok klass" and "cregex_char_class_add klass ch = Some klass'"
  shows "grows klass {ch} klass'"
proof -
  have "0 \<le> ch" "nat ch div 8 < 32"
    using assms by (auto simp: cregex_char_class_add_def class_ok_def CHAR_BIT_def bind_eq_Some_conv aget_def split: if_splits)
  then have ch: "0 \<le> ch" "ch < 256" by auto
  then obtain k where k: "cregex_char_class_add klass ch = Some k" "class_ok k"
    "\<And>d. 0 \<le> d \<Longrightarrow> d < 256 \<Longrightarrow>
       cregex_char_class_contains k d = Some (d = ch \<or> cregex_char_class_contains klass d = Some True)"
    by (rule class_add [OF assms(1)]) blast
  then show ?thesis using assms(2) ch by (simp add: grows_def)
qed

lemma grows_range:
  "add_range klass ch hi = Some klass' \<Longrightarrow> class_ok klass \<Longrightarrow> grows klass {ch..hi} klass'"
proof (induction klass ch hi rule: add_range.induct)
  case (1 klass ch hi)
  show ?case
  proof (cases "ch \<le> hi")
    case True
    then obtain k1 where k1: "cregex_char_class_add klass ch = Some k1" "add_range k1 (ch + 1) hi = Some klass'"
      using "1.prems"(1) by (subst (asm) add_range.simps) (auto simp: bind_eq_Some_conv)
    have g: "grows klass {ch} k1" using grows_add "1.prems"(2) k1(1) by blast
    have "grows k1 {ch + 1..hi} klass'" using "1.IH" [OF True k1] g by (simp add: grows_def)
    moreover have "{ch} \<union> {ch + 1..hi} = {ch..hi}" using True by auto
    ultimately show ?thesis using grows_trans [OF g] by metis
  next
    case False
    then show ?thesis using "1.prems" class_contains
      by (subst (asm) add_range.simps) (auto simp: grows_def)
  qed
qed

lemma grows_item:
  assumes "add_item klass ch sp = Some (klass', n)" and "class_ok klass"
  shows "\<exists>r. range_follows sp = Some r \<and> n = (if r then 2 else 0) \<and>
    grows klass (if r then {ch..sp ! 1} else {ch}) klass'"
proof -
  obtain r where r: "range_follows sp = Some r" using assms(1) by (auto simp: add_item_def bind_eq_Some_conv)
  show ?thesis using assms r grows_range [of klass ch "sp ! 1"] grows_add [of klass ch]
    by (auto simp: add_item_def bind_eq_Some_conv dest!: aget_eq_SomeD split: if_splits)
qed

lemma class_loop_items:
  "char_class_loop first sp klass = Some klass' \<Longrightarrow> class_ok klass \<Longrightarrow>
   \<exists>its. class_items first sp = Some its \<and> grows klass (\<Union>(a, b) \<in> set its. {a..b}) klass'"
proof (induction first sp klass rule: char_class_loop.induct)
  case (2 first ch sp klass)
  have step: ?case
    if it: "add_item klass c rest = Some (k1, n)" "char_class_loop False (drop n rest) k1 = Some klass'"
      and IH: "class_ok k1 \<Longrightarrow> \<exists>its. class_items False (drop n rest) = Some its \<and> grows k1 (\<Union>(a, b) \<in> set its. {a..b}) klass'"
      and cr: "(c, rest) = (if ch = 92 then (hd sp, tl sp) else (ch, sp))" "\<not> (ch = 92 \<and> sp = [])" "\<not> (ch = 93 \<and> \<not> first)"
    for c rest k1 n
  proof -
    obtain r where r: "range_follows rest = Some r" "n = (if r then 2 else 0)"
      "grows klass (if r then {c..rest ! 1} else {c}) k1"
      using grows_item [OF it(1) "2.prems"(2)] by blast
    obtain its where its: "class_items False (drop n rest) = Some its" "grows k1 (\<Union>(a, b) \<in> set its. {a..b}) klass'"
      using IH r(3) by (auto simp: grows_def)
    have "class_items first (ch # sp) = Some ((c, if r then rest ! 1 else c) # its)"
      using cr its(1) r(1,2) by (subst class_items.simps) (auto simp: Let_def split: bool.splits prod.splits)
    moreover have "grows klass (\<Union>(a, b) \<in> set ((c, if r then rest ! 1 else c) # its). {a..b}) klass'"
      using grows_trans [OF r(3) its(2)] by (simp split: if_splits)
    ultimately show ?thesis by blast
  qed
  show ?case
  proof (cases "ch = 93 \<and> \<not> first")
    case True
    then have "klass' = klass" "class_items first (ch # sp) = Some []"
      using "2.prems" by (auto simp: class_items.simps)
    then show ?thesis using "2.prems"(2) class_contains by (auto simp: grows_def)
  next
    case F: False
    show ?thesis
    proof (cases "ch = 92")
      case True
      then obtain c rest where sp: "sp = c # rest" using "2.prems"(1) F by (cases sp) (auto split: if_splits)
      obtain k1 n where it: "add_item klass c rest = Some (k1, n)" "char_class_loop False (drop n rest) k1 = Some klass'"
        using "2.prems"(1) F True sp by (auto split: if_splits option.splits)
      show ?thesis by (rule step [OF it "2.IH"(1) [OF F True sp it(1) refl it(2)]]) (use True sp in auto)
    next
      case False
      obtain k1 n where it: "add_item klass ch sp = Some (k1, n)" "char_class_loop False (drop n sp) k1 = Some klass'"
        using "2.prems"(1) F False by (auto split: if_splits option.splits)
      show ?thesis by (rule step [OF it "2.IH"(2) [OF F False it(1) refl it(2)]]) (use False F in auto)
    qed
  qed
qed simp

lemma compile_class_set:
  assumes "compile_char_class cs empty_class = Some klass"
  shows "class_ok klass" and "cregex_char_class_contains klass c = Some True \<longleftrightarrow> c \<in> class_chars cs"
    and "0 \<le> c \<Longrightarrow> c < 256 \<Longrightarrow> cregex_char_class_contains klass c = Some (c \<in> class_chars cs)"
    and "\<not> (0 \<le> c \<and> c < 256) \<Longrightarrow> cregex_char_class_contains klass c = None"
proof -
  have e: "class_ok empty_class" by (simp add: class_ok_def empty_class_def)
  have n: "cregex_char_class_contains empty_class c = Some False" if "0 \<le> c" "c < 256" for c
    using class_contains [OF e that] that by (simp add: empty_class_def)
  obtain its where its: "class_items True cs = Some its" "grows empty_class (\<Union>(a, b) \<in> set its. {a..b}) klass"
    using class_loop_items [of True cs empty_class klass] assms e by (auto simp: compile_char_class_def)
  then show ok: "class_ok klass" by (simp add: grows_def)
  have sub: "class_chars cs \<subseteq> {0..<256}" using its by (simp add: grows_def class_chars_def)
  show in_range: "cregex_char_class_contains klass c = Some (c \<in> class_chars cs)" if "0 \<le> c" "c < 256" for c
    using its that n by (simp add: grows_def class_chars_def)
  show out: "cregex_char_class_contains klass c = None" if "\<not> (0 \<le> c \<and> c < 256)" for c
    using ok that by (auto simp: cregex_char_class_contains_def CHAR_BIT_def aget_def class_ok_def)
  show "cregex_char_class_contains klass c = Some True \<longleftrightarrow> c \<in> class_chars cs"
    using sub in_range [of c] out [of c] by (cases "0 \<le> c \<and> c < 256") auto
qed

section \<open>What a node matches\<close>

text \<open>A state is a position in the string and the captures so far.\<close>

type_synonym mstate = "nat \<times> nat option list"

definition test :: "(int \<Rightarrow> bool) \<Rightarrow> cstring \<Rightarrow> (mstate \<times> mstate) set" where
  "test P str = {((i, m), (i + 1, m)) | i m. P (str ! i)}"

definition save_pos :: "nat \<Rightarrow> nat \<Rightarrow> (mstate \<times> mstate) set" where
  "save_pos k j = {((i, m), (i, if j < k then m[j := Some i] else m)) | i m. True}"

primrec sem :: "cstring \<Rightarrow> nat \<Rightarrow> cregex_node \<Rightarrow> nat \<Rightarrow> (mstate \<times> mstate) set" where
  "sem str k EPSILON nc = Id"
| "sem str k (CHARACTER ch) nc = test (\<lambda>c. c = ch) str"
| "sem str k ANY_CHARACTER nc = test (\<lambda>c. c \<noteq> 0) str"
| "sem str k (CHARACTER_CLASS cs) nc = test (\<lambda>c. c \<in> class_chars cs) str"
| "sem str k (CHARACTER_CLASS_NEGATED cs) nc = test (\<lambda>c. c \<notin> class_chars cs \<and> 0 \<le> c \<and> c < 256) str"
| "sem str k (CONCATENATION l r) nc = sem str k l nc O sem str k r (nc + ncaps l)"
| "sem str k (ALTERNATION l r) nc = sem str k l nc \<union> sem str k r (nc + ncaps l)"
| "sem str k (QUANTIFIER nmin nmax greedy q) nc =
     (\<Union>n \<in> {n. nat nmin \<le> n \<and> (nmax = -1 \<or> n \<le> nat nmax)}. sem str k q nc ^^ n)"
| "sem str k ANCHOR_BEGIN nc = {((0, m), (0, m)) | m. True}"
| "sem str k ANCHOR_END nc = {((i, m), (i, m)) | i m. str ! i = 0}"
| "sem str k (CAPTURE q) nc = save_pos k (nc * 2) O sem str k q (nc + 1) O save_pos k (nc * 2 + 1)"

section \<open>Moves of the machine\<close>

definition moves :: "cregex_program \<Rightarrow> cstring \<Rightarrow> nat \<Rightarrow> ((nat \<times> mstate) \<times> (nat \<times> mstate)) set" where
  "moves p str k = {((pc, i, m), (pc', i', m')) | pc i m pc' i' m'.
     (case p ! pc of
        OP_MATCH \<Rightarrow> False
      | OP_SPLIT a b \<Rightarrow> (pc' = a \<or> pc' = b) \<and> i' = i \<and> m' = m
      | OP_JUMP a \<Rightarrow> pc' = a \<and> i' = i \<and> m' = m
      | OP_ASSERT_BEGIN \<Rightarrow> i = 0 \<and> pc' = pc + 1 \<and> i' = i \<and> m' = m
      | OP_ASSERT_END \<Rightarrow> str ! i = 0 \<and> pc' = pc + 1 \<and> i' = i \<and> m' = m
      | OP_SAVE j \<Rightarrow> pc' = pc + 1 \<and> i' = i \<and> m' = (if j < k then m[j := Some i] else m)
      | _ \<Rightarrow> consumes (p ! pc) (str ! i) = Some True \<and> pc' = pc + 1 \<and> i' = i + 1 \<and> m' = m)}"

lemma reach_moves: "vm_reach p str k pc i m \<longleftrightarrow> ((0, 0, replicate k None), (pc, i, m)) \<in> (moves p str k)\<^sup>*"
proof
  assume "vm_reach p str k pc i m"
  then show "((0, 0, replicate k None), (pc, i, m)) \<in> (moves p str k)\<^sup>*"
  proof induction
    case (reach_char pc sp m)
    then have "((pc, sp, m), (pc + 1, sp + 1, m)) \<in> moves p str k"
      by (cases "p ! pc") (auto simp: moves_def consumes_def)
    with reach_char.IH show ?case by (rule rtrancl_into_rtrancl)
  qed (rule rtrancl_refl | (erule rtrancl_into_rtrancl, simp add: moves_def))+
next
  have "c = (pc, i, m) \<Longrightarrow> vm_reach p str k pc i m"
    if "((0, 0, replicate k None), c) \<in> (moves p str k)\<^sup>*" for c pc i m
    using that
  proof (induction arbitrary: pc i m)
    case base
    then show ?case using reach_start [of p str k] by auto
  next
    case (step c1 c2)
    obtain pc1 i1 m1 where c1: "c1 = (pc1, i1, m1)" by (cases c1) auto
    have r: "vm_reach p str k pc1 i1 m1" using step.IH c1 by blast
    have mv: "((pc1, i1, m1), (pc, i, m)) \<in> moves p str k" using step.hyps(2) step.prems c1 by simp
    show ?case
    proof (cases "p ! pc1")
      case (OP_SPLIT a b)
      then show ?thesis using mv r reach_first [OF r OP_SPLIT] reach_second [OF r OP_SPLIT] by (auto simp: moves_def)
    next
      case (OP_SAVE j)
      then show ?thesis using mv reach_save [OF r OP_SAVE] by (auto simp: moves_def)
    qed (use mv r reach_jump [OF r] reach_begin [of p str k pc1 m1] reach_end [OF r] reach_char [OF r] in \<open>auto simp: moves_def\<close>)
  qed
  then show "((0, 0, replicate k None), (pc, i, m)) \<in> (moves p str k)\<^sup>* \<Longrightarrow> vm_reach p str k pc i m" by blast
qed

section \<open>Fragments of code\<close>

text \<open>
  Code from \<open>a\<close> to \<open>b\<close> realises the relation \<open>R\<close>: it can be crossed from any state to a related
  one, and a run that enters it at \<open>a\<close> and ends outside crosses it to a related state, which
  uses up some of its moves.
\<close>

definition realises :: "cregex_program \<Rightarrow> cstring \<Rightarrow> nat \<Rightarrow> nat \<Rightarrow> (mstate \<times> mstate) set \<Rightarrow> nat \<Rightarrow> bool" where
  "realises p str k a R b \<longleftrightarrow> (\<forall>x y. (x, y) \<in> R \<longrightarrow> ((a, x), (b, y)) \<in> (moves p str k)\<^sup>*) \<and>
     (\<forall>n x c y. ((a, x), (c, y)) \<in> moves p str k ^^ n \<longrightarrow> c < a \<or> b \<le> c \<longrightarrow>
        (\<exists>z n'. n' \<le> n \<and> (x, z) \<in> R \<and> ((b, z), (c, y)) \<in> moves p str k ^^ n'))"

lemma realisesI:
  assumes "\<And>x y. (x, y) \<in> R \<Longrightarrow> ((a, x), (b, y)) \<in> (moves p str k)\<^sup>*"
    and "\<And>n x c y. ((a, x), (c, y)) \<in> moves p str k ^^ n \<Longrightarrow> c < a \<or> b \<le> c \<Longrightarrow>
        \<exists>z n'. n' \<le> n \<and> (x, z) \<in> R \<and> ((b, z), (c, y)) \<in> moves p str k ^^ n'"
  shows "realises p str k a R b"
  using assms unfolding realises_def by blast

lemma realises_cross: "realises p str k a R b \<Longrightarrow> (x, y) \<in> R \<Longrightarrow> ((a, x), (b, y)) \<in> (moves p str k)\<^sup>*"
  unfolding realises_def by blast

lemma realises_run:
  assumes "realises p str k a R b" and "((a, x), (c, y)) \<in> moves p str k ^^ n" and "c < a \<or> b \<le> c"
  obtains z n' where "n' \<le> n" "(x, z) \<in> R" "((b, z), (c, y)) \<in> moves p str k ^^ n'"
  using assms unfolding realises_def by blast

lemma realises_Id: "realises p str k a Id a"
  by (rule realisesI) auto

lemma relpow_first:
  assumes "(u, v) \<in> r ^^ n" and "u \<noteq> v"
  obtains n' w where "n = Suc n'" "(u, w) \<in> r" "(w, v) \<in> r ^^ n'"
  using relpow_E2 [OF assms(1)] assms(2) by blast

lemma realises_instr:
  assumes step: "\<And>x c. ((a, x), c) \<in> moves p str k \<longleftrightarrow> (\<exists>y. (x, y) \<in> R \<and> c = (a + 1, y))"
  shows "realises p str k a R (a + 1)"
proof (rule realisesI)
  fix x y assume "(x, y) \<in> R"
  then show "((a, x), (a + 1, y)) \<in> (moves p str k)\<^sup>*" using step by blast
next
  fix n x c y assume r: "((a, x), (c, y)) \<in> moves p str k ^^ n" and "c < a \<or> a + 1 \<le> c"
  then have "(a, x) \<noteq> (c, y)" by auto
  with r obtain n' w where w: "n = Suc n'" "((a, x), w) \<in> moves p str k" "(w, (c, y)) \<in> moves p str k ^^ n'"
    by (rule relpow_first)
  obtain z where "(x, z) \<in> R" "w = (a + 1, z)" using step w(2) by blast
  then show "\<exists>z n'. n' \<le> n \<and> (x, z) \<in> R \<and> ((a + 1, z), (c, y)) \<in> moves p str k ^^ n'"
    using w(1,3) by (intro exI [of _ z] exI [of _ n']) simp
qed

lemma realises_seq:
  assumes 1: "realises p str k a R b" and 2: "realises p str k b S c" and "a \<le> b" "b \<le> c"
  shows "realises p str k a (R O S) c"
proof (rule realisesI)
  fix x y assume "(x, y) \<in> R O S"
  then obtain z where "(x, z) \<in> R" "(z, y) \<in> S" by blast
  then show "((a, x), (c, y)) \<in> (moves p str k)\<^sup>*"
    using realises_cross [OF 1] realises_cross [OF 2] by (meson rtrancl_trans)
next
  fix n x d y assume r: "((a, x), (d, y)) \<in> moves p str k ^^ n" and d: "d < a \<or> c \<le> d"
  obtain z n1 where z: "n1 \<le> n" "(x, z) \<in> R" "((b, z), (d, y)) \<in> moves p str k ^^ n1"
    by (rule realises_run [OF 1 r]) (use d assms(3,4) in auto)
  obtain w n2 where "n2 \<le> n1" "(z, w) \<in> S" "((c, w), (d, y)) \<in> moves p str k ^^ n2"
    by (rule realises_run [OF 2 z(3)]) (use d assms(3,4) in auto)
  then show "\<exists>z n'. n' \<le> n \<and> (x, z) \<in> R O S \<and> ((c, z), (d, y)) \<in> moves p str k ^^ n'"
    using z(1,2) by (meson le_trans relcompI)
qed

text \<open>A split or a jump is one move, to a fixed set of places.\<close>

lemma move_split:
  assumes "p ! a = split_instr g b c"
  shows "((a, x), d) \<in> moves p str k \<longleftrightarrow> d = (b, x) \<or> d = (c, x)"
  using assms by (cases x; cases d) (auto simp: moves_def split_instr_def)

lemma move_jump:
  assumes "p ! a = OP_JUMP b"
  shows "((a, x), d) \<in> moves p str k \<longleftrightarrow> d = (b, x)"
  using assms by (cases x; cases d) (auto simp: moves_def)

lemma run_split:
  assumes "p ! a = split_instr g b c" and "((a, x), (e, y)) \<in> moves p str k ^^ n" and "e \<noteq> a"
  obtains n' where "n = Suc n'" "((b, x), (e, y)) \<in> moves p str k ^^ n' \<or> ((c, x), (e, y)) \<in> moves p str k ^^ n'"
proof -
  have "(a, x) \<noteq> (e, y)" using assms(3) by simp
  with assms(2) obtain n' w where w: "n = Suc n'" "((a, x), w) \<in> moves p str k" "(w, (e, y)) \<in> moves p str k ^^ n'"
    by (rule relpow_first)
  have "w = (b, x) \<or> w = (c, x)" using w(2) unfolding move_split [OF assms(1)] .
  then show thesis by (intro that [OF w(1)]) (use w(3) in auto)
qed

lemma run_jump:
  assumes "p ! a = OP_JUMP b" and "((a, x), (e, y)) \<in> moves p str k ^^ n" and "e \<noteq> a"
  obtains n' where "n = Suc n'" "((b, x), (e, y)) \<in> moves p str k ^^ n'"
proof -
  have "(a, x) \<noteq> (e, y)" using assms(3) by simp
  with assms(2) obtain n' w where w: "n = Suc n'" "((a, x), w) \<in> moves p str k" "(w, (e, y)) \<in> moves p str k ^^ n'"
    by (rule relpow_first)
  have "w = (b, x)" using w(2) unfolding move_jump [OF assms(1)] .
  then show thesis by (intro that [OF w(1)]) (use w(3) in auto)
qed

lemma realises_alt:
  assumes s: "p ! a = split_instr True (a + 1) c" and 1: "realises p str k (a + 1) R b"
    and j: "p ! b = OP_JUMP d" and 2: "realises p str k c S d" and o: "a < b" "c = b + 1" "c \<le> d"
  shows "realises p str k a (R \<union> S) d"
proof (rule realisesI)
  fix x y assume "(x, y) \<in> R \<union> S"
  then consider "(x, y) \<in> R" | "(x, y) \<in> S" by blast
  then show "((a, x), (d, y)) \<in> (moves p str k)\<^sup>*"
  proof cases
    case 1
    have m: "((a, x), (a + 1, x)) \<in> moves p str k" "((b, y), (d, y)) \<in> moves p str k"
      using move_split [OF s] move_jump [OF j] by simp_all
    show ?thesis by (rule converse_rtrancl_into_rtrancl [OF m(1) rtrancl_into_rtrancl [OF realises_cross [OF assms(2) 1] m(2)]])
  next
    case 2
    have "((a, x), (c, x)) \<in> moves p str k" using move_split [OF s] by simp
    then show ?thesis using realises_cross [OF assms(4) 2] by (rule converse_rtrancl_into_rtrancl)
  qed
next
  fix n x e y assume r: "((a, x), (e, y)) \<in> moves p str k ^^ n" and e: "e < a \<or> d \<le> e"
  then have "e \<noteq> a" using o by auto
  from run_split [OF s r this] obtain n1 where n1: "n = Suc n1"
    "((a + 1, x), (e, y)) \<in> moves p str k ^^ n1 \<or> ((c, x), (e, y)) \<in> moves p str k ^^ n1" .
  from n1(2) show "\<exists>z n'. n' \<le> n \<and> (x, z) \<in> R \<union> S \<and> ((d, z), (e, y)) \<in> moves p str k ^^ n'"
  proof
    assume l: "((a + 1, x), (e, y)) \<in> moves p str k ^^ n1"
    obtain z n2 where z: "n2 \<le> n1" "(x, z) \<in> R" "((b, z), (e, y)) \<in> moves p str k ^^ n2"
      by (rule realises_run [OF 1 l]) (use e o in auto)
    have "e \<noteq> b" using e o by auto
    from run_jump [OF j z(3) this] obtain n3 where "n2 = Suc n3" "((d, z), (e, y)) \<in> moves p str k ^^ n3" .
    then show ?thesis using z n1(1) by (intro exI [of _ z] exI [of _ n3]) simp
  next
    assume l: "((c, x), (e, y)) \<in> moves p str k ^^ n1"
    obtain z n2 where "n2 \<le> n1" "(x, z) \<in> S" "((d, z), (e, y)) \<in> moves p str k ^^ n2"
      by (rule realises_run [OF 2 l]) (use e o in auto)
    then show ?thesis using n1(1) by (intro exI [of _ z] exI [of _ n2]) simp
  qed
qed

lemma realises_copies:
  "(\<And>i. i < n \<Longrightarrow> realises p str k (a + i * s) R (a + i * s + s)) \<Longrightarrow> realises p str k a (R ^^ n) (a + n * s)"
proof (induction n)
  case 0
  show ?case using realises_Id by simp
next
  case (Suc n)
  have "realises p str k a (R ^^ n O R) (a + n * s + s)"
    by (rule realises_seq [OF Suc.IH]) (use Suc.prems in auto)
  then show ?case by (simp add: ac_simps)
qed

text \<open>One optional copy: code that may be skipped.\<close>

lemma realises_optional:
  assumes s: "p ! a = split_instr g (a + 1) b" and 1: "realises p str k (a + 1) R b" and o: "a < b"
  shows "realises p str k a (Id \<union> R) b"
proof (rule realisesI)
  fix x y assume "(x, y) \<in> Id \<union> R"
  then consider "x = y" | "(x, y) \<in> R" by blast
  then show "((a, x), (b, y)) \<in> (moves p str k)\<^sup>*"
  proof cases
    case 1
    then show ?thesis using move_split [OF s] by blast
  next
    case 2
    have "((a, x), (a + 1, x)) \<in> moves p str k" using move_split [OF s] by simp
    then show ?thesis using realises_cross [OF 1 2] by (rule converse_rtrancl_into_rtrancl)
  qed
next
  fix n x e y assume r: "((a, x), (e, y)) \<in> moves p str k ^^ n" and e: "e < a \<or> b \<le> e"
  then have "e \<noteq> a" using o by auto
  from run_split [OF s r this] obtain n1 where n1: "n = Suc n1"
    "((a + 1, x), (e, y)) \<in> moves p str k ^^ n1 \<or> ((b, x), (e, y)) \<in> moves p str k ^^ n1" .
  from n1(2) show "\<exists>z n'. n' \<le> n \<and> (x, z) \<in> Id \<union> R \<and> ((b, z), (e, y)) \<in> moves p str k ^^ n'"
  proof
    assume l: "((a + 1, x), (e, y)) \<in> moves p str k ^^ n1"
    obtain z n2 where "n2 \<le> n1" "(x, z) \<in> R" "((b, z), (e, y)) \<in> moves p str k ^^ n2"
      by (rule realises_run [OF 1 l]) (use e o in auto)
    then show ?thesis using n1(1) by (intro exI [of _ z] exI [of _ n2]) simp
  next
    assume "((b, x), (e, y)) \<in> moves p str k ^^ n1"
    then show ?thesis using n1(1) by (intro exI [of _ x] exI [of _ n1]) simp
  qed
qed

lemma relpow_optional: "(Id \<union> R) ^^ d = (\<Union>j \<in> {..d}. R ^^ j)"
proof (induction d)
  case (Suc d)
  have "(Id \<union> R) ^^ Suc d = (\<Union>j \<in> {..d}. R ^^ j) \<union> (\<Union>j \<in> {..d}. R ^^ Suc j)"
    using Suc.IH by auto
  also have "\<dots> = (\<Union>j \<in> {..Suc d}. R ^^ j)"
  proof -
    have "{..Suc d} = {..d} \<union> Suc ` {..d}" by (auto simp: le_Suc_eq image_iff)
    then show ?thesis by (simp only: UN_Un UN_simps image_UN)
  qed
  finally show ?case .
qed simp

text \<open>A loop: the split at \<open>e\<close> goes back to the copy that ends there, or on.\<close>

lemma realises_loop:
  assumes s: "p ! e = split_instr g b c" and 1: "realises p str k b R e'"
    and bk: "\<And>x. ((e', x), (e, x)) \<in> (moves p str k)\<^sup>*"
      "\<forall>x d y n. ((e', x), (d, y)) \<in> moves p str k ^^ n \<longrightarrow> d < a \<or> c \<le> d \<longrightarrow>
         (\<exists>n' \<le> n. ((e, x), (d, y)) \<in> moves p str k ^^ n')"
    and o: "a \<le> b" "a \<le> e" "e < c" "e' \<le> c"
  shows "\<And>x y. (x, y) \<in> R\<^sup>* \<Longrightarrow> ((e, x), (c, y)) \<in> (moves p str k)\<^sup>*"
    and "\<And>n x d y. ((e, x), (d, y)) \<in> moves p str k ^^ n \<Longrightarrow> d < a \<or> c \<le> d \<Longrightarrow>
        \<exists>z n'. n' \<le> n \<and> (x, z) \<in> R\<^sup>* \<and> ((c, z), (d, y)) \<in> moves p str k ^^ n'"
proof -
  fix x y assume "(x, y) \<in> R\<^sup>*"
  then show "((e, x), (c, y)) \<in> (moves p str k)\<^sup>*"
  proof (induction rule: converse_rtrancl_induct)
    case base
    then show ?case using move_split [OF s] by blast
  next
    case (step x z)
    have m: "((e, x), (b, x)) \<in> moves p str k" using move_split [OF s] by simp
    show ?case by (rule converse_rtrancl_into_rtrancl [OF m rtrancl_trans [OF realises_cross [OF 1 step(1)]
          rtrancl_trans [OF bk(1) step.IH]]])
  qed
next
  fix n x d y assume "((e, x), (d, y)) \<in> moves p str k ^^ n" and d: "d < a \<or> c \<le> d"
  then show "\<exists>z n'. n' \<le> n \<and> (x, z) \<in> R\<^sup>* \<and> ((c, z), (d, y)) \<in> moves p str k ^^ n'"
  proof (induction n arbitrary: x rule: less_induct)
    case (less n)
    have "d \<noteq> e" using d o by auto
    from run_split [OF s less.prems(1) this] obtain n1 where n1: "n = Suc n1"
      "((b, x), (d, y)) \<in> moves p str k ^^ n1 \<or> ((c, x), (d, y)) \<in> moves p str k ^^ n1" .
    from n1(2) show ?case
    proof
      assume l: "((b, x), (d, y)) \<in> moves p str k ^^ n1"
      obtain z n2 where z: "n2 \<le> n1" "(x, z) \<in> R" "((e', z), (d, y)) \<in> moves p str k ^^ n2"
        by (rule realises_run [OF 1 l]) (use d o in auto)
      obtain n3 where n3: "n3 \<le> n2" "((e, z), (d, y)) \<in> moves p str k ^^ n3" using bk(2) z(3) d by blast
      have "n3 < n" using n3(1) z(1) n1(1) by simp
      from less.IH [OF this n3(2) d] obtain w n4 where "n4 \<le> n3" "(z, w) \<in> R\<^sup>*" "((c, w), (d, y)) \<in> moves p str k ^^ n4"
        by blast
      then show ?thesis using z n3(1) n1(1)
        by (intro exI [of _ w] exI [of _ n4]) (simp add: converse_rtrancl_into_rtrancl)
    next
      assume "((c, x), (d, y)) \<in> moves p str k ^^ n1"
      then show ?thesis using n1(1) by (intro exI [of _ x] exI [of _ n1]) simp
    qed
  qed
qed

section \<open>The code of a node realises its meaning\<close>

lemma realises_test:
  assumes "leaf (p ! a)" "p ! a \<noteq> OP_MATCH" and "\<And>c. consumes (p ! a) c = Some True \<longleftrightarrow> P c"
  shows "realises p str k a (test P str) (a + 1)"
  by (rule realises_instr) (use assms in \<open>cases "p ! a"; auto simp: moves_def test_def leaf_def\<close>)

lemma realises_save: "p ! a = OP_SAVE j \<Longrightarrow> realises p str k a (save_pos k j) (a + 1)"
  by (rule realises_instr) (auto simp: moves_def save_pos_def)

lemma realises_star:
  assumes q: "realises p str k (a + 1) R (a + 1 + s)"
    and c: "p ! a = split_instr g (a + 1) (a + 2 + s)" "p ! (a + 1 + s) = OP_JUMP a"
  shows "realises p str k a (R\<^sup>*) (a + 2 + s)"
proof -
  have b1: "((a + 1 + s, x), (a, x)) \<in> (moves p str k)\<^sup>*" for x using move_jump [OF c(2)] by blast
  have b2: "\<exists>n' \<le> n. ((a, x), (d, y)) \<in> moves p str k ^^ n'"
    if r: "((a + 1 + s, x), (d, y)) \<in> moves p str k ^^ n" "d < a \<or> a + 2 + s \<le> d" for x d y n
  proof -
    have "d \<noteq> a + 1 + s" using r(2) by auto
    from run_jump [OF c(2) r(1) this] show ?thesis by (metis Suc_leD le_refl)
  qed
  have b3: "\<forall>x d y n. ((a + 1 + s, x), (d, y)) \<in> moves p str k ^^ n \<longrightarrow> d < a \<or> a + 2 + s \<le> d \<longrightarrow>
      (\<exists>n' \<le> n. ((a, x), (d, y)) \<in> moves p str k ^^ n')" using b2 by blast
  have o: "a \<le> a + 1" "a \<le> a" "a < a + 2 + s" "a + 1 + s \<le> a + 2 + s" by auto
  note loop = realises_loop [OF c(1) q b1 b3 o]
  show ?thesis by (rule realisesI) (fact loop)+
qed

lemma realises_plus:
  assumes m: "realises p str k a M e" and q: "realises p str k (e - s) R e" and "a \<le> e - s" "s \<le> e"
    and c: "p ! e = split_instr g (e - s) (e + 1)"
  shows "realises p str k a (M O R\<^sup>*) (e + 1)"
proof -
  have b1: "((e, x), (e, x)) \<in> (moves p str k)\<^sup>*" for x by simp
  have b2: "\<forall>x d y n. ((e, x), (d, y)) \<in> moves p str k ^^ n \<longrightarrow> d < a \<or> e + 1 \<le> d \<longrightarrow>
      (\<exists>n' \<le> n. ((e, x), (d, y)) \<in> moves p str k ^^ n')" by blast
  have ae: "a \<le> e" "e < e + 1" "e \<le> e + 1" using assms(3) by auto
  note loop = realises_loop [OF c q b1 b2 assms(3) ae]
  show ?thesis
  proof (rule realisesI)
    fix x y assume "(x, y) \<in> M O R\<^sup>*"
    then obtain z where z: "(x, z) \<in> M" "(z, y) \<in> R\<^sup>*" by blast
    show "((a, x), (e + 1, y)) \<in> (moves p str k)\<^sup>*" by (rule rtrancl_trans [OF realises_cross [OF m z(1)] loop(1) [OF z(2)]])
  next
    fix n x d y assume r: "((a, x), (d, y)) \<in> moves p str k ^^ n" and d: "d < a \<or> e + 1 \<le> d"
    obtain z n1 where z: "n1 \<le> n" "(x, z) \<in> M" "((e, z), (d, y)) \<in> moves p str k ^^ n1"
      by (rule realises_run [OF m r]) (use d in auto)
    obtain w n2 where "n2 \<le> n1" "(z, w) \<in> R\<^sup>*" "((e + 1, w), (d, y)) \<in> moves p str k ^^ n2"
      using loop(2) [OF z(3) d] by blast
    then show "\<exists>z n'. n' \<le> n \<and> (x, z) \<in> M O R\<^sup>* \<and> ((e + 1, z), (d, y)) \<in> moves p str k ^^ n'"
      using z(1,2) by (intro exI [of _ w] exI [of _ n2]) auto
  qed
qed

lemma relpow_from: "(R :: ('a \<times> 'a) set) ^^ a O R\<^sup>* = (\<Union>n \<in> {n. a \<le> n}. R ^^ n)"
proof -
  have "R ^^ a O R\<^sup>* = (\<Union>n. R ^^ (a + n))" by (auto simp: rtrancl_is_UN_relpow relpow_add)
  also have "\<dots> = (\<Union>n \<in> {n. a \<le> n}. R ^^ n)" by (force simp: le_iff_add)
  finally show ?thesis .
qed

lemma relpow_between: "a \<le> b \<Longrightarrow> (R :: ('a \<times> 'a) set) ^^ a O (Id \<union> R) ^^ (b - a) = (\<Union>n \<in> {n. a \<le> n \<and> n \<le> b}. R ^^ n)"
proof -
  assume ab: "a \<le> b"
  have "R ^^ a O (Id \<union> R) ^^ (b - a) = (\<Union>j \<in> {..b - a}. R ^^ (a + j))" by (auto simp: relpow_optional relpow_add)
  also have "\<dots> = (\<Union>n \<in> (+) a ` {..b - a}. R ^^ n)" by simp
  also have "(+) a ` {..b - a} = {n. a \<le> n \<and> n \<le> b}"
    using ab image_add_atLeastAtMost [of a 0 "b - a"] by (auto simp: atMost_atLeast0)
  finally show ?thesis .
qed

lemma realises_quantifier:
  assumes q: "\<And>pc. code_at p q pc nc \<Longrightarrow> realises p str k pc (sem str k q nc) (pc + csize q)"
    and ok: "node_ok (QUANTIFIER nmin nmax greedy q)" and code: "code_at p (QUANTIFIER nmin nmax greedy q) pc nc"
  shows "realises p str k pc (sem str k (QUANTIFIER nmin nmax greedy q) nc) (pc + csize (QUANTIFIER nmin nmax greedy q))"
proof -
  let ?R = "sem str k q nc" and ?n = "nat nmin" and ?s = "csize q"
  let ?e = "pc + nat nmin * csize q"
  have n: "0 \<le> nmin" "nmax = -1 \<or> nmin \<le> nmax" using ok by auto
  have mn: "realises p str k pc (?R ^^ ?n) ?e"
    by (rule realises_copies) (use q code in auto)
  consider (opt) "nmax > nmin" | (star) "nmax = -1" "nmin = 0" | (plus) "nmax = -1" "nmin > 0" | (exact) "nmax = nmin"
    using n by linarith
  then show ?thesis
  proof cases
    case opt
    let ?d = "nat (nmax - nmin)"
    have "realises p str k (?e + i * (?s + 1)) (Id \<union> ?R) (?e + i * (?s + 1) + (?s + 1))" if "i < ?d" for i
    proof -
      let ?t = "?e + i * (?s + 1)"
      have c: "p ! ?t = split_instr greedy (?t + 1) (?t + 1 + ?s)" "code_at p q (?t + 1) nc"
        using code that opt by (simp_all add: Let_def)
      show ?thesis using realises_optional [OF c(1) q [OF c(2)]] by (simp add: add.assoc)
    qed
    then have "realises p str k ?e ((Id \<union> ?R) ^^ ?d) (?e + ?d * (?s + 1))" by (rule realises_copies)
    then have "realises p str k pc (?R ^^ ?n O (Id \<union> ?R) ^^ ?d) (?e + ?d * (?s + 1))"
      by (rule realises_seq [OF mn]) auto
    moreover have "?d = nat nmax - nat nmin" "nat nmin \<le> nat nmax" "nmax \<noteq> -1" using opt n by auto
    ultimately show ?thesis using relpow_between [of ?n "nat nmax" ?R] opt by (simp add: add.assoc)
  next
    case star
    have "realises p str k pc (?R\<^sup>*) (pc + 2 + ?s)"
      by (rule realises_star [of _ _ _ _ _ _ greedy]) (use code star q [of "pc + 1"] in \<open>auto simp: Let_def\<close>)
    moreover have "(\<Union>n \<in> {n. 0 \<le> n}. ?R ^^ n) = ?R\<^sup>*" by (auto simp: rtrancl_is_UN_relpow)
    ultimately show ?thesis using star by (simp add: add.assoc)
  next
    case plus
    have l: "?e - ?s = pc + (?n - 1) * ?s" "?s \<le> ?e" using plus by (cases ?n; simp)+
    have "code_at p q (?e - ?s) nc" using code plus by (simp add: l(1))
    then have r: "realises p str k (?e - ?s) ?R ?e" using q [of "?e - ?s"] l(2) by simp
    have c: "p ! ?e = split_instr greedy (?e - ?s) (?e + 1)" using code plus by (simp add: Let_def)
    have "pc \<le> ?e - ?s" using l(1) by simp
    note realises_plus [OF mn r this l(2) c]
    then show ?thesis using plus relpow_from [of ?n ?R] by (simp add: add.assoc)
  next
    case exact
    then have "{n. nat nmin \<le> n \<and> (nmax = -1 \<or> n \<le> nat nmax)} = {?n}" using n by auto
    then show ?thesis using mn exact by simp
  qed
qed

lemma code_realises:
  "node_ok node \<Longrightarrow> code_at p node pc nc \<Longrightarrow> realises p str k pc (sem str k node nc) (pc + csize node)"
proof (induction node arbitrary: pc nc)
  case EPSILON
  show ?case using realises_Id by simp
next
  case (CHARACTER_CLASS cs)
  then obtain kl where kl: "compile_char_class cs empty_class = Some kl" "p ! pc = OP_CHARACTER_CLASS kl" by auto
  have "consumes (p ! pc) c = Some True \<longleftrightarrow> c \<in> class_chars cs" for c
    using kl(2) compile_class_set(2) [OF kl(1), of c] by (simp add: consumes_def)
  then show ?case using realises_test [of p pc "\<lambda>c. c \<in> class_chars cs" str k] kl(2) by (simp add: leaf_def)
next
  case (CHARACTER_CLASS_NEGATED cs)
  then obtain kl where kl: "compile_char_class cs empty_class = Some kl" "p ! pc = OP_CHARACTER_CLASS_NEGATED kl" by auto
  have "consumes (p ! pc) c = Some True \<longleftrightarrow> c \<notin> class_chars cs \<and> 0 \<le> c \<and> c < 256" for c
    using kl(2) compile_class_set(3,4) [OF kl(1), of c] by (cases "0 \<le> c \<and> c < 256") (auto simp: consumes_def)
  then show ?case
    using realises_test [of p pc "\<lambda>c. c \<notin> class_chars cs \<and> 0 \<le> c \<and> c < 256" str k] kl(2) by (simp add: leaf_def)
next
  case (CONCATENATION l r)
  then have "realises p str k pc (sem str k l nc O sem str k r (nc + ncaps l)) (pc + csize l + csize r)"
    by (intro realises_seq [of _ _ _ _ _ "pc + csize l"]) auto
  then show ?case by (simp add: add.assoc)
next
  case (ALTERNATION l r)
  have "realises p str k pc (sem str k l nc \<union> sem str k r (nc + ncaps l)) (pc + 2 + csize l + csize r)"
    by (rule realises_alt [of _ _ "pc + 2 + csize l" _ _ _ "pc + 1 + csize l"])
      (use ALTERNATION.prems ALTERNATION.IH(1) [of "pc + 1" nc] ALTERNATION.IH(2) [of "pc + 2 + csize l" "nc + ncaps l"]
        in \<open>auto simp: split_instr_def\<close>)
  then show ?case by (simp add: add.assoc)
next
  case (QUANTIFIER nmin nmax greedy q)
  show ?case by (rule realises_quantifier [OF _ QUANTIFIER.prems]) (use QUANTIFIER in auto)
next
  case (CAPTURE q)
  have "realises p str k pc (save_pos k (nc * 2) O (sem str k q (nc + 1) O save_pos k (nc * 2 + 1))) (pc + 1 + csize q + 1)"
    by (intro realises_seq [of _ _ _ _ _ "pc + 1"] realises_seq [of _ _ _ _ _ "pc + 1 + csize q"] realises_save)
      (use CAPTURE.prems CAPTURE.IH [of "pc + 1" "nc + 1"] in auto)
  then show ?case by simp
next
  case ANCHOR_BEGIN
  then show ?case by (auto intro!: realises_instr [simplified] simp: moves_def)
next
  case ANCHOR_END
  then show ?case by (auto intro!: realises_instr [simplified] simp: moves_def)
qed (auto intro!: realises_test [simplified] simp: leaf_def consumes_def)

section \<open>The compiled program is well formed\<close>

text \<open>The instructions of a node that are not control flow.\<close>

primrec atoms :: "cregex_node \<Rightarrow> cregex_program_instr list" where
  "atoms EPSILON = []"
| "atoms (CHARACTER ch) = [OP_CHARACTER ch]"
| "atoms ANY_CHARACTER = [OP_ANY_CHARACTER]"
| "atoms (CHARACTER_CLASS cs) = [OP_CHARACTER_CLASS (the (compile_char_class cs empty_class))]"
| "atoms (CHARACTER_CLASS_NEGATED cs) = [OP_CHARACTER_CLASS_NEGATED (the (compile_char_class cs empty_class))]"
| "atoms (CONCATENATION l r) = atoms l @ atoms r"
| "atoms (ALTERNATION l r) = atoms l @ atoms r"
| "atoms (QUANTIFIER nmin nmax greedy q) = atoms q"
| "atoms ANCHOR_BEGIN = [OP_ASSERT_BEGIN]"
| "atoms ANCHOR_END = [OP_ASSERT_END]"
| "atoms (CAPTURE q) = atoms q"

definition flows :: "cregex_program_instr \<Rightarrow> nat \<Rightarrow> bool" where
  "flows i hi \<longleftrightarrow>
     (case i of OP_SPLIT a b \<Rightarrow> a \<le> hi \<and> b \<le> hi | OP_JUMP a \<Rightarrow> a \<le> hi | OP_SAVE j \<Rightarrow> True | _ \<Rightarrow> False)"

lemma flows_mono: "flows i hi \<Longrightarrow> hi \<le> hi' \<Longrightarrow> flows i hi'"
  by (cases i) (auto simp: flows_def)

lemma flows_split [simp]: "flows (split_instr g a b) hi \<longleftrightarrow> a \<le> hi \<and> b \<le> hi"
  by (auto simp: flows_def split_instr_def)

lemma locate_copy:
  assumes "a \<le> i" "i < a + n * (s :: nat)"
  obtains j where "j < n" "a + j * s \<le> i" "i < a + j * s + s"
proof (rule that [of "(i - a) div s"])
  have s: "0 < s" using assms by (cases s) auto
  show "(i - a) div s < n" using assms s by (simp add: div_less_iff_less_mult)
  have "(i - a) div s * s \<le> i - a" "i - a < (i - a) div s * s + s"
    using dividend_less_div_times [OF s, of "i - a"] by simp_all
  then show "a + (i - a) div s * s \<le> i" "i < a + (i - a) div s * s + s" using assms(1) by linarith+
qed

lemma quantifier_instr:
  assumes q: "\<And>pc i. code_at p q pc nc \<Longrightarrow> pc \<le> i \<Longrightarrow> i < pc + csize q \<Longrightarrow> p ! i \<in> set (atoms q) \<or> flows (p ! i) (pc + csize q)"
    and ok: "node_ok (QUANTIFIER nmin nmax greedy q)" and code: "code_at p (QUANTIFIER nmin nmax greedy q) pc nc"
    and i: "pc \<le> i" "i < pc + csize (QUANTIFIER nmin nmax greedy q)"
  shows "p ! i \<in> set (atoms q) \<or> flows (p ! i) (pc + csize (QUANTIFIER nmin nmax greedy q))"
proof -
  let ?s = "csize q" and ?e = "pc + nat nmin * csize q" and ?hi = "pc + csize (QUANTIFIER nmin nmax greedy q)"
  have body: "p ! i \<in> set (atoms q) \<or> flows (p ! i) ?hi"
    if "code_at p q a nc" "a \<le> i" "i < a + ?s" "a + ?s \<le> ?hi" for a
    using q [OF that(1-3)] flows_mono that(4) by blast
  have n: "0 \<le> nmin" "nmax = -1 \<or> nmin \<le> nmax" using ok by auto
  show ?thesis
  proof (cases "i < ?e")
    case True
    obtain j where j: "j < nat nmin" "pc + j * ?s \<le> i" "i < pc + j * ?s + ?s" using locate_copy [OF i(1) True] .
    show ?thesis by (rule body [of "pc + j * ?s"]) (use code j quant_bound [OF j(1), of ?s] in auto)
  next
    case False
    then have ie: "?e \<le> i" by simp
    consider (opt) "nmax > nmin" | (star) "nmax = -1" "nmin = 0" | (plus) "nmax = -1" "nmin > 0" | (exact) "nmax = nmin"
      using n by linarith
    then show ?thesis
    proof cases
      case opt
      let ?d = "nat (nmax - nmin)"
      have hi: "?hi = ?e + ?d * (?s + 1)" using opt by simp
      obtain j where j: "j < ?d" "?e + j * (?s + 1) \<le> i" "i < ?e + j * (?s + 1) + (?s + 1)"
        using locate_copy [OF ie] i(2) hi by metis
      have b: "j * (?s + 1) + (?s + 1) \<le> ?d * (?s + 1)" by (rule quant_bound [OF j(1)])
      let ?t = "?e + j * (?s + 1)"
      have c: "p ! ?t = split_instr greedy (?t + 1) (?t + 1 + ?s)" "code_at p q (?t + 1) nc"
        using code j(1) opt by (simp_all add: Let_def)
      have tt: "?t + 1 + ?s \<le> ?hi" unfolding hi using b by simp
      show ?thesis
      proof (cases "i = ?t")
        case True
        have "flows (p ! i) ?hi" unfolding True c(1) flows_split using tt by simp
        then show ?thesis ..
      next
        case False
        then show ?thesis using body [OF c(2)] j(2,3) tt by simp
      qed
    next
      case star
      have c: "p ! pc = split_instr greedy (pc + 1) (pc + 2 + ?s)" "code_at p q (pc + 1) nc" "p ! (pc + 1 + ?s) = OP_JUMP pc"
        using code star by (simp_all add: Let_def)
      consider "i = pc" | "pc + 1 \<le> i" "i < pc + 1 + ?s" | "i = pc + 1 + ?s" using i star by fastforce
      then show ?thesis
        using c(1,3) body [OF c(2)] star by cases (auto simp: flows_def split_instr_def)
    next
      case plus
      then have "i = ?e" "p ! ?e = split_instr greedy (?e - ?s) (?e + 1)" using i(2) ie code by (simp_all add: Let_def)
      then show ?thesis using plus by (auto simp: flows_split)
    next
      case exact
      then show ?thesis using i(2) ie by simp
    qed
  qed
qed

lemma code_instr:
  "code_at p node pc nc \<Longrightarrow> node_ok node \<Longrightarrow> pc \<le> i \<Longrightarrow> i < pc + csize node \<Longrightarrow>
   p ! i \<in> set (atoms node) \<or> flows (p ! i) (pc + csize node)"
proof (induction node arbitrary: pc nc i)
  case (CONCATENATION l r)
  then show ?case
    using CONCATENATION.IH(1) [of pc nc] CONCATENATION.IH(2) [of "pc + csize l" "nc + ncaps l"]
      flows_mono [of "p ! i" "pc + csize l" "pc + csize (CONCATENATION l r)"]
    by (cases "i < pc + csize l") (auto simp: add.assoc)
next
  case (ALTERNATION l r)
  let ?hi = "pc + csize (ALTERNATION l r)"
  consider "i = pc" | "pc + 1 \<le> i" "i < pc + 1 + csize l" | "i = pc + 1 + csize l"
    | "pc + 2 + csize l \<le> i" "i < pc + 2 + csize l + csize r"
    using ALTERNATION.prems(3,4) by fastforce
  then show ?case
  proof cases
    case 2
    then show ?thesis using ALTERNATION.IH(1) [of "pc + 1" nc] ALTERNATION.prems
        flows_mono [of "p ! i" "pc + 1 + csize l" ?hi] by auto
  next
    case 4
    then show ?thesis using ALTERNATION.IH(2) [of "pc + 2 + csize l" "nc + ncaps l"] ALTERNATION.prems
      by (auto simp: add.assoc)
  qed (use ALTERNATION.prems in \<open>auto simp: flows_def\<close>)
next
  case (QUANTIFIER nmin nmax greedy q)
  show ?case using quantifier_instr [OF _ QUANTIFIER.prems(2,1,3,4)] QUANTIFIER.IH QUANTIFIER.prems(2) by simp
next
  case (CAPTURE q)
  consider "i = pc" | "pc + 1 \<le> i" "i < pc + 1 + csize q" | "i = pc + 1 + csize q"
    using CAPTURE.prems(3,4) by fastforce
  then show ?case
  proof cases
    case 2
    then show ?thesis using CAPTURE.IH [of "pc + 1" "nc + 1"] CAPTURE.prems
        flows_mono [of "p ! i" "pc + 1 + csize q" "pc + csize (CAPTURE q)"] by auto
  qed (use CAPTURE.prems in \<open>auto simp: flows_def\<close>)
qed (auto simp: le_less_Suc_eq)

lemma atoms_leaf:
  "node_ok node \<Longrightarrow> i \<in> set (atoms node) \<Longrightarrow>
   i \<noteq> OP_MATCH \<and> (\<forall>n pc. pc + 1 < n \<longrightarrow> wf_instr n pc i)"
  by (induction node) (auto simp: wf_instr_def compile_class_set(1))

lemma program_instr:
  assumes "program_of root p" "node_ok root" "i < length p"
  shows "p ! i = OP_MATCH \<and> i = csize (whole root) \<or> p ! i \<in> set (atoms (whole root)) \<or> flows (p ! i) (csize (whole root))"
  using assms code_instr [OF _ whole_ok [OF assms(2)], of p 0 0 i]
  by (cases "i = csize (whole root)") (auto simp: program_of_def)

lemma program_wf:
  assumes p: "program_of root p" and ok: "node_ok root"
  shows "wf_prog p" and "p \<noteq> []"
proof -
  have len: "length p = csize (whole root) + 1" using p by (simp add: program_of_def)
  have "wf_instr (length p) i (p ! i)" if i: "i < length p" for i
  proof -
    consider "p ! i = OP_MATCH" | "i < csize (whole root)" "p ! i \<in> set (atoms (whole root)) \<or> flows (p ! i) (csize (whole root))"
      using program_instr [OF p ok i] p i by (cases "i = csize (whole root)") (auto simp: program_of_def)
    then show ?thesis
    proof cases
      case 2
      then have i1: "i + 1 < length p" using len by simp
      from 2(2) show ?thesis
      proof
        assume "p ! i \<in> set (atoms (whole root))"
        then show ?thesis using atoms_leaf [OF whole_ok [OF ok]] i1 by blast
      next
        assume "flows (p ! i) (csize (whole root))"
        then show ?thesis using i1 len by (cases "p ! i") (simp_all add: flows_def wf_instr_def)
      qed
    qed (simp add: wf_instr_def)
  qed
  then show "wf_prog p" by (simp add: wf_prog_def)
  show "p \<noteq> []" using len by auto
qed

text \<open>A pattern that does not test for the end of the string after it has read the terminator.\<close>

definition nul_safe :: "cregex_node \<Rightarrow> bool" where
  "nul_safe root \<longleftrightarrow> OP_ASSERT_END \<notin> set (atoms root) \<or> list_all (\<lambda>i. consumes i 0 \<noteq> Some True) (atoms root)"

lemma program_no_read_past:
  assumes p: "program_of root p" and ok: "node_ok root" and "nul_safe root" and z: "str ! n = 0"
  shows "no_read_past p str n"
proof -
  have w: "set (atoms (whole root)) \<subseteq> insert OP_ANY_CHARACTER (set (atoms root))" by (auto simp: whole_def)
  have ci: "i = OP_MATCH \<or> i \<in> set (atoms root) \<or> i = OP_ANY_CHARACTER \<or> flows i (csize (whole root))" if "i \<in> set p" for i
    using that program_instr [OF p ok] w by (force simp: in_set_conv_nth)
  have "\<not> flows OP_ASSERT_END h" for h by (simp add: flows_def)
  then have "OP_ASSERT_END \<in> set p \<Longrightarrow> OP_ASSERT_END \<in> set (atoms root)" using ci [of OP_ASSERT_END] by simp
  moreover have "i \<in> set (atoms root)" if "i \<in> set p" "consumes i 0 = Some True" for i
    using ci [OF that(1)] that(2) by (cases i) (simp_all add: flows_def consumes_def)
  ultimately show ?thesis using assms(3) z unfolding no_read_past_def end_ok_def nul_safe_def list_all_iff by metis
qed

lemma wf_testable:
  assumes "wf_prog p" and "\<forall>c \<in> set str. 0 \<le> c \<and> c < 256"
  shows "testable p str"
proof -
  have "consumes i c \<noteq> None" if i: "i \<in> set p" "leaf i" "i \<noteq> OP_MATCH" and c: "c \<in> set str" for i c
  proof -
    obtain pc where "pc < length p" "i = p ! pc" using i(1) by (auto simp: in_set_conv_nth)
    then have "wf_instr (length p) pc i" using assms(1) by (simp add: wf_prog_def)
    then show ?thesis using i(2,3) assms(2) c class_contains
      by (cases i) (auto simp: leaf_def consumes_def wf_instr_def)
  qed
  then show ?thesis by (simp add: testable_def)
qed

section \<open>Matching\<close>

text \<open>Positions only grow, and the captures of the surroundings stay.\<close>

lemma sem_frame:
  "((i, m), (j, m')) \<in> sem str k node nc \<Longrightarrow> i \<le> j \<and> length m' = length m \<and> (\<forall>t < 2 * nc. m' ! t = m ! t)"
proof (induction node arbitrary: i j m m' nc)
  case (CONCATENATION l r)
  then obtain x m1 where "((i, m), (x, m1)) \<in> sem str k l nc" "((x, m1), (j, m')) \<in> sem str k r (nc + ncaps l)" by auto
  then show ?case using CONCATENATION.IH(1) [of i m x m1 nc] CONCATENATION.IH(2) [of x m1 j m' "nc + ncaps l"] by auto
next
  case (ALTERNATION l r)
  then show ?case using ALTERNATION.IH(1) [of i m j m' nc] ALTERNATION.IH(2) [of i m j m' "nc + ncaps l"] by auto
next
  case (QUANTIFIER nmin nmax greedy q)
  then obtain n where "((i, m), (j, m')) \<in> sem str k q nc ^^ n" by auto
  then show ?case
  proof (induction n arbitrary: j m')
    case (Suc n)
    then obtain x m1 where x: "((i, m), (x, m1)) \<in> sem str k q nc ^^ n" "((x, m1), (j, m')) \<in> sem str k q nc" by auto
    show ?case using Suc.IH [OF x(1)] QUANTIFIER.IH [OF x(2)] by auto
  qed simp
next
  case (CAPTURE q)
  then obtain m1 m2 x where s: "((i, m), (i, m1)) \<in> save_pos k (nc * 2)" "((i, m1), (x, m2)) \<in> sem str k q (nc + 1)"
    "((x, m2), (j, m')) \<in> save_pos k (nc * 2 + 1)" by (auto simp: save_pos_def)
  then show ?case using CAPTURE.IH [OF s(2)] by (auto simp: save_pos_def)
qed (auto simp: test_def)

text \<open>
  What a run should find: a stretch of the string, from anywhere or from the start if the pattern
  is anchored, that the pattern matches, with the captures of that match.
\<close>

definition found :: "cregex_node \<Rightarrow> cstring \<Rightarrow> nat \<Rightarrow> nat \<Rightarrow> nat \<Rightarrow> nat option list \<Rightarrow> bool" where
  "found root str k i j m \<longleftrightarrow> (node_is_anchored root \<longrightarrow> i = 0) \<and>
     ((i, replicate k None), (j, m)) \<in> sem str k (CAPTURE root) 0"

lemma sem_prefix:
  assumes "0 \<notin> set cs" and "i \<le> length cs"
  shows "((0, m), (i, m')) \<in> sem (cs @ 0 # rest) k (QUANTIFIER 0 (-1) False ANY_CHARACTER) nc \<longleftrightarrow> m' = m"
proof -
  let ?T = "test (\<lambda>c. c \<noteq> 0) (cs @ 0 # rest)"
  have "((0, m), (i, m)) \<in> ?T ^^ i" if "i \<le> length cs" for i
    using that
  proof (induction i)
    case (Suc i)
    then have "(cs @ 0 # rest) ! i \<noteq> 0" using assms(1) by (auto simp: nth_append) (metis Suc_le_lessD nth_mem)
    then have "((i, m), (Suc i, m)) \<in> ?T" by (auto simp: test_def)
    then show ?case using Suc by auto
  qed simp
  moreover have "m' = m" if "((0, m), (i, m')) \<in> ?T ^^ n" for n i m'
    using that by (induction n arbitrary: i m') (auto simp: test_def)
  ultimately show ?thesis using assms(2) by auto
qed

lemma sem_whole:
  assumes "0 \<notin> set cs" and "j \<le> length cs"
  shows "((0, replicate k None), (j, m)) \<in> sem (cs @ 0 # rest) k (whole root) 0 \<longleftrightarrow>
    (\<exists>i \<le> j. found root (cs @ 0 # rest) k i j m)"
proof (cases "node_is_anchored root")
  case True
  then show ?thesis by (auto simp: whole_def found_def)
next
  case False
  let ?str = "cs @ 0 # rest" and ?Q = "QUANTIFIER 0 (-1) False ANY_CHARACTER"
  have w: "whole root = CONCATENATION ?Q (CAPTURE root)" using False by (simp add: whole_def)
  show ?thesis
  proof
    assume "((0, replicate k None), (j, m)) \<in> sem ?str k (whole root) 0"
    then obtain i m1 where i: "((0, replicate k None), (i, m1)) \<in> sem ?str k ?Q 0" "((i, m1), (j, m)) \<in> sem ?str k (CAPTURE root) 0"
      unfolding w sem.simps(6) by auto
    have "i \<le> j" using sem_frame [OF i(2)] by simp
    then show "\<exists>i \<le> j. found root ?str k i j m"
      using i sem_prefix [OF assms(1), of i] assms(2) False unfolding found_def by auto
  next
    assume "\<exists>i \<le> j. found root ?str k i j m"
    then obtain i where i: "i \<le> j" "((i, replicate k None), (j, m)) \<in> sem ?str k (CAPTURE root) 0"
      unfolding found_def by blast
    then have "((0, replicate k None), (i, replicate k None)) \<in> sem ?str k ?Q 0"
      using sem_prefix [OF assms(1), of i] assms(2) by simp
    then show "((0, replicate k None), (j, m)) \<in> sem ?str k (whole root) 0"
      using i(2) unfolding w sem.simps(6) by (simp add: relcompI)
  qed
qed

lemma program_reach:
  assumes p: "program_of root p" and ok: "node_ok root"
  shows "(\<exists>pc < length p. p ! pc = OP_MATCH \<and> vm_reach p str k pc j m) \<longleftrightarrow>
    ((0, replicate k None), (j, m)) \<in> sem str k (whole root) 0"
proof -
  let ?e = "csize (whole root)"
  have r: "realises p str k 0 (sem str k (whole root) 0) ?e"
    using code_realises [OF whole_ok [OF ok], of p 0 0 str k] p by (simp add: program_of_def)
  have M: "p ! ?e = OP_MATCH" "?e < length p" using p by (simp_all add: program_of_def)
  have only: "pc = ?e" if "pc < length p" "p ! pc = OP_MATCH" for pc
    using program_instr [OF p ok that(1)] atoms_leaf [OF whole_ok [OF ok]] that(2) by (auto simp: flows_def)
  have halt: "((?e, z), w) \<notin> moves p str k" for z w using M(1) by (cases z) (auto simp: moves_def)
  have stuck: "z = y" if r: "((?e, z), (?e, y)) \<in> moves p str k ^^ n" for z y n
    by (rule relpow_E2 [OF r]) (use halt in auto)
  have "vm_reach p str k ?e j m \<longleftrightarrow> ((0, replicate k None), (j, m)) \<in> sem str k (whole root) 0"
  proof
    assume "vm_reach p str k ?e j m"
    then obtain n where n: "((0, 0, replicate k None), (?e, j, m)) \<in> moves p str k ^^ n"
      using reach_moves by (blast dest: rtrancl_imp_relpow)
    obtain z n' where "((0, replicate k None), z) \<in> sem str k (whole root) 0" "((?e, z), (?e, j, m)) \<in> moves p str k ^^ n'"
      by (rule realises_run [OF r n]) auto
    then show "((0, replicate k None), (j, m)) \<in> sem str k (whole root) 0" using stuck by blast
  next
    assume "((0, replicate k None), (j, m)) \<in> sem str k (whole root) 0"
    from realises_cross [OF r this] show "vm_reach p str k ?e j m" using reach_moves by blast
  qed
  then show ?thesis using M only by metis
qed

text \<open>
  The text of a string: characters from 1 to 127.
\<close>

definition c_text :: "cstring \<Rightarrow> bool" where
  "c_text cs \<longleftrightarrow> (\<forall>c \<in> set cs. 0 < c \<and> c < 128)"

lemma run_correct:
  assumes p: "program_of root p" and ok: "node_ok root" "nul_safe root" and cs: "c_text cs"
  obtains b ms where "cregex_program_run True p (cs @ [0]) matches nmatches = Some (if b then 1 else 0, ms)"
    "length ms = nmatches"
    "b \<longleftrightarrow> (\<exists>i j m. j \<le> length cs \<and> found root (cs @ [0]) (ncopy nmatches) i j m)"
    "b \<Longrightarrow> \<exists>i j. j \<le> length cs \<and> found root (cs @ [0]) (ncopy nmatches) i j (take (ncopy nmatches) ms)"
    "\<not> b \<Longrightarrow> ms = replicate nmatches None"
proof -
  let ?str = "cs @ [0]" and ?k = "ncopy nmatches"
  have z: "0 \<notin> set cs" and rng: "\<forall>c \<in> set ?str. 0 \<le> c \<and> c < 256" using cs by (auto simp: c_text_def)
  note wf = program_wf [OF p ok(1)]
  have nrp: "no_read_past p ?str (length cs)" by (rule program_no_read_past [OF p ok]) simp
  have eq: "?str = cs @ 0 # []" by simp
  obtain b ms where r: "vm_run_with_threads p ?str nmatches = Some (b, ms)" "length ms = nmatches"
    "b \<longleftrightarrow> (\<exists>sp \<le> length cs. matches_at p ?str ?k sp)"
    "b \<Longrightarrow> \<exists>pc sp. sp \<le> length cs \<and> pc < length p \<and> p ! pc = OP_MATCH \<and> vm_reach p ?str ?k pc sp (take ?k ms)"
    "\<not> b \<Longrightarrow> ms = replicate nmatches None"
    using vm_run_correct [OF wf eq z wf_testable [OF wf(1) rng] nrp, of nmatches] by metis
  have iff: "(\<exists>pc < length p. p ! pc = OP_MATCH \<and> vm_reach p ?str ?k pc j m) \<longleftrightarrow> (\<exists>i \<le> j. found root ?str ?k i j m)"
    if "j \<le> length cs" for j m
    using program_reach [OF p ok(1), of ?str ?k j m] sem_whole [OF z that, of ?k m "[]" root] by simp
  have le: "i \<le> j" if "found root ?str ?k i j m" for i j m
    using that sem_frame unfolding found_def by blast
  show thesis
  proof (rule that [of b ms])
    show "cregex_program_run True p ?str matches nmatches = Some (if b then 1 else 0, ms)"
      using r(1) by (simp add: cregex_program_run_def)
    show "b \<longleftrightarrow> (\<exists>i j m. j \<le> length cs \<and> found root ?str ?k i j m)"
      using r(3) iff le unfolding matches_at_def by meson
    show "b \<Longrightarrow> \<exists>i j. j \<le> length cs \<and> found root ?str ?k i j (take ?k ms)" using r(4) iff by meson
  qed (use r(2,5) in auto)
qed

end
