(* ===== verification/Cregex_Parse.thy ===== *)
theory Cregex_Parse
  imports Cregex_Compile
begin

text \<open>
  The parser of \<open>src/src/cregex_parse.c\<close>, a shunting-yard over one array of nodes: a stack grows
  from its start, finished nodes go to an output area that grows down from its end. The nodes in
  the output are reached through the trees on the stack, so only their number is kept here.
  \<^term>\<open>None\<close> is a read past the pattern, a collision of the two areas or a signed overflow.
\<close>

section \<open>The code\<close>

record regex_parse_context =
  psp :: nat
  pstack :: "cregex_node list"
  nout :: nat
  capacity :: nat

text \<open>The stack has its top first; \<open>context->stack\<close> is its height.\<close>

abbreviation height :: "regex_parse_context \<Rightarrow> nat" where
  "height context \<equiv> length (pstack context)"

definition push :: "regex_parse_context \<Rightarrow> cregex_node \<Rightarrow> regex_parse_context option" where
  "push context node =
     (if height context + nout context < capacity context
      then Some (context\<lparr> pstack := node # pstack context \<rparr>) else None)"

definition drop_top :: "regex_parse_context \<Rightarrow> regex_parse_context option" where
  "drop_top context = (case pstack context of [] \<Rightarrow> None | _ # st \<Rightarrow> Some (context\<lparr> pstack := st \<rparr>))"

definition consume :: "regex_parse_context \<Rightarrow> (cregex_node \<times> regex_parse_context) option" where
  "consume context =
     (case pstack context of
        [] \<Rightarrow> None
      | node # st \<Rightarrow> Some (node, context\<lparr> pstack := st, nout := nout context + 1 \<rparr>))"

text \<open>The \<open>while\<close> loop of \<open>concatenate\<close>: the nodes above \<open>bottom\<close> become one.\<close>

fun concat_loop :: "nat \<Rightarrow> regex_parse_context \<Rightarrow> nat \<Rightarrow> regex_parse_context option" where
  "concat_loop 0 context bottom = (if height context - 1 > bottom then None else Some context)"
| "concat_loop (Suc fuel) context bottom =
     (if height context - 1 > bottom then do {
        (right, context1) \<leftarrow> consume context;
        (left, context2) \<leftarrow> consume context1;
        context3 \<leftarrow> push context2 (CONCATENATION left right);
        concat_loop fuel context3 bottom
      }
      else Some context)"

definition concatenate :: "regex_parse_context \<Rightarrow> nat \<Rightarrow> regex_parse_context option" where
  "concatenate context bottom =
     (if height context = bottom then push context EPSILON else concat_loop (height context) context bottom)"

text \<open>
  The loop of \<open>parse_char_class\<close>. The flag of the result is false for the null pointer, and the
  position is the one after the class.
\<close>

function parse_class_loop :: "cstring \<Rightarrow> nat \<Rightarrow> nat \<Rightarrow> (bool \<times> nat) option" where
  "parse_class_loop pattern start sp =
     (case aget pattern sp of
        None \<Rightarrow> None
      | Some ch0 \<Rightarrow>
          if ch0 = 0 then Some (False, sp + 1)
          else if ch0 = 93 \<and> sp \<noteq> start then Some (True, sp + 1)
          else
            let sp1 = (if ch0 = 92 then sp + 2 else sp + 1) in
            do {
              ch \<leftarrow> (if ch0 = 92 then aget pattern (sp + 1) else Some ch0);
              r \<leftarrow> range_follows (drop sp1 pattern);
              if r then do {
                hi \<leftarrow> aget pattern (sp1 + 1);
                if hi < ch then Some (False, sp1) else parse_class_loop pattern start (sp1 + 2)
              }
              else parse_class_loop pattern start sp1
            })"
  by pat_completeness auto
termination
  by (relation "measure (\<lambda>(pattern, start, sp). length pattern - sp)")
    (auto dest!: aget_eq_SomeD split: if_splits)

declare parse_class_loop.simps [simp del]

definition parse_char_class :: "cstring \<Rightarrow> regex_parse_context \<Rightarrow> (bool \<times> regex_parse_context) option" where
  "parse_char_class pattern context = do {
     c \<leftarrow> aget pattern (psp context);
     let start = (if c = 94 then psp context + 1 else psp context);
     (ok, sp) \<leftarrow> parse_class_loop pattern start start;
     if ok then do {
       context1 \<leftarrow> push (context\<lparr> psp := sp \<rparr>)
         ((if c = 94 then CHARACTER_CLASS_NEGATED else CHARACTER_CLASS) (drop start pattern));
       Some (True, context1)
     }
     else Some (False, context\<lparr> psp := sp \<rparr>)
   }"

text \<open>A run of digits: \<open>for (n = 0; *sp >= '0' && *sp <= '9'; ++sp) n = n * 10 + (*sp - '0')\<close>.\<close>

function parse_digits :: "cstring \<Rightarrow> nat \<Rightarrow> int \<Rightarrow> (int \<times> nat) option" where
  "parse_digits pattern sp n =
     (case aget pattern sp of
        None \<Rightarrow> None
      | Some c \<Rightarrow>
          if 48 \<le> c \<and> c \<le> 57 then do {
            n1 \<leftarrow> cmul n 10;
            n2 \<leftarrow> cadd n1 (c - 48);
            parse_digits pattern (sp + 1) n2
          }
          else Some (n, sp))"
  by pat_completeness auto
termination
  by (relation "measure (\<lambda>(pattern, sp, n). length pattern - sp)") (auto dest!: aget_eq_SomeD)

declare parse_digits.simps [simp del]

text \<open>\<open>(*context->sp == '?') ? (++context->sp, 0) : 1\<close>.\<close>

definition parse_greedy :: "cstring \<Rightarrow> nat \<Rightarrow> (bool \<times> nat) option" where
  "parse_greedy pattern sp = do {
     c \<leftarrow> aget pattern sp;
     Some (if c = 63 then (False, sp + 1) else (True, sp))
   }"

definition push_quantifier :: "cstring \<Rightarrow> regex_parse_context \<Rightarrow> int \<Rightarrow> int \<Rightarrow> regex_parse_context option" where
  "push_quantifier pattern context nmin nmax = do {
     (greedy, sp) \<leftarrow> parse_greedy pattern (psp context);
     (q, context1) \<leftarrow> consume (context\<lparr> psp := sp \<rparr>);
     push context1 (QUANTIFIER nmin nmax greedy q)
   }"

text \<open>The bounds of an interval and the position of its closing brace; the inner \<^term>\<open>None\<close> is the null pointer.\<close>

definition interval_bounds :: "cstring \<Rightarrow> nat \<Rightarrow> (int \<times> int \<times> nat) option option" where
  "interval_bounds pattern start = do {
     c0 \<leftarrow> aget pattern start;
     (nmin, sp) \<leftarrow> parse_digits pattern start 0;
     c \<leftarrow> aget pattern sp;
     if c = 44 then do {
       d \<leftarrow> aget pattern (sp + 1);
       if c0 \<noteq> 44 \<and> d = 125 then Some (Some (nmin, -1, sp + 1))
       else do {
         (nmax, sp1) \<leftarrow> parse_digits pattern (sp + 1) 0;
         e0 \<leftarrow> aget pattern (sp1 - 1);
         e \<leftarrow> aget pattern sp1;
         Some (if e0 = 44 \<or> e \<noteq> 125 \<or> nmax < nmin then None else Some (nmin, nmax, sp1))
       }
     }
     else Some (if c0 \<noteq> 125 \<and> c = 125 then Some (nmin, nmin, sp) else None)
   }"

definition parse_interval :: "cstring \<Rightarrow> regex_parse_context \<Rightarrow> (bool \<times> regex_parse_context) option" where
  "parse_interval pattern context = do {
     r \<leftarrow> interval_bounds pattern (psp context);
     case r of
       None \<Rightarrow> Some (False, context)
     | Some (nmin, nmax, sp) \<Rightarrow> do {
         context1 \<leftarrow> push_quantifier pattern (context\<lparr> psp := sp + 1 \<rparr>) nmin nmax;
         Some (True, context1)
       }
   }"

text \<open>The end of the branch for \<open>|\<close>: \<open>right\<close> is on top of the stack, \<open>left\<close> below it.\<close>

definition alternate :: "regex_parse_context \<Rightarrow> regex_parse_context option" where
  "alternate context =
     (case pstack context of
        right # left # st \<Rightarrow>
          if left = EPSILON \<and> right = EPSILON then drop_top context
          else if left = EPSILON then do {
            (r, context1) \<leftarrow> consume context;
            context2 \<leftarrow> drop_top context1;
            push context2 (QUANTIFIER 0 1 True r)
          }
          else if right = EPSILON then do {
            context1 \<leftarrow> drop_top context;
            (l, context2) \<leftarrow> consume context1;
            push context2 (QUANTIFIER 0 1 True l)
          }
          else do {
            (r, context1) \<leftarrow> consume context;
            (l, context2) \<leftarrow> consume context1;
            push context2 (ALTERNATION l r)
          }
      | _ \<Rightarrow> None)"

text \<open>
  The loop of \<open>parse_context\<close>, from one character on. The flag is false for the null pointer;
  otherwise the result is the node on top of the stack, at height \<open>bottom + 1\<close>.
\<close>

partial_function (option) parse_loop ::
  "cstring \<Rightarrow> nat \<Rightarrow> nat \<Rightarrow> regex_parse_context \<Rightarrow> (bool \<times> regex_parse_context) option" where
  "parse_loop pattern bottom depth context0 = do {
     ch \<leftarrow> aget pattern (psp context0);
     let context = context0\<lparr> psp := psp context0 + 1 \<rparr>;
     if ch = 92 then do {
       ch1 \<leftarrow> aget pattern (psp context);
       context1 \<leftarrow> push (context\<lparr> psp := psp context + 1 \<rparr>) (CHARACTER ch1);
       parse_loop pattern bottom depth context1
     }
     else if ch = 46 then do {
       context1 \<leftarrow> push context ANY_CHARACTER;
       parse_loop pattern bottom depth context1
     }
     else if ch = 91 then do {
       (ok, context1) \<leftarrow> parse_char_class pattern context;
       if ok then parse_loop pattern bottom depth context1 else Some (False, context1)
     }
     else if ch = 124 then do {
       context1 \<leftarrow> concatenate context bottom;
       (ok, context2) \<leftarrow> parse_loop pattern (height context1) depth context1;
       if \<not> ok then Some (False, context2)
       else do {
         context3 \<leftarrow> alternate context2;
         Some (True, context3)
       }
     }
     else if (ch = 63 \<or> ch = 42 \<or> ch = 43) \<and> height context \<noteq> bottom then do {
       context1 \<leftarrow> push_quantifier pattern context (if ch = 43 then 1 else 0) (if ch = 63 then 1 else -1);
       parse_loop pattern bottom depth context1
     }
     else if ch = 123 \<and> height context \<noteq> bottom then do {
       (ok, context1) \<leftarrow> parse_interval pattern context;
       if ok then parse_loop pattern bottom depth context1
       else do {
         context2 \<leftarrow> push context1 (CHARACTER ch);
         parse_loop pattern bottom depth context2
       }
     }
     else if ch = 94 then do {
       context1 \<leftarrow> push context ANCHOR_BEGIN;
       parse_loop pattern bottom depth context1
     }
     else if ch = 36 then do {
       context1 \<leftarrow> push context ANCHOR_END;
       parse_loop pattern bottom depth context1
     }
     else if ch = 40 then do {
       (ok, context1) \<leftarrow> parse_loop pattern (height context) (depth + 1) context;
       if \<not> ok then Some (False, context1)
       else do {
         (q, context2) \<leftarrow> consume context1;
         context3 \<leftarrow> push context2 (CAPTURE q);
         parse_loop pattern bottom depth context3
       }
     }
     else if ch = 41 then
       (if depth > 0 then do {
          context1 \<leftarrow> concatenate context bottom;
          Some (True, context1)
        }
        else Some (False, context))
     else if ch = 0 then
       (if depth = 0 then do {
          context1 \<leftarrow> concatenate context bottom;
          Some (True, context1)
        }
        else Some (False, context))
     else do {
       context1 \<leftarrow> push context (CHARACTER ch);
       parse_loop pattern bottom depth context1
     }
   }"

declare parse_loop.simps [code]

definition parse_context :: "cstring \<Rightarrow> regex_parse_context \<Rightarrow> nat \<Rightarrow> (bool \<times> regex_parse_context) option" where
  "parse_context pattern context depth = parse_loop pattern (height context) depth context"

text \<open>\<open>strlen\<close>, and the size of the node array.\<close>

fun strlen :: "cstring \<Rightarrow> nat option" where
  "strlen [] = None"
| "strlen (c # cs) = (if c = 0 then Some 0 else map_option Suc (strlen cs))"

definition estimate_nodes :: "cstring \<Rightarrow> int option" where
  "estimate_nodes pattern = do {
     n \<leftarrow> strlen pattern;
     cmul (int n) 2
   }"

definition parse_with_nodes :: "cstring \<Rightarrow> nat \<Rightarrow> (bool \<times> regex_parse_context) option" where
  "parse_with_nodes pattern size0 =
     parse_context pattern \<lparr> psp = 0, pstack = [], nout = 0, capacity = size0 \<rparr> 0"

text \<open>\<open>cregex_parse\<close>: the root is the first node of the array, or null.\<close>

definition cregex_parse :: "bool \<Rightarrow> cstring \<Rightarrow> cregex_node option option" where
  "cregex_parse malloc_ok pattern = do {
     n \<leftarrow> estimate_nodes pattern;
     if \<not> malloc_ok then Some None
     else do {
       (ok, context) \<leftarrow> parse_with_nodes pattern (nat n);
       if \<not> ok then Some None
       else (case rev (pstack context) of [] \<Rightarrow> None | root # _ \<Rightarrow> Some (Some root))
     }
   }"

section \<open>Patterns\<close>

definition digit :: "int \<Rightarrow> bool" where
  "digit c \<longleftrightarrow> 48 \<le> c \<and> c \<le> 57"

text \<open>
  Patterns the parser reads within their bounds: characters from 1 to 127, no backslash at the end
  and no ten digits in a row.
\<close>

definition pattern_ok :: "cstring \<Rightarrow> bool" where
  "pattern_ok cs \<longleftrightarrow> (\<forall>c \<in> set cs. 0 < c \<and> c < 128) \<and> (cs \<noteq> [] \<longrightarrow> last cs \<noteq> 92) \<and>
     (\<forall>i \<le> length cs. i + 10 \<le> length cs \<longrightarrow> (\<exists>c \<in> set (take 10 (drop i cs)). \<not> digit c))"

lemma aget_drop: "aget (drop n xs) i = aget xs (n + i)"
  by (simp add: aget_def less_diff_conv add.commute)

lemma strlen_text: "0 \<notin> set cs \<Longrightarrow> strlen (cs @ 0 # rest) = Some (length cs)"
  by (induction cs) auto

lemma pattern_char:
  assumes "pattern_ok cs" "i \<le> length cs"
  shows "aget (cs @ [0]) i = Some ((cs @ [0]) ! i)" and "(cs @ [0]) ! i = 0 \<longleftrightarrow> i = length cs"
    and "0 \<le> (cs @ [0]) ! i" "(cs @ [0]) ! i < 128"
proof -
  show "aget (cs @ [0]) i = Some ((cs @ [0]) ! i)" using assms(2) by (simp add: aget_def)
  have "0 < cs ! i \<and> cs ! i < 128" if "i < length cs" using assms(1) that by (simp add: pattern_ok_def)
  then show "(cs @ [0]) ! i = 0 \<longleftrightarrow> i = length cs" "0 \<le> (cs @ [0]) ! i" "(cs @ [0]) ! i < 128"
    using assms(2) by (cases "i = length cs"; fastforce simp: nth_append)+
qed

lemma pattern_escape:
  assumes "pattern_ok cs" "i \<le> length cs" "(cs @ [0]) ! i = 92"
  shows "i + 1 < length cs"
proof -
  have i: "i < length cs" using assms by (cases "i = length cs") (auto simp: nth_append)
  then have "last cs \<noteq> 92" using assms(1) by (auto simp: pattern_ok_def)
  moreover have "cs \<noteq> []" using i by auto
  ultimately have "i \<noteq> length cs - 1" using assms(3) i last_conv_nth [of cs] by (auto simp: nth_append simp del: length_greater_0_conv)
  then show ?thesis using i by simp
qed

subsection \<open>Character classes\<close>

lemma add_range_success:
  "0 \<le> ch \<Longrightarrow> hi < 256 \<Longrightarrow> class_ok klass \<Longrightarrow> \<exists>k. add_range klass ch hi = Some k \<and> class_ok k"
proof (induction klass ch hi rule: add_range.induct)
  case (1 klass ch hi)
  show ?case
  proof (cases "ch \<le> hi")
    case True
    obtain k where k: "cregex_char_class_add klass ch = Some k" "class_ok k"
      using class_add [of klass ch] "1.prems" True by (metis order.strict_trans1)
    then show ?thesis using "1.IH" [OF True k(1)] "1.prems" True by (subst add_range.simps) auto
  next
    case False
    then show ?thesis using "1.prems" by (subst add_range.simps) auto
  qed
qed

lemma range_follows_pattern:
  assumes "pattern_ok cs" "sp \<le> length cs"
  obtains r where "range_follows (drop sp (cs @ [0])) = Some r" "r \<Longrightarrow> sp + 1 \<le> length cs"
proof -
  have "aget (drop sp (cs @ [0])) 0 = Some ((cs @ [0]) ! sp)"
    unfolding aget_drop using pattern_char(1) [OF assms] by simp
  moreover have "aget (drop sp (cs @ [0])) 1 = Some ((cs @ [0]) ! (sp + 1))" "sp + 1 \<le> length cs" if "(cs @ [0]) ! sp = 45"
  proof -
    show s1: "sp + 1 \<le> length cs" using that assms(2) by (cases "sp = length cs") (auto simp: nth_append)
    show "aget (drop sp (cs @ [0])) 1 = Some ((cs @ [0]) ! (sp + 1))"
      unfolding aget_drop by (rule pattern_char(1) [OF assms(1) s1])
  qed
  ultimately show thesis by (cases "(cs @ [0]) ! sp = 45") (auto simp: range_follows_def intro: that)
qed

lemma add_item_success:
  assumes "class_ok klass" "0 \<le> ch" "ch < 128" and "range_follows sp = Some r" and "r \<Longrightarrow> aget sp 1 = Some hi \<and> hi < 128"
  obtains k where "add_item klass ch sp = Some (k, if r then 2 else 0)" "class_ok k"
proof (cases r)
  case True
  then obtain k where "add_range klass ch hi = Some k" "class_ok k" using add_range_success [of ch hi klass] assms by auto
  then show ?thesis using that [of k] True assms by (simp add: add_item_def)
next
  case False
  then obtain k where "cregex_char_class_add klass ch = Some k" "class_ok k"
    using class_add [OF assms(1,2)] assms(3) by auto
  then show ?thesis using that [of k] False assms by (simp add: add_item_def)
qed

text \<open>The parser of a class always stops inside the pattern, and what it accepts can be compiled.\<close>

lemma parse_class_correct:
  assumes pat: "pattern_ok cs"
  shows "sp \<le> length cs \<Longrightarrow> start \<le> sp \<Longrightarrow> class_ok klass \<Longrightarrow>
    \<exists>ok sp'. parse_class_loop (cs @ [0]) start sp = Some (ok, sp') \<and>
      (ok \<longrightarrow> sp < sp' \<and> sp' \<le> length cs \<and> char_class_loop (sp = start) (drop sp (cs @ [0])) klass \<noteq> None)"
proof (induction "length cs - sp" arbitrary: sp klass rule: less_induct)
  case less
  let ?p = "cs @ [0]" and ?c = "(cs @ [0]) ! sp"
  note ch = pattern_char [OF pat less.prems(1)]
  have d: "drop sp ?p = ?c # drop (sp + 1) ?p" using less.prems(1) by (simp add: Cons_nth_drop_Suc del: drop_append)
  consider (nul) "?c = 0" | (close) "?c = 93" "sp \<noteq> start" | (item) "?c \<noteq> 0" "\<not> (?c = 93 \<and> sp \<noteq> start)" by blast
  then show ?case
  proof cases
    case nul
    then have "parse_class_loop ?p start sp = Some (False, sp + 1)" using ch(1) by (subst parse_class_loop.simps) simp
    then show ?thesis by blast
  next
    case close
    then have "parse_class_loop ?p start sp = Some (True, sp + 1)" using ch(1) by (subst parse_class_loop.simps) simp
    moreover have "sp < length cs" using ch(2) close less.prems(1) by (simp add: order.order_iff_strict)
    ultimately show ?thesis using close d by auto
  next
    case item
    define sp1 where "sp1 = (if ?c = 92 then sp + 2 else sp + 1)"
    define c where "c = (if ?c = 92 then ?p ! (sp + 1) else ?c)"
    have lt: "sp < length cs" using ch(2) item(1) less.prems(1) by auto
    have sp1: "sp1 \<le> length cs" "sp < sp1" using pattern_escape [OF pat less.prems(1)] lt by (auto simp: sp1_def)
    have c: "0 < c" "c < 128" "(if ?c = 92 then aget ?p (sp + 1) else Some ?c) = Some c"
      using ch item(1) pattern_escape [OF pat less.prems(1)] pattern_char [OF pat, of "sp + 1"]
      by (auto simp: c_def split: if_splits)
    have loop: "char_class_loop (sp = start) (drop sp ?p) klass =
        (case add_item klass c (drop sp1 ?p) of None \<Rightarrow> None | Some (k1, n) \<Rightarrow> char_class_loop False (drop n (drop sp1 ?p)) k1)"
    proof (cases "?c = 92")
      case True
      then have "drop (sp + 1) ?p = c # drop sp1 ?p"
        using pattern_escape [OF pat less.prems(1)] by (simp add: c_def sp1_def Cons_nth_drop_Suc del: drop_append)
      then show ?thesis using True item(2) d by (simp del: drop_append drop_drop)
    next
      case False
      then have "sp1 = sp + 1" "c = ?c" by (simp_all add: sp1_def c_def)
      then show ?thesis using False item(2) d by (auto simp del: drop_append drop_drop)
    qed
    obtain r where r: "range_follows (drop sp1 ?p) = Some r" "r \<Longrightarrow> sp1 + 1 \<le> length cs"
      using range_follows_pattern [OF pat sp1(1)] by blast
    let ?hi = "?p ! (sp1 + 1)"
    have hi: "aget ?p (sp1 + 1) = Some ?hi" "?hi < 128" "?hi = 0 \<longleftrightarrow> sp1 + 1 = length cs"
      "aget (drop sp1 ?p) 1 = Some ?hi" if r
      using pattern_char [OF pat r(2) [OF that]] unfolding aget_drop by simp_all
    have unf: "parse_class_loop ?p start sp =
        (if r then if ?hi < c then Some (False, sp1) else parse_class_loop ?p start (sp1 + 2)
         else parse_class_loop ?p start sp1)"
      using ch(1) item c(3) r(1) hi(1) by (subst parse_class_loop.simps) (auto simp: sp1_def [symmetric] Let_def)
    show ?thesis
    proof (cases "r \<and> ?hi < c")
      case True
      then have "parse_class_loop ?p start sp = Some (False, sp1)" using unf by simp
      then show ?thesis by blast
    next
      case False
      let ?n = "if r then 2 else 0"
      obtain k where k: "add_item klass c (drop sp1 ?p) = Some (k, ?n)" "class_ok k"
        using add_item_success [OF less.prems(3) _ c(2) r(1), of ?hi] c(1) hi(2,4) by (metis less_imp_le)
      have n: "sp1 + ?n \<le> length cs" using False hi(3) r(2) sp1(1) c(1) by (auto simp: order.order_iff_strict)
      have "length cs - (sp1 + ?n) < length cs - sp" "start \<le> sp1 + ?n" using sp1 lt less.prems(2) by auto
      from less.hyps [OF this(1) n this(2) k(2)] obtain ok sp' where
        r': "parse_class_loop ?p start (sp1 + ?n) = Some (ok, sp')"
        "ok \<longrightarrow> sp1 + ?n < sp' \<and> sp' \<le> length cs \<and>
           char_class_loop (sp1 + ?n = start) (drop (sp1 + ?n) ?p) k \<noteq> None" by blast
      have "sp1 + ?n \<noteq> start" using sp1(2) less.prems(2) by simp
      then have "ok \<longrightarrow> char_class_loop (sp = start) (drop sp ?p) klass \<noteq> None"
        using loop k(1) r'(2) by (simp add: add.commute del: drop_append split: if_splits)
      moreover have "parse_class_loop ?p start sp = Some (ok, sp')" using unf False r'(1) by (cases r) auto
      ultimately show ?thesis using r'(2) sp1(2) by auto
    qed
  qed
qed

subsection \<open>Intervals\<close>

lemma parse_digits_correct:
  assumes pat: "pattern_ok cs"
  shows "sp \<le> length cs \<Longrightarrow> d \<le> sp \<Longrightarrow> (\<forall>i. sp - d \<le> i \<and> i < sp \<longrightarrow> digit (cs ! i)) \<Longrightarrow> d < 10 \<Longrightarrow> 0 \<le> n \<Longrightarrow> n < 10 ^ d \<Longrightarrow>
    \<exists>n' sp'. parse_digits (cs @ [0]) sp n = Some (n', sp') \<and> 0 \<le> n' \<and> n' < 10 ^ 9 \<and> sp \<le> sp' \<and> sp' \<le> length cs"
proof (induction "length cs - sp" arbitrary: sp d n rule: less_induct)
  case less
  let ?c = "(cs @ [0]) ! sp"
  note ch = pattern_char [OF pat less.prems(1)]
  show ?case
  proof (cases "digit ?c")
    case True
    then have lt: "sp < length cs" using less.prems(1) by (cases "sp = length cs") (auto simp: digit_def)
    have "d + 1 < 10"
    proof (rule ccontr)
      assume "\<not> d + 1 < 10"
      then have d: "d = 9" using less.prems(4) by simp
      have "digit (cs ! i)" if "sp - 9 \<le> i" "i < sp + 1" for i
        using less.prems(3) True lt that d by (cases "i = sp") (auto simp: nth_append)
      then have "\<forall>c \<in> set (take 10 (drop (sp - 9) cs)). digit c"
        using d less.prems(2) lt by (auto simp: in_set_conv_nth)
      moreover have "sp - 9 + 10 \<le> length cs" "sp - 9 \<le> length cs" using lt less.prems(2) d by auto
      ultimately show False using pat unfolding pattern_ok_def by blast
    qed
    have n: "n * 10 + (?c - 48) < 10 ^ (d + 1)" "0 \<le> n * 10 + (?c - 48)"
      using True less.prems(5,6) by (auto simp: digit_def)
    have "(10 :: int) ^ (d + 1) \<le> 10 ^ 9" using \<open>d + 1 < 10\<close> by (intro power_increasing) auto
    then have bound: "n * 10 + (?c - 48) \<le> INT_MAX" "n * 10 \<le> INT_MAX" using n True by (auto simp: INT_MAX_def digit_def)
    then have step: "parse_digits (cs @ [0]) sp n = parse_digits (cs @ [0]) (sp + 1) (n * 10 + (?c - 48))"
      using True ch(1) n(2) less.prems(5)
      by (subst parse_digits.simps) (simp add: digit_def cmul_def cadd_def cint_Some)
    have "\<forall>i. sp + 1 - (d + 1) \<le> i \<and> i < sp + 1 \<longrightarrow> digit (cs ! i)"
      using less.prems(3) True lt by (auto simp: less_Suc_eq nth_append)
    then show ?thesis using less.hyps [of "sp + 1" "d + 1" "n * 10 + (?c - 48)"] lt less.prems(2) \<open>d + 1 < 10\<close> n step by fastforce
  next
    case False
    then have "parse_digits (cs @ [0]) sp n = Some (n, sp)"
      using ch(1) by (subst parse_digits.simps) (auto simp: digit_def)
    moreover have "(10 :: int) ^ d \<le> 10 ^ 9" using less.prems(4) by (intro power_increasing) auto
    ultimately show ?thesis using less.prems by auto
  qed
qed

lemma parse_digits_from:
  assumes "pattern_ok cs" "sp \<le> length cs"
  obtains n sp' where "parse_digits (cs @ [0]) sp 0 = Some (n, sp')" "0 \<le> n" "n < 10 ^ 9" "sp \<le> sp'" "sp' \<le> length cs"
proof -
  have "\<forall>i. sp - 0 \<le> i \<and> i < sp \<longrightarrow> digit (cs ! i)" by auto
  from parse_digits_correct [OF assms le0 this] show thesis using that by fastforce
qed

lemma interval_correct:
  assumes pat: "pattern_ok cs" and sp: "sp \<le> length cs"
  obtains r where "interval_bounds (cs @ [0]) sp = Some r"
    "\<And>nmin nmax sp'. r = Some (nmin, nmax, sp') \<Longrightarrow> sp \<le> sp' \<and> sp' < length cs \<and>
       0 \<le> nmin \<and> nmin \<le> INT_MAX \<and> (nmax = -1 \<or> nmin \<le> nmax \<and> nmax \<le> INT_MAX)"
proof -
  let ?p = "cs @ [0]"
  have nine: "(10 :: int) ^ 9 \<le> INT_MAX" by (simp add: INT_MAX_def)
  obtain nmin sp1 where n: "parse_digits ?p sp 0 = Some (nmin, sp1)" "0 \<le> nmin" "nmin < 10 ^ 9" "sp \<le> sp1" "sp1 \<le> length cs"
    by (rule parse_digits_from [OF pat sp])
  note c0 = pattern_char [OF pat sp] and c = pattern_char [OF pat n(5)]
  have lt: "i < length cs" if "i \<le> length cs" "?p ! i \<noteq> 0" for i using that by (cases "i = length cs") (auto simp: nth_append)
  show thesis
  proof (cases "?p ! sp1 = 44")
    case True
    then have s1: "sp1 + 1 \<le> length cs" using lt [OF n(5)] by simp
    note d = pattern_char [OF pat s1]
    show ?thesis
    proof (cases "?p ! sp \<noteq> 44 \<and> ?p ! (sp1 + 1) = 125")
      case T: True
      then show ?thesis using True c0(1) c(1) d(1) n nine lt [OF s1]
        by (intro that [of "Some (nmin, -1, sp1 + 1)"]) (auto simp: interval_bounds_def)
    next
      case False
      obtain nmax sp2 where m: "parse_digits ?p (sp1 + 1) 0 = Some (nmax, sp2)" "0 \<le> nmax" "nmax < 10 ^ 9" "sp1 + 1 \<le> sp2" "sp2 \<le> length cs"
        by (rule parse_digits_from [OF pat s1])
      have "sp2 - 1 \<le> length cs" using m(5) by simp
      note e = pattern_char [OF pat m(5)] and e0 = pattern_char [OF pat this]
      let ?r = "if ?p ! (sp2 - 1) = 44 \<or> ?p ! sp2 \<noteq> 125 \<or> nmax < nmin then None else Some (nmin, nmax, sp2)"
      have "interval_bounds ?p sp = Some ?r"
        using True False c0(1) c(1) d(1) n(1) m(1) e(1) e0(1) by (auto simp: interval_bounds_def)
      then show ?thesis using n m nine lt [OF m(5)] by (intro that [of ?r]) (auto split: if_splits)
    qed
  next
    case False
    let ?r = "if ?p ! sp \<noteq> 125 \<and> ?p ! sp1 = 125 then Some (nmin, nmin, sp1) else None"
    have "interval_bounds ?p sp = Some ?r" using False c0(1) c(1) n(1) by (auto simp: interval_bounds_def)
    then show ?thesis using n nine lt [OF n(5)] by (intro that [of ?r]) (auto split: if_splits)
  qed
qed

section \<open>The node array\<close>

text \<open>
  The state of the parser above a bottom part \<open>low\<close> of the stack: the nodes \<open>ups\<close> on top of it, and a
  budget \<open>C\<close> of nodes that covers what the rest of the pattern can still need.
\<close>

definition used :: "regex_parse_context \<Rightarrow> nat" where
  "used c = height c + nout c"

definition need :: "nat \<Rightarrow> nat \<Rightarrow> nat" where
  "need n r = (if n = 0 then max 1 (2 * r) else n + 2 * r)"

definition pinv :: "cstring \<Rightarrow> nat \<Rightarrow> cregex_node list \<Rightarrow> cregex_node list \<Rightarrow> regex_parse_context \<Rightarrow> bool" where
  "pinv cs C low ups c \<longleftrightarrow> pstack c = ups @ low \<and> psp c \<le> length cs \<and> list_all node_ok ups \<and>
     used c + need (length ups) (length cs - psp c) \<le> C \<and> C \<le> capacity c"

definition pout :: "cstring \<Rightarrow> nat \<Rightarrow> cregex_node list \<Rightarrow> nat \<Rightarrow> nat \<Rightarrow> regex_parse_context \<Rightarrow> regex_parse_context \<Rightarrow> bool" where
  "pout cs C low depth sp c c' \<longleftrightarrow> (\<exists>node. node_ok node \<and> pstack c' = node # low) \<and> sp < psp c' \<and>
     capacity c' = capacity c \<and>
     (if depth > 0 then psp c' \<le> length cs \<and> used c' + 1 + 2 * (length cs - psp c') \<le> C else used c' \<le> C)"

lemma push_inv:
  assumes "pinv cs C low ups c" and "psp c < sp" "sp \<le> length cs" and "node_ok node"
  shows "\<exists>c'. push (c\<lparr> psp := sp \<rparr>) node = Some c' \<and> pinv cs C low (node # ups) c' \<and> psp c' = sp \<and> capacity c' = capacity c"
  using assms by (auto simp: pinv_def push_def used_def need_def split: if_splits)

lemma consume_push:
  assumes "pinv cs C low (q # ups) c" and "psp c < sp" "sp \<le> length cs" and "node_ok node"
  shows "\<exists>c1 c2. consume (c\<lparr> psp := sp \<rparr>) = Some (q, c1) \<and> push c1 node = Some c2 \<and>
    pinv cs C low (node # ups) c2 \<and> psp c2 = sp \<and> capacity c2 = capacity c"
  using assms by (auto simp: pinv_def push_def consume_def used_def need_def)

lemma quantifier_inv:
  assumes pat: "pattern_ok cs" and inv: "pinv cs C low ups c" and "ups \<noteq> []" and sp: "psp c < sp" "sp \<le> length cs"
    and n: "0 \<le> nmin" "nmin \<le> INT_MAX" "nmax = -1 \<or> nmin \<le> nmax \<and> nmax \<le> INT_MAX"
  shows "\<exists>c' ups'. push_quantifier (cs @ [0]) (c\<lparr> psp := sp \<rparr>) nmin nmax = Some c' \<and> pinv cs C low ups' c' \<and>
    psp c < psp c' \<and> capacity c' = capacity c"
proof -
  obtain q us where ups: "ups = q # us" using assms(3) by (cases ups) auto
  note ch = pattern_char [OF pat sp(2)]
  obtain g sp1 where g: "parse_greedy (cs @ [0]) sp = Some (g, sp1)" "sp \<le> sp1" "sp1 \<le> length cs"
  proof (cases "(cs @ [0]) ! sp = 63")
    case True
    then have "sp \<noteq> length cs" using ch(2) by auto
    then show thesis using that [of False "sp + 1"] ch(1) True sp(2) by (simp add: parse_greedy_def)
  next
    case False
    then show thesis using that [of True sp] ch(1) sp(2) by (simp add: parse_greedy_def)
  qed
  have ok: "node_ok (QUANTIFIER nmin nmax g q)" using inv ups n by (auto simp: pinv_def)
  have "psp c < sp1" using sp(1) g(2) by simp
  from consume_push [OF inv [unfolded ups] this g(3) ok] obtain c1 c2 where
    "consume (c\<lparr> psp := sp1 \<rparr>) = Some (q, c1)" "push c1 (QUANTIFIER nmin nmax g q) = Some c2"
    "pinv cs C low (QUANTIFIER nmin nmax g q # us) c2" "psp c2 = sp1" "capacity c2 = capacity c" by blast
  then show ?thesis using g(1) \<open>psp c < sp1\<close> by (auto simp: push_quantifier_def)
qed

text \<open>\<open>concatenate\<close> leaves one node above the bottom.\<close>

lemma concat_loop_correct:
  "pstack c = ups @ low \<Longrightarrow> ups \<noteq> [] \<Longrightarrow> list_all node_ok ups \<Longrightarrow> length ups \<le> Suc fuel \<Longrightarrow>
   used c + length ups \<le> capacity c + 1 \<Longrightarrow>
   \<exists>c' node. concat_loop fuel c (length low) = Some c' \<and> pstack c' = node # low \<and> node_ok node \<and>
     psp c' = psp c \<and> capacity c' = capacity c \<and> used c' + 1 = used c + length ups"
proof (induction fuel arbitrary: c ups)
  case 0
  then obtain u where "ups = [u]" by (cases ups) auto
  then show ?case using 0 by (auto simp: used_def)
next
  case (Suc fuel)
  show ?case
  proof (cases ups)
    case (Cons r us)
    show ?thesis
    proof (cases us)
      case Nil
      then show ?thesis using Cons Suc.prems by (auto simp: used_def)
    next
      case us: (Cons l vs)
      define c3 where "c3 = c\<lparr> nout := nout c + 2, pstack := CONCATENATION l r # vs @ low \<rparr>"
      have "concat_loop (Suc fuel) c (length low) = concat_loop fuel c3 (length low)"
        using Cons us Suc.prems by (simp add: consume_def push_def used_def c3_def)
      moreover have "used c3 = used c + 1" using Cons us Suc.prems(1) by (simp add: used_def c3_def)
      ultimately show ?thesis
        using Suc.IH [of c3 "CONCATENATION l r # vs"] Cons us Suc.prems by (auto simp: c3_def)
    qed
  qed (use Suc.prems in simp)
qed

lemma concatenate_inv:
  assumes inv: "pinv cs C low ups c"
  shows "\<exists>c' node. concatenate (c\<lparr> psp := sp \<rparr>) (length low) = Some c' \<and> pstack c' = node # low \<and> node_ok node \<and>
    psp c' = sp \<and> capacity c' = capacity c \<and> used c' = used c + (if ups = [] then 1 else length ups - 1) \<and>
    (ups = [] \<longrightarrow> node = EPSILON)"
proof (cases "ups = []")
  case True
  then show ?thesis using inv by (auto simp: pinv_def concatenate_def push_def used_def need_def)
next
  case False
  have "\<exists>c' node. concat_loop (height c) (c\<lparr> psp := sp \<rparr>) (length low) = Some c' \<and> pstack c' = node # low \<and> node_ok node \<and>
     psp c' = sp \<and> capacity c' = capacity c \<and> used c' + 1 = used c + length ups"
    using concat_loop_correct [of "c\<lparr> psp := sp \<rparr>" ups low "height c"] inv False
    by (auto simp: pinv_def need_def used_def)
  then obtain c' node where "concat_loop (height c) (c\<lparr> psp := sp \<rparr>) (length low) = Some c'" "pstack c' = node # low" "node_ok node"
    "psp c' = sp" "capacity c' = capacity c" "used c' + 1 = used c + length ups" by blast
  moreover have "height c \<noteq> length low" using inv False by (auto simp: pinv_def)
  moreover have "concatenate (c\<lparr> psp := sp \<rparr>) (length low) = concat_loop (height c) (c\<lparr> psp := sp \<rparr>) (length low)"
    using calculation(7) by (simp add: concatenate_def)
  ultimately show ?thesis using False by (intro exI [of _ c'] exI [of _ node]) (cases ups; simp)
qed

lemma alternate_inv:
  assumes "pstack c = right # left # low" "node_ok right" "node_ok left" and "used c + (if left = EPSILON then 0 else 1) \<le> capacity c"
  shows "\<exists>c' node. alternate c = Some c' \<and> pstack c' = node # low \<and> node_ok node \<and> psp c' = psp c \<and> capacity c' = capacity c \<and>
    used c' \<le> used c + (if left = EPSILON then 0 else 1)"
  using assms
  by (cases "left = EPSILON"; cases "right = EPSILON")
    (auto simp: alternate_def drop_top_def consume_def push_def used_def INT_MAX_def)

lemma pout_mono: "pout cs C low depth sp c c' \<Longrightarrow> sp' \<le> sp \<Longrightarrow> capacity c = capacity d \<Longrightarrow> pout cs C low depth sp' d c'"
  by (auto simp: pout_def)

text \<open>The end of a context: at the closing parenthesis or the terminator.\<close>

lemma finish_out:
  assumes inv: "pinv cs C low ups c" and d: "0 < depth \<Longrightarrow> psp c < length cs"
  shows "\<exists>c'. concatenate (c\<lparr> psp := psp c + 1 \<rparr>) (length low) = Some c' \<and> pout cs C low depth (psp c) c c'"
proof -
  obtain c' node where c': "concatenate (c\<lparr> psp := psp c + 1 \<rparr>) (length low) = Some c'" "pstack c' = node # low" "node_ok node"
    "psp c' = psp c + 1" "capacity c' = capacity c" "used c' = used c + (if ups = [] then 1 else length ups - 1)"
    using concatenate_inv [OF inv, of "psp c + 1"] by blast
  have "pout cs C low depth (psp c) c c'"
    using c'(2-6) inv d by (cases ups) (auto simp: pout_def pinv_def need_def)
  with c'(1) show ?thesis by blast
qed

text \<open>The branch for \<open>|\<close>, once the right-hand side is parsed.\<close>

lemma alternate_out:
  assumes inv: "pinv cs C low ups c" and lt: "psp c < length cs"
    and c1: "pstack c1 = left # low" "node_ok left" "psp c1 = psp c + 1" "capacity c1 = capacity c"
      "used c1 = used c + (if ups = [] then 1 else length ups - 1)" "ups = [] \<longrightarrow> left = EPSILON"
    and out: "pout cs (used c1 + need 0 (length cs - psp c1)) (left # low) depth (psp c1) c1 c2"
  shows "\<exists>c3. alternate c2 = Some c3 \<and> pout cs C low depth (psp c) c c3"
proof -
  obtain right where c2: "node_ok right" "pstack c2 = right # left # low" "psp c1 < psp c2" "capacity c2 = capacity c"
    using out c1(4) by (auto simp: pout_def)
  let ?e = "if left = EPSILON then 0 else (1 :: nat)"
  have room: "used c1 + need 0 (length cs - psp c1) + ?e \<le> C"
    using inv lt c1(3,5,6) by (cases ups) (auto simp: pinv_def need_def)
  then have "used c2 + ?e \<le> capacity c2"
    using out inv c2(4) by (auto simp: pout_def pinv_def split: if_splits)
  then obtain c3 node where c3: "alternate c2 = Some c3" "pstack c3 = node # low" "node_ok node" "psp c3 = psp c2"
    "capacity c3 = capacity c2" "used c3 \<le> used c2 + ?e"
    using alternate_inv [OF c2(2,1) c1(2)] by blast
  have "pout cs C low depth (psp c) c c3"
    using c3(2-6) c2(3,4) c1(3) out room by (auto simp: pout_def split: if_splits)
  with c3(1) show ?thesis by blast
qed

lemma need_group:
  assumes "pinv cs C low ups c" and "psp c < length cs"
  shows "used c + need 0 (length cs - (psp c + 1)) \<le> capacity c"
    and "used c' + 1 + 2 * (length cs - sp) \<le> used c + need 0 (length cs - (psp c + 1)) \<Longrightarrow> psp c + 1 < length cs \<Longrightarrow>
      used c' + 1 + need (Suc (length ups)) (length cs - sp) \<le> C"
  using assms by (auto simp: pinv_def need_def split: if_splits)

lemma class_inv:
  assumes pat: "pattern_ok cs" and inv: "pinv cs C low ups c" and lt: "psp c < length cs"
  shows "\<exists>ok c1 us. parse_char_class (cs @ [0]) (c\<lparr> psp := psp c + 1 \<rparr>) = Some (ok, c1) \<and>
    (ok \<longrightarrow> pinv cs C low us c1 \<and> psp c < psp c1 \<and> capacity c1 = capacity c)"
proof -
  let ?p = "cs @ [0]" and ?sp = "psp c + 1"
  have sp: "?sp \<le> length cs" using lt by simp
  note ch = pattern_char [OF pat sp]
  define start where "start = (if ?p ! ?sp = 94 then ?sp + 1 else ?sp)"
  have start: "start \<le> length cs" using ch(2) sp by (auto simp: start_def order.order_iff_strict)
  have e: "class_ok empty_class" by (simp add: class_ok_def empty_class_def)
  obtain ok sp' where r: "parse_class_loop ?p start start = Some (ok, sp')"
    "ok \<longrightarrow> start < sp' \<and> sp' \<le> length cs \<and> char_class_loop True (drop start ?p) empty_class \<noteq> None"
    using parse_class_correct [OF pat start order_refl e] by auto
  let ?n = "(if ?p ! ?sp = 94 then CHARACTER_CLASS_NEGATED else CHARACTER_CLASS) (drop start ?p)"
  show ?thesis
  proof (cases ok)
    case True
    have sp': "psp c < sp'" "sp' \<le> length cs" "node_ok ?n"
      using r(2) True by (auto simp: start_def compile_char_class_def split: if_splits)
    obtain c1 where "push (c\<lparr> psp := sp' \<rparr>) ?n = Some c1" "pinv cs C low (?n # ups) c1" "psp c1 = sp'" "capacity c1 = capacity c"
      using push_inv [OF inv sp'] by blast
    moreover have "parse_char_class ?p (c\<lparr> psp := ?sp \<rparr>) = Some (True, c1)"
      using calculation(1) r(1) True ch(1)
      by (cases "?p ! ?sp = 94") (simp_all add: parse_char_class_def start_def Let_def del: drop_append)
    ultimately show ?thesis using sp'(1) by (intro exI [of _ True] exI [of _ c1] exI [of _ "?n # ups"]) simp
  next
    case False
    then have "parse_char_class ?p (c\<lparr> psp := ?sp \<rparr>) = Some (False, c\<lparr> psp := sp' \<rparr>)"
      using r(1) ch(1) by (cases "?p ! ?sp = 94") (simp_all add: parse_char_class_def start_def Let_def)
    then show ?thesis by blast
  qed
qed

lemma interval_inv:
  assumes pat: "pattern_ok cs" and inv: "pinv cs C low ups c" and lt: "psp c < length cs" and "ups \<noteq> []"
  shows "\<exists>ok c1 us. parse_interval (cs @ [0]) (c\<lparr> psp := psp c + 1 \<rparr>) = Some (ok, c1) \<and>
    (if ok then pinv cs C low us c1 \<and> psp c < psp c1 \<and> capacity c1 = capacity c else c1 = c\<lparr> psp := psp c + 1 \<rparr>)"
proof -
  let ?p = "cs @ [0]" and ?sp = "psp c + 1"
  have sp: "?sp \<le> length cs" using lt by simp
  obtain r where r: "interval_bounds ?p ?sp = Some r"
    "\<And>nmin nmax sp'. r = Some (nmin, nmax, sp') \<Longrightarrow> ?sp \<le> sp' \<and> sp' < length cs \<and>
       0 \<le> nmin \<and> nmin \<le> INT_MAX \<and> (nmax = -1 \<or> nmin \<le> nmax \<and> nmax \<le> INT_MAX)"
    using interval_correct [OF pat sp] by blast
  show ?thesis
  proof (cases r)
    case None
    then have "parse_interval ?p (c\<lparr> psp := ?sp \<rparr>) = Some (False, c\<lparr> psp := ?sp \<rparr>)" using r(1) by (simp add: parse_interval_def)
    then show ?thesis by (intro exI [of _ False]) simp
  next
    case (Some t)
    obtain nmin nmax sp' where t: "t = (nmin, nmax, sp')" by (cases t) auto
    have b: "psp c < sp' + 1" "sp' + 1 \<le> length cs" "0 \<le> nmin" "nmin \<le> INT_MAX" "nmax = -1 \<or> nmin \<le> nmax \<and> nmax \<le> INT_MAX"
      using r(2) [of nmin nmax sp'] Some t by auto
    obtain c1 us where "push_quantifier ?p (c\<lparr> psp := sp' + 1 \<rparr>) nmin nmax = Some c1" "pinv cs C low us c1"
      "psp c < psp c1" "capacity c1 = capacity c"
      using quantifier_inv [OF pat inv assms(4) b] by blast
    then show ?thesis using r(1) Some t by (intro exI [of _ True] exI [of _ c1] exI [of _ us]) (simp add: parse_interval_def)
  qed
qed

lemma parse_loop_correct:
  assumes pat: "pattern_ok cs"
  shows "pinv cs C low ups c \<Longrightarrow>
    \<exists>ok c'. parse_loop (cs @ [0]) (length low) depth c = Some (ok, c') \<and> (ok \<longrightarrow> pout cs C low depth (psp c) c c')"
proof (induction "length cs - psp c" arbitrary: c C low ups depth rule: less_induct)
  case less
  let ?p = "cs @ [0]" and ?ch = "(cs @ [0]) ! psp c" and ?c = "c\<lparr> psp := psp c + 1 \<rparr>"
  let ?goal = "\<exists>ok c'. parse_loop ?p (length low) depth c = Some (ok, c') \<and> (ok \<longrightarrow> pout cs C low depth (psp c) c c')"
  have psp: "psp c \<le> length cs" and st: "pstack c = ups @ low" using less.prems by (simp_all add: pinv_def)
  note ch = pattern_char [OF pat psp]
  have h: "height c = length low \<longleftrightarrow> ups = []" using st by simp
  note unf = parse_loop.simps [of ?p "length low" depth c]
  have go: ?goal if "pinv cs C low us c1" "psp c < psp c1" "capacity c1 = capacity c"
      "parse_loop ?p (length low) depth c = parse_loop ?p (length low) depth c1" "psp c < length cs" for us c1
  proof -
    have "length cs - psp c1 < length cs - psp c" using that(2,5) by simp
    from less.hyps [OF this that(1), of depth] obtain ok c' where
      "parse_loop ?p (length low) depth c1 = Some (ok, c')" "ok \<longrightarrow> pout cs C low depth (psp c1) c1 c'" by blast
    moreover have "ok \<longrightarrow> pout cs C low depth (psp c) c c'"
      using calculation(2) pout_mono [of cs C low depth "psp c1" c1 c' "psp c" c] that(2,3) by auto
    ultimately show ?thesis using that(4) by auto
  qed
  have atom: ?goal if lt: "psp c < length cs" and sp: "psp c < sp" "sp \<le> length cs" and ok: "node_ok node"
    and eq: "\<And>c1. push (c\<lparr> psp := sp \<rparr>) node = Some c1 \<Longrightarrow> parse_loop ?p (length low) depth c = parse_loop ?p (length low) depth c1"
    for sp node
  proof -
    obtain c1 where c1: "push (c\<lparr> psp := sp \<rparr>) node = Some c1" "pinv cs C low (node # ups) c1" "psp c1 = sp" "capacity c1 = capacity c"
      using push_inv [OF less.prems sp ok] by blast
    show ?thesis by (rule go [OF c1(2)]) (use c1 eq sp lt in auto)
  qed
  show ?case
  proof (cases "psp c = length cs")
    case True
    then have z: "?ch = 0" using ch(2) by simp
    show ?thesis
    proof (cases "depth = 0")
      case True
      obtain c' where "concatenate ?c (length low) = Some c'" "pout cs C low depth (psp c) c c'"
        using finish_out [OF less.prems, of depth] True by auto
      then show ?thesis using unf ch(1) z True by (auto simp: Let_def)
    next
      case False
      then have "parse_loop ?p (length low) depth c = Some (False, ?c)" using unf ch(1) z by (simp add: Let_def)
      then show ?thesis by blast
    qed
  next
    case False
    then have lt: "psp c < length cs" and nz: "?ch \<noteq> 0" using psp ch(2) by auto
    note stp = unf ch(1) lt
    consider (esc) "?ch = 92" | (dot) "?ch = 46" | (klass) "?ch = 91" | (alt) "?ch = 124"
      | (quant) "?ch = 63 \<or> ?ch = 42 \<or> ?ch = 43" "ups \<noteq> []" | (interval) "?ch = 123" "ups \<noteq> []"
      | (caret) "?ch = 94" | (dollar) "?ch = 36" | (opn) "?ch = 40" | (cls) "?ch = 41"
      | (chr) "?ch \<noteq> 92" "?ch \<noteq> 46" "?ch \<noteq> 91" "?ch \<noteq> 124" "\<not> ((?ch = 63 \<or> ?ch = 42 \<or> ?ch = 43) \<and> ups \<noteq> [])"
        "\<not> (?ch = 123 \<and> ups \<noteq> [])" "?ch \<noteq> 94" "?ch \<noteq> 36" "?ch \<noteq> 40" "?ch \<noteq> 41"
      by blast
    then show ?thesis
    proof cases
      case esc
      have sp1: "psp c + 1 < length cs" using pattern_escape [OF pat psp esc] .
      then have "aget ?p (psp c + 1) = Some (?p ! (psp c + 1))" by (simp add: aget_def)
      then show ?thesis using stp esc sp1 by (intro atom [of "psp c + 2" "CHARACTER (?p ! (psp c + 1))"]) (auto simp: Let_def)
    next
      case dot
      then show ?thesis using stp by (intro atom [of "psp c + 1" ANY_CHARACTER]) (auto simp: Let_def)
    next
      case klass
      obtain ok c1 us where r: "parse_char_class ?p ?c = Some (ok, c1)"
        "ok \<longrightarrow> pinv cs C low us c1 \<and> psp c < psp c1 \<and> capacity c1 = capacity c"
        using class_inv [OF pat less.prems lt] by blast
      show ?thesis
      proof (cases ok)
        case True
        then show ?thesis using stp klass r by (intro go [of us c1]) (auto simp: Let_def)
      next
        case False
        then have "parse_loop ?p (length low) depth c = Some (False, c1)" using stp klass r(1) by (simp add: Let_def)
        then show ?thesis by blast
      qed
    next
      case alt
      obtain c1 left where c1: "concatenate ?c (length low) = Some c1" "pstack c1 = left # low" "node_ok left"
        "psp c1 = psp c + 1" "capacity c1 = capacity c" "used c1 = used c + (if ups = [] then 1 else length ups - 1)"
        "ups = [] \<longrightarrow> left = EPSILON"
        using concatenate_inv [OF less.prems, of "psp c + 1"] by blast
      let ?C = "used c1 + need 0 (length cs - psp c1)"
      have "pinv cs ?C (left # low) [] c1"
        using less.prems lt c1(2,4,5,6) by (cases ups) (auto simp: pinv_def need_def)
      moreover have "length cs - psp c1 < length cs - psp c" using c1(4) lt by simp
      ultimately obtain ok c2 where r: "parse_loop ?p (length (left # low)) depth c1 = Some (ok, c2)"
        "ok \<longrightarrow> pout cs ?C (left # low) depth (psp c1) c1 c2"
        using less.hyps [of c1 ?C "left # low" "[]" depth] by blast
      have hc: "height c1 = length (left # low)" using c1(2) by simp
      show ?thesis
      proof (cases ok)
        case True
        obtain c3 where "alternate c2 = Some c3" "pout cs C low depth (psp c) c c3"
          using alternate_out [OF less.prems lt c1(2-7)] r(2) True by blast
        then show ?thesis using stp alt c1(1) r(1) True unfolding hc [symmetric] by (auto simp: Let_def)
      next
        case False
        then have "parse_loop ?p (length low) depth c = Some (False, c2)"
          using stp alt c1(1) r(1) unfolding hc [symmetric] by (simp add: Let_def)
        then show ?thesis by blast
      qed
    next
      case quant
      have b: "psp c < psp c + 1" "psp c + 1 \<le> length cs" using lt by auto
      let ?mn = "if ?ch = 43 then 1 else 0 :: int" and ?mx = "if ?ch = 63 then 1 else -1 :: int"
      have n: "0 \<le> ?mn" "?mn \<le> INT_MAX" "?mx = -1 \<or> ?mn \<le> ?mx \<and> ?mx \<le> INT_MAX" using quant(1) by (auto simp: INT_MAX_def)
      obtain c1 us where "push_quantifier ?p ?c ?mn ?mx = Some c1" "pinv cs C low us c1" "psp c < psp c1" "capacity c1 = capacity c"
        using quantifier_inv [OF pat less.prems quant(2) b n] by blast
      then show ?thesis using stp quant h by (intro go [of us c1]) (auto simp: Let_def)
    next
      case interval
      obtain ok c1 us where r: "parse_interval ?p ?c = Some (ok, c1)"
        "if ok then pinv cs C low us c1 \<and> psp c < psp c1 \<and> capacity c1 = capacity c else c1 = ?c"
        using interval_inv [OF pat less.prems lt interval(2)] by blast
      show ?thesis
      proof (cases ok)
        case True
        then show ?thesis using stp interval h r by (intro go [of us c1]) (auto simp: Let_def)
      next
        case False
        then show ?thesis using stp interval h r by (intro atom [of "psp c + 1" "CHARACTER 123"]) (auto simp: Let_def)
      qed
    next
      case caret
      then show ?thesis using stp by (intro atom [of "psp c + 1" ANCHOR_BEGIN]) (auto simp: Let_def)
    next
      case dollar
      then show ?thesis using stp by (intro atom [of "psp c + 1" ANCHOR_END]) (auto simp: Let_def)
    next
      case opn
      let ?C = "used c + need 0 (length cs - (psp c + 1))"
      have "pinv cs ?C (ups @ low) [] ?c"
        using need_group(1) [OF less.prems lt] lt st by (simp add: pinv_def used_def)
      moreover have "length cs - psp ?c < length cs - psp c" using lt by simp
      ultimately obtain ok c1 where r: "parse_loop ?p (length (ups @ low)) (depth + 1) ?c = Some (ok, c1)"
        "ok \<longrightarrow> pout cs ?C (ups @ low) (depth + 1) (psp ?c) ?c c1"
        using less.hyps [of ?c ?C "ups @ low" "[]" "depth + 1"] by blast
      have hc: "height ?c = length (ups @ low)" using st by simp
      show ?thesis
      proof (cases ok)
        case True
        then obtain q where q: "node_ok q" "pstack c1 = q # ups @ low" "psp c + 1 < psp c1" "psp c1 \<le> length cs"
          "used c1 + 1 + 2 * (length cs - psp c1) \<le> ?C" "capacity c1 = capacity c"
          using r(2) by (auto simp: pout_def)
        have n: "used c1 + 1 + need (Suc (length ups)) (length cs - psp c1) \<le> C"
          using need_group(2) [OF less.prems lt q(5)] q(3,4) by simp
        define c2 where "c2 = c1\<lparr> nout := nout c1 + 1, pstack := CAPTURE q # ups @ low \<rparr>"
        have "consume c1 = Some (q, c1\<lparr> pstack := ups @ low, nout := nout c1 + 1 \<rparr>)" using q(2) by (simp add: consume_def)
        moreover have "push (c1\<lparr> pstack := ups @ low, nout := nout c1 + 1 \<rparr>) (CAPTURE q) = Some c2"
          using n q(2,6) less.prems by (simp add: push_def c2_def used_def need_def pinv_def)
        moreover have "pinv cs C low (CAPTURE q # ups) c2"
          using less.prems n q by (simp add: pinv_def c2_def used_def)
        ultimately show ?thesis using stp opn r(1) True q(3,6) unfolding hc [symmetric]
          by (intro go [of "CAPTURE q # ups" c2]) (auto simp: Let_def c2_def)
      next
        case False
        then have "parse_loop ?p (length low) depth c = Some (False, c1)"
          using stp opn r(1) unfolding hc [symmetric] by (simp add: Let_def)
        then show ?thesis by blast
      qed
    next
      case cls
      show ?thesis
      proof (cases "depth > 0")
        case True
        obtain c' where "concatenate ?c (length low) = Some c'" "pout cs C low depth (psp c) c c'"
          using finish_out [OF less.prems, of depth] lt by auto
        then show ?thesis using stp cls True by (auto simp: Let_def)
      next
        case False
        then have "parse_loop ?p (length low) depth c = Some (False, ?c)" using stp cls by (simp add: Let_def)
        then show ?thesis by blast
      qed
    next
      case chr
      then show ?thesis using stp nz h by (intro atom [of "psp c + 1" "CHARACTER ?ch"]) (auto simp: Let_def)
    qed
  qed
qed

lemma parse_correct:
  assumes pat: "pattern_ok cs" and len: "cs \<noteq> []" "2 * int (length cs) \<le> INT_MAX"
  obtains r where "cregex_parse True (cs @ [0]) = Some r" "\<And>root. r = Some root \<Longrightarrow> node_ok root"
proof -
  let ?c = "\<lparr> psp = 0, pstack = [], nout = 0, capacity = 2 * length cs \<rparr>"
  have "0 \<notin> set cs" using pat by (auto simp: pattern_ok_def)
  then have n: "estimate_nodes (cs @ [0]) = Some (2 * int (length cs))"
    using strlen_text [of cs "[]"] len by (simp add: estimate_nodes_def cmul_def cint_Some)
  have "pinv cs (2 * length cs) [] [] ?c" using len(1) by (cases cs) (auto simp: pinv_def used_def need_def)
  then obtain ok c where r: "parse_loop (cs @ [0]) 0 0 ?c = Some (ok, c)" "ok \<longrightarrow> pout cs (2 * length cs) [] 0 0 ?c c"
    using parse_loop_correct [OF pat, of "2 * length cs" "[]" "[]" ?c 0] by auto
  have run: "cregex_parse True (cs @ [0]) =
      (if \<not> ok then Some None else case rev (pstack c) of [] \<Rightarrow> None | root # _ \<Rightarrow> Some (Some root))"
    using n r(1) by (simp add: cregex_parse_def parse_with_nodes_def parse_context_def nat_mult_distrib)
  show thesis
  proof (cases ok)
    case True
    then obtain node where "node_ok node" "pstack c = [node]" using r(2) by (auto simp: pout_def)
    then show ?thesis using run True by (intro that [of "Some node"]) auto
  next
    case False
    then show ?thesis using run by (intro that [of None]) auto
  qed
qed

end
