(* ===== verification/Cregex_Engine.thy ===== *)
theory Cregex_Engine
  imports Cregex_Match Cregex_Parse
begin

text \<open>
  The regular expression engine as its callers use it (\<open>src/src/stdfn.c\<close>, \<open>src/src/rufus.c\<close>):
  parse a pattern, compile it, run the program on a string. Here are the properties of the engine
  from end to end, and the inputs on which it goes wrong.
\<close>

section \<open>Patterns of ordinary characters\<close>

definition meta :: "int \<Rightarrow> bool" where
  "meta c \<longleftrightarrow> c \<in> set [92, 46, 91, 124, 63, 42, 43, 123, 94, 36, 40, 41]"

definition literal :: "cstring \<Rightarrow> bool" where
  "literal cs \<longleftrightarrow> cs \<noteq> [] \<and> (\<forall>c \<in> set cs. 0 < c \<and> c < 128 \<and> \<not> meta c)"

fun literal_node :: "cstring \<Rightarrow> cregex_node" where
  "literal_node [] = EPSILON"
| "literal_node [c] = CHARACTER c"
| "literal_node (c # cs) = CONCATENATION (CHARACTER c) (literal_node cs)"

lemma literal_node_simps [simp]:
  "node_ok (literal_node cs)" "csize (literal_node cs) = length cs" "\<not> node_is_anchored (literal_node cs)"
  "int (length cs) < INT_MAX \<Longrightarrow> fits (literal_node cs)" "set (atoms (literal_node cs)) = OP_CHARACTER ` set cs"
  by (induction cs rule: literal_node.induct) auto

lemma literal_sem:
  "((i, m), (j, m')) \<in> sem str k (literal_node cs) nc \<longleftrightarrow> j = i + length cs \<and> m' = m \<and> (\<forall>t < length cs. str ! (i + t) = cs ! t)"
proof (induction cs arbitrary: i rule: literal_node.induct)
  case (3 c d cs)
  have "((i, m), (j, m')) \<in> sem str k (literal_node (c # d # cs)) nc \<longleftrightarrow>
      str ! i = c \<and> ((i + 1, m), (j, m')) \<in> sem str k (literal_node (d # cs)) nc"
    by (auto simp: test_def)
  also have "\<dots> \<longleftrightarrow> j = i + length (c # d # cs) \<and> m' = m \<and> (\<forall>t < length (c # d # cs). str ! (i + t) = (c # d # cs) ! t)"
    unfolding "3.IH" by (auto simp: nth_Cons split: nat.splits)
  finally show ?case .
qed (auto simp: test_def)

text \<open>The parser pushes the characters one by one and folds them up at the end.\<close>

lemma literal_concat:
  "pstack c = literal_node ys # rev (map CHARACTER xs) \<Longrightarrow> ys \<noteq> [] \<Longrightarrow> length xs \<le> fuel \<Longrightarrow>
   used c + length xs \<le> capacity c \<Longrightarrow> \<exists>c'. concat_loop fuel c 0 = Some c' \<and> pstack c' = [literal_node (xs @ ys)]"
proof (induction xs arbitrary: c ys fuel rule: rev_induct)
  case Nil
  then show ?case by (cases fuel) auto
next
  case (snoc x xs)
  then obtain f where f: "fuel = Suc f" by (cases fuel) auto
  define c3 where "c3 = c\<lparr> nout := nout c + 2, pstack := literal_node (x # ys) # rev (map CHARACTER xs) \<rparr>"
  have n: "literal_node (x # ys) = CONCATENATION (CHARACTER x) (literal_node ys)" using snoc.prems(2) by (cases ys) auto
  have "concat_loop fuel c 0 = concat_loop f c3 0"
    using snoc.prems f n by (simp add: consume_def push_def used_def c3_def)
  moreover have "\<exists>c'. concat_loop f c3 0 = Some c' \<and> pstack c' = [literal_node (xs @ x # ys)]"
    by (rule snoc.IH) (use snoc.prems f in \<open>auto simp: c3_def used_def\<close>)
  ultimately show ?case by simp
qed

lemma literal_loop:
  assumes lit: "literal cs"
  shows "i \<le> length cs \<Longrightarrow> psp c = i \<Longrightarrow> pstack c = rev (map CHARACTER (take i cs)) \<Longrightarrow> nout c = 0 \<Longrightarrow>
    capacity c = 2 * length cs \<Longrightarrow>
    \<exists>c'. parse_loop (cs @ [0]) 0 0 c = Some (True, c') \<and> pstack c' = [literal_node cs]"
proof (induction "length cs - i" arbitrary: i c)
  case 0
  have ne: "cs \<noteq> []" using lit by (simp add: literal_def)
  have i: "i = length cs" using 0 by simp
  define c1 where "c1 = c\<lparr> psp := psp c + 1 \<rparr>"
  have cs: "rev (map CHARACTER cs) = literal_node [last cs] # rev (map CHARACTER (butlast cs))"
    using ne by (cases cs rule: rev_cases) auto
  have st: "pstack c1 = literal_node [last cs] # rev (map CHARACTER (butlast cs))"
    using "0.prems"(3) cs by (simp add: c1_def i)
  have "\<exists>c'. concat_loop (height c1) c1 0 = Some c' \<and> pstack c' = [literal_node (butlast cs @ [last cs])]"
    by (rule literal_concat [OF st]) (use "0.prems" i ne st in \<open>auto simp: used_def c1_def\<close>)
  then obtain c' where c': "concat_loop (height c1) c1 0 = Some c'" "pstack c' = [literal_node cs]" using ne by auto
  have "concatenate c1 0 = Some c'" using c'(1) st by (simp add: concatenate_def)
  then have "parse_loop (cs @ [0]) 0 0 c = Some (True, c')"
    using "0.prems" i by (subst parse_loop.simps) (simp add: aget_def nth_append Let_def c1_def)
  then show ?case using c'(2) by simp
next
  case (Suc d)
  then have i: "i < length cs" by simp
  then have "0 < cs ! i \<and> \<not> meta (cs ! i)" using lit nth_mem [OF i] unfolding literal_def by blast
  then have ch: "aget (cs @ [0]) i = Some (cs ! i)" "cs ! i \<noteq> 0" "\<not> meta (cs ! i)"
    using i by (auto simp: aget_def nth_append)
  define c1 where "c1 = c\<lparr> psp := i + 1, pstack := CHARACTER (cs ! i) # pstack c \<rparr>"
  have "push (c\<lparr> psp := i + 1 \<rparr>) (CHARACTER (cs ! i)) = Some c1"
    using Suc.prems i by (simp add: push_def c1_def)
  then have "parse_loop (cs @ [0]) 0 0 c = parse_loop (cs @ [0]) 0 0 c1"
    using ch Suc.prems(2) by (subst parse_loop.simps) (simp add: Let_def meta_def)
  moreover have "pstack c1 = rev (map CHARACTER (take (i + 1) cs))"
    using Suc.prems(3) i by (simp add: c1_def take_Suc_conv_app_nth)
  ultimately show ?case using Suc.hyps(1) [of "i + 1" c1] Suc.hyps(2) Suc.prems i by (simp add: c1_def)
qed

lemma literal_parse:
  assumes "literal cs" "2 * int (length cs) \<le> INT_MAX"
  shows "cregex_parse True (cs @ [0]) = Some (Some (literal_node cs))"
proof -
  have "0 \<notin> set cs" using assms(1) by (auto simp: literal_def)
  then have n: "estimate_nodes (cs @ [0]) = Some (2 * int (length cs))"
    using strlen_text [of cs "[]"] assms(2) by (simp add: estimate_nodes_def cmul_def cint_Some)
  obtain c' where "parse_loop (cs @ [0]) 0 0 \<lparr> psp = 0, pstack = [], nout = 0, capacity = 2 * length cs \<rparr> = Some (True, c')"
    "pstack c' = [literal_node cs]"
    using literal_loop [OF assms(1), of 0 "\<lparr> psp = 0, pstack = [], nout = 0, capacity = 2 * length cs \<rparr>"] by auto
  then show ?thesis using n by (simp add: cregex_parse_def parse_with_nodes_def parse_context_def nat_mult_distrib)
qed

section \<open>From end to end\<close>

definition good_malloc :: "(nat \<Rightarrow> cregex_program option) \<Rightarrow> bool" where
  "good_malloc malloc \<longleftrightarrow> (\<forall>n. \<exists>mem. malloc n = Some mem \<and> length mem = n)"

lemma compile_success:
  assumes "good_malloc malloc" "node_ok root" "fits root" "int (csize root) + 6 \<le> INT_MAX"
  obtains p where "cregex_compile_node malloc root = Some (Some p)" "program_of root p"
proof -
  have e: "estimate_instructions root = Some (int (csize (whole root) + 1))" by (rule estimate_exact [OF assms(2-4)])
  obtain mem where m: "malloc (csize (whole root) + 1) = Some mem" "length mem = csize (whole root) + 1"
    using assms(1) by (auto simp: good_malloc_def)
  obtain p where "compile_node_with_program root mem = Some p" "program_of root p" by (rule compile_node_correct [OF assms(2) m(2)])
  then show thesis using e m(1) by (intro that [of p]) (simp_all add: cregex_compile_node_def nat_add_distrib)
qed


lemma run_result:
  assumes "program_of root p" "node_ok root" "nul_safe root" "c_text cs"
  shows "\<exists>b ms. cregex_program_run True p (cs @ [0]) matches nmatches = Some (if b then 1 else 0, ms) \<and> length ms = nmatches \<and>
    (b \<longleftrightarrow> (\<exists>i j m. j \<le> length cs \<and> found root (cs @ [0]) (ncopy nmatches) i j m)) \<and>
    (b \<longrightarrow> (\<exists>i j. j \<le> length cs \<and> found root (cs @ [0]) (ncopy nmatches) i j (take (ncopy nmatches) ms))) \<and>
    (\<not> b \<longrightarrow> ms = replicate nmatches None)"
  by (rule run_correct [OF assms, of matches nmatches]) blast

definition cstr :: "string \<Rightarrow> cstring" where
  "cstr s = map (\<lambda>c. int (of_char c)) s"

text \<open>Memory in which every byte is the same, for examples.\<close>

definition plain_malloc :: "nat \<Rightarrow> cregex_program option" where
  "plain_malloc n = Some (replicate n OP_MATCH)"

lemma plain_malloc_good: "good_malloc plain_malloc"
  by (simp add: good_malloc_def plain_malloc_def)



text \<open>
  Searching for a word. For a pattern of ordinary characters the whole engine is a substring
  search: it answers 1 exactly when the pattern occurs in the string.
\<close>

theorem literal_search:
  assumes "literal pat" "2 * int (length pat) + 6 \<le> INT_MAX" and "good_malloc malloc" and "c_text cs"
  shows "\<exists>root p b ms. cregex_parse True (pat @ [0]) = Some (Some root) \<and>
    cregex_compile_node malloc root = Some (Some p) \<and>
    cregex_program_run True p (cs @ [0]) matches nmatches = Some (if b then 1 else 0, ms) \<and>
    (b \<longleftrightarrow> (\<exists>pre post. cs = pre @ pat @ post))"
proof -
  let ?root = "literal_node pat" and ?k = "ncopy nmatches"
  have parse: "cregex_parse True (pat @ [0]) = Some (Some ?root)" using literal_parse assms(1,2) by simp
  obtain p where p: "cregex_compile_node malloc ?root = Some (Some p)" "program_of ?root p"
    by (rule compile_success [OF assms(3), of ?root]) (use assms(2) in auto)
  have "nul_safe ?root" by (auto simp: nul_safe_def)
  then obtain b ms where r: "cregex_program_run True p (cs @ [0]) matches nmatches = Some (if b then 1 else 0, ms)"
    "b \<longleftrightarrow> (\<exists>i j m. j \<le> length cs \<and> found ?root (cs @ [0]) ?k i j m)"
    using run_result [OF p(2) _ _ assms(4), of matches nmatches] literal_node_simps(1) by blast
  have at: "(\<exists>j m. j \<le> length cs \<and> found ?root (cs @ [0]) ?k i j m) \<longleftrightarrow> i + length pat \<le> length cs \<and> take (length pat) (drop i cs) = pat" for i
  proof -
    have "(\<exists>j m. j \<le> length cs \<and> found ?root (cs @ [0]) ?k i j m) \<longleftrightarrow>
        i + length pat \<le> length cs \<and> (\<forall>t < length pat. (cs @ [0]) ! (i + t) = pat ! t)"
      by (auto simp: found_def save_pos_def relcomp_unfold literal_sem)
    also have "\<dots> \<longleftrightarrow> i + length pat \<le> length cs \<and> take (length pat) (drop i cs) = pat"
      by (auto simp: list_eq_iff_nth_eq nth_append)
    finally show ?thesis .
  qed
  have "b \<longleftrightarrow> (\<exists>i. i + length pat \<le> length cs \<and> take (length pat) (drop i cs) = pat)" using r(2) at by blast
  also have "\<dots> \<longleftrightarrow> (\<exists>pre post. cs = pre @ pat @ post)"
  proof
    assume "\<exists>i. i + length pat \<le> length cs \<and> take (length pat) (drop i cs) = pat"
    then obtain i where "take (length pat) (drop i cs) = pat" by blast
    then have "cs = take i cs @ pat @ drop (length pat) (drop i cs)" by (metis append_take_drop_id)
    then show "\<exists>pre post. cs = pre @ pat @ post" by blast
  next
    assume "\<exists>pre post. cs = pre @ pat @ post"
    then obtain pre post where "cs = pre @ pat @ post" by blast
    then show "\<exists>i. i + length pat \<le> length cs \<and> take (length pat) (drop i cs) = pat" by (intro exI [of _ "length pre"]) simp
  qed
  finally show ?thesis using parse p(1) r(1) by blast
qed

theorem literal_search_witness:
  "\<exists>root p b ms. cregex_parse True (cstr ''ab'' @ [0]) = Some (Some root) \<and>
    cregex_compile_node plain_malloc root = Some (Some p) \<and>
    cregex_program_run True p (cstr ''xaby'' @ [0]) [None, None] 2 = Some (if b then 1 else 0, ms) \<and>
    (b \<longleftrightarrow> (\<exists>pre post. cstr ''xaby'' = pre @ cstr ''ab'' @ post))"
proof -
  have "literal (cstr ''ab'')" "c_text (cstr ''xaby'')" "2 * int (length (cstr ''ab'')) + 6 \<le> INT_MAX"
    by (simp_all add: literal_def meta_def cstr_def c_text_def INT_MAX_def)
  then show ?thesis using literal_search [of "cstr ''ab''" plain_malloc "cstr ''xaby''"] plain_malloc_good by blast
qed

text \<open>
  C32. The parser is safe. On every pattern of 7-bit characters that is not empty, does not end in a
  backslash and has no run of ten digits, \<open>cregex_parse\<close> reads only the pattern and its
  terminating zero, fits its stack and its nodes in the \<open>2 * strlen\<close> it allocated, never
  overflows an \<open>int\<close>, and answers a well-formed tree or \<open>NULL\<close>.
\<close>

theorem cregex_parse_safe:
  assumes "pattern_ok pat" "pat \<noteq> []" "2 * int (length pat) \<le> INT_MAX"
  shows "\<exists>r. cregex_parse True (pat @ [0]) = Some r \<and> (r \<noteq> None \<longrightarrow> node_ok (the r))"
  by (rule parse_correct [OF assms]) auto

theorem cregex_parse_safe_witness:
  "pattern_ok (cstr ''(a|[b-d])*x'') \<and>
   (\<exists>r. cregex_parse True (cstr ''(a|[b-d])*x'' @ [0]) = Some r \<and> (r \<noteq> None \<longrightarrow> node_ok (the r)))"
proof -
  let ?p = "cstr ''(a|[b-d])*x''"
  have p: "pattern_ok ?p" "?p \<noteq> []" "2 * int (length ?p) \<le> INT_MAX"
    by (auto simp: pattern_ok_def cstr_def INT_MAX_def digit_def le_Suc_eq numeral_eq_Suc)
  show ?thesis using cregex_parse_safe [OF p] p(1) by blast
qed

text \<open>
  C33. The compiler fills the memory it asked for exactly. The number of instructions
  \<open>estimate_instructions\<close> computes is the length of the program that is emitted, no
  instruction is written outside it, and every jump and capture of the program is in range, so
  the machine can run it.
\<close>

theorem cregex_compile_exact:
  assumes "good_malloc malloc" "node_ok root" "fits root" "int (csize root) + 6 \<le> INT_MAX"
  shows "\<exists>p. cregex_compile_node malloc root = Some (Some p) \<and>
    estimate_instructions root = Some (int (length p)) \<and> wf_prog p \<and> p \<noteq> [] \<and> p ! (length p - 1) = OP_MATCH"
proof -
  obtain p where p: "cregex_compile_node malloc root = Some (Some p)" "program_of root p" by (rule compile_success [OF assms])
  show ?thesis using p estimate_exact [OF assms(2-4)] program_wf [OF p(2) assms(2)] by (auto simp: program_of_def)
qed

theorem cregex_compile_exact_witness:
  "\<exists>p. cregex_compile_node plain_malloc (ALTERNATION (CHARACTER 97) (QUANTIFIER 2 3 True ANY_CHARACTER)) = Some (Some p) \<and>
    estimate_instructions (ALTERNATION (CHARACTER 97) (QUANTIFIER 2 3 True ANY_CHARACTER)) = Some (int (length p)) \<and> wf_prog p"
  using cregex_compile_exact [OF plain_malloc_good, of "ALTERNATION (CHARACTER 97) (QUANTIFIER 2 3 True ANY_CHARACTER)"]
  by (simp add: INT_MAX_def) blast

section \<open>Inputs on which the engine goes wrong\<close>

text \<open>
  A negated class matches the terminating zero. Followed by \<open>$\<close> it makes the machine
  test the character behind the end of the string: the run of \<open>[^a]$\<close> on the empty
  string reads out of bounds. Hence the hypothesis \<open>nul_safe\<close>.
\<close>

theorem negated_class_reads_past_nul:
  "\<exists>root p. cregex_parse True (cstr ''[^a]$'' @ [0]) = Some (Some root) \<and> node_ok root \<and> \<not> nul_safe root \<and>
    cregex_compile_node plain_malloc root = Some (Some p) \<and> cregex_program_run True p [0] [None, None] 2 = None"
proof -
  let ?r = "CONCATENATION (CHARACTER_CLASS_NEGATED [97, 93, 36, 0]) ANCHOR_END"
  let ?p = "[OP_SPLIT 3 1, OP_ANY_CHARACTER, OP_JUMP 0, OP_SAVE 0,
    OP_CHARACTER_CLASS_NEGATED (replicate 12 0 @ [2] @ replicate 19 0), OP_ASSERT_END, OP_SAVE 1, OP_MATCH]"
  have r: "cregex_parse True (cstr ''[^a]$'' @ [0]) = Some (Some ?r)" by code_simp
  have ok: "pattern_ok (cstr ''[^a]$'')" "cstr ''[^a]$'' \<noteq> []" "2 * int (length (cstr ''[^a]$'')) \<le> INT_MAX"
    by (simp_all add: pattern_ok_def cstr_def INT_MAX_def)
  have "node_ok ?r" by (rule parse_correct [OF ok]) (use r in auto)
  moreover have "\<not> nul_safe ?r" by code_simp
  moreover have "cregex_compile_node plain_malloc ?r = Some (Some ?p)" by code_simp
  moreover have "cregex_program_run True ?p [0] [None, None] 2 = None" by code_simp
  ultimately show ?thesis using r by blast
qed

text \<open>
  The empty pattern overflows. \<open>estimate_nodes\<close> gives 0 for it, and the parser stores
  the \<open>EPSILON\<close> node it pushes behind the end of that empty allocation; a pattern that
  ends in a backslash is read past its terminating zero.
\<close>

theorem cregex_parse_edge_patterns:
  "estimate_nodes [0] = Some 0 \<and> cregex_parse True [0] = None \<and> cregex_parse True (cstr [CHR 0x5C] @ [0]) = None"
proof (intro conjI)
  show "estimate_nodes [0] = Some 0" by code_simp
  show "cregex_parse True [0] = None" by code_simp
  show "cregex_parse True (cstr [CHR 0x5C] @ [0]) = None" by code_simp
qed


end
