(* ===== verification/Hash_Table.thy ===== *)
theory Hash_Table
  imports Prelude
begin

text \<open>
  The hash table of \<open>src/src/stdfn.c\<close>, which the localization and the device enumeration use
  to number strings: open addressing with double hashing over a prime number of slots.

  Pointers that may be \<open>NULL\<close> are options. A string is the list of its characters without
  the terminating zero; \<open>char\<close> is signed, so characters are integers. Allocation is an
  argument that says which requests succeed.
\<close>

type_synonym cstr0 = "int list"

record 'd htab_entry =
  used :: u32
  hstr :: "cstr0 option"
  hdata :: "'d option"

record 'd htab_table =
  htable :: "'d htab_entry list option"
  hsize :: u32
  hfilled :: u32

definition HTAB_EMPTY :: "'d htab_table" where
  "HTAB_EMPTY = \<lparr> htable = None, hsize = 0, hfilled = 0 \<rparr>"

section \<open>The operations\<close>

partial_function (option) isprime_loop :: "u32 \<Rightarrow> u32 \<Rightarrow> u32 option" where
  "isprime_loop number divider =
     (if divider * divider < number \<and> number mod divider \<noteq> 0 then isprime_loop number (divider + 2) else Some divider)"

declare isprime_loop.simps [code]

definition isprime :: "u32 \<Rightarrow> bool option" where
  "isprime number = do {divider \<leftarrow> isprime_loop number 3; Some (number mod divider \<noteq> 0)}"

partial_function (option) next_prime :: "u32 \<Rightarrow> u32 option" where
  "next_prime nel = do {p \<leftarrow> isprime nel; if p then Some nel else next_prime (nel + 2)}"

declare next_prime.simps [code]

definition free_entry :: "'d htab_entry" where
  "free_entry = \<lparr> used = 0, hstr = None, hdata = None \<rparr>"

definition htab_create :: "(nat \<Rightarrow> bool) \<Rightarrow> u32 \<Rightarrow> 'd htab_table option \<Rightarrow> (bool \<times> 'd htab_table option) option" where
  "htab_create calloc nel htab =
     (case htab of
        None \<Rightarrow> Some (False, None)
      | Some h \<Rightarrow>
          if htable h \<noteq> None then Some (False, Some h)
          else do {
            p \<leftarrow> next_prime (nel OR 1);
            let n = unat (p + 1);
            Some (calloc n, Some \<lparr> htable = (if calloc n then Some (replicate n free_entry) else None), hsize = p, hfilled = 0 \<rparr>)
          })"

definition htab_destroy :: "'d htab_table option \<Rightarrow> 'd htab_table option" where
  "htab_destroy htab =
     (case htab of
        None \<Rightarrow> None
      | Some h \<Rightarrow> if htable h = None then Some h else Some \<lparr> htable = None, hsize = 0, hfilled = 0 \<rparr>)"

text \<open>The characters of \<open>"<NULL>"\<close>, which \<open>safe_strcmp\<close> puts for a null pointer.\<close>

definition null_text :: cstr0 where
  "null_text = [60, 78, 85, 76, 76, 62]"

definition same_string :: "cstr0 \<Rightarrow> cstr0 option \<Rightarrow> bool" where
  "same_string s t \<longleftrightarrow> s = case_option null_text id t"

definition sdbm :: "cstr0 \<Rightarrow> u32" where
  "sdbm s = foldl (\<lambda>r c. word_of_int c + push_bit 6 r + push_bit 16 r - r) 0 s"

definition first_hash :: "cstr0 \<Rightarrow> u32 \<Rightarrow> u32" where
  "first_hash s sz =
     (let r = sdbm s; r = (if r = 0 then 1 else r); hval = r mod sz in if hval = 0 then 1 else hval)"

text \<open>The loop over the other slots, and whether it ended on the string.\<close>

partial_function (option) probe ::
    "'d htab_entry list \<Rightarrow> cstr0 \<Rightarrow> u32 \<Rightarrow> u32 \<Rightarrow> u32 \<Rightarrow> u32 \<Rightarrow> (u32 \<times> bool) option" where
  "probe tab s sz hval hval2 idx =
     (let idx = (if idx \<le> hval2 then sz + idx - hval2 else idx - hval2) in
      if idx = hval then Some (idx, False)
      else do {
        e \<leftarrow> aget tab (unat idx);
        if used e = hval \<and> same_string s (hstr e) then Some (idx, True)
        else if used e \<noteq> 0 then probe tab s sz hval hval2 idx
        else Some (idx, False)
      })"

declare probe.simps [code]

definition search :: "'d htab_entry list \<Rightarrow> cstr0 \<Rightarrow> u32 \<Rightarrow> u32 \<Rightarrow> (u32 \<times> bool) option" where
  "search tab s sz hval = do {
     e \<leftarrow> aget tab (unat hval);
     if used e = 0 then Some (hval, False)
     else if used e = hval \<and> same_string s (hstr e) then Some (hval, True)
     else if sz - 2 = 0 then None
     else probe tab s sz hval (1 + hval mod (sz - 2)) hval
   }"

definition store_new :: "(nat \<Rightarrow> bool) \<Rightarrow> cstr0 \<Rightarrow> u32 \<Rightarrow> u32 \<Rightarrow> 'd htab_entry list \<Rightarrow> 'd htab_table \<Rightarrow> (u32 \<times> 'd htab_table) option" where
  "store_new malloc s hval idx tab h =
     (if \<not> hfilled h < hsize h then Some (0, h)
      else do {
        e \<leftarrow> aget tab (unat idx);
        let ok = malloc (length s + 1);
        tab' \<leftarrow> aset tab (unat idx) (e\<lparr> used := hval, hstr := (if ok then Some s else None) \<rparr>);
        let h' = h\<lparr> htable := Some tab' \<rparr>;
        Some (if ok then (idx, h'\<lparr> hfilled := hfilled h' + 1 \<rparr>) else (0, h'))
      })"

definition htab_hash :: "(nat \<Rightarrow> bool) \<Rightarrow> cstr0 option \<Rightarrow> 'd htab_table option \<Rightarrow> (u32 \<times> 'd htab_table option) option" where
  "htab_hash malloc str htab =
     (case (str, htab) of
        (Some s, Some h) \<Rightarrow>
          (case htable h of
             None \<Rightarrow> Some (0, Some h)
           | Some tab \<Rightarrow>
               if hsize h = 0 then None
               else do {
                 let hval = first_hash s (hsize h);
                 (idx, hit) \<leftarrow> search tab s (hsize h) hval;
                 if hit then Some (idx, Some h)
                 else do {(r, h') \<leftarrow> store_new malloc s hval idx tab h; Some (r, Some h')}
               })
      | _ \<Rightarrow> Some (0, htab))"

section \<open>Primes\<close>

definition prime_size :: "nat \<Rightarrow> bool" where
  "prime_size n \<longleftrightarrow> 1 < n \<and> (\<forall>d. d dvd n \<longrightarrow> d = 1 \<or> d = n)"

lemma prime_size_coprime: "prime_size p \<Longrightarrow> 0 < m \<Longrightarrow> m < p \<Longrightarrow> coprime m p"
  by (metis coprime_iff_gcd_eq_1 dvd_imp_le gcd_dvd1 gcd_dvd2 not_less prime_size_def)

text \<open>What the trial division knows when it has reached \<open>d\<close>.\<close>

definition tried :: "nat \<Rightarrow> nat \<Rightarrow> bool" where
  "tried n d \<longleftrightarrow> odd d \<and> 3 \<le> d \<and> (\<forall>a. odd a \<longrightarrow> 3 \<le> a \<longrightarrow> a < d \<longrightarrow> \<not> a dvd n) \<and> d < n"

lemma tried_step:
  assumes "tried n d" "d * d < n" "\<not> d dvd n"
  shows "tried n (d + 2)"
proof -
  have lt: "a < d \<or> a = d" if "odd a" "a < d + 2" for a
    using that assms(1) unfolding tried_def by (metis add_2_eq_Suc' even_Suc less_Suc_eq)
  have "3 * d \<le> d * d" using assms(1) by (auto simp: tried_def)
  moreover have "3 \<le> d" using assms(1) by (simp add: tried_def)
  ultimately have "d + 2 < n" using assms(2) by linarith
  then show ?thesis using assms(1,3) lt unfolding tried_def by fastforce
qed

lemma tried_prime:
  assumes t: "tried n d" and n: "odd n" and big: "n \<le> d * d" and nd: "\<not> d dvd n"
  shows "prime_size n"
proof -
  have no: False if "a * b = n" "a \<noteq> 1" "a \<le> b" for a b
  proof -
    have odd: "odd a" using that(1) n by auto
    have "a * a \<le> d * d" using that(1,3) big by (meson le_trans mult_le_mono2)
    then have "a \<le> d" by (simp add: mult_le_cancel1 power2_eq_square [symmetric])
    moreover have "a dvd n" using that(1) by auto
    moreover have "3 \<le> a" using odd that(2) by presburger
    ultimately show False using t nd odd unfolding tried_def by (metis le_neq_implies_less)
  qed
  have "c = 1 \<or> c = n" if dvd: "c dvd n" for c
  proof -
    obtain b where b: "c * b = n" using dvd unfolding dvd_def by blast
    have "c = 1 \<or> b = 1"
    proof (cases "c \<le> b")
      case True
      then show ?thesis using no [OF b] by blast
    next
      case False
      moreover have "b * c = n" using b by (simp add: mult.commute)
      ultimately show ?thesis using no [of b c] nat_le_linear by blast
    qed
    then show ?thesis using b by auto
  qed
  then show ?thesis using t by (simp add: prime_size_def tried_def)
qed

lemma isprime_loop_correct:
  assumes "tried (unat n) (unat d)" "odd (unat n)" "unat n \<le> 65535 * 65535" "unat d \<le> 65535"
  shows "\<exists>d'. isprime_loop n d = Some d' \<and> (n mod d' \<noteq> 0 \<longleftrightarrow> prime_size (unat n))"
  using assms
proof (induction "65535 - unat d" arbitrary: d rule: less_induct)
  case less
  have sq: "unat (d * d) = unat d * unat d"
  proof -
    have "unat d * unat d \<le> 65535 * 65535" using less.prems(4) by (intro mult_le_mono)
    then show ?thesis by (simp add: unat_word_ariths)
  qed
  have md: "n mod d = 0 \<longleftrightarrow> unat d dvd unat n" by (simp add: unat_eq_zero [symmetric] unat_mod dvd_eq_mod_eq_0)
  show ?case
  proof (cases "d * d < n \<and> n mod d \<noteq> 0")
    case True
    then have c: "unat d * unat d < unat n" "\<not> unat d dvd unat n" using sq md by (auto simp: word_less_nat_alt)
    have "unat d < 65535"
    proof (rule ccontr)
      assume "\<not> unat d < 65535"
      then have "unat d = 65535" using less.prems(4) by simp
      then show False using c(1) less.prems(3) by simp
    qed
    moreover have "odd (unat d)" using less.prems(1) by (simp add: tried_def)
    then have "unat d \<noteq> 65534" by auto
    ultimately have le: "unat d + 2 \<le> 65535" by simp
    then have d2: "unat (d + 2) = unat d + 2" by (simp add: unat_word_ariths)
    show ?thesis
      using less.hyps [of "d + 2"] tried_step [OF less.prems(1) c] less.prems(2,3) le d2 True
      by (subst isprime_loop.simps) (simp add: d2)
  next
    case False
    have "n mod d \<noteq> 0 \<longleftrightarrow> prime_size (unat n)"
    proof (cases "unat d dvd unat n")
      case True
      then show ?thesis using md less.prems(1) by (auto simp: prime_size_def tried_def)
    next
      case no: False
      then have "unat n \<le> unat d * unat d" using False sq md by (auto simp: word_less_nat_alt)
      then show ?thesis using tried_prime [OF less.prems(1,2) _ no] md no by auto
    qed
    then show ?thesis using False by (subst isprime_loop.simps) auto
  qed
qed

lemma isprime_correct:
  assumes "odd (unat n)" "3 < unat n" "unat n \<le> 65535 * 65535"
  shows "isprime n = Some (prime_size (unat n))"
proof -
  have "tried (unat n) (unat (3 :: u32))" using assms(2) by (auto simp: tried_def)
  then have "\<exists>d. isprime_loop n 3 = Some d \<and> (n mod d \<noteq> 0 \<longleftrightarrow> prime_size (unat n))"
    by (rule isprime_loop_correct [OF _ assms(1,3)]) simp
  then obtain d where "isprime_loop n 3 = Some d" "(n mod d \<noteq> 0) = prime_size (unat n)" by (elim exE conjE)
  then show ?thesis by (simp add: isprime_def)
qed

lemma prime_65521: "prime_size 65521"
proof -
  have "isprime 65521 = Some True" by code_simp
  then show ?thesis using isprime_correct [of 65521] by simp
qed

lemma next_prime_correct:
  assumes "odd (unat n)" "3 < unat n" "unat n \<le> 65521"
  shows "\<exists>p. next_prime n = Some p \<and> prime_size (unat p) \<and> unat n \<le> unat p \<and> unat p \<le> 65521 \<and>
    (\<forall>q. prime_size q \<longrightarrow> unat n \<le> q \<longrightarrow> unat p \<le> q)"
  using assms
proof (induction "65521 - unat n" arbitrary: n rule: less_induct)
  case less
  have p: "isprime n = Some (prime_size (unat n))" using isprime_correct less.prems by simp
  show ?case
  proof (cases "prime_size (unat n)")
    case True
    then show ?thesis using p less.prems by (subst next_prime.simps) auto
  next
    case False
    have "unat n \<noteq> 65521" using False prime_65521 by auto
    moreover have "unat n \<noteq> 65520" using less.prems(1) by auto
    ultimately have le: "unat n + 2 \<le> 65521" using less.prems(3) by simp
    then have n2: "unat (n + 2) = unat n + 2" by (simp add: unat_word_ariths)
    have np: "next_prime n = next_prime (n + 2)" using p False by (subst next_prime.simps) simp
    have after: "unat n + 2 \<le> q" if "prime_size q" "unat n \<le> q" for q
    proof -
      have "q \<noteq> unat n" using False that by auto
      moreover have "odd q"
      proof
        assume "2 dvd q"
        then have "2 = q" using that(1) unfolding prime_size_def by fastforce
        then show False using that(2) less.prems(2) by simp
      qed
      then have "q \<noteq> unat n + 1" using less.prems(1) by auto
      ultimately show ?thesis using that(2) by simp
    qed
    have "65521 - unat (n + 2) < 65521 - unat n" using le n2 by simp
    then obtain p where "next_prime (n + 2) = Some p" "prime_size (unat p)" "unat n + 2 \<le> unat p" "unat p \<le> 65521"
      "\<forall>q. prime_size q \<longrightarrow> unat n + 2 \<le> q \<longrightarrow> unat p \<le> q"
      using less.hyps [of "n + 2"] less.prems le n2 by (simp del: add_2_eq_Suc') (metis)
    then show ?thesis using after unfolding np by (intro exI [of _ p]) (simp del: add_2_eq_Suc')
  qed
qed

section \<open>The sequence of slots\<close>

definition step2 :: "nat \<Rightarrow> nat \<Rightarrow> nat" where
  "step2 sz h = 1 + h mod (sz - 2)"

definition slot :: "nat \<Rightarrow> nat \<Rightarrow> nat \<Rightarrow> nat" where
  "slot sz h k = (h - 1 + k * (sz - step2 sz h)) mod sz + 1"

lemma step2_bounds:
  assumes "3 < sz"
  shows "0 < step2 sz h \<and> step2 sz h < sz"
proof -
  have "h mod (sz - 2) < sz - 2" using assms by simp
  then show ?thesis using assms unfolding step2_def by linarith
qed

lemma slot_bounds: "3 < sz \<Longrightarrow> 1 \<le> slot sz h k \<and> slot sz h k \<le> sz"
  by (simp add: slot_def Suc_le_eq)

lemma slot_0: "1 \<le> h \<Longrightarrow> h \<le> sz \<Longrightarrow> slot sz h 0 = h"
  by (simp add: slot_def)

lemma slot_Suc:
  assumes "3 < sz"
  shows "slot sz h (Suc k) = (if slot sz h k \<le> step2 sz h then sz + slot sz h k - step2 sz h else slot sz h k - step2 sz h)"
proof -
  let ?m = "step2 sz h"
  define a where "a = (h - 1 + k * (sz - ?m)) mod sz"
  have m: "0 < ?m" "?m < sz" using step2_bounds [OF assms] by auto
  have a: "a < sz" using assms by (simp add: a_def)
  have "slot sz h (Suc k) = (a + (sz - ?m)) mod sz + 1" by (simp add: slot_def a_def mod_add_right_eq add_ac)
  also have "(a + (sz - ?m)) mod sz = (if a + 1 \<le> ?m then a + (sz - ?m) else a - ?m)"
    using a m by (auto simp: mod_if le_mod_geq not_le)
  finally have "slot sz h (Suc k) = (if a + 1 \<le> ?m then a + (sz - ?m) else a - ?m) + 1" .
  moreover have "slot sz h k = a + 1" by (simp add: slot_def a_def)
  ultimately show ?thesis using m by auto
qed

lemma slot_inj:
  assumes p: "prime_size sz" "3 < sz"
  shows "inj_on (slot sz h) {..<sz}"
proof (rule inj_onI)
  have co: "coprime sz (sz - step2 sz h)"
    using prime_size_coprime [OF p(1), of "sz - step2 sz h"] step2_bounds [OF p(2), of h] by (simp add: coprime_commute)
  have le: "j \<le> i" if "slot sz h i = slot sz h j" "i \<le> j" "j < sz" for i j
  proof -
    have "i * (sz - step2 sz h) \<le> j * (sz - step2 sz h)" using that(2) by (rule mult_le_mono1)
    then have "sz dvd j * (sz - step2 sz h) - i * (sz - step2 sz h)"
      using that(1) mod_eq_dvd_iff_nat [of "h - 1 + i * (sz - step2 sz h)" "h - 1 + j * (sz - step2 sz h)" sz]
      by (simp add: slot_def eq_commute)
    then have "sz dvd (j - i) * (sz - step2 sz h)" by (simp add: diff_mult_distrib)
    then have "sz dvd j - i" using co by (simp add: coprime_dvd_mult_left_iff)
    then show ?thesis using that(3) by (meson diff_is_0_eq dvd_imp_le less_imp_diff_less not_gr_zero not_less)
  qed
  show "i = j" if "i \<in> {..<sz}" "j \<in> {..<sz}" "slot sz h i = slot sz h j" for i j
  proof (cases "i \<le> j")
    case True
    then show ?thesis using le [OF that(3) True] that(2) by simp
  next
    case False
    then show ?thesis using le [OF that(3) [symmetric]] that(1) by simp
  qed
qed

lemma slot_all:
  assumes p: "prime_size sz" "3 < sz"
  shows "slot sz h ` {..<sz} = {1..sz}"
proof (rule card_subset_eq)
  show "slot sz h ` {..<sz} \<subseteq> {1..sz}" using slot_bounds [OF p(2)] by auto
  show "card (slot sz h ` {..<sz}) = card {1..sz}" by (simp add: card_image [OF slot_inj [OF p]])
qed simp

lemma slot_wraps: "1 \<le> h \<Longrightarrow> h \<le> sz \<Longrightarrow> slot sz h sz = h"
  by (simp add: slot_def del: add_diff_assoc2)

section \<open>The invariant\<close>

abbreviation home :: "cstr0 \<Rightarrow> u32 \<Rightarrow> nat" where
  "home s sz \<equiv> unat (first_hash s sz)"

lemma home_bounds: "1 < unat sz \<Longrightarrow> 1 \<le> home s sz \<and> home s sz < unat sz"
proof -
  assume sz: "1 < unat sz"
  have lt: "unat (r mod sz) < unat sz" for r using sz by (simp add: unat_mod)
  show ?thesis
    using sz lt by (auto simp: first_hash_def Let_def unat_gt_0 Suc_le_eq)
qed

definition occupied :: "'d htab_entry list \<Rightarrow> nat set" where
  "occupied tab = {i. i < length tab \<and> used (tab ! i) \<noteq> 0}"

definition holds :: "'d htab_entry list \<Rightarrow> nat \<Rightarrow> cstr0 \<Rightarrow> bool" where
  "holds tab i s \<longleftrightarrow> i \<in> occupied tab \<and> hstr (tab ! i) = Some s"

text \<open>Slot \<open>i\<close> is on the way of \<open>s\<close>, and the slots before it are taken.\<close>

definition placed :: "u32 \<Rightarrow> nat set \<Rightarrow> nat \<Rightarrow> cstr0 \<Rightarrow> bool" where
  "placed sz taken i s \<longleftrightarrow>
     (\<exists>k < unat sz. i = slot (unat sz) (home s sz) k \<and> (\<forall>j < k. slot (unat sz) (home s sz) j \<in> taken))"

definition entry_ok :: "u32 \<Rightarrow> nat set \<Rightarrow> nat \<Rightarrow> 'd htab_entry \<Rightarrow> bool" where
  "entry_ok sz taken i e \<longleftrightarrow> (\<exists>s. hstr e = Some s \<and> used e = first_hash s sz \<and> placed sz taken i s)"

lemma placed_mono: "placed sz taken i s \<Longrightarrow> taken \<subseteq> taken' \<Longrightarrow> placed sz taken' i s"
  unfolding placed_def by blast

lemma entry_ok_mono: "entry_ok sz taken i e \<Longrightarrow> taken \<subseteq> taken' \<Longrightarrow> entry_ok sz taken' i e"
  unfolding entry_ok_def using placed_mono by blast

lemma placed_bounds: "placed sz taken i s \<Longrightarrow> 3 < unat sz \<Longrightarrow> 1 \<le> i \<and> i \<le> unat sz"
  unfolding placed_def using slot_bounds by blast

definition tab_ok :: "u32 \<Rightarrow> 'd htab_entry list \<Rightarrow> bool" where
  "tab_ok sz tab \<longleftrightarrow> 3 < unat sz \<and> prime_size (unat sz) \<and> length tab = unat sz + 1 \<and> used (tab ! 0) = 0 \<and>
     (\<forall>i \<in> occupied tab. entry_ok sz (occupied tab) i (tab ! i)) \<and>
     (\<forall>i j s. holds tab i s \<longrightarrow> holds tab j s \<longrightarrow> i = j)"

text \<open>What a search for \<open>s\<close> ends with.\<close>

definition ends :: "u32 \<Rightarrow> 'd htab_entry list \<Rightarrow> cstr0 \<Rightarrow> u32 \<Rightarrow> bool \<Rightarrow> bool" where
  "ends sz tab s idx hit \<longleftrightarrow>
     (if hit then holds tab (unat idx) s
      else (\<forall>i. \<not> holds tab i s) \<and>
        (occupied tab = {1..unat sz} \<and> idx = first_hash s sz \<or>
         unat idx \<notin> occupied tab \<and> placed sz (occupied tab) (unat idx) s))"

lemma occupied_range:
  assumes "tab_ok sz tab"
  shows "occupied tab \<subseteq> {1..unat sz}"
proof
  fix i assume i: "i \<in> occupied tab"
  moreover have "i \<noteq> 0" using assms i by (auto simp: tab_ok_def occupied_def intro: ccontr)
  ultimately show "i \<in> {1..unat sz}" using assms by (auto simp: tab_ok_def occupied_def)
qed

lemma matches_iff:
  assumes "tab_ok sz tab" "i \<in> occupied tab"
  shows "used (tab ! i) = first_hash s sz \<and> same_string s (hstr (tab ! i)) \<longleftrightarrow> holds tab i s"
  using assms by (auto simp: tab_ok_def holds_def same_string_def entry_ok_def)

text \<open>A free slot on the way of \<open>s\<close> shows that \<open>s\<close> is not stored.\<close>

lemma free_slot_absent:
  assumes ok: "tab_ok sz tab" and free: "slot (unat sz) (home s sz) k \<notin> occupied tab"
    and before: "\<forall>j < k. \<not> holds tab (slot (unat sz) (home s sz) j) s"
  shows "\<not> holds tab i s"
proof
  assume h: "holds tab i s"
  then have "i \<in> occupied tab" "hstr (tab ! i) = Some s" by (auto simp: holds_def)
  then obtain k' where k': "i = slot (unat sz) (home s sz) k'" "\<forall>j < k'. slot (unat sz) (home s sz) j \<in> occupied tab"
    using ok by (fastforce simp: tab_ok_def entry_ok_def placed_def)
  have "k' \<noteq> k" using k'(1) free \<open>i \<in> occupied tab\<close> by auto
  moreover have "\<not> k < k'" using k'(2) free by auto
  ultimately show False using before h k'(1) by (metis linorder_neqE_nat)
qed

lemma hval2_step2:
  assumes "3 < unat sz"
  shows "unat (1 + first_hash s sz mod (sz - 2)) = step2 (unat sz) (home s sz)"
proof -
  have "unat (sz - 2) = unat sz - 2" using assms by (simp add: unat_sub word_le_nat_alt)
  then have m: "unat (first_hash s sz mod (sz - 2)) = home s sz mod (unat sz - 2)" by (simp add: unat_mod)
  have "1 + home s sz mod (unat sz - 2) < 2 ^ 32"
    using step2_bounds [OF assms, of "home s sz"] unsigned_less [where 'a = nat, of sz] by (simp add: step2_def)
  then show ?thesis using m by (simp add: unat_word_ariths step2_def)
qed

lemma next_slot:
  assumes "3 < unat sz" and "unat idx = slot (unat sz) h k" and "unat hval2 = step2 (unat sz) h"
  shows "unat (if idx \<le> hval2 then sz + idx - hval2 else idx - hval2) = slot (unat sz) h (Suc k)"
proof -
  have lt: "unat hval2 < unat sz" using step2_bounds [OF assms(1)] assms(3) by simp
  show ?thesis
  proof (cases "idx \<le> hval2")
    case True
    have "sz + idx - hval2 = sz - (hval2 - idx)" by simp
    also have "unat \<dots> = unat sz - (unat hval2 - unat idx)"
    proof -
      have "unat (hval2 - idx) = unat hval2 - unat idx" using True by (simp add: unat_sub)
      moreover have "hval2 - idx \<le> sz" using lt calculation by (simp add: word_le_nat_alt)
      ultimately show ?thesis by (simp add: unat_sub)
    qed
    finally show ?thesis using True lt assms(2,3) slot_Suc [OF assms(1), of h k] by (simp add: word_le_nat_alt)
  next
    case False
    then show ?thesis using assms(2,3) slot_Suc [OF assms(1), of h k] by (simp add: unat_sub word_le_nat_alt)
  qed
qed

lemma probe_correct:
  assumes ok: "tab_ok sz tab" and hval: "hval = first_hash s sz" "hval2 = 1 + hval mod (sz - 2)"
  shows "k < unat sz \<Longrightarrow> unat idx = slot (unat sz) (home s sz) k \<Longrightarrow>
    \<forall>j \<le> k. slot (unat sz) (home s sz) j \<in> occupied tab \<and> \<not> holds tab (slot (unat sz) (home s sz) j) s \<Longrightarrow>
    \<exists>r hit. probe tab s sz hval hval2 idx = Some (r, hit) \<and> ends sz tab s r hit"
proof (induction "unat sz - k" arbitrary: k idx rule: less_induct)
  case less
  let ?n = "unat sz" and ?h = "home s sz"
  have p: "prime_size ?n" "3 < ?n" and len: "length tab = ?n + 1" using ok by (auto simp: tab_ok_def)
  have h: "1 \<le> ?h" "?h \<le> ?n" using home_bounds [of sz s] p(2) by auto
  define idx' where "idx' = (if idx \<le> hval2 then sz + idx - hval2 else idx - hval2)"
  have idx': "unat idx' = slot ?n ?h (Suc k)"
    unfolding idx'_def by (rule next_slot [OF p(2) less.prems(2)]) (simp add: hval hval2_step2 [OF p(2)])
  have in_tab: "unat idx' < length tab" using slot_bounds [OF p(2), of ?h "Suc k"] idx' len by simp
  have unf: "probe tab s sz hval hval2 idx =
      (if idx' = hval then Some (idx', False)
       else if used (tab ! unat idx') = hval \<and> same_string s (hstr (tab ! unat idx')) then Some (idx', True)
       else if used (tab ! unat idx') \<noteq> 0 then probe tab s sz hval hval2 idx' else Some (idx', False))"
    using in_tab by (subst probe.simps) (simp add: Let_def idx'_def aget_Some)
  show ?case
  proof (cases "Suc k < ?n")
    case False
    then have k: "Suc k = ?n" using less.prems(1) by simp
    have all: "\<forall>i \<in> {1..?n}. i \<in> occupied tab \<and> \<not> holds tab i s"
      using less.prems(3) k unfolding slot_all [OF p, of ?h, symmetric] by auto
    have "idx' = hval" using idx' k slot_wraps [OF h] by (simp add: hval word_unat_eq_iff)
    moreover have "\<not> holds tab i s" for i using all occupied_range [OF ok] by (auto simp: holds_def)
    moreover have "occupied tab = {1..?n}" using all occupied_range [OF ok] by auto
    ultimately show ?thesis using unf by (simp add: ends_def hval)
  next
    case True
    have "slot ?n ?h (Suc k) \<noteq> slot ?n ?h 0" using inj_onD [OF slot_inj [OF p], of ?h "Suc k" 0] True by auto
    then have ne: "idx' \<noteq> hval" using idx' slot_0 [OF h] by (auto simp: hval)
    show ?thesis
    proof (cases "used (tab ! unat idx') = 0")
      case free: True
      then have "slot ?n ?h (Suc k) \<notin> occupied tab" using idx' by (simp add: occupied_def)
      then have "ends sz tab s idx' False"
        using free_slot_absent [OF ok, of s "Suc k"] less.prems(3) True idx' by (auto simp: ends_def placed_def less_Suc_eq_le)
      moreover have "hval \<noteq> 0" using h(1) by (auto simp: hval)
      then have "probe tab s sz hval hval2 idx = Some (idx', False)" using unf ne free by simp
      ultimately show ?thesis by blast
    next
      case occ: False
      then have o: "unat idx' \<in> occupied tab" using in_tab by (simp add: occupied_def)
      show ?thesis
      proof (cases "holds tab (unat idx') s")
        case True
        then show ?thesis using unf ne matches_iff [OF ok o, of s] by (simp add: hval ends_def)
      next
        case no: False
        then have "probe tab s sz hval hval2 idx = probe tab s sz hval hval2 idx'"
          using unf ne occ matches_iff [OF ok o, of s] by (auto simp: hval)
        moreover have "\<forall>j \<le> Suc k. slot ?n ?h j \<in> occupied tab \<and> \<not> holds tab (slot ?n ?h j) s"
          using less.prems(3) o no idx' by (auto simp: le_Suc_eq)
        ultimately show ?thesis using less.hyps [of "Suc k" idx'] True idx' by simp
      qed
    qed
  qed
qed

lemma search_correct:
  assumes ok: "tab_ok sz tab"
  shows "\<exists>r hit. search tab s sz (first_hash s sz) = Some (r, hit) \<and> ends sz tab s r hit"
proof -
  let ?n = "unat sz" and ?h = "first_hash s sz"
  have p: "prime_size ?n" "3 < ?n" and len: "length tab = ?n + 1" using ok by (auto simp: tab_ok_def)
  have h: "1 \<le> unat ?h" "unat ?h \<le> ?n" using home_bounds [of sz s] p(2) by auto
  have s0: "slot ?n (unat ?h) 0 = unat ?h" by (rule slot_0 [OF h])
  have ge: "aget tab (unat ?h) = Some (tab ! unat ?h)" using h len by (simp add: aget_Some)
  have n2: "sz - 2 \<noteq> 0" using p(2) by (auto simp: unat_eq_zero [symmetric] unat_sub word_le_nat_alt simp del: unat_eq_zero)
  show ?thesis
  proof (cases "unat ?h \<in> occupied tab")
    case False
    then have u: "used (tab ! unat ?h) = 0" using h len by (simp add: occupied_def)
    have "ends sz tab s ?h False"
      using free_slot_absent [OF ok, of s 0] False s0 p(2) by (auto simp: ends_def placed_def intro!: exI [of _ 0])
    moreover have "search tab s sz ?h = Some (?h, False)" using u ge by (simp add: search_def)
    ultimately show ?thesis by blast
  next
    case True
    then have u: "used (tab ! unat ?h) \<noteq> 0" by (simp add: occupied_def)
    show ?thesis
    proof (cases "holds tab (unat ?h) s")
      case hit: True
      then show ?thesis using u ge matches_iff [OF ok True, of s] by (simp add: search_def ends_def)
    next
      case no: False
      have "search tab s sz ?h = probe tab s sz ?h (1 + ?h mod (sz - 2)) ?h"
        using u ge no n2 matches_iff [OF ok True, of s] by (auto simp: search_def)
      then show ?thesis using probe_correct [OF ok refl refl, of 0 ?h s] p(2) s0 True no by simp
    qed
  qed
qed

section \<open>The table as a map\<close>

lemma map_eqI: "(\<And>x y. f x = Some y \<longleftrightarrow> g x = Some y) \<Longrightarrow> f = g"
  by (rule ext) (metis option.exhaust)

definition htab_index :: "'d htab_table \<Rightarrow> cstr0 \<Rightarrow> nat option" where
  "htab_index h s =
     (case htable h of
        None \<Rightarrow> None
      | Some tab \<Rightarrow> find (\<lambda>i. used (tab ! i) \<noteq> 0 \<and> hstr (tab ! i) = Some s) [0..<length tab])"

definition htab_ok :: "'d htab_table \<Rightarrow> bool" where
  "htab_ok h \<longleftrightarrow> (\<exists>tab. htable h = Some tab \<and> tab_ok (hsize h) tab \<and> unat (hfilled h) = card (occupied tab))"

lemma htab_index_Some:
  assumes "htable h = Some tab" "tab_ok (hsize h) tab"
  shows "htab_index h s = Some i \<longleftrightarrow> holds tab i s"
proof
  assume "htab_index h s = Some i"
  then show "holds tab i s" using assms(1) by (auto simp: htab_index_def find_Some_iff holds_def occupied_def)
next
  assume i: "holds tab i s"
  then have i': "i < length tab" "used (tab ! i) \<noteq> 0 \<and> hstr (tab ! i) = Some s" by (auto simp: holds_def occupied_def)
  have no: "\<not> (used (tab ! j) \<noteq> 0 \<and> hstr (tab ! j) = Some s)" if "j < i" for j
  proof
    assume "used (tab ! j) \<noteq> 0 \<and> hstr (tab ! j) = Some s"
    then have "holds tab j s" using that i'(1) by (simp add: holds_def occupied_def)
    then show False using assms(2) i that unfolding tab_ok_def by blast
  qed
  have "find (\<lambda>i. used (tab ! i) \<noteq> 0 \<and> hstr (tab ! i) = Some s) [0..<length tab] = Some i"
    unfolding find_Some_iff using i' no by (intro exI [of _ i]) simp
  then show "htab_index h s = Some i" using assms(1) by (simp add: htab_index_def)
qed

lemma htab_index_None:
  assumes "htable h = Some tab" "tab_ok (hsize h) tab"
  shows "htab_index h s = None \<longleftrightarrow> (\<forall>i. \<not> holds tab i s)"
  using htab_index_Some [OF assms, of s] by (cases "htab_index h s") auto

lemma htab_index_nonzero:
  assumes "htab_ok h" "htab_index h s = Some i"
  shows "i \<noteq> 0" "i \<le> unat (hsize h)"
proof -
  obtain tab where t: "htable h = Some tab" "tab_ok (hsize h) tab" using assms(1) by (auto simp: htab_ok_def)
  then have "i \<in> {1..unat (hsize h)}"
    using assms(2) htab_index_Some [OF t, of s i] occupied_range [OF t(2)] by (auto simp: holds_def)
  then show "i \<noteq> 0" "i \<le> unat (hsize h)" by auto
qed

lemma finite_occupied [simp]: "finite (occupied tab)"
  by (simp add: occupied_def)

lemma htab_hash_unfold:
  assumes "htable h = Some tab" "tab_ok (hsize h) tab"
  shows "htab_hash malloc (Some s) (Some h) = do {
      (idx, hit) \<leftarrow> search tab s (hsize h) (first_hash s (hsize h));
      if hit then Some (idx, Some h)
      else do {(r, h') \<leftarrow> store_new malloc s (first_hash s (hsize h)) idx tab h; Some (r, Some h')}}"
proof -
  have "hsize h \<noteq> 0" using assms(2) by (auto simp: tab_ok_def)
  then show ?thesis using assms(1) by (simp add: htab_hash_def Let_def)
qed

lemma htab_hash_hit:
  assumes ok: "htab_ok h" and i: "htab_index h s = Some i"
  shows "htab_hash malloc (Some s) (Some h) = Some (word_of_nat i, Some h)"
proof -
  obtain tab where t: "htable h = Some tab" "tab_ok (hsize h) tab" using ok by (auto simp: htab_ok_def)
  have h: "holds tab i s" using i htab_index_Some [OF t] by simp
  obtain r hit where r: "search tab s (hsize h) (first_hash s (hsize h)) = Some (r, hit)" "ends (hsize h) tab s r hit"
    using search_correct [OF t(2), of s] by auto
  then have hit: "hit" using h unfolding ends_def by (metis (full_types))
  then have "unat r = i" using r(2) h t(2) unfolding ends_def tab_ok_def by meson
  then have "r = word_of_nat i" by auto
  then show ?thesis using r(1) hit htab_hash_unfold [OF t] by simp
qed


text \<open>Filling a free slot on the way of a new string keeps the table in order.\<close>

lemma tab_ok_fill:
  assumes ok: "tab_ok sz tab" and new: "\<forall>i. \<not> holds tab i s" and i: "i \<notin> occupied tab"
    and k: "placed sz (occupied tab) i s"
    and e: "used e = first_hash s sz" "hstr e = Some s"
  shows "tab_ok sz (tab[i := e])" "occupied (tab[i := e]) = insert i (occupied tab)"
    "\<And>j t. holds (tab[i := e]) j t \<longleftrightarrow> (if t = s then j = i else holds tab j t)"
proof -
  let ?n = "unat sz"
  have n: "3 < ?n" "length tab = ?n + 1" using ok by (auto simp: tab_ok_def)
  have b: "1 \<le> i" "i < length tab" using placed_bounds [OF k n(1)] n(2) by auto
  have nz: "first_hash s sz \<noteq> 0" using home_bounds [of sz s] n(1) by auto
  show occ: "occupied (tab[i := e]) = insert i (occupied tab)"
    using b nz e(1) by (auto simp: occupied_def nth_list_update)
  show hold: "holds (tab[i := e]) j t \<longleftrightarrow> (if t = s then j = i else holds tab j t)" for j t
    using occ b(2) e(2) new i by (auto simp: holds_def nth_list_update)
  have each: "entry_ok sz (insert i (occupied tab)) j (tab[i := e] ! j)" if j: "j \<in> insert i (occupied tab)" for j
  proof (cases "j = i")
    case True
    have "entry_ok sz (occupied tab) i e" using k e by (auto simp: entry_ok_def)
    then show ?thesis using True b(2) entry_ok_mono [of sz "occupied tab" i e] by auto
  next
    case False
    then have "entry_ok sz (occupied tab) j (tab ! j)" using j ok by (simp add: tab_ok_def)
    then show ?thesis using False entry_ok_mono [of sz "occupied tab" j "tab ! j"] by auto
  qed
  have uniq: "a = b" if "holds (tab[i := e]) a t" "holds (tab[i := e]) b t" for a b t
    using that ok unfolding hold tab_ok_def by (auto split: if_splits)
  have "used (tab[i := e] ! 0) = 0" using ok b(1) by (simp add: tab_ok_def)
  then show "tab_ok sz (tab[i := e])" using ok each uniq unfolding tab_ok_def occ by auto
qed

lemma htab_hash_new:
  assumes ok: "htab_ok h" and none: "htab_index h s = None" and f: "hfilled h \<noteq> hsize h" and m: "malloc (length s + 1)"
  shows "\<exists>idx h'. htab_hash malloc (Some s) (Some h) = Some (idx, Some h') \<and> idx \<noteq> 0 \<and> htab_ok h' \<and>
    hsize h' = hsize h \<and> unat (hfilled h') = unat (hfilled h) + 1 \<and> htab_index h' = (htab_index h)(s \<mapsto> unat idx)"
proof -
  obtain tab where t: "htable h = Some tab" "tab_ok (hsize h) tab" "unat (hfilled h) = card (occupied tab)"
    using ok by (auto simp: htab_ok_def)
  let ?sz = "hsize h" let ?n = "unat ?sz" and ?hv = "first_hash s (hsize h)"
  have n: "3 < ?n" "length tab = ?n + 1" using t(2) by (auto simp: tab_ok_def)
  have "card (occupied tab) \<le> ?n" using card_mono [OF _ occupied_range [OF t(2)]] by simp
  then have lt: "card (occupied tab) < ?n" using t(3) f by (metis le_neq_implies_less word_unat_eq_iff)
  obtain r hit where r: "search tab s ?sz ?hv = Some (r, hit)" "ends ?sz tab s r hit" using search_correct [OF t(2), of s] by auto
  have new: "\<forall>i. \<not> holds tab i s" using none htab_index_None [OF t(1,2)] by simp
  then have nh: "\<not> hit" using r(2) unfolding ends_def by (metis (full_types))
  have "occupied tab \<noteq> {1..?n}" using lt by auto
  then have k: "unat r \<notin> occupied tab" "placed ?sz (occupied tab) (unat r) s" using r(2) nh by (auto simp: ends_def)
  define e where "e = (tab ! unat r)\<lparr> used := ?hv, hstr := Some s \<rparr>"
  note fill = tab_ok_fill [OF t(2) new k, of e]
  have rb: "unat r < length tab" "r \<noteq> 0" using placed_bounds [OF k(2) n(1)] n(2) by auto
  define h' where "h' = h\<lparr> htable := Some (tab[unat r := e]), hfilled := hfilled h + 1 \<rparr>"
  have "store_new malloc s ?hv r tab h = Some (r, h')"
    using m rb(1) lt t(3) by (simp add: store_new_def aget_Some aset_Some word_less_nat_alt e_def h'_def Let_def)
  then have run: "htab_hash malloc (Some s) (Some h) = Some (r, Some h')" using r(1) nh htab_hash_unfold [OF t(1,2)] by simp
  have cnt: "unat (hfilled h') = unat (hfilled h) + 1"
    using lt t(3) unsigned_less [where 'a = nat, of ?sz] by (simp add: h'_def unat_word_ariths)
  have t': "htable h' = Some (tab[unat r := e])" "tab_ok (hsize h') (tab[unat r := e])" "hsize h' = ?sz"
    using fill(1) by (simp_all add: h'_def e_def)
  have "card (occupied (tab[unat r := e])) = unat (hfilled h) + 1" using fill(2) k(1) t(3) by (simp add: e_def)
  then have ok': "htab_ok h'" using t' cnt by (auto simp: htab_ok_def)
  have "htab_index h' x = Some i \<longleftrightarrow> ((htab_index h)(s \<mapsto> unat r)) x = Some i" for x i
    unfolding htab_index_Some [OF t'(1,2)] using fill(3) [of i x] htab_index_Some [OF t(1,2), of x i] by (auto simp: e_def)
  then have "htab_index h' = (htab_index h)(s \<mapsto> unat r)" by (rule map_eqI)
  then show ?thesis using run rb(2) ok' t'(3) cnt by blast
qed

section \<open>Numbering keys\<close>

text \<open>
  The contract its clients rely on: a store that gives every key a number of its own, which
  never changes, until there is no room left.
\<close>

fun number_all :: "('k \<Rightarrow> 's \<Rightarrow> nat \<times> 's) \<Rightarrow> 'k list \<Rightarrow> 's \<Rightarrow> nat list \<times> 's" where
  "number_all intern [] st = ([], st)"
| "number_all intern (k # ks) st =
     (let (i, st) = intern k st; (is, st) = number_all intern ks st in (i # is, st))"

locale interner =
  fixes ok :: "'s \<Rightarrow> bool" and index :: "'s \<Rightarrow> 'k \<Rightarrow> nat option" and room :: "'s \<Rightarrow> nat"
    and intern :: "'k \<Rightarrow> 's \<Rightarrow> nat \<times> 's"
  assumes hit: "ok st \<Longrightarrow> index st k = Some i \<Longrightarrow> intern k st = (i, st)"
    and new: "ok st \<Longrightarrow> index st k = None \<Longrightarrow> 0 < room st \<Longrightarrow>
      \<exists>i st'. intern k st = (i, st') \<and> ok st' \<and> room st = room st' + 1 \<and> index st' = (index st)(k \<mapsto> i)"
    and inj: "ok st \<Longrightarrow> index st k = Some i \<Longrightarrow> index st k' = Some i \<Longrightarrow> k = k'"
    and positive: "ok st \<Longrightarrow> index st k = Some i \<Longrightarrow> i \<noteq> 0"
begin

lemma intern_step:
  assumes "ok st" "n < room st"
  shows "\<exists>i st'. intern k st = (i, st') \<and> ok st' \<and> n \<le> room st' \<and> index st \<subseteq>\<^sub>m index st' \<and> index st' k = Some i"
proof (cases "index st k")
  case None
  then show ?thesis using new [OF assms(1) None] assms(2) by (fastforce simp: map_le_def)
next
  case (Some i)
  then show ?thesis using hit [OF assms(1) Some] assms by auto
qed

lemma number_all_index:
  assumes "ok st" "length ks \<le> room st"
  shows "\<exists>is st'. number_all intern ks st = (is, st') \<and> ok st' \<and> index st \<subseteq>\<^sub>m index st' \<and> map (index st') ks = map Some is"
  using assms
proof (induction ks arbitrary: st)
  case (Cons k ks)
  obtain i st1 where 1: "intern k st = (i, st1)" "ok st1" "length ks \<le> room st1" "index st \<subseteq>\<^sub>m index st1" "index st1 k = Some i"
    using intern_step [OF Cons.prems(1), of "length ks" k] Cons.prems(2) by auto
  obtain "is" st2 where 2: "number_all intern ks st1 = (is, st2)" "ok st2" "index st1 \<subseteq>\<^sub>m index st2" "map (index st2) ks = map Some is"
    using Cons.IH [OF 1(2,3)] by blast
  have "index st2 k = Some i" using 1(5) 2(3) by (auto simp: map_le_def dom_def)
  then show ?case using 1(1,4) 2 map_le_trans by auto
qed auto

lemma number_all_distinguishes:
  assumes "ok st" "length ks \<le> room st" "number_all intern ks st = (is, st')"
  shows "length is = length ks" "0 \<notin> set is"
    "\<And>a b. a < length ks \<Longrightarrow> b < length ks \<Longrightarrow> is ! a = is ! b \<longleftrightarrow> ks ! a = ks ! b"
proof -
  have ok: "ok st'" and ix: "map (index st') ks = map Some is" using number_all_index [OF assms(1,2)] assms(3) by auto
  show len: "length is = length ks" using ix by (metis length_map)
  have nth: "index st' (ks ! a) = Some (is ! a)" if "a < length ks" for a
    using ix that len by (metis nth_map)
  show "0 \<notin> set is" using positive [OF ok nth] len by (auto simp: in_set_conv_nth)
  show "is ! a = is ! b \<longleftrightarrow> ks ! a = ks ! b" if "a < length ks" "b < length ks" for a b
    using nth [OF that(1)] nth [OF that(2)] inj [OF ok] by (metis option.inject)
qed

end

text \<open>\<open>htab_hash\<close> when memory does not run out, as such a store.\<close>

definition htab_intern :: "cstr0 \<Rightarrow> 'd htab_table \<Rightarrow> nat \<times> 'd htab_table" where
  "htab_intern s h =
     (case htab_hash (\<lambda>_. True) (Some s) (Some h) of Some (idx, Some h') \<Rightarrow> (unat idx, h') | _ \<Rightarrow> (0, h))"

lemma unat_index:
  assumes "htab_ok h" "htab_index h s = Some i"
  shows "unat (word_of_nat i :: u32) = i"
  using htab_index_nonzero(2) [OF assms] unsigned_less [where 'a = nat, of "hsize h"] by (simp add: unat_of_nat)

interpretation htab: interner htab_ok htab_index "\<lambda>h. unat (hsize h) - unat (hfilled h)" htab_intern
proof unfold_locales
  fix st :: "'d htab_table" and k k' i
  assume ok: "htab_ok st"
  show "htab_intern k st = (i, st)" if "htab_index st k = Some i"
    using htab_hash_hit [OF ok that] unat_index [OF ok that] by (simp add: htab_intern_def)
  show "\<exists>i st'. htab_intern k st = (i, st') \<and> htab_ok st' \<and>
      unat (hsize st) - unat (hfilled st) = unat (hsize st') - unat (hfilled st') + 1 \<and> htab_index st' = (htab_index st)(k \<mapsto> i)"
    if new: "htab_index st k = None" and room: "0 < unat (hsize st) - unat (hfilled st)"
  proof -
    have ne: "hfilled st \<noteq> hsize st" using room by auto
    obtain idx h' where h': "htab_hash (\<lambda>_. True) (Some k) (Some st) = Some (idx, Some h')" "htab_ok h'" "hsize h' = hsize st"
      "unat (hfilled h') = unat (hfilled st) + 1" "htab_index h' = (htab_index st)(k \<mapsto> unat idx)"
      using htab_hash_new [OF ok new ne, of "\<lambda>_. True"] by blast
    then show ?thesis using room by (intro exI [of _ "unat idx"] exI [of _ h']) (simp add: htab_intern_def)
  qed
  show "k = k'" if "htab_index st k = Some i" "htab_index st k' = Some i"
  proof -
    obtain tab where t: "htable st = Some tab" "tab_ok (hsize st) tab" using ok by (auto simp: htab_ok_def)
    then show ?thesis using that unfolding htab_index_Some [OF t] by (simp add: holds_def)
  qed
  show "i \<noteq> 0" if "htab_index st k = Some i" using htab_index_nonzero(1) [OF ok that] .
qed

section \<open>Properties\<close>

lemma htab_create_ok:
  assumes "3 < unat nel" "unat nel \<le> 65521" and "\<And>n. calloc n"
  shows "\<exists>h :: 'd htab_table. htab_create calloc nel (Some HTAB_EMPTY) = Some (True, Some h) \<and> htab_ok h \<and> htab_index h = Map.empty \<and>
    hfilled h = 0 \<and> prime_size (unat (hsize h)) \<and> unat nel \<le> unat (hsize h) \<and>
    (\<forall>q. prime_size q \<longrightarrow> unat nel \<le> q \<longrightarrow> unat (hsize h) \<le> q)"
proof -
  have o: "unat (nel OR 1) = (if even (unat nel) then unat nel + 1 else unat nel)"
  proof -
    have "unat (nel OR 1) = unat nel OR 1" by (simp add: unsigned_or_eq)
    also have "\<dots> = (if even (unat nel) then unat nel + 1 else unat nel)" by (simp add: or_Suc_0_eq)
    finally show ?thesis .
  qed
  have "unat nel \<noteq> 65521 \<Longrightarrow> unat (nel OR 1) \<le> 65521" using o assms(2) by simp
  then have "odd (unat (nel OR 1))" "3 < unat (nel OR 1)" "unat (nel OR 1) \<le> 65521" using o assms(1,2) by auto
  then obtain p where p: "next_prime (nel OR 1) = Some p" "prime_size (unat p)" "unat (nel OR 1) \<le> unat p" "unat p \<le> 65521"
      "\<forall>q. prime_size q \<longrightarrow> unat (nel OR 1) \<le> q \<longrightarrow> unat p \<le> q"
    using next_prime_correct by blast
  have up: "unat (p + 1) = unat p + 1" using p(4) by (simp add: unat_word_ariths)
  define h :: "'d htab_table" where "h = \<lparr> htable = Some (replicate (unat p + 1) free_entry), hsize = p, hfilled = 0 \<rparr>"
  have c: "htab_create calloc nel (Some HTAB_EMPTY) = Some (True, Some h)"
    using p(1) assms(3) by (simp add: htab_create_def HTAB_EMPTY_def h_def up Let_def)
  have none: "occupied (replicate n free_entry) = {}" for n by (auto simp: occupied_def free_entry_def)
  have big: "3 < unat p" using p(3) o assms(1) by (auto split: if_splits)
  have t: "htable h = Some (replicate (unat p + 1) free_entry)" "tab_ok (hsize h) (replicate (unat p + 1) free_entry)"
    using p(2) big none by (auto simp: h_def tab_ok_def holds_def free_entry_def simp del: replicate_Suc)
  have ok: "htab_ok h" using t none by (auto simp: htab_ok_def h_def simp del: replicate_Suc)
  have "htab_index h = Map.empty" using htab_index_None [OF t] none by (auto simp: holds_def simp del: replicate_Suc)
  moreover have "unat p \<le> q" if q: "prime_size q" "unat nel \<le> q" for q
  proof -
    have "odd q"
    proof
      assume "2 dvd q"
      then have "2 = q" using q(1) unfolding prime_size_def by fastforce
      then show False using q(2) assms(1) by simp
    qed
    then have "even (unat nel) \<Longrightarrow> unat nel < q" using q(2) by (metis le_neq_implies_less)
    then have "unat (nel OR 1) \<le> q" using o q(2) by (simp add: Suc_le_eq)
    then show ?thesis using p(5) q(1) by blast
  qed
  ultimately show ?thesis using c ok p(2,3) o by (intro exI [of _ h]) (auto simp: h_def split: if_splits)
qed

text \<open>
  The size of a new table. For a requested size from 4 to 65521, \<open>htab_create\<close> gives an
  empty table in order whose number of slots is the smallest prime that is not below it.
\<close>

theorem htab_create_prime:
  assumes "3 < unat nel" "unat nel \<le> 65521"
  shows "\<exists>h. htab_create (\<lambda>_. True) nel (Some HTAB_EMPTY) = Some (True, Some h) \<and> htab_ok h \<and> htab_index h = Map.empty \<and>
    prime_size (unat (hsize h)) \<and> unat nel \<le> unat (hsize h) \<and>
    (\<forall>q. prime_size q \<longrightarrow> unat nel \<le> q \<longrightarrow> unat (hsize h) \<le> q)"
  using htab_create_ok [OF assms, of "\<lambda>_. True"] by auto

theorem htab_create_prime_witness:
  "\<exists>h. htab_create (\<lambda>_. True) 1031 (Some HTAB_EMPTY) = Some (True, Some h) \<and> htab_ok h"
  using htab_create_prime [of 1031] by auto



text \<open>
  Numbering strings. A table created for \<open>nel\<close> entries gives any \<open>nel\<close> strings
  numbers other than 0, and two strings have the same number exactly when they are equal:
  what the localization and the device list use the table for.
\<close>

theorem htab_numbering:
  assumes "3 < unat nel" "unat nel \<le> 65521" "length ss \<le> unat nel"
  shows "\<exists>h is h'. htab_create (\<lambda>_. True) nel (Some HTAB_EMPTY) = Some (True, Some h) \<and>
    number_all htab_intern ss h = (is, h') \<and> length is = length ss \<and> 0 \<notin> set is \<and>
    (\<forall>a b. a < length ss \<and> b < length ss \<longrightarrow> (is ! a = is ! b \<longleftrightarrow> ss ! a = ss ! b))"
proof -
  obtain h :: "'a htab_table" where h: "htab_create (\<lambda>_. True) nel (Some HTAB_EMPTY) = Some (True, Some h)" "htab_ok h"
    "hfilled h = 0" "unat nel \<le> unat (hsize h)"
    using htab_create_ok [OF assms(1,2), of "\<lambda>_. True"] by auto
  then have room: "length ss \<le> unat (hsize h) - unat (hfilled h)" using assms(3) by simp
  obtain "is" h' where n: "number_all htab_intern ss h = (is, h')" by fastforce
  show ?thesis using h(1) n htab.number_all_distinguishes [OF h(2) room n] by blast
qed

theorem htab_numbering_witness:
  "\<exists>(h :: nat htab_table) is h'. htab_create (\<lambda>_. True) 5 (Some HTAB_EMPTY) = Some (True, Some h) \<and>
    number_all htab_intern [[97], [98], [97]] h = (is, h') \<and> 0 \<notin> set is \<and> is ! 0 = is ! 2 \<and> is ! 0 \<noteq> is ! 1"
proof -
  define ss :: "cstr0 list" where "ss = [[97], [98], [97]]"
  have len: "3 < unat (5 :: u32)" "unat (5 :: u32) \<le> 65521" "length ss \<le> unat (5 :: u32)" by (simp_all add: ss_def)
  obtain h :: "nat htab_table" and "is" h' where *: "htab_create (\<lambda>_. True) 5 (Some HTAB_EMPTY) = Some (True, Some h)"
    "number_all htab_intern ss h = (is, h')" "0 \<notin> set is"
    "\<forall>a b. a < length ss \<and> b < length ss \<longrightarrow> (is ! a = is ! b \<longleftrightarrow> ss ! a = ss ! b)"
    using htab_numbering [OF len] by blast
  have "is ! 0 = is ! 2" "is ! 0 \<noteq> is ! 1" using *(4) by (simp_all add: ss_def)
  then show ?thesis using *(1-3) unfolding ss_def by blast
qed

text \<open>
  Small sizes. The trial division starts at 3 without looking whether that is the number
  itself: 3 is not recognised as a prime, and 1 is.
\<close>

theorem htab_small_sizes:
  "next_prime (0 OR 1) = Some 1 \<and> next_prime (3 OR 1) = Some 5 \<and> isprime 3 = Some False \<and> isprime 1 = Some True"
proof (intro conjI)
  show "next_prime (0 OR 1) = Some 1" by code_simp
  show "next_prime (3 OR 1) = Some 5" by code_simp
  show "isprime 3 = Some False" by code_simp
  show "isprime 1 = Some True" by code_simp
qed

end
