(* ===== verification/Spec2Isabelle.thy ===== *)
theory Spec2Isabelle
  imports Image_Write Format_FAT32 Partition_Layout Bad_Block_Device Revocation ASN1 Cregex_Engine Hash_Table
begin

text \<open>
  A verification library for the core of SecureWipeOut, a derivative of Rufus for Windows, written
  in C under \<open>src/src\<close>. The program wipes, tests and writes USB drives: it zeroes a drive
  (\<open>format.c\<close>), tests it for bad blocks and for a forged capacity (\<open>badblocks.c\<close>), writes images
  to it (\<open>format.c\<close>, \<open>winio.h\<close>), partitions drives (\<open>drive.c\<close>), formats volumes
  (\<open>format_fat32.c\<close>), reads and writes boot sectors (\<open>ms-sys/file.c\<close>), hashes
  files, buffers and UEFI executables and checks the latter for revocation (\<open>hash.c\<close>,
  \<open>parser.c\<close>), matches file names against regular
  expressions (\<open>cregex*.c\<close>) and keeps strings in a hash table (\<open>stdfn.c\<close>).

  \<^bold>\<open>How C is modelled.\<close> A struct is a record, an enumeration a datatype, an array a list, a machine
  integer a word; sizes and offsets are natural numbers, with the wrap-around written out where it
  can happen. A function that can leave its arrays or overflow a signed integer returns
  \<^term>\<open>None\<close> there, so that \<open>f x = Some y\<close> says in particular that no such access happens. Errors
  are values. Calls of Windows and of the C library are arguments: the record \<open>disk_api\<close> has
  \<open>SetFilePointerEx\<close>, \<open>ReadFile\<close> and \<open>WriteFile\<close>, \<open>async_api\<close> the overlapped reads,
  \<open>file_api\<close> the reads of a file; the success of an allocation, \<open>qsort\<close> and the cancellation by the user are
  arguments too. What a theorem needs of them is a named hypothesis, such as \<open>mapped_disk\<close>,
  \<open>honest_disk\<close>, \<open>reliable\<close>, \<open>serves\<close>, \<open>sorts\<close> and \<open>delivers\<close>, each with an instance in the witness.
  Log output, progress display and pauses are left out.

  \<^bold>\<open>Loops.\<close> Every loop is a recursive function. Those with a bound in the code have a measure. The
  others are partial functions on options (\<open>zero_loop\<close>, \<open>image_loop\<close>, \<open>clear_bursts\<close>, \<open>hash_file_loop\<close>, \<open>write_loop\<close>,
  \<open>read_loop\<close>, \<open>parse_loop\<close>, \<open>rsrc_loop\<close>, \<open>vm_add_thread\<close>, \<open>vm_loop\<close>), and the theorems about them state that
  they return. The only fuel is that of \<open>concat_loop\<close>, the height of the parser's stack, of which
  every turn of the loop takes away one node.

  \<^bold>\<open>The theories.\<close>

  \<^item> \<open>Prelude\<close>: checked arrays, slices, integers in memory, and the lemmas that all others share.

  \<^item> \<open>Sector_IO\<close>: \<open>WriteFileWithRetry\<close> (\<open>stdio.c\<close>), \<open>write_sectors\<close>, \<open>read_sectors\<close>,
    \<open>read_data\<close>, \<open>write_data\<close>, \<open>contains_data\<close> (\<open>ms-sys/file.c\<close>). Data written at any position is
    read back and nothing else changes; a write that succeeds within the allowed attempts makes the call
    succeed.

  \<^item> \<open>Wipe_Drive\<close>: \<open>ClearMBRGPT\<close> and the zeroing branch of \<open>WriteDrive\<close>. On a device on which any
    call may fail, zeroing ends, and reported success means that every byte is zero; fast zeroing
    leaves only blocks of zeros and blocks of ones. A read error in fast zeroing is not reported,
    and \<open>ClearMBRGPT\<close> can read behind its buffer.

  \<^item> \<open>Image_Write\<close>: \<open>sector_write\<close>, the asynchronous reads of \<open>winio.h\<close> and the other two branches
    of \<open>WriteDrive\<close>. A buffer under a pending read is out of reach of the program in the
    model. The copy ends, and on success the drive holds the image; a compressed image arrives in whole
    sectors, however the decompressor cuts it.

  \<^item> \<open>Format_FAT32\<close>: the layout of a FAT32 volume, its boot sector, FSInfo and FATs, and
    \<open>FormatLargeFAT32\<close>. The layout is sound for every sector size, volume size and cluster size the code
    admits; what is on the volume afterwards is that layout, and the boot sector describes it.

  \<^item> \<open>Partition_Layout\<close>: \<open>CreatePartition\<close>: the offsets and sizes of the partitions, the entries of
    the table, and the calls that write it. The partitions of a table that was written do not overlap and
    lie inside the drive; with enough room none of the assertions fails.

  \<^item> \<open>Bad_Block_List\<close>: the sorted list of bad blocks with insertion, lookup by bisection and
    iteration; it refines a set of blocks.

  \<^item> \<open>Bad_Block_Test\<close> and \<open>Bad_Block_Device\<close>: \<open>pattern_fill\<close>, \<open>do_read\<close>, \<open>do_write\<close>,
    \<open>test_rw\<close>, \<open>bb_output\<close> and \<open>BadBlocks\<close>; the first has the model and the accounting of errors, the second the
    behaviour on devices: a genuine drive passes, a drive that folds several addresses on
    one cell is detected, and the test ends on every device.

  \<^item> \<open>Hash_Core\<close>, \<open>Hash_MD5\<close>, \<open>Hash_SHA1\<close>, \<open>Hash_SHA2\<close>: the four hash functions in portable C, and
    the digests of RFC 1321 and FIPS 180-4 as the reference. The locale \<open>hash_stream\<close> has the contract of init, write and
    final; it is interpreted on each of the functions.

  \<^item> \<open>X86_Vectors\<close>, \<open>Hash_SHA_NI\<close>: the vector instructions as the processor manual gives them, and
    the accelerated transforms of SHA-1 and SHA-256, statement by statement; they are the compression
    functions of the standard.

  \<^item> \<open>Hash_Buffer\<close>: \<open>HashBuffer\<close>, \<open>HashFile\<close> and \<open>IsBufferInDB\<close> over the table of functions, with either
    choice of transforms.

  \<^item> \<open>PE_Image\<close>: \<open>efi_image_region_add\<close>, \<open>efi_image_parse\<close> and \<open>PE256Buffer\<close>. The regions are
    sorted and disjoint whatever the image holds; on a well-formed image the result is the
    Authenticode digest. A negative header offset is read before the image.

  \<^item> \<open>PE_Access\<close>: \<open>GetPeArch\<close>, \<open>GetPeSection\<close>, \<open>RvaToPhysical\<close>, \<open>FindResourceRva\<close> and
    \<open>GetPeSignatureData\<close> (\<open>parser.c\<close>), \<open>MachineToArch\<close> (\<open>rufus.c\<close>). Sections are found by name and
    addresses translated by the section that contains them; the search in a resource tree ends and
    finds the data below the entry with the name.

  \<^item> \<open>Revocation_Lists\<close>: \<open>GetSbatEntries\<close> and \<open>GetThumbprintEntries\<close> (\<open>parser.c\<close>), which put zeros
    into the text and keep pointers into it. What a client sees in the lists is what the lines of the
    text say, and no access leaves the text or the list.

  \<^item> \<open>Revocation\<close>: the five checks of a boot loader (\<open>IsRevokedByDbx\<close>, \<open>IsRevokedBySbat\<close>,
    \<open>IsRevokedBySvn\<close>, \<open>IsRevokedByCert\<close>, the list of Microsoft) and \<open>IsBootloaderRevoked\<close>, which
    puts them behind the hash of \<open>PE_Image\<close>. The verdict follows the Authenticode digest first;
    the SBAT check is exact on sections without lines of two fields, behind which it skips a line.

  \<^item> \<open>ASN1\<close>: \<open>get_data_from_asn1\<close> with the conversion of object identifiers (\<open>parser.c\<close>). On
    well-formed DER data it is a search in the tree of elements; the conversion stays inside its
    buffer and gives the encoding of X.690.

  \<^item> \<open>Cregex\<close>, \<open>Cregex_Parse\<close>, \<open>Cregex_Compile\<close>, \<open>Cregex_VM\<close>, \<open>Cregex_Match\<close>, \<open>Cregex_Engine\<close>: nodes and
    instructions, the parser, the compiler, the virtual machine, the meaning of expressions as a
    relation on strings, and the three stages together: the engine finds a match exactly when there
    is one.

  \<^item> \<open>Hash_Table\<close>: \<open>htab_create\<close>, \<open>htab_hash\<close> and the prime search. The table refines a map from
    strings to numbers; the locale \<open>interner\<close> has what its clients rely on.

  \<^bold>\<open>Bounds.\<close> Message lengths are below \<open>2 ^ 64\<close> bytes, sector sizes between 512 bytes and a megabyte
  (64 kilobytes for \<open>sector_write\<close>, which checks it), images for \<open>PE256Buffer\<close> between one kilobyte
  and 64 megabytes, as the code demands.

  \<^bold>\<open>Not modelled.\<close> The dialogs and the drawing (\<open>rufus.c\<close>, \<open>ui.c\<close>, \<open>stdlg.c\<close>, \<open>darkmode.c\<close>,
  \<open>icon.c\<close>), and the files that are sequences of Windows calls with little logic of their own
  (\<open>dev.c\<close>, the remainder of \<open>drive.c\<close>, \<open>process.c\<close>, \<open>net.c\<close>, \<open>pki.c\<close>, \<open>vhd.c\<close>, \<open>wue.c\<close>, the remainder of
  \<open>format.c\<close>, \<open>stdio.c\<close>, \<open>stdfn.c\<close> and \<open>parser.c\<close>); the vendored libraries (\<open>bled\<close>, \<open>ext2fs\<close>, \<open>libcdio\<close>,
  \<open>wimlib\<close>, \<open>syslinux\<close>, \<open>getopt\<close>); the boot record images of \<open>ms-sys/inc\<close>, which are data.
\<close>

end
